(* ===== verification/Prelude.thy ===== *)
theory Prelude
  imports Main "HOL-Library.Word" "HOL-Library.Monad_Syntax"
begin

text \<open>
  Shared vocabulary of the development: the machine types of the Rust sources, their
  \<open>as\<close> casts, big-endian byte strings, and the outcome type of fallible code.

  The release profile of \<open>src/Cargo.toml\<close> sets \<open>overflow-checks = true\<close> and
  \<open>debug-assertions = false\<close>. An unsigned sum, difference or product that leaves its type
  therefore aborts the process, while an \<open>as\<close> cast silently keeps the low bits. The model
  follows this: an unsigned integer is a natural number, a cast is written out with
  \<open>as_u32\<close> and its relatives, and an arithmetic step that can leave its type where the
  surrounding code can reach it is an explicit \<open>Panic\<close> outcome. A \<open>debug_assert!\<close> is
  not executed by the modelled build; where it states something the code relies on, it is
  proved as a lemma.
\<close>

named_theorems cast_simps \<open>casts that keep their value\<close>
named_theorems outcome_simps \<open>unfolding of the outcome monad\<close>

type_synonym u8 = nat
type_synonym u16 = nat
type_synonym u32 = nat
type_synonym u64 = nat
type_synonym usize = nat
type_synonym byte = "8 word"
type_synonym bytes = "byte list"

section \<open>Casts\<close>

definition as_u8 :: "nat \<Rightarrow> u8" where
  "as_u8 n = n mod 2 ^ 8"

definition as_u16 :: "nat \<Rightarrow> u16" where
  "as_u16 n = n mod 2 ^ 16"

definition as_u32 :: "nat \<Rightarrow> u32" where
  "as_u32 n = n mod 2 ^ 32"

lemma as_u8_id [cast_simps]: "n < 2 ^ 8 \<Longrightarrow> as_u8 n = n"
  by (simp add: as_u8_def)

lemma as_u16_id [cast_simps]: "n < 2 ^ 16 \<Longrightarrow> as_u16 n = n"
  by (simp add: as_u16_def)

lemma as_u32_id [cast_simps]: "n < 2 ^ 32 \<Longrightarrow> as_u32 n = n"
  by (simp add: as_u32_def)

lemma as_u32_less [simp]: "as_u32 n < 4294967296"
  by (simp add: as_u32_def)

lemma as_u32_0 [simp]: "as_u32 0 = 0"
  by (simp add: as_u32_def)

section \<open>Outcomes\<close>

text \<open>
  Fallible code returns \<open>Ok\<close> or \<open>Err\<close>; an operation whose arithmetic leaves its type, or
  that calls \<open>panic!\<close>, \<open>unwrap\<close> or \<open>expect\<close> on a missing value, ends in \<open>Panic\<close>.
\<close>

datatype ('e, 'a) outcome = Ok 'a | Err 'e | Panic

fun bind_outcome :: "('e, 'a) outcome \<Rightarrow> ('a \<Rightarrow> ('e, 'b) outcome) \<Rightarrow> ('e, 'b) outcome" where
  "bind_outcome (Ok a) f = f a"
| "bind_outcome (Err e) f = Err e"
| "bind_outcome Panic f = Panic"

fun fmap_ok :: "('a \<Rightarrow> 'b) \<Rightarrow> ('e, 'a) outcome \<Rightarrow> ('e, 'b) outcome" where
  "fmap_ok f (Ok a) = Ok (f a)"
| "fmap_ok f (Err e) = Err e"
| "fmap_ok f Panic = Panic"

lemma fmap_ok_eq_Ok [outcome_simps]:
  "fmap_ok f r = Ok b \<longleftrightarrow> (\<exists>a. r = Ok a \<and> b = f a)"
  by (cases r) auto

lemma bind_outcome_eq_Ok [outcome_simps]:
  "bind_outcome r f = Ok b \<longleftrightarrow> (\<exists>a. r = Ok a \<and> f a = Ok b)"
  by (cases r) auto

lemma bind_outcome_eq_Panic [outcome_simps]:
  "bind_outcome r f = Panic \<longleftrightarrow> r = Panic \<or> (\<exists>a. r = Ok a \<and> f a = Panic)"
  by (cases r) auto

text \<open>Checked subtraction on unsigned integers: the aborting \<open>-\<close> of the release build.\<close>

definition sub_or_panic :: "nat \<Rightarrow> nat \<Rightarrow> ('e, nat) outcome" where
  "sub_or_panic a b = (if b \<le> a then Ok (a - b) else Panic)"

lemma sub_or_panic_le [simp]: "b \<le> a \<Longrightarrow> sub_or_panic a b = Ok (a - b)"
  by (simp add: sub_or_panic_def)

text \<open>The library's \<open>checked_sub\<close>.\<close>

definition checked_sub :: "nat \<Rightarrow> nat \<Rightarrow> nat option" where
  "checked_sub a b = (if b \<le> a then Some (a - b) else None)"

section \<open>Rounding to an alignment\<close>

definition align_down :: "nat \<Rightarrow> nat \<Rightarrow> nat" where
  "align_down al n = n div al * al"

definition align_up :: "nat \<Rightarrow> nat \<Rightarrow> nat" where
  "align_up al n = (n + al - 1) div al * al"

lemma align_down_le: "align_down al n \<le> n"
  by (simp add: align_down_def)

lemma align_down_dvd [simp]: "al dvd align_down al n"
  by (simp add: align_down_def)

lemma align_up_dvd [simp]: "al dvd align_up al n"
  by (simp add: align_up_def)

lemma less_div_mult_add: "0 < al \<Longrightarrow> n < n div al * al + (al :: nat)"
  using div_mult_mod_eq [of n al] mod_less_divisor [of al n] by linarith

lemma less_align_down: "0 < al \<Longrightarrow> n < align_down al n + al"
  unfolding align_down_def by (rule less_div_mult_add)

lemma align_up_ge: "0 < al \<Longrightarrow> n \<le> align_up al n"
proof -
  assume al: "0 < al"
  have "n + al - 1 < (n + al - 1) div al * al + al"
    using al by (rule less_div_mult_add)
  then show ?thesis by (simp add: align_up_def)
qed

lemma align_up_less: "0 < al \<Longrightarrow> align_up al n < n + al"
proof -
  assume al: "0 < al"
  have "(n + al - 1) div al * al \<le> n + al - 1"
    by simp
  then show ?thesis using al unfolding align_up_def by linarith
qed

lemma align_up_id: "0 < al \<Longrightarrow> al dvd n \<Longrightarrow> align_up al n = n"
proof -
  assume al: "0 < al" and "al dvd n"
  then obtain k where k: "n = al * k" by (auto elim: dvdE)
  have "(al * k + (al - 1)) div al = k"
    using al by (subst div_mult_self4) simp_all
  with k al show ?thesis by (simp add: align_up_def)
qed

lemma align_down_id: "al dvd n \<Longrightarrow> align_down al n = n"
  by (simp add: align_down_def)

section \<open>Big-endian byte strings\<close>

fun be_bytes :: "nat \<Rightarrow> nat \<Rightarrow> bytes" where
  "be_bytes 0 n = []"
| "be_bytes (Suc k) n = be_bytes k (n div 256) @ [of_nat n]"

definition be_val :: "bytes \<Rightarrow> nat" where
  "be_val bs = foldl (\<lambda>a b. a * 256 + unat b) 0 bs"

lemma length_be_bytes [simp]: "length (be_bytes k n) = k"
  by (induction k arbitrary: n) auto

lemma be_val_Nil [simp]: "be_val [] = 0"
  by (simp add: be_val_def)

lemma be_val_snoc [simp]: "be_val (bs @ [b]) = be_val bs * 256 + unat b"
  by (simp add: be_val_def)

lemma unat_byte_of_nat: "unat (of_nat n :: byte) = n mod 256"
  by (simp add: unat_of_nat)

lemma be_val_be_bytes_mod: "be_val (be_bytes k n) = n mod 256 ^ k"
proof (induction k arbitrary: n)
  case 0
  then show ?case by simp
next
  case (Suc k)
  have "n mod (256 * 256 ^ k) = 256 * (n div 256 mod 256 ^ k) + n mod 256"
    by (rule mod_mult2_eq)
  with Suc show ?case
    by (simp add: unat_byte_of_nat)
qed

lemma be_val_be_bytes: "n < 256 ^ k \<Longrightarrow> be_val (be_bytes k n) = n"
  by (simp add: be_val_be_bytes_mod)

lemma be_val_less: "be_val bs < 256 ^ length bs"
proof (induction bs rule: rev_induct)
  case Nil
  then show ?case by simp
next
  case (snoc b bs)
  have "unat b < 256" using unsigned_less [of b] by simp
  moreover have "be_val bs + 1 \<le> 256 ^ length bs" using snoc by simp
  then have "(be_val bs + 1) * 256 \<le> 256 ^ length bs * 256"
    by (rule mult_le_mono1)
  ultimately show ?case by simp
qed

lemma be_bytes_be_val: "be_bytes (length bs) (be_val bs) = bs"
proof (induction bs rule: rev_induct)
  case Nil
  then show ?case by simp
next
  case (snoc b bs)
  have b: "unat b < 256" using unsigned_less [of b] by simp
  then have "(be_val bs * 256 + unat b) div 256 = be_val bs"
    by simp
  moreover have "of_nat (be_val bs * 256 + unat b) = b"
  proof (rule unsigned_word_eqI)
    show "unat (of_nat (be_val bs * 256 + unat b) :: byte) = unat b"
      using b by (simp only: unat_byte_of_nat) simp
  qed
  ultimately show ?case using snoc by simp
qed

lemma be_bytes_add: "be_bytes (j + k) n = be_bytes j (n div 256 ^ k) @ be_bytes k n"
proof (induction k arbitrary: n)
  case 0
  then show ?case by simp
next
  case (Suc k)
  then show ?case by (simp add: div_mult2_eq mult.commute)
qed

lemma drop_be_bytes: "drop j (be_bytes (j + k) n) = be_bytes k n"
  by (simp add: be_bytes_add)

lemma be_val_append: "be_val (xs @ ys) = be_val xs * 256 ^ length ys + be_val ys"
proof (induction ys rule: rev_induct)
  case (snoc y ys)
  then show ?case
    by (simp del: append_assoc add: append_assoc [symmetric] algebra_simps)
qed simp

lemma be_val_singleton [simp]: "be_val [b] = unat b"
  by (simp add: be_val_def)

section \<open>Lists\<close>

lemma takeWhile_all: "\<forall>x \<in> set xs. P x \<Longrightarrow> takeWhile P xs = xs"
  by (induction xs) auto

lemma sum_list_map_filter_le:
  "sum_list (map f (filter P xs)) \<le> sum_list (map (f :: 'a \<Rightarrow> nat) xs)"
  by (induction xs) auto

end
