(* ===== verification/BTree_Map.thy ===== *)
theory BTree_Map
  imports Prelude
begin

text \<open>
  The ordered maps of the standard library (\<open>BTreeMap\<close>), which the write window, the block
  cache, the stream caches and the object manager keep their state in. A map is its list of
  entries in ascending key order, which is what an iteration over a \<open>BTreeMap\<close> yields. The
  locale \<open>ordered_map\<close> is the contract the clients rely on; \<open>bt\<close> interprets it on the
  entry lists.
\<close>

type_synonym ('k, 'v) btree = "('k \<times> 'v) list"

definition bt_wf :: "('k :: linorder, 'v) btree \<Rightarrow> bool" where
  "bt_wf m \<longleftrightarrow> sorted_wrt (<) (map fst m)"

section \<open>Operations\<close>

definition bt_empty :: "('k, 'v) btree" where
  "bt_empty = []"

definition bt_get :: "'k \<Rightarrow> ('k, 'v) btree \<Rightarrow> 'v option" where
  "bt_get k m = map_of m k"

fun bt_insert :: "'k :: linorder \<Rightarrow> 'v \<Rightarrow> ('k, 'v) btree \<Rightarrow> ('k, 'v) btree" where
  "bt_insert k v [] = [(k, v)]"
| "bt_insert k v ((k', v') # m) =
     (if k < k' then (k, v) # (k', v') # m
      else if k = k' then (k, v) # m
      else (k', v') # bt_insert k v m)"

definition bt_remove :: "'k \<Rightarrow> ('k, 'v) btree \<Rightarrow> ('k, 'v) btree" where
  "bt_remove k m = filter (\<lambda>e. fst e \<noteq> k) m"

definition bt_first :: "('k, 'v) btree \<Rightarrow> ('k \<times> 'v) option" where
  "bt_first m = (case m of [] \<Rightarrow> None | e # _ \<Rightarrow> Some e)"

definition bt_last :: "('k, 'v) btree \<Rightarrow> ('k \<times> 'v) option" where
  "bt_last m = (if m = [] then None else Some (last m))"

text \<open>\<open>range(lo..hi)\<close>: the entries with \<open>lo \<le> key < hi\<close>, in order.\<close>

definition bt_range :: "'k :: linorder \<Rightarrow> 'k \<Rightarrow> ('k, 'v) btree \<Rightarrow> ('k, 'v) btree" where
  "bt_range lo hi m = filter (\<lambda>e. lo \<le> fst e \<and> fst e < hi) m"

text \<open>\<open>upper_bound(Bound::Included(k))\<close>: the last entry whose key is at most \<open>k\<close>.\<close>

definition bt_upper_bound :: "'k :: linorder \<Rightarrow> ('k, 'v) btree \<Rightarrow> ('k \<times> 'v) option" where
  "bt_upper_bound k m = bt_last (filter (\<lambda>e. fst e \<le> k) m)"

section \<open>The contract\<close>

locale ordered_map =
  fixes empty :: "'m"
    and get :: "'k :: linorder \<Rightarrow> 'm \<Rightarrow> 'v option"
    and insert_kv :: "'k \<Rightarrow> 'v \<Rightarrow> 'm \<Rightarrow> 'm"
    and remove_k :: "'k \<Rightarrow> 'm \<Rightarrow> 'm"
    and first :: "'m \<Rightarrow> ('k \<times> 'v) option"
    and inv :: "'m \<Rightarrow> bool"
  assumes get_empty: "get k empty = None"
    and get_insert: "inv m \<Longrightarrow> get k' (insert_kv k v m) = (if k' = k then Some v else get k' m)"
    and get_remove: "inv m \<Longrightarrow> get k' (remove_k k m) = (if k' = k then None else get k' m)"
    and first_None: "inv m \<Longrightarrow> first m = None \<longleftrightarrow> (\<forall>k. get k m = None)"
    and first_Some: "inv m \<Longrightarrow> first m = Some (k, v) \<Longrightarrow>
           get k m = Some v \<and> (\<forall>k'. get k' m \<noteq> None \<longrightarrow> k \<le> k')"
    and inv_empty: "inv empty"
    and inv_insert: "inv m \<Longrightarrow> inv (insert_kv k v m)"
    and inv_remove: "inv m \<Longrightarrow> inv (remove_k k m)"
begin

definition keys :: "'m \<Rightarrow> 'k set" where
  "keys m = {k. get k m \<noteq> None}"

lemma keys_insert: "inv m \<Longrightarrow> keys (insert_kv k v m) = insert k (keys m)"
  by (auto simp: keys_def get_insert)

lemma keys_remove: "inv m \<Longrightarrow> keys (remove_k k m) = keys m - {k}"
  by (auto simp: keys_def get_remove)

lemma first_key_least:
  assumes "inv m" and "first m = Some (k, v)"
  shows "k \<in> keys m" and "k' \<in> keys m \<Longrightarrow> k \<le> k'"
  using first_Some [OF assms] by (auto simp: keys_def)

lemma remove_first_keys:
  assumes "inv m" and "first m = Some (k, v)" and "k' \<in> keys (remove_k k m)"
  shows "k < k'"
  using assms first_key_least(2) [OF assms(1,2), of k']
  by (auto simp: keys_remove)

end

section \<open>The entry lists implement it\<close>

lemma bt_wf_Nil [simp]: "bt_wf []"
  by (simp add: bt_wf_def)

lemma bt_wf_Cons: "bt_wf ((k, v) # m) \<longleftrightarrow> (\<forall>e \<in> set m. k < fst e) \<and> bt_wf m"
  by (auto simp: bt_wf_def)

lemma bt_wf_distinct: "bt_wf m \<Longrightarrow> distinct (map fst m)"
  by (auto simp: bt_wf_def strict_sorted_iff)

lemma bt_wf_filter: "bt_wf m \<Longrightarrow> bt_wf (filter P m)"
  by (induction m) (auto simp: bt_wf_def)

lemma bt_wf_append:
  "bt_wf (xs @ ys) \<longleftrightarrow> bt_wf xs \<and> bt_wf ys \<and> (\<forall>x \<in> set xs. \<forall>y \<in> set ys. fst x < fst y)"
  by (auto simp: bt_wf_def sorted_wrt_append)

lemma set_fst_bt_insert: "fst ` set (bt_insert k v m) = insert k (fst ` set m)"
  by (induction k v m rule: bt_insert.induct) (simp_all add: insert_commute)

lemma bt_wf_insert: "bt_wf m \<Longrightarrow> bt_wf (bt_insert k v m)"
proof (induction m)
  case Nil
  then show ?case by (simp add: bt_wf_def)
next
  case (Cons e m)
  obtain k' v' where e: "e = (k', v')" by (cases e)
  have "\<forall>x \<in> fst ` set (bt_insert k v m). k' < x" if "k' < k"
    using Cons.prems that unfolding set_fst_bt_insert e by (auto simp: bt_wf_Cons)
  then show ?case
    using Cons unfolding e by (auto simp: bt_wf_Cons)
qed

lemma bt_get_insert: "bt_wf m \<Longrightarrow>
  bt_get k' (bt_insert k v m) = (if k' = k then Some v else bt_get k' m)"
  unfolding bt_get_def by (induction m) (auto simp: bt_wf_Cons)

lemma bt_get_remove: "bt_get k' (bt_remove k m) = (if k' = k then None else bt_get k' m)"
  unfolding bt_get_def bt_remove_def by (induction m) auto

lemma bt_get_None_iff: "bt_get k m = None \<longleftrightarrow> k \<notin> fst ` set m"
  unfolding bt_get_def by (rule map_of_eq_None_iff)

lemma bt_get_Some_iff: "bt_wf m \<Longrightarrow> bt_get k m = Some v \<longleftrightarrow> (k, v) \<in> set m"
  unfolding bt_get_def by (rule map_of_eq_Some_iff) (rule bt_wf_distinct)

lemma bt_first_None: "bt_first m = None \<longleftrightarrow> m = []"
  by (simp add: bt_first_def split: list.split)

interpretation bt: ordered_map bt_empty bt_get bt_insert bt_remove bt_first bt_wf
proof
  fix m :: "('a :: linorder, 'b) btree" and k k' :: 'a and v :: 'b
  show "bt_get k (bt_empty :: ('a, 'b) btree) = None"
    by (simp add: bt_get_def bt_empty_def)
  show "bt_wf m \<Longrightarrow> bt_get k' (bt_insert k v m) = (if k' = k then Some v else bt_get k' m)"
    by (rule bt_get_insert)
  show "bt_get k' (bt_remove k m) = (if k' = k then None else bt_get k' m)"
    by (rule bt_get_remove)
  show "(bt_first m = None) = (\<forall>k. bt_get k m = None)"
    by (cases m) (auto simp: bt_first_def bt_get_def)
  show "bt_wf m \<Longrightarrow> bt_first m = Some (k, v) \<Longrightarrow>
      bt_get k m = Some v \<and> (\<forall>k'. bt_get k' m \<noteq> None \<longrightarrow> k \<le> k')"
    by (cases m) (auto simp: bt_first_def bt_get_Some_iff bt_wf_Cons less_imp_le)
  show "bt_wf (bt_empty :: ('a, 'b) btree)"
    by (simp add: bt_empty_def)
  show "bt_wf m \<Longrightarrow> bt_wf (bt_insert k v m)"
    by (rule bt_wf_insert)
  show "bt_wf m \<Longrightarrow> bt_wf (bt_remove k m)"
    by (simp add: bt_remove_def bt_wf_filter)
qed

section \<open>Queries\<close>

lemma bt_last_Some: "bt_last m = Some e \<Longrightarrow> e \<in> set m"
  by (auto simp: bt_last_def split: if_splits)

lemma bt_last_greatest: "bt_wf m \<Longrightarrow> bt_last m = Some e \<Longrightarrow> x \<in> set m \<Longrightarrow> fst x \<le> fst e"
proof -
  assume wf: "bt_wf m" and l: "bt_last m = Some e" and x: "x \<in> set m"
  then obtain ys where m: "m = ys @ [e]"
    by (auto simp: bt_last_def split: if_splits) (metis append_butlast_last_id)
  from x m consider "x = e" | "x \<in> set ys" by auto
  then show ?thesis
    using wf m by cases (auto simp: bt_wf_append less_imp_le)
qed

lemma bt_upper_bound_Some:
  assumes "bt_wf m" and "bt_upper_bound k m = Some e"
  shows "e \<in> set m" and "fst e \<le> k" and "x \<in> set m \<Longrightarrow> fst x \<le> k \<Longrightarrow> fst x \<le> fst e"
proof -
  have "e \<in> set (filter (\<lambda>e. fst e \<le> k) m)"
    using assms(2) unfolding bt_upper_bound_def by (rule bt_last_Some)
  then show "e \<in> set m" and "fst e \<le> k" by auto
  show "x \<in> set m \<Longrightarrow> fst x \<le> k \<Longrightarrow> fst x \<le> fst e"
    using assms bt_last_greatest [of "filter (\<lambda>e. fst e \<le> k) m" e x]
    by (auto simp: bt_upper_bound_def bt_wf_filter)
qed

lemma bt_upper_bound_None:
  "bt_upper_bound k m = None \<longleftrightarrow> (\<forall>e \<in> set m. \<not> fst e \<le> k)"
  by (auto simp: bt_upper_bound_def bt_last_def filter_empty_conv)

end
