(* ===== verification/Write_Window.thy ===== *)
theory Write_Window
  imports BTree_Map
begin

text \<open>
  The window over concurrent direct-IO writes of the log,
  \<open>src/components/store/src/io/write_window.rs\<close>. The kernel completes writes in any order;
  the window turns the completions into one growing offset \<open>committed\<close> below which the whole
  log is durable. The lemmas show that \<open>committed\<close> is at all times the least byte that no
  completed write covers, whatever the completion order.
\<close>

section \<open>Model\<close>

datatype write_window_error = InvalidCommit u64 u32 u32

record write_window =
  committed :: u64
  completed :: "(u64, u32) btree"

definition ww_new :: "u64 \<Rightarrow> write_window" where
  "ww_new c = \<lparr>committed = c, completed = bt_empty\<rparr>"

definition reset_committed :: "write_window \<Rightarrow> u64 \<Rightarrow> write_window" where
  "reset_committed w c = w\<lparr>committed := c\<rparr>"

text \<open>
  The loop of \<open>advance\<close>: look at the first entry, stop at a gap, otherwise pop it and move
  \<open>committed\<close> to its end.
\<close>

fun advance_loop :: "u64 \<Rightarrow> (u64, u32) btree \<Rightarrow> u64 \<times> (u64, u32) btree" where
  "advance_loop c [] = (c, [])"
| "advance_loop c ((off, len) # m) =
     (if c < off then (c, (off, len) # m)
      else advance_loop (max (off + len) c) m)"

definition advance :: "write_window \<Rightarrow> write_window \<times> u64" where
  "advance w =
     (let (c, m) = advance_loop (committed w) (completed w)
      in (w\<lparr>committed := c, completed := m\<rparr>, c))"

definition commit :: "write_window \<Rightarrow> u64 \<Rightarrow> u32 \<Rightarrow> write_window_error + (write_window \<times> u64)" where
  "commit w off len =
     (case bt_get off (completed w) of
        None \<Rightarrow> Inr (advance (w\<lparr>completed := bt_insert off len (completed w)\<rparr>))
      | Some prev \<Rightarrow>
          if len \<ge> prev
          then Inr (advance (w\<lparr>completed := bt_insert off len (completed w)\<rparr>))
          else Inl (InvalidCommit off prev len))"

text \<open>A run of completions, as the completion queue delivers them.\<close>

fun commit_all :: "write_window \<Rightarrow> (u64 \<times> u32) list \<Rightarrow> write_window_error + write_window" where
  "commit_all w [] = Inr w"
| "commit_all w ((off, len) # cs) =
     (case commit w off len of
        Inl e \<Rightarrow> Inl e
      | Inr (w', _) \<Rightarrow> commit_all w' cs)"

section \<open>Abstraction: the bytes known to be durable\<close>

definition span :: "(u64 \<times> u32) set \<Rightarrow> nat set" where
  "span rs = (\<Union>(off, len) \<in> rs. {off ..< off + len})"

definition durable :: "write_window \<Rightarrow> nat set" where
  "durable w = {..< committed w} \<union> span (set (completed w))"

definition ww_inv :: "write_window \<Rightarrow> bool" where
  "ww_inv w \<longleftrightarrow> bt_wf (completed w) \<and> (\<forall>e \<in> set (completed w). committed w < fst e)"

lemma span_empty [simp]: "span {} = {}"
  by (simp add: span_def)

lemma span_insert [simp]: "span (insert (off, len) rs) = {off ..< off + len} \<union> span rs"
  by (simp add: span_def)

lemma span_Un: "span (rs \<union> rs') = span rs \<union> span rs'"
  by (auto simp: span_def)

lemma ww_inv_new [simp]: "ww_inv (ww_new c)"
  by (simp add: ww_inv_def ww_new_def bt_empty_def)

lemma durable_new [simp]: "durable (ww_new c) = {..< c}"
  by (simp add: durable_def ww_new_def bt_empty_def)

section \<open>advance\<close>

lemma advance_loop_durable:
  "advance_loop c m = (c', m') \<Longrightarrow>
     {..< c'} \<union> span (set m') = {..< c} \<union> span (set m)"
proof (induction c m rule: advance_loop.induct)
  case (1 c)
  then show ?case by simp
next
  case (2 c off len m)
  show ?case
  proof (cases "c < off")
    case True
    with 2 show ?thesis by auto
  next
    case False
    with 2 have "{..< c'} \<union> span (set m') = {..< max (off + len) c} \<union> span (set m)"
      by simp
    also have "{..< max (off + len) c} = {..< c} \<union> {off ..< off + len}"
      using False by auto
    finally show ?thesis by auto
  qed
qed

lemma advance_loop_inv:
  "bt_wf m \<Longrightarrow> advance_loop c m = (c', m') \<Longrightarrow>
     bt_wf m' \<and> (\<forall>e \<in> set m'. c' < fst e) \<and> c \<le> c'"
proof (induction c m rule: advance_loop.induct)
  case (2 c off len m)
  show ?case
  proof (cases "c < off")
    case True
    with 2 show ?thesis by (force simp: bt_wf_Cons)
  next
    case False
    with 2 have "bt_wf m' \<and> (\<forall>e \<in> set m'. c' < fst e) \<and> max (off + len) c \<le> c'"
      by (simp add: bt_wf_Cons)
    then show ?thesis by simp
  qed
qed simp

lemma advance_spec:
  assumes "bt_wf (completed w)" and "advance w = (w', c)"
  shows "ww_inv w'" and "durable w' = durable w" and "committed w \<le> committed w'"
    and "c = committed w'"
proof -
  obtain c' m' where loop: "advance_loop (committed w) (completed w) = (c', m')"
    by (cases "advance_loop (committed w) (completed w)")
  with assms(2) have w': "w' = w\<lparr>committed := c', completed := m'\<rparr>" and "c = c'"
    by (auto simp: advance_def)
  then show "c = committed w'" by simp
  show "ww_inv w'" and "committed w \<le> committed w'"
    using advance_loop_inv [OF assms(1) loop] w' by (auto simp: ww_inv_def)
  show "durable w' = durable w"
    using advance_loop_durable [OF loop] w' by (simp add: durable_def)
qed

section \<open>commit\<close>

text \<open>
  A longer completion of the same offset replaces the shorter one: nothing is lost, since the
  new range includes the old.
\<close>

lemma span_bt_insert:
  assumes "bt_wf m" and "\<And>prev. bt_get off m = Some prev \<Longrightarrow> prev \<le> len"
  shows "span (set (bt_insert off len m)) = {off ..< off + len} \<union> span (set m)"
  using assms
proof (induction m)
  case Nil
  then show ?case by simp
next
  case (Cons e m)
  obtain k v where e: "e = (k, v)" by (cases e)
  consider "off < k" | "off = k" | "k < off" by (rule linorder_cases)
  then show ?case
  proof cases
    case 1
    then show ?thesis by (auto simp: e)
  next
    case 2
    then have "v \<le> len" using Cons.prems(2) [of v] by (simp add: e bt_get_def)
    then show ?thesis using 2 by (auto simp: e)
  next
    case 3
    then have "span (set (bt_insert off len m)) = {off ..< off + len} \<union> span (set m)"
      using Cons by (simp add: e bt_wf_Cons bt_get_def)
    then show ?thesis using 3 by (auto simp: e)
  qed
qed

lemma commit_cases:
  assumes "commit w off len = Inr (w', c)"
  obtains "\<And>prev. bt_get off (completed w) = Some prev \<Longrightarrow> prev \<le> len"
    and "advance (w\<lparr>completed := bt_insert off len (completed w)\<rparr>) = (w', c)"
  using assms by (auto simp: commit_def split: option.splits if_splits)

lemma commit_spec:
  assumes inv: "ww_inv w" and ok: "commit w off len = Inr (w', c)"
  shows "ww_inv w'" and "durable w' = durable w \<union> {off ..< off + len}"
    and "committed w \<le> committed w'" and "c = committed w'"
proof -
  let ?w = "w\<lparr>completed := bt_insert off len (completed w)\<rparr>"
  from ok obtain longer: "\<And>prev. bt_get off (completed w) = Some prev \<Longrightarrow> prev \<le> len"
    and adv: "advance ?w = (w', c)"
    by (rule commit_cases) blast
  have wf: "bt_wf (completed w)" using inv by (simp add: ww_inv_def)
  then have wf': "bt_wf (completed ?w)" by (simp add: bt_wf_insert)
  from advance_spec [OF wf' adv]
  show "ww_inv w'" and "committed w \<le> committed w'" and "c = committed w'"
    by auto
  have "durable ?w = durable w \<union> {off ..< off + len}"
    using span_bt_insert [OF wf longer] by (auto simp: durable_def)
  with advance_spec(2) [OF wf' adv] show "durable w' = durable w \<union> {off ..< off + len}"
    by simp
qed

text \<open>With the invariant, \<open>committed\<close> itself is not durable yet: it is the first gap.\<close>

lemma committed_gap: "ww_inv w \<Longrightarrow> committed w \<notin> durable w"
  by (fastforce simp: ww_inv_def durable_def span_def)

lemma committed_least: "ww_inv w \<Longrightarrow> committed w = (LEAST b. b \<notin> durable w)"
proof (rule sym, rule Least_equality)
  assume "ww_inv w"
  then show "committed w \<notin> durable w" by (rule committed_gap)
next
  fix b assume "b \<notin> durable w"
  then show "committed w \<le> b" by (auto simp: durable_def)
qed

lemma commit_all_spec:
  "ww_inv w \<Longrightarrow> commit_all w cs = Inr w' \<Longrightarrow>
     ww_inv w' \<and> durable w' = durable w \<union> span (set cs) \<and> committed w \<le> committed w'"
proof (induction cs arbitrary: w)
  case Nil
  then show ?case by simp
next
  case (Cons r cs)
  obtain off len where r: "r = (off, len)" by (cases r)
  from Cons.prems(2) obtain w1 c where c1: "commit w off len = Inr (w1, c)"
    and rest: "commit_all w1 cs = Inr w'"
    by (auto simp: r split: sum.splits)
  note one = commit_spec [OF Cons.prems(1) c1]
  from Cons.IH [OF one(1) rest] one show ?case
    by (auto simp: r)
qed

section \<open>Properties\<close>

text \<open>
  C20. Starting from a committed offset \<open>c\<close>, after any sequence of accepted completions the
  committed offset is exactly the least log byte that is neither below \<open>c\<close> nor covered by one
  of the completed writes. It depends on the set of completed writes only, so completions may
  arrive in any order, and nothing is acknowledged before all bytes below it are written.
\<close>

theorem committed_is_first_gap:
  assumes "commit_all (ww_new c) cs = Inr w"
  shows "committed w = (LEAST b. b \<notin> {..< c} \<union> span (set cs))"
  using commit_all_spec [OF ww_inv_new assms] committed_least [of w] by simp

theorem committed_is_first_gap_witness:
  "committed (\<lparr>committed = 30, completed = [(40, 8)]\<rparr>) =
     (LEAST b. b \<notin> {..< 0} \<union> span (set [(20, 10), (40, 8), (10, 10), (0, 10)]))"
proof -
  have "commit_all (ww_new 0) [(20, 10), (40, 8), (10, 10), (0, 10)] =
      Inr \<lparr>committed = 30, completed = [(40, 8)]\<rparr>"
    by (simp add: ww_new_def bt_empty_def commit_def bt_get_def advance_def)
  from committed_is_first_gap [OF this] show ?thesis .
qed

text \<open>
  Every branch of \<open>commit\<close> on a reachable window. A completion is refused only when a
  longer completion of the same offset still waits behind a gap; the error carries both
  lengths and the refused bytes were already durable. Every other completion adds exactly its
  bytes, and the offset it returns is the new committed offset: not smaller than before and
  the first byte that is not durable.
\<close>

theorem commit_outcome:
  assumes "ww_inv w"
  shows "case commit w off len of
      Inl (InvalidCommit off' prev len') \<Rightarrow>
        off' = off \<and> len' = len \<and> len < prev \<and> committed w < off \<and>
        bt_get off (completed w) = Some prev \<and> {off ..< off + len} \<subseteq> durable w
    | Inr (w', c) \<Rightarrow>
        ww_inv w' \<and> durable w' = durable w \<union> {off ..< off + len} \<and>
        c = committed w' \<and> committed w \<le> c \<and> c = (LEAST b. b \<notin> durable w')"
proof (cases "commit w off len")
  case (Inl e)
  then obtain prev where p: "bt_get off (completed w) = Some prev" "len < prev"
    and e: "e = InvalidCommit off prev len"
    by (auto simp: commit_def split: option.splits if_splits)
  then have "(off, prev) \<in> set (completed w)"
    using assms by (simp add: ww_inv_def bt_get_Some_iff)
  then have "committed w < off" and "{off ..< off + prev} \<subseteq> durable w"
    using assms by (fastforce simp: ww_inv_def, auto simp: durable_def span_def)
  with p e Inl show ?thesis by force
next
  case (Inr r)
  then obtain w' c where "commit w off len = Inr (w', c)"
    by (cases r) auto
  from commit_spec [OF assms this] this committed_least [of w'] show ?thesis
    by simp
qed

theorem commit_outcome_witness:
  "ww_inv \<lparr>committed = 10, completed = [(20, 8)]\<rparr> \<and>
   (\<exists>w'. commit \<lparr>committed = 10, completed = [(20, 8)]\<rparr> 10 10 = Inr (w', 28) \<and>
         28 = (LEAST b. b \<notin> durable w')) \<and>
   {20 ..< 20 + 4} \<subseteq> durable \<lparr>committed = 10, completed = [(20, 8)]\<rparr>"
proof -
  let ?w = "\<lparr>committed = 10, completed = [(20, 8)]\<rparr>"
  have inv: "ww_inv ?w" by (simp add: ww_inv_def bt_wf_def)
  have "commit ?w 10 10 = Inr (\<lparr>committed = 28, completed = []\<rparr>, 28)"
    by (simp add: commit_def bt_get_def advance_def)
  moreover have "commit ?w 20 4 = Inl (InvalidCommit 20 8 4)"
    by (simp add: commit_def bt_get_def)
  ultimately show ?thesis
    using inv commit_outcome [OF inv, of 10 10] commit_outcome [OF inv, of 20 4] by auto
qed

end
