(* ===== verification/Store_Error.thy ===== *)
theory Store_Error
  imports Prelude
begin

text \<open>
  The error types of the store crate, \<open>src/components/store/src/error/mod.rs\<close>. Strings and
  OS errors that only feed log messages are kept as data of the constructors.
\<close>

datatype store_error =
    Configuration string
  | DiskFull string
  | InvalidPath string
  | InvalidLogSegmentFileName
  | AllocLogSegment
  | WriteWindow
  | OffsetOutOfRange u64
  | NotFound string
  | IO string
  | System int
  | IoUring
  | OpCodeNotSupported u8
  | MemoryAlignment
  | OutOfMemory
  | Internal string
  | DataCorrupted
  | UnsupportedRecordType
  | InsufficientData
  | RocksDB string
  | NotOpened
  | CacheMiss
  | CacheError
  | AcquireLock

datatype fetch_error =
    FetchSubmissionQueue
  | FetchChannelRecv
  | TranslateIndex
  | NoRecord
  | FetchRangeNotFound
  | FetchBadRequest
  | FetchDataCorrupted

datatype append_error =
    SubmissionQueue
  | ChannelRecv
  | AppendSystem int
  | BadRequest
  | Committed
  | Inflight
  | OutOfOrder
  | RangeNotFound
  | RangeSealed
  | AppendInternal

end
