(* ===== verification/Aligned_Buf.thy ===== *)
theory Aligned_Buf
  imports Store_Error
begin

text \<open>
  The direct-IO buffers of the log: \<open>src/components/store/src/io/buf/aligned_buf.rs\<close> and
  \<open>aligned_buf_reader.rs\<close>. A buffer is a block of \<open>capacity\<close> bytes at a WAL offset, of which
  the first \<open>limit\<close> are valid. Buffers are shared behind \<open>Arc\<close> and written through interior
  mutability; an operation here returns the buffer's next state.
\<close>

section \<open>Model\<close>

record aligned_buf =
  ab_wal_offset :: u64
  ab_buf :: bytes
  ab_capacity :: usize
  ab_limit :: usize

text \<open>
  \<open>Layout::from_size_align\<close> fails unless the alignment is a power of two and the size, rounded
  up to it, fits an \<open>isize\<close>; the capacity is already a multiple of the alignment. A zero
  alignment divides by zero first.
\<close>

definition layout_ok :: "usize \<Rightarrow> usize \<Rightarrow> bool" where
  "layout_ok sz al \<longleftrightarrow> (\<exists>k < 64. al = 2 ^ k) \<and> sz < 2 ^ 63"

definition ab_new :: "u64 \<Rightarrow> usize \<Rightarrow> usize \<Rightarrow> (store_error, aligned_buf) outcome" where
  "ab_new off len al =
     (if al = 0 then Panic
      else
        let capacity = align_up al len in
        if layout_ok capacity al
        then Ok \<lparr>ab_wal_offset = off, ab_buf = replicate capacity 0,
                 ab_capacity = capacity, ab_limit = 0\<rparr>
        else Err MemoryAlignment)"

definition ab_covers :: "aligned_buf \<Rightarrow> u64 \<Rightarrow> u32 \<Rightarrow> bool" where
  "ab_covers b off len \<longleftrightarrow>
     ab_wal_offset b \<le> off \<and> off + len \<le> ab_wal_offset b + ab_limit b"

definition ab_covers_partial :: "aligned_buf \<Rightarrow> u64 \<Rightarrow> u32 \<Rightarrow> bool" where
  "ab_covers_partial b off len \<longleftrightarrow>
     ab_wal_offset b < off + len \<and> off < ab_wal_offset b + ab_limit b"

text \<open>
  \<open>write_buf\<close> copies at the limit and advances it; the \<open>cursor\<close> argument only feeds a debug
  assertion.
\<close>

definition write_buf :: "aligned_buf \<Rightarrow> u64 \<Rightarrow> bytes \<Rightarrow> aligned_buf \<times> bool" where
  "write_buf b cursor data =
     (let pos = ab_limit b in
      if pos + length data > ab_capacity b then (b, False)
      else (b\<lparr>ab_buf := take pos (ab_buf b) @ data @ drop (pos + length data) (ab_buf b),
              ab_limit := ab_limit b + length data\<rparr>, True))"

definition ab_write_u32 :: "aligned_buf \<Rightarrow> u64 \<Rightarrow> u32 \<Rightarrow> aligned_buf \<times> bool" where
  "ab_write_u32 b cursor v =
     (if ab_limit b + 4 > ab_capacity b then (b, False)
      else write_buf b cursor (be_bytes 4 v))"

definition ab_write_u64 :: "aligned_buf \<Rightarrow> u64 \<Rightarrow> u64 \<Rightarrow> aligned_buf \<times> bool" where
  "ab_write_u64 b cursor v =
     (if ab_limit b + 8 > ab_capacity b then (b, False)
      else write_buf b cursor (be_bytes 8 v))"

definition ab_read_u32 :: "aligned_buf \<Rightarrow> usize \<Rightarrow> (store_error, u32) outcome" where
  "ab_read_u32 b pos =
     (if pos > ab_limit b then Panic
      else if ab_limit b - pos < 4 then Err InsufficientData
      else Ok (be_val (take 4 (drop pos (ab_buf b)))))"

definition ab_read_u64 :: "aligned_buf \<Rightarrow> usize \<Rightarrow> (store_error, u64) outcome" where
  "ab_read_u64 b pos =
     (if pos + 8 > ab_limit b then Err InsufficientData
      else Ok (be_val (take 8 (drop pos (ab_buf b)))))"

datatype bound = Included usize | Excluded usize | Unbounded

text \<open>\<open>Bytes::slice\<close> panics when the range is not inside the buffer.\<close>

definition ab_slice :: "aligned_buf \<Rightarrow> bound \<Rightarrow> bound \<Rightarrow> (store_error, bytes) outcome" where
  "ab_slice b lo hi =
     (let start = (case lo of Included n \<Rightarrow> n | Excluded n \<Rightarrow> n + 1 | Unbounded \<Rightarrow> 0);
          end = (case hi of Included m \<Rightarrow> m + 1 | Excluded m \<Rightarrow> m | Unbounded \<Rightarrow> ab_limit b)
      in if start \<le> end \<and> end \<le> length (ab_buf b)
         then Ok (take (end - start) (drop start (ab_buf b)))
         else Panic)"

text \<open>
  Writing through \<open>slice_mut(..n)\<close>: \<open>copy_from_slice\<close> (or a read of exactly the slice) replaces
  the first \<open>n\<close> bytes and panics when the lengths differ or the slice is out of the capacity.
\<close>

definition ab_slice_mut_copy :: "aligned_buf \<Rightarrow> usize \<Rightarrow> bytes \<Rightarrow> (store_error, aligned_buf) outcome" where
  "ab_slice_mut_copy b n data =
     (if n \<le> length (ab_buf b) \<and> length data = n
      then Ok (b\<lparr>ab_buf := data @ drop n (ab_buf b)\<rparr>)
      else Panic)"

definition increase_written :: "aligned_buf \<Rightarrow> usize \<Rightarrow> aligned_buf" where
  "increase_written b len = b\<lparr>ab_limit := ab_limit b + len\<rparr>"

text \<open>The limit never passes the capacity (\<open>ab_wf\<close> below), so the difference is exact.\<close>

definition ab_remaining :: "aligned_buf \<Rightarrow> usize" where
  "ab_remaining b = ab_capacity b - ab_limit b"

definition ab_partial :: "aligned_buf \<Rightarrow> bool" where
  "ab_partial b \<longleftrightarrow> ab_limit b > 0 \<and> ab_limit b < ab_capacity b"

definition has_data :: "aligned_buf \<Rightarrow> bool" where
  "has_data b \<longleftrightarrow> ab_limit b > 0"

text \<open>The reader's buffer: the aligned block around \<open>[wal_offset, wal_offset + len)\<close>.\<close>

definition alloc_read_buf :: "u64 \<Rightarrow> usize \<Rightarrow> usize \<Rightarrow> (store_error, aligned_buf) outcome" where
  "alloc_read_buf off len al =
     (if al = 0 then Panic
      else
        let from = align_down al off; to = align_up al (off + len)
        in ab_new from (to - from) al)"

section \<open>Invariant\<close>

definition ab_wf :: "aligned_buf \<Rightarrow> bool" where
  "ab_wf b \<longleftrightarrow> length (ab_buf b) = ab_capacity b \<and> ab_limit b \<le> ab_capacity b"

definition ab_valid :: "aligned_buf \<Rightarrow> bytes" where
  "ab_valid b = take (ab_limit b) (ab_buf b)"

lemma length_ab_valid [simp]: "ab_wf b \<Longrightarrow> length (ab_valid b) = ab_limit b"
  by (simp add: ab_wf_def ab_valid_def)

lemma ab_new_Ok:
  assumes "ab_new off len al = Ok b"
  shows "ab_wf b" and "ab_wal_offset b = off" and "ab_limit b = 0"
    and "ab_capacity b = align_up al len" and "0 < al"
  using assms by (auto simp: ab_new_def ab_wf_def Let_def split: if_splits)

lemma ab_new_succeeds:
  assumes "al = 2 ^ k" and "k < 64" and "align_up al len < 2 ^ 63"
  shows "\<exists>b. ab_new off len al = Ok b"
  using assms by (auto simp: ab_new_def layout_ok_def Let_def)

lemma write_buf_spec:
  assumes "ab_wf b" and "ab_limit b + length data \<le> ab_capacity b"
    and "write_buf b c data = (b', ok)"
  shows "ok" and "ab_wf b'" and "ab_valid b' = ab_valid b @ data"
    and "ab_limit b' = ab_limit b + length data"
    and "ab_capacity b' = ab_capacity b" and "ab_wal_offset b' = ab_wal_offset b"
  using assms by (auto simp: write_buf_def ab_wf_def ab_valid_def Let_def)

lemma write_buf_refused: "ab_limit b + length data > ab_capacity b \<Longrightarrow> write_buf b c data = (b, False)"
  by (simp add: write_buf_def)

lemma ab_slice_all: "ab_wf b \<Longrightarrow> ab_slice b Unbounded Unbounded = Ok (ab_valid b)"
  by (simp add: ab_slice_def ab_wf_def ab_valid_def)

section \<open>Properties\<close>

text \<open>
  A number written into a buffer is read back at the position it was written to, and the
  bytes before it are unchanged. (Both byte orders are big-endian; the value is a \<open>u32\<close>.)
\<close>

theorem write_read_u32:
  assumes "ab_wf b" and "v < 2 ^ 32" and "ab_write_u32 b c v = (b', True)"
  shows "ab_read_u32 b' (ab_limit b) = Ok v \<and>
         ab_valid b' = ab_valid b @ be_bytes 4 v \<and> ab_wf b'"
proof -
  have w: "write_buf b c (be_bytes 4 v) = (b', True)"
    and le: "ab_limit b + 4 \<le> ab_capacity b"
    using assms(3) by (auto simp: ab_write_u32_def split: if_splits)
  note spec = write_buf_spec [OF assms(1) _ w]
  have spec': "ab_wf b'" "ab_valid b' = ab_valid b @ be_bytes 4 v" "ab_limit b' = ab_limit b + 4"
    using spec(2-4) le by simp_all
  have "take 4 (drop (ab_limit b) (ab_buf b')) = be_bytes 4 v"
  proof -
    have "take 4 (drop (ab_limit b) (ab_buf b')) = drop (ab_limit b) (ab_valid b')"
      using spec'(3) by (simp add: ab_valid_def take_drop add.commute)
    also have "\<dots> = be_bytes 4 v"
      using spec'(2) assms(1) by simp
    finally show ?thesis .
  qed
  then show ?thesis
    using spec' assms(2) by (simp add: ab_read_u32_def be_val_be_bytes)
qed

definition sample_buf :: aligned_buf where
  "sample_buf = \<lparr>ab_wal_offset = 512, ab_buf = replicate 8 0, ab_capacity = 8, ab_limit = 2\<rparr>"

theorem write_read_u32_witness:
  "ab_wf sample_buf \<and> ab_read_u32 (fst (ab_write_u32 sample_buf 514 66051)) 2 = Ok 66051"
proof -
  have wf: "ab_wf sample_buf" by (simp add: ab_wf_def sample_buf_def)
  obtain b' where b': "ab_write_u32 sample_buf 514 66051 = (b', True)"
    by (simp add: ab_write_u32_def write_buf_def sample_buf_def)
  from write_read_u32 [OF wf _ b'] wf b' show ?thesis
    by (simp add: sample_buf_def)
qed

text \<open>
  A read buffer is aligned on both sides, covers the requested bytes and wastes less than
  one block on each side.
\<close>

theorem alloc_read_buf_covers:
  assumes "alloc_read_buf off len al = Ok b"
  shows "al dvd ab_wal_offset b \<and> al dvd ab_capacity b \<and>
         ab_wal_offset b \<le> off \<and> off + len \<le> ab_wal_offset b + ab_capacity b \<and>
         off < ab_wal_offset b + al \<and> ab_wal_offset b + ab_capacity b < off + len + al"
proof -
  let ?from = "align_down al off" and ?to = "align_up al (off + len)"
  have al: "0 < al" and new: "ab_new ?from (?to - ?from) al = Ok b"
    using assms by (auto simp: alloc_read_buf_def Let_def split: if_splits)
  have le: "?from \<le> off" "off + len \<le> ?to" "off < ?from + al" "?to < off + len + al"
    using al by (auto simp: align_down_le align_up_ge less_align_down align_up_less)
  have "al dvd ?to - ?from" by (rule dvd_diff_nat) simp_all
  then have "ab_capacity b = ?to - ?from"
    using ab_new_Ok(4) [OF new] al by (simp add: align_up_id)
  then show ?thesis
    using ab_new_Ok(2) [OF new] le \<open>al dvd ?to - ?from\<close> by simp
qed

theorem alloc_read_buf_covers_witness:
  "\<exists>b. alloc_read_buf 5000 300 4096 = Ok b \<and> ab_wal_offset b \<le> 5000 \<and>
       5000 + 300 \<le> ab_wal_offset b + ab_capacity b"
proof -
  have "layout_ok (align_up 4096 4096) 4096"
    unfolding layout_ok_def by (simp add: align_up_def) (rule exI [of _ 12], simp)
  then obtain b where b: "alloc_read_buf 5000 300 4096 = Ok b"
    by (simp add: alloc_read_buf_def ab_new_def align_down_def align_up_def)
  from alloc_read_buf_covers [OF b] b show ?thesis by blast
qed

end
