(* ===== verification/Block_Cache.thy ===== *)
theory Block_Cache
  imports BTree_Map Aligned_Buf
begin

text \<open>
  The block cache of a log segment, \<open>src/components/store/src/io/block_cache.rs\<close>: entries by
  their offset relative to the segment, either loaded (with a buffer) or loading (with the range
  being read), and a list of entries ordered by score, from which eviction picks.

  Entries are shared cells (\<open>Rc<UnsafeCell<Entry>>\<close>) held by the map and by the score list. An
  element of the score list is kept here as its comparison key, the score and the WAL offset:
  the code changes what a score is computed from only between taking the entry out of the list
  and putting it back, and never changes an entry's offset. The cell behind a key is the map's
  entry at that offset. The \<open>skiplist\<close> crate is a parameter; \<open>skiplist_ok\<close> states the
  documented behaviour of the four operations used. \<open>Instant::now()\<close> is an argument, in
  nanoseconds since the epoch.
\<close>

section \<open>Model\<close>

subsection \<open>Entries and ranges\<close>

record entry_range =
  er_wal_offset :: u64
  er_len :: u32

record entry =
  hit :: usize
  last_hit_instant :: u64
  strong_rc :: usize
  loading_range :: "entry_range option"
  e_buf :: "aligned_buf option"

definition entry_new :: "aligned_buf \<Rightarrow> u64 \<Rightarrow> entry" where
  "entry_new buf now = \<lparr>hit = 0, last_hit_instant = now, strong_rc = 0,
                         loading_range = None, e_buf = Some buf\<rparr>"

definition new_loading_entry :: "entry_range \<Rightarrow> u64 \<Rightarrow> entry" where
  "new_loading_entry r now = \<lparr>hit = 0, last_hit_instant = now, strong_rc = 0,
                               loading_range = Some r, e_buf = None\<rparr>"

definition e_covers_partial :: "entry \<Rightarrow> entry_range \<Rightarrow> bool" where
  "e_covers_partial e r =
     (case e_buf e of
        Some b \<Rightarrow> ab_covers_partial b (er_wal_offset r) (er_len r)
      | None \<Rightarrow>
          (case loading_range e of
             Some l \<Rightarrow> er_wal_offset l < er_wal_offset r + er_len r \<and>
                       er_wal_offset r < er_wal_offset l + er_len l
           | None \<Rightarrow> False))"

definition e_len :: "entry \<Rightarrow> u32" where
  "e_len e =
     (case e_buf e of
        Some b \<Rightarrow> as_u32 (ab_limit b)
      | None \<Rightarrow> (case loading_range e of Some l \<Rightarrow> er_len l | None \<Rightarrow> 0))"

definition e_capacity :: "entry \<Rightarrow> u32" where
  "e_capacity e =
     (case e_buf e of
        Some b \<Rightarrow> as_u32 (ab_capacity b)
      | None \<Rightarrow> (case loading_range e of Some l \<Rightarrow> er_len l | None \<Rightarrow> 0))"

definition is_loaded :: "entry \<Rightarrow> bool" where
  "is_loaded e \<longleftrightarrow> e_buf e \<noteq> None"

definition is_strong_referenced :: "entry \<Rightarrow> bool" where
  "is_strong_referenced e \<longleftrightarrow> strong_rc e > 0"

definition e_wal_offset :: "entry \<Rightarrow> u64" where
  "e_wal_offset e =
     (case e_buf e of
        Some b \<Rightarrow> ab_wal_offset b
      | None \<Rightarrow> (case loading_range e of Some l \<Rightarrow> er_wal_offset l | None \<Rightarrow> 0))"

definition e_score :: "entry \<Rightarrow> u64" where
  "e_score e = last_hit_instant e + (hit e * 2 ^ 27) mod 2 ^ 64"

definition er_new :: "u64 \<Rightarrow> u32 \<Rightarrow> usize \<Rightarrow> (store_error, entry_range) outcome" where
  "er_new off len al =
     (if al = 0 then Panic
      else let from = align_down al off; aligned_to = align_up al (off + len)
           in Ok \<lparr>er_wal_offset = from, er_len = as_u32 (aligned_to - from)\<rparr>)"

text \<open>\<open>merge\<close>: the ranges merged so far are kept last first.\<close>

fun merge_loop :: "entry_range list \<Rightarrow> entry_range list \<Rightarrow> entry_range list" where
  "merge_loop merged [] = rev merged"
| "merge_loop [] (r # rs) = merge_loop [r] rs"
| "merge_loop (m # ms) (r # rs) =
     (if er_wal_offset m + er_len m \<ge> er_wal_offset r
      then merge_loop
             (m\<lparr>er_len := as_u32 (max (er_wal_offset r + er_len r - er_wal_offset m) (er_len m))\<rparr> # ms) rs
      else merge_loop (r # m # ms) rs)"

definition merge :: "entry_range list \<Rightarrow> entry_range list" where
  "merge ranges = merge_loop [] (sort_key er_wal_offset ranges)"

subsection \<open>The score list\<close>

datatype cmp_ordering = Less | Equal | Greater

definition cmp_nat :: "nat \<Rightarrow> nat \<Rightarrow> cmp_ordering" where
  "cmp_nat a b = (if a < b then Less else if a = b then Equal else Greater)"

type_synonym score_key = "u64 \<times> u64"

definition score_key :: "entry \<Rightarrow> score_key" where
  "score_key e = (e_score e, e_wal_offset e)"

definition score_cmp :: "score_key \<Rightarrow> score_key \<Rightarrow> cmp_ordering" where
  "score_cmp a b =
     (if snd a = snd b then Equal
      else case cmp_nat (fst a) (fst b) of
             Equal \<Rightarrow> cmp_nat (snd a) (snd b)
           | ord \<Rightarrow> ord)"

record 's skiplist =
  sl_with_comp :: "(score_key \<Rightarrow> score_key \<Rightarrow> cmp_ordering) \<Rightarrow> 's"
  sl_insert :: "score_key \<Rightarrow> 's \<Rightarrow> 's"
  sl_remove :: "score_key \<Rightarrow> 's \<Rightarrow> 's"
  sl_front :: "'s \<Rightarrow> score_key option"

subsection \<open>The cache\<close>

record 's block_cache =
  bc_wal_offset :: u64
  entries :: "(u32, entry) btree"
  score_list :: 's
  cache_size :: u32
  bc_alignment :: usize

definition bc_new :: "'s skiplist \<Rightarrow> usize \<Rightarrow> u64 \<Rightarrow> 's block_cache" where
  "bc_new sl al off = \<lparr>bc_wal_offset = off, entries = bt_empty,
     score_list = sl_with_comp sl score_cmp, cache_size = 0, bc_alignment = al\<rparr>"

text \<open>
  What every replacement and removal does with the entry that leaves the map: out of the score
  list, and out of the accounted size if it was loaded.
\<close>

definition release_entry :: "'s skiplist \<Rightarrow> entry \<Rightarrow> 's block_cache \<Rightarrow> (store_error, 's block_cache) outcome" where
  "release_entry sl pre c =
     (let c' = c\<lparr>score_list := sl_remove sl (score_key pre) (score_list c)\<rparr> in
      if is_loaded pre
      then fmap_ok (\<lambda>n. c'\<lparr>cache_size := n\<rparr>) (sub_or_panic (cache_size c) (e_capacity pre))
      else Ok c')"

definition add_entry :: "'s skiplist \<Rightarrow> 's block_cache \<Rightarrow> aligned_buf \<Rightarrow> u64 \<Rightarrow> (store_error, 's block_cache) outcome" where
  "add_entry sl c buf now =
     (if ab_wal_offset buf < bc_wal_offset c then Panic
      else
        let from = as_u32 (ab_wal_offset buf - bc_wal_offset c);
            new_entry = (case bt_get from (entries c) of
                           Some pre \<Rightarrow> (entry_new buf now)\<lparr>strong_rc := strong_rc pre\<rparr>
                         | None \<Rightarrow> entry_new buf now)
        in bind_outcome
             (case bt_get from (entries c) of
                Some pre \<Rightarrow> release_entry sl pre c
              | None \<Rightarrow> Ok c)
             (\<lambda>c'. if cache_size c' + e_capacity new_entry \<ge> 2 ^ 32 then Panic
                   else Ok (c'\<lparr>cache_size := cache_size c' + e_capacity new_entry,
                               entries := bt_insert from new_entry (entries c'),
                               score_list := sl_insert sl (score_key new_entry) (score_list c')\<rparr>)))"

definition add_loading_entry :: "'s skiplist \<Rightarrow> 's block_cache \<Rightarrow> entry_range \<Rightarrow> u64 \<Rightarrow> (store_error, 's block_cache) outcome" where
  "add_loading_entry sl c r now =
     (if er_wal_offset r < bc_wal_offset c then Panic
      else
        let from = as_u32 (er_wal_offset r - bc_wal_offset c);
            c' = c\<lparr>entries := bt_insert from (new_loading_entry r now) (entries c)\<rparr>
        in (case bt_get from (entries c) of
              Some pre \<Rightarrow> release_entry sl pre c'
            | None \<Rightarrow> Ok c'))"

text \<open>
  The entries a query visits: from the last key at or below its start, and only those that
  overlap it.
\<close>

definition start_key :: "u32 \<Rightarrow> (u32, entry) btree \<Rightarrow> u32" where
  "start_key from m = (case bt_upper_bound from m of Some e \<Rightarrow> fst e | None \<Rightarrow> from)"

definition visited :: "entry_range \<Rightarrow> u32 \<Rightarrow> u32 \<Rightarrow> (u32, entry) btree \<Rightarrow> u32 \<times> entry \<Rightarrow> bool" where
  "visited r from to m ke \<longleftrightarrow>
     start_key from m \<le> fst ke \<and> fst ke < to \<and> e_covers_partial (snd ke) r"

definition adjust_rc :: "int \<Rightarrow> entry \<Rightarrow> (store_error, entry) outcome" where
  "adjust_rc n e =
     (if n > 0 then Ok (e\<lparr>strong_rc := strong_rc e + nat n\<rparr>)
      else fmap_ok (\<lambda>rc. e\<lparr>strong_rc := rc\<rparr>) (sub_or_panic (strong_rc e) (nat (- n))))"

fun adjust_all :: "(u32 \<times> entry \<Rightarrow> bool) \<Rightarrow> int \<Rightarrow> (u32, entry) btree \<Rightarrow> (store_error, (u32, entry) btree) outcome" where
  "adjust_all P n [] = Ok []"
| "adjust_all P n (ke # m) =
     bind_outcome (if P ke then adjust_rc n (snd ke) else Ok (snd ke))
       (\<lambda>e. fmap_ok (\<lambda>m'. (fst ke, e) # m') (adjust_all P n m))"

definition strong_reference_entries :: "'s block_cache \<Rightarrow> entry_range \<Rightarrow> int \<Rightarrow> (store_error, 's block_cache) outcome" where
  "strong_reference_entries c r n =
     (case checked_sub (er_wal_offset r) (bc_wal_offset c) of
        None \<Rightarrow> Ok c
      | Some d \<Rightarrow>
          let from = as_u32 d; to = from + er_len r in
          if to \<ge> 2 ^ 32 then Panic
          else fmap_ok (\<lambda>m. c\<lparr>entries := m\<rparr>)
                 (adjust_all (visited r from to (entries c)) n (entries c)))"

text \<open>The gaps before and between the visited entries, and where the last one ends.\<close>

fun missed_loop :: "u64 \<Rightarrow> u32 \<Rightarrow> (u32, entry) btree \<Rightarrow> (store_error, entry_range list \<times> u32) outcome" where
  "missed_loop base last_end [] = Ok ([], last_end)"
| "missed_loop base last_end ((k, e) # es) =
     (if k + e_len e \<ge> 2 ^ 32 then Panic
      else fmap_ok
             (\<lambda>(ms, l). ((if k > last_end
                          then [\<lparr>er_wal_offset = base + last_end, er_len = k - last_end\<rparr>] else []) @ ms, l))
             (missed_loop base (k + e_len e) es))"

definition touch :: "(u32 \<Rightarrow> u64) \<Rightarrow> u32 \<times> entry \<Rightarrow> u32 \<times> entry" where
  "touch now ke = (fst ke, (snd ke)\<lparr>hit := hit (snd ke) + 1, last_hit_instant := now (fst ke)\<rparr>)"

definition touch_score :: "'s skiplist \<Rightarrow> (u32 \<Rightarrow> u64) \<Rightarrow> u32 \<times> entry \<Rightarrow> 's \<Rightarrow> 's" where
  "touch_score sl now ke s =
     sl_insert sl (score_key (snd (touch now ke))) (sl_remove sl (score_key (snd ke)) s)"

definition try_get_entries :: "'s skiplist \<Rightarrow> 's block_cache \<Rightarrow> entry_range \<Rightarrow> (u32 \<Rightarrow> u64)
    \<Rightarrow> 's block_cache \<times> (entry_range list, aligned_buf list option) outcome" where
  "try_get_entries sl c r now =
     (case checked_sub (er_wal_offset r) (bc_wal_offset c) of
        None \<Rightarrow> (c, Err [r])
      | Some d \<Rightarrow>
          let from = as_u32 d; to = from + er_len r in
          if to \<ge> 2 ^ 32 then (c, Panic)
          else
            let search = filter (visited r from to (entries c)) (entries c) in
            if search = [] then (c, Err [r])
            else (case missed_loop (bc_wal_offset c) from search of
                    Ok (ms, last_end) \<Rightarrow>
                      if last_end < to \<and> as_u32 (bc_alignment c) = 0 then (c, Panic)
                      else
                        let missed = ms @ (if last_end < to \<and> last_end mod as_u32 (bc_alignment c) = 0
                              then [\<lparr>er_wal_offset = bc_wal_offset c + last_end, er_len = to - last_end\<rparr>]
                              else [])
                        in if missed \<noteq> [] then (c, Err missed)
                           else
                             let c' = c\<lparr>entries := map (\<lambda>ke. if visited r from to (entries c) ke
                                                             then touch now ke else ke) (entries c),
                                        score_list := fold (touch_score sl now) search (score_list c)\<rparr>;
                                 bufs = List.map_filter (e_buf \<circ> snd) search
                             in (c', Ok (if length bufs \<noteq> length search then None else Some bufs))
                  | _ \<Rightarrow> (c, Panic)))"

definition front_entry :: "'s skiplist \<Rightarrow> 's block_cache \<Rightarrow> entry option" where
  "front_entry sl c =
     (case sl_front sl (score_list c) of
        None \<Rightarrow> None
      | Some k \<Rightarrow> bt_get (as_u32 (snd k - bc_wal_offset c)) (entries c))"

definition min_score :: "'s skiplist \<Rightarrow> 's block_cache \<Rightarrow> u64" where
  "min_score sl c =
     (case front_entry sl c of
        None \<Rightarrow> 0
      | Some e \<Rightarrow> if \<not> is_strong_referenced e then e_score e else 0)"

definition remove_by :: "'s skiplist \<Rightarrow> 's block_cache \<Rightarrow> u64 \<Rightarrow> (store_error, 's block_cache \<times> entry option) outcome" where
  "remove_by sl c off =
     (case checked_sub off (bc_wal_offset c) of
        None \<Rightarrow> Ok (c, None)
      | Some d \<Rightarrow>
          (case bt_get (as_u32 d) (entries c) of
             None \<Rightarrow> Ok (c, None)
           | Some e \<Rightarrow> fmap_ok (\<lambda>c'. (c', Some e))
                         (release_entry sl e (c\<lparr>entries := bt_remove (as_u32 d) (entries c)\<rparr>))))"

definition remove_by_score :: "'s skiplist \<Rightarrow> 's block_cache \<Rightarrow> (store_error, 's block_cache \<times> entry option) outcome" where
  "remove_by_score sl c =
     (case front_entry sl c of
        None \<Rightarrow> Ok (c, None)
      | Some e \<Rightarrow> if \<not> is_strong_referenced e then remove_by sl c (e_wal_offset e) else Ok (c, None))"

text \<open>\<open>remove\<close>: unlike the other removals it takes the capacity of every entry off the size.\<close>

fun retain_loop :: "'s skiplist \<Rightarrow> (entry \<Rightarrow> bool) \<Rightarrow> (u32, entry) btree \<Rightarrow> 's \<Rightarrow> u32
    \<Rightarrow> (store_error, (u32, entry) btree \<times> 's \<times> u32) outcome" where
  "retain_loop sl pred [] s n = Ok ([], s, n)"
| "retain_loop sl pred ((k, e) # m) s n =
     (if pred e
      then bind_outcome (sub_or_panic n (e_capacity e))
             (retain_loop sl pred m (sl_remove sl (score_key e) s))
      else fmap_ok (\<lambda>(m', s', n'). ((k, e) # m', s', n')) (retain_loop sl pred m s n))"

definition bc_remove :: "'s skiplist \<Rightarrow> 's block_cache \<Rightarrow> (entry \<Rightarrow> bool) \<Rightarrow> (store_error, 's block_cache) outcome" where
  "bc_remove sl c pred =
     fmap_ok (\<lambda>(m, s, n). c\<lparr>entries := m, score_list := s, cache_size := n\<rparr>)
       (retain_loop sl pred (entries c) (score_list c) (cache_size c))"

definition buf_of_last_cache_entry :: "'s block_cache \<Rightarrow> aligned_buf option" where
  "buf_of_last_cache_entry c =
     (case bt_last (entries c) of None \<Rightarrow> None | Some ke \<Rightarrow> e_buf (snd ke))"

definition wal_offset_of_last_cache_entry :: "'s block_cache \<Rightarrow> u64" where
  "wal_offset_of_last_cache_entry c =
     (case bt_last (entries c) of None \<Rightarrow> 0 | Some ke \<Rightarrow> fst ke + bc_wal_offset c)"

section \<open>The score list's contract and the cache invariant\<close>

text \<open>
  The documented behaviour of \<open>OrderedSkipList\<close>, over the set of its elements, for lists that
  hold no two elements the comparison calls equal: \<open>insert\<close> adds an element, \<open>remove\<close> takes
  out an element that is there and leaves the list alone when no element equals the argument,
  and \<open>front\<close> is a least element.
\<close>

definition skiplist_ok :: "'s skiplist \<Rightarrow> ('s \<Rightarrow> score_key set) \<Rightarrow> bool" where
  "skiplist_ok sl items \<longleftrightarrow>
     items (sl_with_comp sl score_cmp) = {} \<and>
     (\<forall>x s. inj_on snd (items s) \<and> snd x \<notin> snd ` items s \<longrightarrow> items (sl_insert sl x s) = insert x (items s)) \<and>
     (\<forall>x s. inj_on snd (items s) \<and> (x \<in> items s \<or> snd x \<notin> snd ` items s) \<longrightarrow> items (sl_remove sl x s) = items s - {x}) \<and>
     (\<forall>s. inj_on snd (items s) \<longrightarrow>
        (case sl_front sl s of None \<Rightarrow> items s = {}
         | Some x \<Rightarrow> x \<in> items s \<and> (\<forall>y \<in> items s. score_cmp x y \<noteq> Greater)))"

lemma skiplist_insert:
  "skiplist_ok sl items \<Longrightarrow> inj_on snd (items s) \<Longrightarrow> snd x \<notin> snd ` items s \<Longrightarrow>
     items (sl_insert sl x s) = insert x (items s)"
  unfolding skiplist_ok_def by blast

lemma skiplist_remove:
  "skiplist_ok sl items \<Longrightarrow> inj_on snd (items s) \<Longrightarrow> x \<in> items s \<or> snd x \<notin> snd ` items s \<Longrightarrow>
     items (sl_remove sl x s) = items s - {x}"
  unfolding skiplist_ok_def by blast

lemma skiplist_front:
  "skiplist_ok sl items \<Longrightarrow> inj_on snd (items s) \<Longrightarrow> sl_front sl s = Some x \<Longrightarrow>
     x \<in> items s \<and> (\<forall>y \<in> items s. score_cmp x y \<noteq> Greater)"
  unfolding skiplist_ok_def by (elim conjE allE [of _ s]) simp

text \<open>
  An entry sits at the key its offset maps to, the score list holds keys of entries of the map,
  among them every loaded one, and the accounted size is the capacity of the loaded entries.
\<close>

definition rel_key :: "u64 \<Rightarrow> entry \<Rightarrow> u32" where
  "rel_key base e = as_u32 (e_wal_offset e - base)"

definition entries_ok :: "u64 \<Rightarrow> (u32, entry) btree \<Rightarrow> bool" where
  "entries_ok base m \<longleftrightarrow> bt_wf m \<and> (\<forall>(k, e) \<in> set m. base \<le> e_wal_offset e \<and> k = rel_key base e)"

definition score_ok :: "(u32, entry) btree \<Rightarrow> score_key set \<Rightarrow> bool" where
  "score_ok m S \<longleftrightarrow> S \<subseteq> (score_key \<circ> snd) ` set m \<and> (\<forall>(k, e) \<in> set m. is_loaded e \<longrightarrow> score_key e \<in> S)"

definition loaded_size :: "(u32, entry) btree \<Rightarrow> nat" where
  "loaded_size m = (\<Sum>(k, e) \<leftarrow> m. if is_loaded e then e_capacity e else 0)"

definition cache_inv :: "('s \<Rightarrow> score_key set) \<Rightarrow> 's block_cache \<Rightarrow> bool" where
  "cache_inv items c \<longleftrightarrow>
     entries_ok (bc_wal_offset c) (entries c) \<and> score_ok (entries c) (items (score_list c)) \<and>
     cache_size c = loaded_size (entries c)"

lemma snd_score_key [simp]: "snd (score_key e) = e_wal_offset e"
  by (simp add: score_key_def)

lemma entries_ok_key:
  "entries_ok base m \<Longrightarrow> (k, e) \<in> set m \<Longrightarrow> base \<le> e_wal_offset e \<and> k = rel_key base e"
  by (auto simp: entries_ok_def)

lemma entries_ok_same:
  assumes "entries_ok base m" "(k, e) \<in> set m" "(k', e') \<in> set m" "rel_key base e = rel_key base e'"
  shows "k = k' \<and> e = e'"
proof -
  have k: "k = k'"
    using entries_ok_key [OF assms(1,2)] entries_ok_key [OF assms(1,3)] assms(4) by simp
  have "bt_wf m" using assms(1) by (simp add: entries_ok_def)
  note get = bt_get_Some_iff [OF this]
  have "bt_get k m = Some e" "bt_get k m = Some e'"
    using assms(2,3) k by (simp_all add: get)
  with k show ?thesis by simp
qed

lemma score_okE:
  assumes "score_ok m S" "x \<in> S"
  obtains k e where "(k, e) \<in> set m" "x = score_key e"
proof -
  from assms obtain ke where "ke \<in> set m" "x = score_key (snd ke)"
    unfolding score_ok_def by auto
  then show thesis using that [of "fst ke" "snd ke"] by simp
qed

lemma score_inj:
  assumes "entries_ok base m" "score_ok m S"
  shows "inj_on snd S"
proof (rule inj_onI)
  fix x y assume "x \<in> S" "y \<in> S" and eq: "snd x = snd y"
  from score_okE [OF assms(2) \<open>x \<in> S\<close>] obtain k e where m: "(k, e) \<in> set m" and x: "x = score_key e" .
  from score_okE [OF assms(2) \<open>y \<in> S\<close>] obtain k' e' where m': "(k', e') \<in> set m" and y: "y = score_key e'" .
  from eq x y have "rel_key base e = rel_key base e'" by (simp add: rel_key_def)
  from entries_ok_same [OF assms(1) m m' this] x y show "x = y" by simp
qed

text \<open>An entry of the map is in the score list under its own key or not at all.\<close>

lemma score_own:
  assumes "entries_ok base m" "score_ok m S" "(k, e) \<in> set m"
  shows "score_key e \<in> S \<or> e_wal_offset e \<notin> snd ` S"
proof -
  have "score_key e \<in> S" if "e_wal_offset e \<in> snd ` S"
  proof -
    from that obtain x where x: "x \<in> S" "e_wal_offset e = snd x" by auto
    from score_okE [OF assms(2) x(1)] obtain k' e' where m: "(k', e') \<in> set m" and e': "x = score_key e'" .
    from x e' have "rel_key base e = rel_key base e'" by (simp add: rel_key_def)
    from entries_ok_same [OF assms(1,3) m this] x e' show ?thesis by simp
  qed
  then show ?thesis by blast
qed

section \<open>Every operation keeps the invariant\<close>

lemma set_bt_insert: "bt_wf m \<Longrightarrow> set (bt_insert k v m) = insert (k, v) {x \<in> set m. fst x \<noteq> k}"
  by (induction k v m rule: bt_insert.induct) (auto simp: bt_wf_Cons)

lemma set_bt_remove: "set (bt_remove k m) = {x \<in> set m. fst x \<noteq> k}"
  by (auto simp: bt_remove_def)

lemma bt_remove_absent: "bt_get k m = None \<Longrightarrow> bt_remove k m = m"
  by (auto simp: bt_remove_def bt_get_None_iff filter_id_conv)

lemma loaded_size_insert:
  "bt_wf m \<Longrightarrow> loaded_size (bt_insert k e m) =
     loaded_size (bt_remove k m) + (if is_loaded e then e_capacity e else 0)"
proof (induction m)
  case (Cons ke m)
  obtain k' e' where ke: "ke = (k', e')" by (cases ke)
  have "bt_remove k m = m" if "k \<le> k'"
    using Cons.prems that ke by (intro bt_remove_absent) (auto simp: bt_get_None_iff bt_wf_Cons)
  with Cons ke show ?case
    by (auto simp: loaded_size_def bt_wf_Cons) (auto simp: bt_remove_def)
qed (simp add: loaded_size_def bt_remove_def)

lemma bt_insert_same: "bt_wf m \<Longrightarrow> (k, e) \<in> set m \<Longrightarrow> bt_insert k e m = m"
  by (induction k e m rule: bt_insert.induct) (auto simp: bt_wf_Cons)

lemma loaded_size_remove:
  "bt_wf m \<Longrightarrow> (k, e) \<in> set m \<Longrightarrow>
     loaded_size m = loaded_size (bt_remove k m) + (if is_loaded e then e_capacity e else 0)"
  using loaded_size_insert [of m k e] by (simp only: bt_insert_same)

lemma entries_ok_remove: "entries_ok base m \<Longrightarrow> entries_ok base (bt_remove k m)"
  unfolding entries_ok_def by (simp add: bt.inv_remove set_bt_remove)

lemma entries_ok_insert:
  "entries_ok base m \<Longrightarrow> base \<le> e_wal_offset e \<Longrightarrow> entries_ok base (bt_insert (rel_key base e) e m)"
  unfolding entries_ok_def by (auto simp: bt_wf_insert set_bt_insert)

lemma score_ok_remove:
  assumes "entries_ok base m" "score_ok m S" "(k, pre) \<in> set m"
  shows "score_ok (bt_remove k m) (S - {score_key pre})"
  unfolding score_ok_def
proof (intro conjI subsetI ballI)
  fix x assume x: "x \<in> S - {score_key pre}"
  then obtain k' e' where e': "(k', e') \<in> set m" "x = score_key e'"
    using assms(2) by (auto elim: score_okE)
  have "k' \<noteq> k"
  proof
    assume "k' = k"
    then have "rel_key base e' = rel_key base pre"
      using entries_ok_key [OF assms(1) e'(1)] entries_ok_key [OF assms(1,3)] by simp
    from entries_ok_same [OF assms(1) e'(1) assms(3) this] e' x show False by simp
  qed
  with e' show "x \<in> (score_key \<circ> snd) ` set (bt_remove k m)"
    by (force simp: set_bt_remove)
next
  fix ke assume mem: "ke \<in> set (bt_remove k m)"
  obtain k' e' where "ke = (k', e')" by (cases ke)
  with mem have ke: "ke = (k', e')" "(k', e') \<in> set m" "k' \<noteq> k"
    by (auto simp: set_bt_remove)
  have "score_key e' \<noteq> score_key pre"
  proof
    assume "score_key e' = score_key pre"
    then have "rel_key base e' = rel_key base pre" by (simp add: rel_key_def score_key_def)
    from entries_ok_same [OF assms(1) ke(2) assms(3) this] ke(3) show False by simp
  qed
  with ke assms(2) show "case ke of (k, e) \<Rightarrow> is_loaded e \<longrightarrow> score_key e \<in> S - {score_key pre}"
    unfolding score_ok_def by auto
qed

lemma score_ok_insert:
  assumes "bt_wf m" "score_ok (bt_remove k m) S"
  shows "score_ok (bt_insert k e m) (insert (score_key e) S)"
    and "\<not> is_loaded e \<Longrightarrow> score_ok (bt_insert k e m) S"
  using assms(2) unfolding score_ok_def
  by (auto simp: set_bt_insert [OF assms(1)] set_bt_remove)

lemma score_ok_fresh:
  assumes "entries_ok base m" "score_ok (bt_remove (rel_key base e) m) S"
  shows "e_wal_offset e \<notin> snd ` S"
proof
  assume "e_wal_offset e \<in> snd ` S"
  then obtain x where x: "x \<in> S" "e_wal_offset e = snd x" by auto
  from score_okE [OF assms(2) x(1)] obtain k' e'
    where m: "(k', e') \<in> set (bt_remove (rel_key base e) m)" and e': "x = score_key e'" .
  then have "k' = rel_key base e'" using assms(1) entries_ok_key by (auto simp: set_bt_remove)
  also have "\<dots> = rel_key base e" using x e' by (simp add: rel_key_def)
  finally show False using m by (simp add: set_bt_remove)
qed

text \<open>Taking an entry out of the map and releasing it; the subtraction cannot underflow.\<close>

lemma release_entry_ok:
  assumes sl: "skiplist_ok sl items" and inv: "cache_inv items c" and pre: "(k, pre) \<in> set (entries c)"
  obtains c' where "release_entry sl pre c = Ok c'"
    and "cache_inv items (c'\<lparr>entries := bt_remove k (entries c)\<rparr>)" and "entries c' = entries c"
    and "bc_wal_offset c' = bc_wal_offset c"
proof -
  from inv have ok: "entries_ok (bc_wal_offset c) (entries c)" "score_ok (entries c) (items (score_list c))"
    and n: "cache_size c = loaded_size (entries c)" by (simp_all add: cache_inv_def)
  from ok(1) have wf: "bt_wf (entries c)" by (simp add: entries_ok_def)
  note l = loaded_size_remove [OF wf pre]
  let ?s = "sl_remove sl (score_key pre) (score_list c)"
  let ?c = "c\<lparr>score_list := ?s, cache_size := loaded_size (bt_remove k (entries c))\<rparr>"
  have "items ?s = items (score_list c) - {score_key pre}"
    using score_own [OF ok pre] by (intro skiplist_remove [OF sl score_inj [OF ok]]) simp
  then have "cache_inv items (?c\<lparr>entries := bt_remove k (entries c)\<rparr>)"
    using score_ok_remove [OF ok pre] entries_ok_remove [OF ok(1), of k] by (simp add: cache_inv_def)
  moreover have "release_entry sl pre c = Ok ?c"
    using n l by (cases c) (auto simp: release_entry_def Let_def)
  ultimately show thesis using that [of ?c] by simp
qed

lemma release_entry_entries:
  "release_entry sl pre (c\<lparr>entries := m\<rparr>) = fmap_ok (\<lambda>c'. c'\<lparr>entries := m\<rparr>) (release_entry sl pre c)"
  by (cases "sub_or_panic (cache_size c) (e_capacity pre) :: (store_error, nat) outcome")
    (simp_all add: release_entry_def Let_def)

text \<open>Installing an entry under its key, where the map has no entry of that key or a released one.\<close>

lemma install_inv:
  assumes sl: "skiplist_ok sl items" and m: "entries_ok (bc_wal_offset c) (entries c)"
    and inv: "cache_inv items (c\<lparr>entries := bt_remove k (entries c)\<rparr>)"
    and k: "k = rel_key (bc_wal_offset c) e" and off: "bc_wal_offset c \<le> e_wal_offset e"
  shows "is_loaded e \<Longrightarrow> cache_inv items (c\<lparr>cache_size := cache_size c + e_capacity e,
           entries := bt_insert k e (entries c), score_list := sl_insert sl (score_key e) (score_list c)\<rparr>)"
    and "\<not> is_loaded e \<Longrightarrow> cache_inv items (c\<lparr>entries := bt_insert k e (entries c)\<rparr>)"
proof -
  from inv have ok: "entries_ok (bc_wal_offset c) (bt_remove k (entries c))"
      "score_ok (bt_remove k (entries c)) (items (score_list c))"
    and n: "cache_size c = loaded_size (bt_remove k (entries c))" by (simp_all add: cache_inv_def)
  from m have wf: "bt_wf (entries c)" by (simp add: entries_ok_def)
  have i: "items (sl_insert sl (score_key e) (score_list c)) = insert (score_key e) (items (score_list c))"
    using skiplist_insert [OF sl score_inj [OF ok], of "score_key e"] score_ok_fresh [OF m, of e] ok(2) k
    by simp
  note ins = score_ok_insert [OF wf ok(2), of e] entries_ok_insert [OF m off] loaded_size_insert [OF wf, of k e]
  show "is_loaded e \<Longrightarrow> cache_inv items (c\<lparr>cache_size := cache_size c + e_capacity e,
           entries := bt_insert k e (entries c), score_list := sl_insert sl (score_key e) (score_list c)\<rparr>)"
    using ins n k by (simp add: cache_inv_def i)
  show "\<not> is_loaded e \<Longrightarrow> cache_inv items (c\<lparr>entries := bt_insert k e (entries c)\<rparr>)"
    using ins n k by (simp add: cache_inv_def)
qed

lemma cache_inv_absent:
  "cache_inv items c \<Longrightarrow> bt_get k (entries c) = None \<Longrightarrow>
     cache_inv items (c\<lparr>entries := bt_remove k (entries c)\<rparr>)"
  by (simp add: bt_remove_absent)

lemma cache_inv_get:
  "cache_inv items c \<Longrightarrow> bt_get k (entries c) = Some e \<longleftrightarrow> (k, e) \<in> set (entries c)"
  by (simp add: cache_inv_def entries_ok_def bt_get_Some_iff)

lemma add_entry_inv:
  assumes sl: "skiplist_ok sl items" and inv: "cache_inv items c" and add: "add_entry sl c buf now = Ok c'"
  shows "cache_inv items c'"
proof -
  let ?k = "as_u32 (ab_wal_offset buf - bc_wal_offset c)"
  let ?e = "case bt_get ?k (entries c) of Some pre \<Rightarrow> (entry_new buf now)\<lparr>strong_rc := strong_rc pre\<rparr>
            | None \<Rightarrow> entry_new buf now"
  have e: "is_loaded ?e" "e_wal_offset ?e = ab_wal_offset buf"
    by (auto simp: is_loaded_def e_wal_offset_def entry_new_def split: option.split)
  from add have off: "bc_wal_offset c \<le> ab_wal_offset buf"
    by (simp add: add_entry_def split: if_splits)
  from inv have m: "entries_ok (bc_wal_offset c) (entries c)" by (simp add: cache_inv_def)
  have "\<exists>c1. (case bt_get ?k (entries c) of Some pre \<Rightarrow> release_entry sl pre c | None \<Rightarrow> Ok c) = Ok c1 \<and>
          cache_inv items (c1\<lparr>entries := bt_remove ?k (entries c)\<rparr>) \<and> entries c1 = entries c \<and>
          bc_wal_offset c1 = bc_wal_offset c"
  proof (cases "bt_get ?k (entries c)")
    case None
    with cache_inv_absent [OF inv] show ?thesis by simp
  next
    case (Some pre)
    then have "(?k, pre) \<in> set (entries c)" using cache_inv_get [OF inv] by simp
    from release_entry_ok [OF sl inv this] Some show ?thesis by force
  qed
  then obtain c1 where c1: "(case bt_get ?k (entries c) of Some pre \<Rightarrow> release_entry sl pre c | None \<Rightarrow> Ok c) = Ok c1"
      "cache_inv items (c1\<lparr>entries := bt_remove ?k (entries c1)\<rparr>)" "entries c1 = entries c"
      "bc_wal_offset c1 = bc_wal_offset c" by auto
  from install_inv(1) [OF sl _ c1(2), of ?e] c1 m e off add show ?thesis
    by (simp add: add_entry_def Let_def rel_key_def split: if_splits)
qed

lemma add_loading_entry_inv:
  assumes sl: "skiplist_ok sl items" and inv: "cache_inv items c" and add: "add_loading_entry sl c r now = Ok c'"
  shows "cache_inv items c'"
proof -
  let ?k = "as_u32 (er_wal_offset r - bc_wal_offset c)" and ?e = "new_loading_entry r now"
  have e: "\<not> is_loaded ?e" "e_wal_offset ?e = er_wal_offset r"
    by (simp_all add: is_loaded_def e_wal_offset_def new_loading_entry_def)
  from add have off: "bc_wal_offset c \<le> er_wal_offset r"
    by (simp add: add_loading_entry_def split: if_splits)
  from inv have m: "entries_ok (bc_wal_offset c) (entries c)" by (simp add: cache_inv_def)
  show ?thesis
  proof (cases "bt_get ?k (entries c)")
    case None
    from install_inv(2) [OF sl m cache_inv_absent [OF inv None], of ?e] e off None add show ?thesis
      by (simp add: add_loading_entry_def Let_def rel_key_def)
  next
    case (Some pre)
    then have "(?k, pre) \<in> set (entries c)" using cache_inv_get [OF inv] by simp
    from release_entry_ok [OF sl inv this] obtain c1 where c1: "release_entry sl pre c = Ok c1"
      "cache_inv items (c1\<lparr>entries := bt_remove ?k (entries c1)\<rparr>)" "entries c1 = entries c"
      "bc_wal_offset c1 = bc_wal_offset c" by metis
    from install_inv(2) [OF sl _ c1(2), of ?e] c1 m e off Some add show ?thesis
      by (simp add: add_loading_entry_def Let_def rel_key_def release_entry_entries)
  qed
qed

lemma remove_by_inv:
  assumes sl: "skiplist_ok sl items" and inv: "cache_inv items c"
  obtains c' r where "remove_by sl c off = Ok (c', r)" "cache_inv items c'"
    "bc_wal_offset c' = bc_wal_offset c"
proof (cases "checked_sub off (bc_wal_offset c)")
  case None
  with inv that show ?thesis by (simp add: remove_by_def)
next
  case d: (Some d)
  show ?thesis
  proof (cases "bt_get (as_u32 d) (entries c)")
    case None
    with d inv that show ?thesis by (simp add: remove_by_def)
  next
    case (Some e)
    then have "(as_u32 d, e) \<in> set (entries c)" using cache_inv_get [OF inv] by simp
    from release_entry_ok [OF sl inv this] obtain c1 where c1: "release_entry sl e c = Ok c1"
      "cache_inv items (c1\<lparr>entries := bt_remove (as_u32 d) (entries c)\<rparr>)"
      "bc_wal_offset c1 = bc_wal_offset c" by metis
    with d Some that show ?thesis by (simp add: remove_by_def release_entry_entries)
  qed
qed

text \<open>What the invariant reads of an entry; reference counts are not part of it.\<close>

definition cell :: "u32 \<times> entry \<Rightarrow> u32 \<times> score_key \<times> bool \<times> u32" where
  "cell ke = (fst ke, score_key (snd ke), is_loaded (snd ke), e_capacity (snd ke))"

lemma inv_by_cells:
  "entries_ok base m \<longleftrightarrow> sorted_wrt (<) (map fst (map cell m)) \<and>
     (\<forall>(k, sk, l, n) \<in> set (map cell m). base \<le> snd sk \<and> k = as_u32 (snd sk - base))"
  "score_ok m S \<longleftrightarrow> S \<subseteq> (\<lambda>(k, sk, l, n). sk) ` set (map cell m) \<and>
     (\<forall>(k, sk, l, n) \<in> set (map cell m). l \<longrightarrow> sk \<in> S)"
  "loaded_size m = (\<Sum>(k, sk, l, n) \<leftarrow> map cell m. if l then n else 0)"
proof -
  have "map fst (map cell m) = map fst m" by (simp add: cell_def)
  then show "entries_ok base m \<longleftrightarrow> sorted_wrt (<) (map fst (map cell m)) \<and>
     (\<forall>(k, sk, l, n) \<in> set (map cell m). base \<le> snd sk \<and> k = as_u32 (snd sk - base))"
    by (simp only: entries_ok_def bt_wf_def) (simp add: cell_def rel_key_def split_beta)
  show "score_ok m S \<longleftrightarrow> S \<subseteq> (\<lambda>(k, sk, l, n). sk) ` set (map cell m) \<and>
     (\<forall>(k, sk, l, n) \<in> set (map cell m). l \<longrightarrow> sk \<in> S)"
    by (simp add: score_ok_def cell_def split_beta image_image)
  show "loaded_size m = (\<Sum>(k, sk, l, n) \<leftarrow> map cell m. if l then n else 0)"
    by (induction m) (simp_all add: loaded_size_def cell_def split_beta)
qed

lemma cache_inv_cells:
  "map cell m = map cell (entries c) \<Longrightarrow> cache_inv items c \<Longrightarrow> cache_inv items (c\<lparr>entries := m\<rparr>)"
  unfolding cache_inv_def inv_by_cells by simp

lemma cell_rc: "cell (k, e\<lparr>strong_rc := n\<rparr>) = cell (k, e)"
  by (simp add: cell_def score_key_def e_score_def e_wal_offset_def is_loaded_def e_capacity_def split: option.split)

lemma adjust_rc_cell: "adjust_rc n e = Ok e' \<Longrightarrow> cell (k, e') = cell (k, e)"
  by (auto simp: adjust_rc_def cell_rc outcome_simps split: if_splits)

lemma adjust_all_cells: "adjust_all P n m = Ok m' \<Longrightarrow> map cell m' = map cell m"
proof (induction m arbitrary: m')
  case (Cons ke m)
  then obtain e m1 where "adjust_all P n m = Ok m1" "m' = (fst ke, e) # m1"
    "(if P ke then adjust_rc n (snd ke) else Ok (snd ke)) = Ok e"
    by (auto simp: outcome_simps)
  with Cons.IH adjust_rc_cell [of n "snd ke" e "fst ke"] show ?case by (auto split: if_splits)
qed simp

lemma strong_reference_entries_inv:
  "cache_inv items c \<Longrightarrow> strong_reference_entries c r n = Ok c' \<Longrightarrow> cache_inv items c'"
  by (auto simp: strong_reference_entries_def Let_def outcome_simps
      intro!: cache_inv_cells dest: adjust_all_cells split: option.splits if_splits)

subsection \<open>Several entries at once\<close>

text \<open>An entry is in the list under its own key or its offset is not in the list.\<close>

definition own :: "score_key set \<Rightarrow> entry \<Rightarrow> bool" where
  "own S e \<longleftrightarrow> score_key e \<in> S \<or> e_wal_offset e \<notin> snd ` S"

lemma own_diff: "own S e \<Longrightarrow> e_wal_offset e \<noteq> snd x \<Longrightarrow> own (S - {x}) e"
  by (auto simp: own_def)

lemma own_insert: "own S e \<Longrightarrow> e_wal_offset e \<noteq> snd x \<Longrightarrow> own (insert x S) e"
  by (auto simp: own_def)

lemma entries_ok_offsets:
  assumes "entries_ok base m"
  shows "distinct (map (e_wal_offset \<circ> snd) m)"
proof -
  have "map fst m = map (rel_key base \<circ> snd) m"
    using entries_ok_key [OF assms] by (auto simp: fun_eq_iff)
  moreover have "distinct (map fst m)"
    using assms by (intro bt_wf_distinct) (simp add: entries_ok_def)
  ultimately have "distinct (map (rel_key base \<circ> snd) m)" by (simp only:)
  then have "distinct (map (\<lambda>off. as_u32 (off - base)) (map (e_wal_offset \<circ> snd) m))"
    by (simp add: rel_key_def o_def)
  then show ?thesis by (simp only: distinct_map [of _ "map (e_wal_offset \<circ> snd) m"])
qed

lemma retain_loop_spec:
  assumes "skiplist_ok sl items" "inj_on snd (items s)" "\<forall>ke \<in> set m. own (items s) (snd ke)"
    "distinct (map (e_wal_offset \<circ> snd) m)" "(\<Sum>ke \<leftarrow> filter (pred \<circ> snd) m. e_capacity (snd ke)) \<le> n"
  shows "\<exists>s'. retain_loop sl pred m s n =
           Ok (filter (Not \<circ> pred \<circ> snd) m, s', n - (\<Sum>ke \<leftarrow> filter (pred \<circ> snd) m. e_capacity (snd ke))) \<and>
           items s' = items s - (score_key \<circ> snd) ` set (filter (pred \<circ> snd) m)"
  using assms(2-)
proof (induction m arbitrary: s n)
  case (Cons ke m)
  obtain k e where ke: "ke = (k, e)" by (cases ke)
  have fresh: "e_wal_offset e \<noteq> e_wal_offset (snd ke')" if "ke' \<in> set m" for ke'
    using Cons.prems(3) that ke by (auto simp: rev_image_eqI)
  show ?case
  proof (cases "pred e")
    case True
    let ?s = "sl_remove sl (score_key e) s"
    have i: "items ?s = items s - {score_key e}"
      using Cons.prems(1,2) ke by (intro skiplist_remove [OF assms(1)]) (auto simp: own_def)
    have "\<forall>ke' \<in> set m. own (items ?s) (snd ke')"
    proof
      fix ke' assume "ke' \<in> set m"
      with Cons.prems(2) fresh [OF this] show "own (items ?s) (snd ke')"
        unfolding i by (intro own_diff) auto
    qed
    moreover have "inj_on snd (items ?s)" using Cons.prems(1) unfolding i by (rule inj_on_diff)
    ultimately have "\<exists>s'. retain_loop sl pred m ?s (n - e_capacity e) =
        Ok (filter (Not \<circ> pred \<circ> snd) m, s', n - e_capacity e - (\<Sum>ke \<leftarrow> filter (pred \<circ> snd) m. e_capacity (snd ke))) \<and>
        items s' = items ?s - (score_key \<circ> snd) ` set (filter (pred \<circ> snd) m)"
      using Cons.prems(3,4) True ke by (intro Cons.IH) auto
    then obtain s' where s': "retain_loop sl pred m ?s (n - e_capacity e) =
        Ok (filter (Not \<circ> pred \<circ> snd) m, s', n - e_capacity e - (\<Sum>ke \<leftarrow> filter (pred \<circ> snd) m. e_capacity (snd ke)))"
      and i': "items s' = items ?s - (score_key \<circ> snd) ` set (filter (pred \<circ> snd) m)" by blast
    have "items s' = items s - (score_key \<circ> snd) ` set (filter (pred \<circ> snd) (ke # m))"
      using True unfolding i' i ke by auto
    with s' True ke Cons.prems(4) show ?thesis by (intro exI [of _ s']) (simp add: o_def)
  next
    case False
    with Cons.prems ke have "\<exists>s'. retain_loop sl pred m s n =
        Ok (filter (Not \<circ> pred \<circ> snd) m, s', n - (\<Sum>ke \<leftarrow> filter (pred \<circ> snd) m. e_capacity (snd ke))) \<and>
        items s' = items s - (score_key \<circ> snd) ` set (filter (pred \<circ> snd) m)"
      by (intro Cons.IH) auto
    with False ke show ?thesis by (auto simp: o_def)
  qed
qed simp

lemma loaded_size_split:
  "loaded_size m = loaded_size (filter (Not \<circ> P) m) + loaded_size (filter P m)"
  by (induction m) (auto simp: loaded_size_def)

lemma loaded_size_all:
  "\<forall>ke \<in> set m. is_loaded (snd ke) \<Longrightarrow> loaded_size m = (\<Sum>ke \<leftarrow> m. e_capacity (snd ke))"
  by (induction m) (auto simp: loaded_size_def split_beta)

lemma bc_remove_inv:
  assumes sl: "skiplist_ok sl items" and inv: "cache_inv items c"
    and pred: "\<forall>ke \<in> set (entries c). pred (snd ke) \<longrightarrow> is_loaded (snd ke)"
  shows "\<exists>c'. bc_remove sl c pred = Ok c' \<and> cache_inv items c' \<and>
              entries c' = filter (Not \<circ> pred \<circ> snd) (entries c)"
proof -
  let ?m = "entries c" and ?S = "items (score_list c)"
  let ?gone = "(score_key \<circ> snd) ` set (filter (pred \<circ> snd) ?m)"
  from inv have ok: "entries_ok (bc_wal_offset c) ?m" "score_ok ?m ?S"
    and n: "cache_size c = loaded_size ?m" by (simp_all add: cache_inv_def)
  have size: "loaded_size ?m = loaded_size (filter (Not \<circ> pred \<circ> snd) ?m) + (\<Sum>ke \<leftarrow> filter (pred \<circ> snd) ?m. e_capacity (snd ke))"
    using loaded_size_split [of ?m "pred \<circ> snd"] loaded_size_all [of "filter (pred \<circ> snd) ?m"] pred
    by (simp add: o_def)
  have "own ?S (snd ke)" if "ke \<in> set ?m" for ke
    using score_own [OF ok, of "fst ke" "snd ke"] that by (simp add: own_def)
  then have "\<forall>ke \<in> set ?m. own ?S (snd ke)" by blast
  from retain_loop_spec [OF sl score_inj [OF ok] this entries_ok_offsets [OF ok(1)], of pred "cache_size c"]
  obtain s' where s': "retain_loop sl pred ?m (score_list c) (cache_size c) =
      Ok (filter (Not \<circ> pred \<circ> snd) ?m, s', loaded_size (filter (Not \<circ> pred \<circ> snd) ?m))"
    "items s' = ?S - ?gone"
    using n size by auto
  have "entries_ok (bc_wal_offset c) (filter (Not \<circ> pred \<circ> snd) ?m)"
    using ok(1) by (auto simp: entries_ok_def bt_wf_filter)
  moreover have "score_ok (filter (Not \<circ> pred \<circ> snd) ?m) (?S - ?gone)"
    unfolding score_ok_def
  proof (intro conjI subsetI ballI)
    fix x assume x: "x \<in> ?S - ?gone"
    then obtain k e where e: "(k, e) \<in> set ?m" "x = score_key e" using ok(2) by (auto elim: score_okE)
    with x have "\<not> pred e" by force
    with e show "x \<in> (score_key \<circ> snd) ` set (filter (Not \<circ> pred \<circ> snd) ?m)" by force
  next
    fix ke assume ke: "ke \<in> set (filter (Not \<circ> pred \<circ> snd) ?m)"
    have "score_key (snd ke) \<noteq> score_key (snd ke')" if "ke' \<in> set ?m" "pred (snd ke')" for ke'
      using entries_ok_same [OF ok(1), of "fst ke" "snd ke" "fst ke'" "snd ke'"] ke that
      by (auto simp: rel_key_def score_key_def)
    then have "score_key (snd ke) \<notin> ?gone" by auto
    moreover have "is_loaded (snd ke) \<longrightarrow> score_key (snd ke) \<in> ?S"
      using ke ok(2) by (auto simp: score_ok_def split_beta)
    ultimately show "case ke of (k, e) \<Rightarrow> is_loaded e \<longrightarrow> score_key e \<in> ?S - ?gone"
      by (simp add: split_beta)
  qed
  ultimately show ?thesis
    using s' by (simp add: bc_remove_def cache_inv_def)
qed

text \<open>A hit moves the visited entries to their new place in the score list.\<close>

lemma touch_same [simp]:
  "fst (touch now ke) = fst ke"
  "e_wal_offset (snd (touch now ke)) = e_wal_offset (snd ke)"
  "is_loaded (snd (touch now ke)) = is_loaded (snd ke)"
  "e_capacity (snd (touch now ke)) = e_capacity (snd ke)"
  by (simp_all add: touch_def e_wal_offset_def is_loaded_def e_capacity_def split: option.split)

lemma swap_out: "n \<notin> B \<Longrightarrow> (insert n (S - {a}) - B) \<union> N = (S - insert a B) \<union> insert n N"
  by blast

lemma touch_fold:
  assumes "skiplist_ok sl items" "inj_on snd (items s)" "\<forall>ke \<in> set es. own (items s) (snd ke)"
    "distinct (map (e_wal_offset \<circ> snd) es)"
  shows "items (fold (touch_score sl now) es s) =
           (items s - (score_key \<circ> snd) ` set es) \<union> (\<lambda>ke. score_key (snd (touch now ke))) ` set es"
  using assms(2-)
proof (induction es arbitrary: s)
  case (Cons ke es)
  let ?old = "score_key (snd ke)" and ?new = "score_key (snd (touch now ke))"
  let ?s = "touch_score sl now ke s"
  have fresh: "e_wal_offset (snd ke) \<noteq> e_wal_offset (snd ke')" if "ke' \<in> set es" for ke'
    using Cons.prems(3) that by (auto simp: rev_image_eqI)
  have own: "own (items s) (snd ke)" using Cons.prems(2) by simp
  have rem: "items (sl_remove sl ?old s) = items s - {?old}"
    using own Cons.prems(1) by (intro skiplist_remove [OF assms(1)]) (auto simp: own_def)
  have gone: "e_wal_offset (snd ke) \<notin> snd ` (items s - {?old})"
  proof
    assume "e_wal_offset (snd ke) \<in> snd ` (items s - {?old})"
    then obtain x where "e_wal_offset (snd ke) = snd x" "x \<in> items s - {?old}" by (rule imageE)
    with own Cons.prems(1) show False by (auto simp: own_def inj_on_def rev_image_eqI)
  qed
  have i: "items ?s = insert ?new (items s - {?old})"
    unfolding touch_score_def rem [symmetric]
    by (rule skiplist_insert [OF assms(1)]) (simp_all add: gone rem inj_on_diff [OF Cons.prems(1)])
  have "inj_on snd (items ?s)"
    unfolding i using gone Cons.prems(1) inj_on_diff by (auto simp: inj_on_insert)
  moreover have "\<forall>ke' \<in> set es. own (items ?s) (snd ke')"
  proof
    fix ke' assume "ke' \<in> set es"
    with Cons.prems(2) fresh [OF this] show "own (items ?s) (snd ke')"
      unfolding i by (intro own_insert own_diff) auto
  qed
  moreover have "distinct (map (e_wal_offset \<circ> snd) es)" using Cons.prems(3) by (simp add: o_def)
  ultimately have "items (fold (touch_score sl now) es ?s) =
      (items ?s - (score_key \<circ> snd) ` set es) \<union> (\<lambda>ke. score_key (snd (touch now ke))) ` set es"
    by (rule Cons.IH)
  moreover have "?new \<notin> (score_key \<circ> snd) ` set es"
    using fresh by (auto simp: score_key_def)
  ultimately show ?case
    using swap_out [of ?new "(score_key \<circ> snd) ` set es"] unfolding i by simp
qed simp

lemma entries_ok_map:
  assumes "entries_ok base m"
    and f: "\<And>ke. fst (f ke) = fst ke \<and> e_wal_offset (snd (f ke)) = e_wal_offset (snd ke)"
  shows "entries_ok base (map f m)"
proof -
  have "fst \<circ> f = fst" using f by (simp add: fun_eq_iff)
  then have "map fst (map f m) = map fst m" by simp
  then have "bt_wf (map f m) = bt_wf m" by (simp only: bt_wf_def)
  with assms(1) f show ?thesis
    unfolding entries_ok_def by (auto simp: split_beta rel_key_def)
qed

lemma loaded_size_map:
  assumes "\<And>ke. is_loaded (snd (f ke)) = is_loaded (snd ke) \<and> e_capacity (snd (f ke)) = e_capacity (snd ke)"
  shows "loaded_size (map f m) = loaded_size m"
  using assms by (induction m) (auto simp: loaded_size_def split_beta)

lemma try_get_entries_inv:
  assumes sl: "skiplist_ok sl items" and inv: "cache_inv items c"
  shows "cache_inv items (fst (try_get_entries sl c r now))"
proof -
  let ?m = "entries c" and ?S = "items (score_list c)"
  from inv have ok: "entries_ok (bc_wal_offset c) ?m" "score_ok ?m ?S"
    and n: "cache_size c = loaded_size ?m" by (simp_all add: cache_inv_def)
  have own: "own ?S (snd ke)" if "ke \<in> set ?m" for ke
    using score_own [OF ok, of "fst ke" "snd ke"] that by (simp add: own_def)
  have same: "ke = ke'" if "ke \<in> set ?m" "ke' \<in> set ?m" "score_key (snd ke) = score_key (snd ke')" for ke ke'
    using entries_ok_same [OF ok(1), of "fst ke" "snd ke" "fst ke'" "snd ke'"] that
    by (auto simp: rel_key_def score_key_def prod_eq_iff)
  have hit: "cache_inv items (c\<lparr>entries := map (\<lambda>ke. if P ke then touch now ke else ke) ?m,
        score_list := fold (touch_score sl now) (filter P ?m) (score_list c)\<rparr>)" for P
  proof -
    let ?t = "\<lambda>ke. if P ke then touch now ke else ke"
    have "distinct (map (e_wal_offset \<circ> snd) (filter P ?m))"
      using entries_ok_offsets [OF ok(1)] by (rule distinct_map_filter)
    from touch_fold [OF sl score_inj [OF ok] _ this, of now] own
    have i: "items (fold (touch_score sl now) (filter P ?m) (score_list c)) =
        (?S - (score_key \<circ> snd) ` {ke \<in> set ?m. P ke}) \<union> (\<lambda>ke. score_key (snd (touch now ke))) ` {ke \<in> set ?m. P ke}"
      by simp
    have "entries_ok (bc_wal_offset c) (map ?t ?m)"
      using ok(1) by (rule entries_ok_map) simp
    moreover have "score_ok (map ?t ?m) (items (fold (touch_score sl now) (filter P ?m) (score_list c)))"
      unfolding i score_ok_def
    proof (intro conjI subsetI ballI)
      fix x assume "x \<in> (?S - (score_key \<circ> snd) ` {ke \<in> set ?m. P ke}) \<union>
          (\<lambda>ke. score_key (snd (touch now ke))) ` {ke \<in> set ?m. P ke}"
      then consider (old) "x \<in> ?S" "x \<notin> (score_key \<circ> snd) ` {ke \<in> set ?m. P ke}"
        | (new) ke where "ke \<in> set ?m" "P ke" "x = score_key (snd (touch now ke))" by blast
      then show "x \<in> (score_key \<circ> snd) ` set (map ?t ?m)"
      proof cases
        case old
        from score_okE [OF ok(2) old(1)] obtain k e where e: "(k, e) \<in> set ?m" "x = score_key e" .
        with old(2) have "\<not> P (k, e)" by force
        with e show ?thesis by (force simp: image_image)
      qed (force simp: image_image)
    next
      fix ke assume "ke \<in> set (map ?t ?m)"
      then obtain ke0 where ke0: "ke0 \<in> set ?m" "ke = ?t ke0" unfolding set_map by (elim imageE)
      have "is_loaded (snd ke0) \<longrightarrow> score_key (snd ke0) \<in> ?S"
        using ke0(1) ok(2) by (auto simp: score_ok_def split_beta)
      moreover have "\<not> P ke0 \<longrightarrow> score_key (snd ke0) \<notin> (score_key \<circ> snd) ` {ke \<in> set ?m. P ke}"
        using same [OF ke0(1)] by auto
      ultimately show "case ke of (k, e) \<Rightarrow> is_loaded e \<longrightarrow> score_key e \<in>
          (?S - (score_key \<circ> snd) ` {ke \<in> set ?m. P ke}) \<union>
          (\<lambda>ke. score_key (snd (touch now ke))) ` {ke \<in> set ?m. P ke}"
        using ke0 by (auto simp: split_beta)
    qed
    moreover have "loaded_size (map ?t ?m) = loaded_size ?m"
      by (rule loaded_size_map) simp
    ultimately show ?thesis using n by (simp add: cache_inv_def)
  qed
  show ?thesis
    using inv hit by (simp add: try_get_entries_def Let_def split: option.split outcome.split prod.split)
qed

lemma front_entry_Some:
  assumes sl: "skiplist_ok sl items" and inv: "cache_inv items c" and front: "front_entry sl c = Some e"
  shows "(rel_key (bc_wal_offset c) e, e) \<in> set (entries c) \<and> score_key e \<in> items (score_list c) \<and>
         (\<forall>y \<in> items (score_list c). score_cmp (score_key e) y \<noteq> Greater)"
proof -
  from inv have ok: "entries_ok (bc_wal_offset c) (entries c)" "score_ok (entries c) (items (score_list c))"
    by (simp_all add: cache_inv_def)
  from front obtain x where x: "sl_front sl (score_list c) = Some x"
    and e: "bt_get (as_u32 (snd x - bc_wal_offset c)) (entries c) = Some e"
    by (auto simp: front_entry_def split: option.splits)
  note f = skiplist_front [OF sl score_inj [OF ok] x]
  then obtain k' e' where e': "(k', e') \<in> set (entries c)" "x = score_key e'"
    using ok(2) by (auto elim: score_okE)
  then have "bt_get (as_u32 (snd x - bc_wal_offset c)) (entries c) = Some e'"
    using entries_ok_key [OF ok(1) e'(1)] cache_inv_get [OF inv, of k' e'] by (simp add: rel_key_def)
  with e have "e' = e" by simp
  with f e' entries_ok_key [OF ok(1) e'(1)] show ?thesis by auto
qed

section \<open>Coverage of a query\<close>

text \<open>
  The entries of a segment's cache do not overlap and lie below the 32-bit bound; the callers
  keep it so by loading exactly the ranges a query reports as missed.
\<close>

definition tiled_entry :: "u64 \<Rightarrow> u32 \<times> entry \<Rightarrow> bool" where
  "tiled_entry base ke \<longleftrightarrow>
     e_wal_offset (snd ke) = base + fst ke \<and> fst ke + e_len (snd ke) < 2 ^ 32 \<and> 0 < e_len (snd ke) \<and>
     (case e_buf (snd ke) of Some b \<Rightarrow> ab_limit b < 2 ^ 32 | None \<Rightarrow> loading_range (snd ke) \<noteq> None)"

definition tiled :: "u64 \<Rightarrow> (u32, entry) btree \<Rightarrow> bool" where
  "tiled base m \<longleftrightarrow> (\<forall>ke \<in> set m. tiled_entry base ke) \<and>
     sorted_wrt (\<lambda>x y. fst x + e_len (snd x) \<le> fst y) m"

definition in_range :: "entry_range \<Rightarrow> u64 \<Rightarrow> bool" where
  "in_range r x \<longleftrightarrow> er_wal_offset r \<le> x \<and> x < er_wal_offset r + er_len r"

definition in_entry :: "entry \<Rightarrow> u64 \<Rightarrow> bool" where
  "in_entry e x \<longleftrightarrow> e_wal_offset e \<le> x \<and> x < e_wal_offset e + e_len e"

lemma covers_partial_iff:
  assumes "tiled_entry base ke"
  shows "e_covers_partial (snd ke) r \<longleftrightarrow>
           base + fst ke < er_wal_offset r + er_len r \<and> er_wal_offset r < base + fst ke + e_len (snd ke)"
  using assms
  by (auto simp: tiled_entry_def e_covers_partial_def ab_covers_partial_def e_len_def e_wal_offset_def
      cast_simps split: option.splits)

lemma in_entry_iff:
  "tiled_entry base ke \<Longrightarrow> in_entry (snd ke) x \<longleftrightarrow> base + fst ke \<le> x \<and> x < base + fst ke + e_len (snd ke)"
  by (simp add: in_entry_def tiled_entry_def)

lemma tiled_before:
  assumes "tiled base m" "x \<in> set m" "y \<in> set m" "fst x < fst y"
  shows "fst x + e_len (snd x) \<le> fst y"
proof -
  from assms(1) have sw: "sorted_wrt (\<lambda>x y. fst x + e_len (snd x) \<le> fst y) m" by (simp add: tiled_def)
  obtain i j where ij: "i < length m" "x = m ! i" "j < length m" "y = m ! j"
    using assms(2,3) by (auto simp: in_set_conv_nth)
  have "i < j"
  proof (rule ccontr)
    assume "\<not> i < j"
    moreover have "i \<noteq> j" using ij assms(4) by auto
    ultimately have "fst y + e_len (snd y) \<le> fst x"
      using sorted_wrt_nth_less [OF sw, of j i] ij by simp
    with assms(4) show False by simp
  qed
  with sorted_wrt_nth_less [OF sw, of i j] ij show ?thesis by simp
qed

text \<open>The scan from the start key misses no overlapping entry.\<close>

lemma visited_eq_covers:
  assumes t: "tiled base m" and r: "er_wal_offset r = base + from" and wf: "bt_wf m"
    and mem: "ke \<in> set m"
  shows "visited r from (from + er_len r) m ke \<longleftrightarrow> e_covers_partial (snd ke) r"
proof -
  from t mem have te: "tiled_entry base ke" by (simp add: tiled_def)
  have "start_key from m \<le> fst ke" if c: "e_covers_partial (snd ke) r"
  proof (cases "bt_upper_bound from m")
    case None
    then have "\<not> fst ke \<le> from" using mem by (simp add: bt_upper_bound_None)
    with None show ?thesis by (simp add: start_key_def)
  next
    case (Some e)
    note ub = bt_upper_bound_Some [OF wf Some]
    show ?thesis
    proof (rule ccontr)
      assume "\<not> start_key from m \<le> fst ke"
      then have "fst ke < fst e" using Some by (simp add: start_key_def)
      from tiled_before [OF t mem ub(1) this] ub(2) c covers_partial_iff [OF te] r
      show False by simp
    qed
  qed
  moreover have "fst ke < from + er_len r" if "e_covers_partial (snd ke) r"
    using that covers_partial_iff [OF te] r by simp
  ultimately show ?thesis by (auto simp: visited_def)
qed

text \<open>The gaps the loop reports are exactly the bytes before its end that no entry holds.\<close>

lemma missed_loop_spec:
  assumes "tiled base es" "\<forall>ke \<in> set es. le < fst ke + e_len (snd ke)"
  shows "\<exists>ms l. missed_loop base le es = Ok (ms, l) \<and> le \<le> l \<and>
           (\<forall>ke \<in> set es. fst ke + e_len (snd ke) \<le> l) \<and>
           (es \<noteq> [] \<longrightarrow> (\<exists>ke \<in> set es. l = fst ke + e_len (snd ke))) \<and>
           (\<forall>r \<in> set ms. base + le \<le> er_wal_offset r \<and> 0 < er_len r) \<and>
           (\<forall>x. base + le \<le> x \<and> x < base + l \<longrightarrow>
                ((\<exists>r \<in> set ms. in_range r x) \<longleftrightarrow> \<not> (\<exists>ke \<in> set es. in_entry (snd ke) x))) \<and>
           (\<forall>r \<in> set ms. \<exists>ke \<in> set es. er_wal_offset r + er_len r = base + fst ke)"
  using assms
proof (induction es arbitrary: le)
  case (Cons ke es)
  obtain k e where ke: "ke = (k, e)" by (cases ke)
  let ?fin = "k + e_len e"
  from Cons.prems have te: "tiled_entry base (k, e)" and t: "tiled base es"
    and after: "\<forall>ke' \<in> set es. ?fin \<le> fst ke' \<and> tiled_entry base ke'" and le: "le < ?fin"
    by (auto simp: tiled_def ke)
  have "\<forall>ke' \<in> set es. ?fin < fst ke' + e_len (snd ke')"
  proof
    fix ke' assume "ke' \<in> set es"
    with after have "?fin \<le> fst ke'" "0 < e_len (snd ke')" by (auto simp: tiled_entry_def)
    then show "?fin < fst ke' + e_len (snd ke')" by linarith
  qed
  from Cons.IH [OF t this] obtain ms l where rec: "missed_loop base ?fin es = Ok (ms, l)" "?fin \<le> l"
      "\<forall>ke \<in> set es. fst ke + e_len (snd ke) \<le> l"
      "es \<noteq> [] \<longrightarrow> (\<exists>ke \<in> set es. l = fst ke + e_len (snd ke))"
      "\<forall>r \<in> set ms. base + ?fin \<le> er_wal_offset r \<and> 0 < er_len r"
      "\<forall>x. base + ?fin \<le> x \<and> x < base + l \<longrightarrow>
         ((\<exists>r \<in> set ms. in_range r x) \<longleftrightarrow> \<not> (\<exists>ke \<in> set es. in_entry (snd ke) x))"
      "\<forall>r \<in> set ms. \<exists>ke \<in> set es. er_wal_offset r + er_len r = base + fst ke"
    by (elim exE conjE) (rule that)
  define gap where "gap = (if k > le then [\<lparr>er_wal_offset = base + le, er_len = k - le\<rparr>] else [])"
  have gap: "(\<exists>r \<in> set gap. in_range r x) \<longleftrightarrow> base + le \<le> x \<and> x < base + k" for x
    by (auto simp: gap_def in_range_def)
  have gap_in: "\<forall>r \<in> set gap. base + le \<le> er_wal_offset r \<and> 0 < er_len r \<and> er_wal_offset r + er_len r = base + k"
    by (simp add: gap_def)
  have loop: "missed_loop base le (ke # es) = Ok (gap @ ms, l)"
    using te rec(1) by (simp add: ke tiled_entry_def gap_def)
  have l: "es = [] \<Longrightarrow> l = ?fin" using rec(1) by simp
  have point: "(\<exists>r \<in> set (gap @ ms). in_range r x) \<longleftrightarrow> \<not> (\<exists>ke \<in> set (ke # es). in_entry (snd ke) x)"
    if x: "base + le \<le> x" "x < base + l" for x
  proof (cases "base + ?fin \<le> x")
    case True
    with rec(6) x have "(\<exists>r \<in> set ms. in_range r x) \<longleftrightarrow> \<not> (\<exists>ke \<in> set es. in_entry (snd ke) x)" by blast
    moreover have "\<not> in_entry (snd ke) x" using True in_entry_iff [OF te] ke by simp
    moreover have "\<not> x < base + k" using True by simp
    ultimately show ?thesis by (simp add: bex_Un gap)
  next
    case False
    have "\<not> (\<exists>r \<in> set ms. in_range r x)"
      using rec(5) False by (force simp: in_range_def)
    moreover have "\<not> in_entry (snd ke') x" if "ke' \<in> set es" for ke'
    proof -
      from after that have "?fin \<le> fst ke'" "tiled_entry base ke'" by auto
      with in_entry_iff [of base ke'] False show ?thesis by simp
    qed
    then have "\<not> (\<exists>ke \<in> set es. in_entry (snd ke) x)" by blast
    moreover have "in_entry (snd ke) x \<longleftrightarrow> \<not> x < base + k"
      using in_entry_iff [OF te, of x] False ke by simp linarith
    ultimately show ?thesis using x by (simp add: bex_Un gap)
  qed
  show ?case
  proof (intro exI conjI)
    show "missed_loop base le (ke # es) = Ok (gap @ ms, l)" by (rule loop)
    show "le \<le> l" using le rec(2) by simp
    show "\<forall>ke \<in> set (ke # es). fst ke + e_len (snd ke) \<le> l" using rec(2,3) ke by simp
    show "ke # es \<noteq> [] \<longrightarrow> (\<exists>ke \<in> set (ke # es). l = fst ke + e_len (snd ke))"
      using rec(4) l ke by (cases "es = []") simp_all
    show "\<forall>r \<in> set (gap @ ms). base + le \<le> er_wal_offset r \<and> 0 < er_len r"
      using rec(5) le gap_in by force
    show "\<forall>x. base + le \<le> x \<and> x < base + l \<longrightarrow>
       ((\<exists>r \<in> set (gap @ ms). in_range r x) \<longleftrightarrow> \<not> (\<exists>ke \<in> set (ke # es). in_entry (snd ke) x))"
      using point by blast
    show "\<forall>r \<in> set (gap @ ms). \<exists>ke \<in> set (ke # es). er_wal_offset r + er_len r = base + fst ke"
      using rec(7) gap_in by (auto simp: ke)
  qed
qed (simp add: tiled_def)

text \<open>The bytes some entry of the cache stands for, loaded or loading.\<close>

definition cached :: "'s block_cache \<Rightarrow> u64 \<Rightarrow> bool" where
  "cached c x \<longleftrightarrow> (\<exists>ke \<in> set (entries c). in_entry (snd ke) x)"

text \<open>
  A query the cache can answer: it starts at or after the cache's base and ends below the 32-bit
  bound, and the entries are ordered, apart and at their offsets.
\<close>

definition query_ok :: "'s block_cache \<Rightarrow> entry_range \<Rightarrow> bool" where
  "query_ok c r \<longleftrightarrow>
     bt_wf (entries c) \<and> tiled (bc_wal_offset c) (entries c) \<and> bc_wal_offset c \<le> er_wal_offset r \<and>
     er_wal_offset r + er_len r < bc_wal_offset c + 2 ^ 32 \<and> 0 < as_u32 (bc_alignment c)"

text \<open>A byte behind the unaligned end of an entry: the tail of a block still being written.\<close>

definition behind_tail :: "'s block_cache \<Rightarrow> u64 \<Rightarrow> bool" where
  "behind_tail c x \<longleftrightarrow> (\<exists>ke \<in> set (entries c). bc_wal_offset c + fst ke + e_len (snd ke) \<le> x \<and>
     \<not> as_u32 (bc_alignment c) dvd fst ke + e_len (snd ke))"

definition hits :: "'s block_cache \<Rightarrow> entry_range \<Rightarrow> (u32, entry) btree" where
  "hits c r = filter (\<lambda>ke. e_covers_partial (snd ke) r) (entries c)"

lemma tiled_filter: "tiled base m \<Longrightarrow> tiled base (filter P m)"
  by (auto simp: tiled_def sorted_wrt_filter)

lemma hits_iff:
  assumes "query_ok c r" "in_range r x"
  shows "cached c x \<longleftrightarrow> (\<exists>ke \<in> set (hits c r). in_entry (snd ke) x)"
proof -
  have "e_covers_partial (snd ke) r" if "ke \<in> set (entries c)" "in_entry (snd ke) x" for ke
  proof -
    have "tiled_entry (bc_wal_offset c) ke" using assms(1) that by (simp add: query_ok_def tiled_def)
    from covers_partial_iff [OF this, of r] in_entry_iff [OF this, of x] that(2) assms(2)
    show ?thesis by (auto simp: in_range_def)
  qed
  then show ?thesis unfolding cached_def hits_def set_filter by blast
qed

lemma hits_scan:
  assumes q: "query_ok c r"
  defines "from \<equiv> er_wal_offset r - bc_wal_offset c"
  shows "\<exists>ms l. missed_loop (bc_wal_offset c) from (hits c r) = Ok (ms, l) \<and> from \<le> l \<and>
      (\<forall>ke \<in> set (hits c r). fst ke + e_len (snd ke) \<le> l) \<and>
      (hits c r \<noteq> [] \<longrightarrow> (\<exists>ke \<in> set (hits c r). l = fst ke + e_len (snd ke))) \<and>
      (\<forall>m \<in> set ms. er_wal_offset r \<le> er_wal_offset m \<and> er_wal_offset m + er_len m < er_wal_offset r + er_len r \<and>
           er_wal_offset m + er_len m \<le> bc_wal_offset c + l) \<and>
      (\<forall>x. er_wal_offset r \<le> x \<and> x < bc_wal_offset c + l \<longrightarrow>
           ((\<exists>m \<in> set ms. in_range m x) \<longleftrightarrow> \<not> (\<exists>ke \<in> set (hits c r). in_entry (snd ke) x)))"
proof -
  from q have r: "er_wal_offset r = bc_wal_offset c + from" and t: "tiled (bc_wal_offset c) (entries c)"
    by (simp_all add: query_ok_def from_def)
  have h: "from < fst ke + e_len (snd ke) \<and> fst ke < from + er_len r" if "ke \<in> set (hits c r)" for ke
  proof -
    have "tiled_entry (bc_wal_offset c) ke" using t that by (simp add: hits_def tiled_def)
    from covers_partial_iff [OF this, of r] that r show ?thesis by (simp add: hits_def)
  qed
  then have "\<forall>ke \<in> set (hits c r). from < fst ke + e_len (snd ke)" by blast
  from missed_loop_spec [OF tiled_filter [OF t, of "\<lambda>ke. e_covers_partial (snd ke) r", folded hits_def] this]
  obtain ms l where ml: "missed_loop (bc_wal_offset c) from (hits c r) = Ok (ms, l)" "from \<le> l"
      "\<forall>ke \<in> set (hits c r). fst ke + e_len (snd ke) \<le> l"
      "hits c r \<noteq> [] \<longrightarrow> (\<exists>ke \<in> set (hits c r). l = fst ke + e_len (snd ke))"
      "\<forall>m \<in> set ms. bc_wal_offset c + from \<le> er_wal_offset m \<and> 0 < er_len m"
      "\<forall>x. bc_wal_offset c + from \<le> x \<and> x < bc_wal_offset c + l \<longrightarrow>
         ((\<exists>m \<in> set ms. in_range m x) \<longleftrightarrow> \<not> (\<exists>ke \<in> set (hits c r). in_entry (snd ke) x))"
      "\<forall>m \<in> set ms. \<exists>ke \<in> set (hits c r). er_wal_offset m + er_len m = bc_wal_offset c + fst ke"
    by (elim exE conjE) (rule that)
  have "er_wal_offset m + er_len m < er_wal_offset r + er_len r \<and> er_wal_offset m + er_len m \<le> bc_wal_offset c + l"
    if "m \<in> set ms" for m
  proof -
    from ml(7) that obtain ke where "ke \<in> set (hits c r)" "er_wal_offset m + er_len m = bc_wal_offset c + fst ke" by blast
    with h [of ke] ml(3) r show ?thesis by force
  qed
  with ml show ?thesis unfolding r by (intro exI [of _ ms] exI [of _ l]) blast
qed

text \<open>One evaluation of the query, with everything the loop established.\<close>

lemma try_get_cases:
  assumes q: "query_ok c r"
  defines "from \<equiv> er_wal_offset r - bc_wal_offset c"
  obtains (none) "hits c r = []" "try_get_entries sl c r now = (c, Err [r])"
  | (some) ms l c' missed where "hits c r \<noteq> []" "missed_loop (bc_wal_offset c) from (hits c r) = Ok (ms, l)"
      "missed = ms @ (if l < from + er_len r \<and> as_u32 (bc_alignment c) dvd l
          then [\<lparr>er_wal_offset = bc_wal_offset c + l, er_len = from + er_len r - l\<rparr>] else [])"
      "try_get_entries sl c r now =
         (if missed \<noteq> [] then (c, Err missed)
          else (c', Ok (let bufs = List.map_filter (e_buf \<circ> snd) (hits c r)
                        in if length bufs \<noteq> length (hits c r) then None else Some bufs)))"
proof -
  from q have base: "bc_wal_offset c \<le> er_wal_offset r" and r: "er_wal_offset r = bc_wal_offset c + from"
    and t: "tiled (bc_wal_offset c) (entries c)" and wf: "bt_wf (entries c)" and al: "0 < as_u32 (bc_alignment c)"
    by (simp_all add: query_ok_def from_def)
  have bound: "from + er_len r < 2 ^ 32" using q r by (simp add: query_ok_def)
  have f: "as_u32 from = from" using bound by (intro as_u32_id) simp
  have hs: "filter (visited r from (from + er_len r) (entries c)) (entries c) = hits c r"
    unfolding hits_def by (rule filter_cong) (simp_all add: visited_eq_covers [OF t r wf])
  show thesis
  proof (cases "hits c r = []")
    case True
    then show ?thesis using base bound
      by (intro none) (simp_all add: try_get_entries_def checked_sub_def from_def [symmetric] f hs)
  next
    case False
    from hits_scan [OF q] obtain ms l where ml: "missed_loop (bc_wal_offset c) from (hits c r) = Ok (ms, l)"
      unfolding from_def by blast
    show ?thesis
      using False ml base bound al
      by (intro some [OF False ml refl, where c' = "fst (try_get_entries sl c r now)"])
        (simp add: try_get_entries_def checked_sub_def from_def [symmetric] f hs Let_def dvd_eq_mod_eq_0)
  qed
qed

lemma missed_exact:
  assumes q: "query_ok c r" and h: "hits c r \<noteq> []"
    and ml: "missed_loop (bc_wal_offset c) (er_wal_offset r - bc_wal_offset c) (hits c r) = Ok (ms, l)"
  defines "to \<equiv> er_wal_offset r - bc_wal_offset c + er_len r"
  defines "missed \<equiv> ms @ (if l < to \<and> as_u32 (bc_alignment c) dvd l
       then [\<lparr>er_wal_offset = bc_wal_offset c + l, er_len = to - l\<rparr>] else [])"
  shows "m \<in> set missed \<Longrightarrow> in_range m x \<Longrightarrow> in_range r x \<and> \<not> cached c x"
    and "in_range r x \<Longrightarrow> (\<exists>m \<in> set missed. in_range m x) \<or> cached c x \<or> behind_tail c x"
proof -
  have base: "bc_wal_offset c \<le> er_wal_offset r" using q by (simp add: query_ok_def)
  then have to: "bc_wal_offset c + to = er_wal_offset r + er_len r" by (simp add: to_def)
  from hits_scan [OF q] ml h have
      l: "\<forall>ke \<in> set (hits c r). fst ke + e_len (snd ke) \<le> l" "er_wal_offset r \<le> bc_wal_offset c + l"
        "\<exists>ke \<in> set (hits c r). l = fst ke + e_len (snd ke)"
    and ms: "\<And>m. m \<in> set ms \<Longrightarrow> er_wal_offset r \<le> er_wal_offset m \<and>
        er_wal_offset m + er_len m < er_wal_offset r + er_len r \<and> er_wal_offset m + er_len m \<le> bc_wal_offset c + l"
    and pt: "\<And>x. er_wal_offset r \<le> x \<Longrightarrow> x < bc_wal_offset c + l \<Longrightarrow>
           (\<exists>m \<in> set ms. in_range m x) \<longleftrightarrow> \<not> (\<exists>ke \<in> set (hits c r). in_entry (snd ke) x)"
    using base by auto
  have past: "\<not> (\<exists>ke \<in> set (hits c r). in_entry (snd ke) x)" if "bc_wal_offset c + l \<le> x" for x
  proof
    assume "\<exists>ke \<in> set (hits c r). in_entry (snd ke) x"
    then obtain ke where ke: "ke \<in> set (hits c r)" "in_entry (snd ke) x" by blast
    then have "tiled_entry (bc_wal_offset c) ke" using q by (simp add: hits_def query_ok_def tiled_def)
    from in_entry_iff [OF this, of x] ke l(1) that show False by fastforce
  qed
  show "in_range r x \<and> \<not> cached c x" if m: "m \<in> set missed" and x: "in_range m x"
  proof (cases "m \<in> set ms")
    case True
    from ms [OF True] x have "in_range r x" and "er_wal_offset r \<le> x" "x < bc_wal_offset c + l"
      by (auto simp: in_range_def)
    with pt [of x] True x show ?thesis using hits_iff [OF q] by blast
  next
    case False
    with m have "m = \<lparr>er_wal_offset = bc_wal_offset c + l, er_len = to - l\<rparr>" "l < to"
      by (auto simp: missed_def split: if_splits)
    with x to l(2) have "in_range r x" "bc_wal_offset c + l \<le> x" by (auto simp: in_range_def)
    with past hits_iff [OF q] show ?thesis by blast
  qed
  show "(\<exists>m \<in> set missed. in_range m x) \<or> cached c x \<or> behind_tail c x" if x: "in_range r x"
  proof (cases "x < bc_wal_offset c + l")
    case True
    with pt [of x] x hits_iff [OF q x] show ?thesis by (auto simp: in_range_def missed_def)
  next
    case False
    show ?thesis
    proof (cases "as_u32 (bc_alignment c) dvd l")
      case True
      have "l < to" using False x to by (simp add: in_range_def)
      with True False x to show ?thesis
        by (auto simp: missed_def in_range_def)
    next
      case False': False
      from l(3) obtain ke where "ke \<in> set (entries c)" "l = fst ke + e_len (snd ke)"
        by (auto simp: hits_def)
      with False False' have "behind_tail c x" unfolding behind_tail_def by (intro bexI [of _ ke]) auto
      then show ?thesis by blast
    qed
  qed
qed

lemma map_filter_all:
  "length (List.map_filter f xs) = length xs \<Longrightarrow> x \<in> set xs \<Longrightarrow> \<exists>y \<in> set (List.map_filter f xs). f x = Some y"
proof (induction xs)
  case (Cons a xs)
  have le: "length (List.map_filter f xs) \<le> length xs"
    by (induction xs) (auto simp: List.map_filter_simps split: option.split)
  with Cons show ?case by (cases "f a") (auto simp: List.map_filter_simps)
qed simp

section \<open>Merging ranges\<close>

definition covered :: "entry_range list \<Rightarrow> u64 \<Rightarrow> bool" where
  "covered rs x \<longleftrightarrow> (\<exists>r \<in> set rs. in_range r x)"

text \<open>Ranges in ascending order with a gap between neighbours, as \<open>merge\<close> returns them.\<close>

definition separated :: "entry_range list \<Rightarrow> bool" where
  "separated rs \<longleftrightarrow> sorted_wrt (\<lambda>a b. er_wal_offset a + er_len a < er_wal_offset b) rs"

lemma merge_loop_spec:
  assumes "sorted (map er_wal_offset rs)"
    and "\<forall>m \<in> set merged. \<forall>r \<in> set rs. er_wal_offset m \<le> er_wal_offset r"
    and "separated (rev merged)" and "hi < lo + 2 ^ 32"
    and "\<forall>r \<in> set (merged @ rs). lo \<le> er_wal_offset r \<and> er_wal_offset r + er_len r \<le> hi"
  shows "separated (merge_loop merged rs) \<and>
         (\<forall>x. covered (merge_loop merged rs) x \<longleftrightarrow> covered merged x \<or> covered rs x)"
  using assms
proof (induction merged rs rule: merge_loop.induct)
  case (1 merged)
  then show ?case by (simp add: covered_def)
next
  case (2 r rs)
  have "separated (merge_loop [r] rs) \<and> (\<forall>x. covered (merge_loop [r] rs) x \<longleftrightarrow> covered [r] x \<or> covered rs x)"
    using 2(2-) by (intro 2(1)) (auto simp: separated_def)
  then show ?case by (auto simp: covered_def)
next
  case (3 m ms r rs)
  let ?n = "max (er_wal_offset r + er_len r - er_wal_offset m) (er_len m)"
  let ?m = "m\<lparr>er_len := as_u32 ?n\<rparr>"
  from 3(3-) have mr: "er_wal_offset m \<le> er_wal_offset r"
    and rs: "sorted (map er_wal_offset rs)" "\<forall>r' \<in> set rs. er_wal_offset r \<le> er_wal_offset r'" by simp_all
  have n: "as_u32 ?n = ?n" using 3(6,7) mr by (intro as_u32_id) (simp, linarith)
  have wide: "in_range ?m x \<longleftrightarrow> in_range m x \<or> in_range r x"
    if "er_wal_offset r \<le> er_wal_offset m + er_len m" for x
    using that mr unfolding in_range_def n by (auto simp: max_def)
  show ?case
  proof (cases "er_wal_offset m + er_len m \<ge> er_wal_offset r")
    case True
    have "separated (merge_loop (?m # ms) rs) \<and>
        (\<forall>x. covered (merge_loop (?m # ms) rs) x \<longleftrightarrow> covered (?m # ms) x \<or> covered rs x)"
    proof (rule 3(1) [OF True rs(1)])
      show "separated (rev (?m # ms))" using 3(5) by (auto simp: separated_def sorted_wrt_append)
      show "\<forall>m' \<in> set (?m # ms). \<forall>r' \<in> set rs. er_wal_offset m' \<le> er_wal_offset r'"
        using 3(4) by auto
      have "er_wal_offset m + ?n \<le> hi" using 3(7) mr by (simp add: max_def)
      then show "\<forall>r \<in> set ((?m # ms) @ rs). lo \<le> er_wal_offset r \<and> er_wal_offset r + er_len r \<le> hi"
        using 3(7) n by auto
    qed (rule 3(6))
    with True wide [OF True] show ?thesis by (auto simp: covered_def)
  next
    case False
    have "separated (merge_loop (r # m # ms) rs) \<and>
        (\<forall>x. covered (merge_loop (r # m # ms) rs) x \<longleftrightarrow> covered (r # m # ms) x \<or> covered rs x)"
    proof (rule 3(2) [OF False rs(1)])
      show "separated (rev (r # m # ms))"
        using 3(5) False by (auto simp: separated_def sorted_wrt_append)
      show "\<forall>m' \<in> set (r # m # ms). \<forall>r' \<in> set rs. er_wal_offset m' \<le> er_wal_offset r'"
        using 3(4) rs(2) by auto
      show "\<forall>r \<in> set ((r # m # ms) @ rs). lo \<le> er_wal_offset r \<and> er_wal_offset r + er_len r \<le> hi"
        using 3(7) by auto
    qed (rule 3(6))
    with False show ?thesis by (auto simp: covered_def)
  qed
qed

section \<open>Runs of the cache\<close>

text \<open>
  What a segment's owner does to its cache: every call of the interface that returns. \<open>remove\<close>
  is restricted to predicates that select loaded entries.
\<close>

inductive cache_step :: "'s skiplist \<Rightarrow> 's block_cache \<Rightarrow> 's block_cache \<Rightarrow> bool" for sl where
  add: "add_entry sl c buf now = Ok c' \<Longrightarrow> cache_step sl c c'"
| add_loading: "add_loading_entry sl c r now = Ok c' \<Longrightarrow> cache_step sl c c'"
| reference: "strong_reference_entries c r n = Ok c' \<Longrightarrow> cache_step sl c c'"
| get: "cache_step sl c (fst (try_get_entries sl c r clock))"
| evict: "remove_by_score sl c = Ok (c', e) \<Longrightarrow> cache_step sl c c'"
| drop: "remove_by sl c off = Ok (c', e) \<Longrightarrow> cache_step sl c c'"
| retain: "bc_remove sl c pred = Ok c' \<Longrightarrow>
    \<forall>ke \<in> set (entries c). pred (snd ke) \<longrightarrow> is_loaded (snd ke) \<Longrightarrow> cache_step sl c c'"

definition cache_reach :: "'s skiplist \<Rightarrow> usize \<Rightarrow> u64 \<Rightarrow> 's block_cache \<Rightarrow> bool" where
  "cache_reach sl al off c \<longleftrightarrow> (cache_step sl)\<^sup>*\<^sup>* (bc_new sl al off) c"

lemma remove_by_score_inv:
  assumes "skiplist_ok sl items" "cache_inv items c"
  shows "\<exists>c' e. remove_by_score sl c = Ok (c', e) \<and> cache_inv items c'"
proof (cases "front_entry sl c")
  case (Some e)
  from remove_by_inv [OF assms, of "e_wal_offset e"] Some assms(2) show ?thesis
    by (fastforce simp: remove_by_score_def)
qed (use assms in \<open>simp add: remove_by_score_def\<close>)

lemma cache_step_inv:
  assumes "cache_step sl c c'" "skiplist_ok sl items" "cache_inv items c"
  shows "cache_inv items c'"
  using assms
proof (induction rule: cache_step.induct)
  case (evict c c' e)
  with remove_by_score_inv [of sl items c] show ?case by auto
next
  case (drop c off c' e)
  with remove_by_inv [of sl items c off] show ?case by force
next
  case (retain c pred c')
  with bc_remove_inv [of sl items c pred] show ?case by auto
qed (auto intro: add_entry_inv add_loading_entry_inv strong_reference_entries_inv try_get_entries_inv)

lemma cache_reach_inv:
  assumes "cache_reach sl al off c" "skiplist_ok sl items"
  shows "cache_inv items c"
  using assms(1) unfolding cache_reach_def
proof (induction rule: rtranclp_induct)
  case base
  from assms(2) have "items (sl_with_comp sl score_cmp) = {}" by (simp add: skiplist_ok_def)
  then show ?case
    by (simp add: cache_inv_def bc_new_def bt_empty_def entries_ok_def score_ok_def loaded_size_def)
next
  case (step c c')
  with cache_step_inv assms(2) show ?case by blast
qed

section \<open>A score list for examples\<close>

text \<open>An unordered list whose front is found by scanning; it satisfies the contract.\<close>

definition pick :: "score_key \<Rightarrow> score_key \<Rightarrow> score_key" where
  "pick y m = (if score_cmp m y = Greater then y else m)"

definition list_skiplist :: "score_key list skiplist" where
  "list_skiplist = \<lparr>sl_with_comp = (\<lambda>c. []), sl_insert = (#), sl_remove = (\<lambda>x. filter (\<lambda>y. y \<noteq> x)),
     sl_front = (\<lambda>s. if s = [] then None else Some (fold pick s (hd s)))\<rparr>"

definition lex_le :: "score_key \<Rightarrow> score_key \<Rightarrow> bool" where
  "lex_le a b \<longleftrightarrow> fst a < fst b \<or> fst a = fst b \<and> snd a \<le> snd b"

lemma score_cmp_lex: "(snd a = snd b \<longrightarrow> a = b) \<Longrightarrow> score_cmp a b \<noteq> Greater \<longleftrightarrow> lex_le a b"
  by (cases a; cases b) (auto simp: score_cmp_def cmp_nat_def lex_le_def)

lemma fold_pick:
  assumes "inj_on snd (insert m (set s))"
  shows "fold pick s m \<in> insert m (set s) \<and> (\<forall>y \<in> insert m (set s). lex_le (fold pick s m) y)"
  using assms
proof (induction s arbitrary: m)
  case Nil
  then show ?case by (simp add: lex_le_def)
next
  case (Cons y s)
  have p: "pick y m \<in> {m, y}" by (simp add: pick_def)
  have "score_cmp m y \<noteq> Greater \<longleftrightarrow> lex_le m y" "score_cmp y m \<noteq> Greater \<longleftrightarrow> lex_le y m"
    using Cons.prems by (auto intro!: score_cmp_lex simp: inj_on_def)
  then have le: "lex_le (pick y m) m" "lex_le (pick y m) y"
    by (auto simp: pick_def lex_le_def)
  have "inj_on snd (insert (pick y m) (set s))"
    using Cons.prems p by (elim inj_on_subset) auto
  from Cons.IH [OF this] p have in_set: "fold pick s (pick y m) \<in> insert m (set (y # s))"
    and all: "\<forall>z \<in> insert (pick y m) (set s). lex_le (fold pick s (pick y m)) z" by auto
  have "lex_le (fold pick s (pick y m)) z" if "z \<in> {m, y}" for z
    using all le that by (auto simp: lex_le_def)
  with in_set all show ?case by auto
qed

lemma list_skiplist_ok: "skiplist_ok list_skiplist set"
proof -
  have "case sl_front list_skiplist s of None \<Rightarrow> set s = {}
        | Some x \<Rightarrow> x \<in> set s \<and> (\<forall>y \<in> set s. score_cmp x y \<noteq> Greater)" if inj: "inj_on snd (set s)" for s
  proof (cases s)
    case (Cons a t)
    let ?x = "fold pick s (hd s)"
    have "insert (hd s) (set s) = set s" using Cons by auto
    with fold_pick [of "hd s" s] inj have x: "?x \<in> set s" "\<forall>y \<in> set s. lex_le ?x y" by auto
    have "score_cmp ?x y \<noteq> Greater" if "y \<in> set s" for y
      using score_cmp_lex [of ?x y] x that inj by (auto simp: inj_on_def)
    with x(1) Cons show ?thesis by (simp add: list_skiplist_def)
  qed (simp add: list_skiplist_def)
  then show ?thesis unfolding skiplist_ok_def by (auto simp: list_skiplist_def)
qed

section \<open>Properties\<close>


definition cached_buf :: "u64 \<Rightarrow> usize \<Rightarrow> aligned_buf" where
  "cached_buf off lim = \<lparr>ab_wal_offset = off, ab_buf = [1, 2, 3, 4], ab_capacity = 4, ab_limit = lim\<rparr>"

lemmas bc_eval = cached_buf_def bt_empty_def bt_get_def entry_new_def e_capacity_def score_key_def
  e_score_def e_wal_offset_def is_loaded_def list_skiplist_def as_u32_def


text \<open>
  C22. A cache hit is complete. When \<open>try_get_entries\<close> returns buffers, every byte of the query
  is in one of them, except bytes behind the unaligned end of an entry, which is the tail of
  the block still being written.
\<close>

theorem try_get_hit:
  assumes q: "query_ok c r" and get: "try_get_entries sl c r now = (c', Ok (Some bufs))" and x: "in_range r x"
  shows "(\<exists>b \<in> set bufs. ab_wal_offset b \<le> x \<and> x < ab_wal_offset b + ab_limit b) \<or> behind_tail c x"
  using q
proof (cases rule: try_get_cases [where sl = sl and now = now])
  case none
  with get show ?thesis by simp
next
  case (some ms l c1 missed)
  with get have "missed = []" and bufs: "bufs = List.map_filter (e_buf \<circ> snd) (hits c r)"
    "length bufs = length (hits c r)" by (auto simp: Let_def split: if_splits)
  with missed_exact(2) [OF q some(1,2) x] some(3) consider "behind_tail c x" | "cached c x" by auto
  then show ?thesis
  proof cases
    case 2
    with hits_iff [OF q x] obtain ke where ke: "ke \<in> set (hits c r)" "in_entry (snd ke) x" by blast
    with map_filter_all [of "e_buf \<circ> snd" "hits c r" ke] bufs
    obtain b where b: "b \<in> set bufs" "e_buf (snd ke) = Some b" by auto
    moreover have "tiled_entry (bc_wal_offset c) ke"
      using ke(1) q by (simp add: hits_def query_ok_def tiled_def)
    ultimately have "e_wal_offset (snd ke) = ab_wal_offset b" "e_len (snd ke) = ab_limit b"
      by (auto simp: tiled_entry_def e_wal_offset_def e_len_def cast_simps)
    with b(1) ke(2) show ?thesis by (auto simp: in_entry_def)
  qed simp
qed

definition sample_cache :: "score_key list block_cache" where
  "sample_cache = \<lparr>bc_wal_offset = 0,
     entries = [(4, entry_new (cached_buf 4 4) 1), (8, entry_new (cached_buf 8 2) 2)],
     score_list = [(1, 4), (2, 8)], cache_size = 8, bc_alignment = 4\<rparr>"

lemmas sample_cache_eval = sample_cache_def cached_buf_def entry_new_def query_ok_def tiled_def tiled_entry_def
  e_wal_offset_def e_len_def bt_wf_def as_u32_def try_get_entries_def checked_sub_def visited_def start_key_def
  bt_upper_bound_def bt_last_def e_covers_partial_def ab_covers_partial_def List.map_filter_simps in_range_def
  behind_tail_def

theorem try_get_hit_witness:
  "\<exists>c' bufs. try_get_entries list_skiplist sample_cache \<lparr>er_wal_offset = 4, er_len = 6\<rparr> (\<lambda>_. 9) = (c', Ok (Some bufs)) \<and>
     (\<exists>b \<in> set bufs. ab_wal_offset b \<le> 9 \<and> 9 < ab_wal_offset b + ab_limit b)"
proof -
  let ?r = "\<lparr>er_wal_offset = 4, er_len = 6\<rparr>"
  have q: "query_ok sample_cache ?r" by (simp add: sample_cache_eval)
  obtain c' bufs where g: "try_get_entries list_skiplist sample_cache ?r (\<lambda>_. 9) = (c', Ok (Some bufs))"
    by (simp add: sample_cache_eval)
  have "in_range ?r 9" "\<not> behind_tail sample_cache 9" by (simp_all add: sample_cache_eval)
  with try_get_hit [OF q g, of 9] g show ?thesis by blast
qed



text \<open>
  \<open>remove_by_score\<close> evicts an entry no reader references, and among the loaded entries
  one of the lowest score; nothing else leaves the map.
\<close>

theorem evict_lowest:
  assumes sl: "skiplist_ok sl items" and inv: "cache_inv items c"
    and rm: "remove_by_score sl c = Ok (c', Some e)"
  shows "\<not> is_strong_referenced e \<and>
         (\<exists>k. (k, e) \<in> set (entries c) \<and> entries c' = bt_remove k (entries c)) \<and>
         (\<forall>ke \<in> set (entries c). is_loaded (snd ke) \<longrightarrow> e_score e \<le> e_score (snd ke))"
proof -
  from rm obtain f where f: "front_entry sl c = Some f" "\<not> is_strong_referenced f"
    and rb: "remove_by sl c (e_wal_offset f) = Ok (c', Some e)"
    by (auto simp: remove_by_score_def split: option.splits if_splits)
  note front = front_entry_Some [OF sl inv f(1)]
  from inv have ok: "entries_ok (bc_wal_offset c) (entries c)" "score_ok (entries c) (items (score_list c))"
    by (simp_all add: cache_inv_def)
  let ?k = "rel_key (bc_wal_offset c) f"
  have get: "bt_get ?k (entries c) = Some f" using front cache_inv_get [OF inv] by simp
  have base: "bc_wal_offset c \<le> e_wal_offset f" using entries_ok_key [OF ok(1)] front by blast
  have e: "e = f" and c': "entries c' = bt_remove ?k (entries c)"
    using rb get base
    by (auto simp: remove_by_def checked_sub_def rel_key_def release_entry_entries outcome_simps)
  have "e_score f \<le> e_score (snd ke)" if ke: "ke \<in> set (entries c)" "is_loaded (snd ke)" for ke
  proof -
    have "score_key (snd ke) \<in> items (score_list c)" using ok(2) ke by (auto simp: score_ok_def split_beta)
    with front have "score_cmp (score_key f) (score_key (snd ke)) \<noteq> Greater" by blast
    then consider "e_wal_offset f = e_wal_offset (snd ke)" | "e_score f \<le> e_score (snd ke)"
      by (force simp: score_cmp_def cmp_nat_def score_key_def split: if_splits cmp_ordering.splits)
    then show ?thesis
    proof cases
      case 1
      then show ?thesis
        using entries_ok_same [OF ok(1), of ?k f "fst ke" "snd ke"] front ke by (simp add: rel_key_def)
    qed
  qed
  with e c' f(2) front show ?thesis by blast
qed

theorem evict_lowest_witness:
  "\<exists>c' e. remove_by_score list_skiplist sample_cache = Ok (c', Some e) \<and> e_wal_offset e = 4 \<and>
     \<not> is_strong_referenced e"
proof -
  have inv: "cache_inv set sample_cache"
    by (simp add: cache_inv_def sample_cache_def bc_eval entries_ok_def score_ok_def loaded_size_def
        bt_wf_def rel_key_def)
  let ?e = "entry_new (cached_buf 4 4) 1"
  obtain c' where rm: "remove_by_score list_skiplist sample_cache = Ok (c', Some ?e)"
    by (simp add: remove_by_score_def front_entry_def remove_by_def release_entry_def checked_sub_def
        sample_cache_def bc_eval pick_def score_cmp_def cmp_nat_def is_strong_referenced_def)
  have "e_wal_offset ?e = 4" by (simp add: bc_eval)
  with evict_lowest [OF list_skiplist_ok inv rm] rm show ?thesis by blast
qed

text \<open>
  \<open>merge\<close> covers exactly the bytes of its input ranges, in ascending ranges with a gap
  between any two, so the fewest read tasks are issued, as long as the ranges together span less
  than 4 GiB.
\<close>

theorem merge_exact:
  assumes "\<forall>r \<in> set rs. lo \<le> er_wal_offset r \<and> er_wal_offset r + er_len r \<le> hi" and "hi < lo + 2 ^ 32"
  shows "(\<forall>x. (\<exists>m \<in> set (merge rs). in_range m x) \<longleftrightarrow> (\<exists>r \<in> set rs. in_range r x)) \<and>
         sorted_wrt (\<lambda>a b. er_wal_offset a + er_len a < er_wal_offset b) (merge rs)"
  using merge_loop_spec [of "sort_key er_wal_offset rs" "[]" hi lo] assms
  by (simp add: merge_def covered_def separated_def)

theorem merge_exact_witness:
  "merge [\<lparr>er_wal_offset = 8, er_len = 4\<rparr>, \<lparr>er_wal_offset = 0, er_len = 4\<rparr>, \<lparr>er_wal_offset = 2, er_len = 4\<rparr>] =
     [\<lparr>er_wal_offset = 0, er_len = 6\<rparr>, \<lparr>er_wal_offset = 8, er_len = 4\<rparr>] \<and>
   (\<exists>m \<in> set (merge [\<lparr>er_wal_offset = 8, er_len = 4\<rparr>, \<lparr>er_wal_offset = 0, er_len = 4\<rparr>, \<lparr>er_wal_offset = 2, er_len = 4\<rparr>]).
      in_range m 5)"
  using merge_exact [of "[\<lparr>er_wal_offset = 8, er_len = 4\<rparr>, \<lparr>er_wal_offset = 0, er_len = 4\<rparr>, \<lparr>er_wal_offset = 2, er_len = 4\<rparr>]" 0 12]
  by (simp add: merge_def sort_key_def as_u32_def) (simp add: in_range_def)

lemma retain_loop_underflow:
  "\<exists>ke \<in> set m. pred (snd ke) \<and> 0 < e_capacity (snd ke) \<Longrightarrow> retain_loop sl pred m s 0 = Panic"
proof (induction m arbitrary: s)
  case (Cons ke m)
  obtain k e where ke: "ke = (k, e)" by (cases ke)
  show ?case
  proof (cases "\<exists>ke \<in> set m. pred (snd ke) \<and> 0 < e_capacity (snd ke)")
    case True
    then have "retain_loop sl pred m s' 0 = Panic" for s' by (rule Cons.IH)
    then show ?thesis by (simp add: ke sub_or_panic_def)
  next
    case False
    with Cons.prems ke have "pred e" "0 < e_capacity e" by auto
    then show ?thesis by (simp add: ke sub_or_panic_def)
  qed
qed simp

text \<open>
  \<open>remove\<close> charges entries that were never accounted for: while nothing is loaded, dropping
  a loading entry of positive length underflows the accounted size and aborts the process.
\<close>

theorem remove_loading_underflow:
  assumes "cache_inv items c" and "\<forall>ke \<in> set (entries c). \<not> is_loaded (snd ke)"
    and "ke \<in> set (entries c)" and "pred (snd ke)" and "0 < e_capacity (snd ke)"
  shows "bc_remove sl c pred = Panic"
proof -
  have "loaded_size m = 0" if "\<forall>ke \<in> set m. \<not> is_loaded (snd ke)" for m
    using that by (induction m) (auto simp: loaded_size_def)
  with assms(1,2) have "cache_size c = 0" by (simp add: cache_inv_def)
  moreover have "retain_loop sl pred (entries c) (score_list c) 0 = Panic"
    using assms(3-) by (intro retain_loop_underflow) blast
  ultimately show ?thesis by (simp add: bc_remove_def)
qed

theorem remove_loading_underflow_witness:
  "\<exists>c. add_loading_entry list_skiplist (bc_new list_skiplist 4 0) \<lparr>er_wal_offset = 0, er_len = 4\<rparr> 1 = Ok c \<and>
     bc_remove list_skiplist c (\<lambda>e. e_wal_offset e = 0) = Panic"
proof -
  obtain c where c: "add_loading_entry list_skiplist (bc_new list_skiplist 4 0) \<lparr>er_wal_offset = 0, er_len = 4\<rparr> 1 = Ok c"
    by (simp add: add_loading_entry_def bc_new_def bc_eval)
  have "cache_inv set c"
    using cache_reach_inv [OF _ list_skiplist_ok, of 4 0 c] cache_step.add_loading [OF c]
    unfolding cache_reach_def by blast
  from remove_loading_underflow [OF this, of "hd (entries c)" "\<lambda>e. e_wal_offset e = 0" list_skiplist] c
  show ?thesis by (auto simp: add_loading_entry_def bc_new_def bc_eval new_loading_entry_def)
qed

end
