(* ===== verification/Buf_Writer.thy ===== *)
theory Buf_Writer
  imports Aligned_Buf
begin

text \<open>
  The append side of the log buffers, \<open>src/components/store/src/io/buf/aligned_buf_writer.rs\<close>:
  a cursor in WAL space, the buffers that are full, the one being filled, and the ones
  allocated ahead. The lemmas relate it to the byte string it stands for: \<open>write\<close> appends,
  \<open>reserve_to\<close> makes room without touching data, \<open>take\<close> hands out a prefix.
\<close>

section \<open>Model\<close>

record buf_writer =
  cursor :: u64
  alignment :: usize
  full :: "aligned_buf list"
  current :: "aligned_buf option"
  allocated :: "aligned_buf list"
  buffering :: bool

definition bw_new :: "u64 \<Rightarrow> usize \<Rightarrow> buf_writer" where
  "bw_new c al = \<lparr>cursor = c, alignment = al, full = [], current = None, allocated = [],
     buffering = False\<rparr>"

definition reset_cursor :: "buf_writer \<Rightarrow> u64 \<Rightarrow> buf_writer" where
  "reset_cursor w c = w\<lparr>cursor := c\<rparr>"

definition rebase_buf :: "buf_writer \<Rightarrow> aligned_buf \<Rightarrow> buf_writer" where
  "rebase_buf w b = w\<lparr>current := Some b\<rparr>"

definition max_allocated_wal_offset :: "buf_writer \<Rightarrow> u64" where
  "max_allocated_wal_offset w =
     (if allocated w \<noteq> []
      then ab_wal_offset (last (allocated w)) + ab_capacity (last (allocated w))
      else case current w of
             Some b \<Rightarrow> ab_wal_offset b + ab_capacity b
           | None \<Rightarrow> cursor w)"

text \<open>
  \<open>reserve_to\<close>: complete blocks first, then one block for the remainder. Allocating across a
  segment boundary panics, and so does a zero file size or alignment (division).
\<close>

definition reserve_to ::
  "buf_writer \<Rightarrow> u64 \<Rightarrow> usize \<Rightarrow> buf_writer \<times> (store_error, unit) outcome" where
  "reserve_to w wal_offset file_size =
     (let mx = max_allocated_wal_offset w in
      if wal_offset \<le> mx then (w, Ok ())
      else if file_size = 0 then (w, Panic)
      else if mx div file_size \<noteq> (wal_offset - 1) div file_size then (w, Panic)
      else
        let additional = wal_offset - mx;
            blocks = (if additional \<ge> alignment w
                      then if alignment w = 0 then Panic
                           else fmap_ok Some (ab_new mx (additional div alignment w * alignment w)
                                                   (alignment w))
                      else Ok None)
        in case blocks of
             Panic \<Rightarrow> (w, Panic)
           | Err e \<Rightarrow> (w, Err e)
           | Ok ob \<Rightarrow>
               let w1 = (case ob of None \<Rightarrow> w | Some b \<Rightarrow> w\<lparr>allocated := allocated w @ [b]\<rparr>);
                   offset = (case ob of None \<Rightarrow> mx | Some b \<Rightarrow> mx + ab_capacity b)
               in if additional mod alignment w \<noteq> 0
                  then case ab_new offset (alignment w) (alignment w) of
                         Panic \<Rightarrow> (w1, Panic)
                       | Err e \<Rightarrow> (w1, Err e)
                       | Ok b \<Rightarrow> (w1\<lparr>allocated := allocated w1 @ [b]\<rparr>, Ok ())
                  else (w1, Ok ()))"

definition swap :: "buf_writer \<Rightarrow> buf_writer \<times> (store_error, unit) outcome" where
  "swap w =
     (case allocated w of
        [] \<Rightarrow> (w, Err OutOfMemory)
      | b # rest \<Rightarrow>
          (case current w of
             None \<Rightarrow> (w\<lparr>allocated := rest, current := Some b\<rparr>, Ok ())
           | Some prev \<Rightarrow>
               (w\<lparr>allocated := rest, current := Some b, full := full w @ [prev]\<rparr>, Ok ())))"

lemma swap_decreases:
  "swap w = (w', Ok u) \<Longrightarrow> length (allocated w') < length (allocated w)"
  by (auto simp: swap_def split: list.splits option.splits)

text \<open>The loop of \<open>write\<close>; every further iteration has taken one allocated buffer.\<close>

function write_loop ::
  "buf_writer \<Rightarrow> bytes \<Rightarrow> usize \<Rightarrow> buf_writer \<times> (store_error, usize) outcome" where
  "write_loop w data pos =
     (case current w of
        Some b \<Rightarrow>
          let r = ab_remaining b in
          if r \<ge> length data - pos
          then (w\<lparr>current := Some (fst (write_buf b (cursor w + pos) (drop pos data)))\<rparr>,
                Ok (pos + length (drop pos data)))
          else
            (case swap (w\<lparr>current :=
                       Some (fst (write_buf b (cursor w + pos) (take r (drop pos data))))\<rparr>) of
               (w', Ok _) \<Rightarrow> write_loop w' data (pos + r)
             | (w', Err e) \<Rightarrow> (w', Err e)
             | (w', Panic) \<Rightarrow> (w', Panic))
      | None \<Rightarrow>
          (case swap w of
             (w', Ok _) \<Rightarrow> write_loop w' data pos
           | (w', Err e) \<Rightarrow> (w', Err e)
           | (w', Panic) \<Rightarrow> (w', Panic)))"
  by pat_completeness auto
termination
proof (relation "measure (\<lambda>(w, _, _). length (allocated w))", goal_cases)
  case 1
  then show ?case by simp
next
  case 2
  then show ?case by (auto dest: swap_decreases [OF sym])
next
  case 3
  then show ?case by (auto dest: swap_decreases [OF sym])
qed

declare write_loop.simps [simp del]

definition bw_write :: "buf_writer \<Rightarrow> bytes \<Rightarrow> buf_writer \<times> (store_error, unit) outcome" where
  "bw_write w data =
     (case write_loop w data 0 of
        (w', Ok _) \<Rightarrow> (w'\<lparr>cursor := cursor w' + length data, buffering := True\<rparr>, Ok ())
      | (w', Err e) \<Rightarrow> (w', Err e)
      | (w', Panic) \<Rightarrow> (w', Panic))"

definition bw_write_u32 :: "buf_writer \<Rightarrow> u32 \<Rightarrow> buf_writer \<times> (store_error, unit) outcome" where
  "bw_write_u32 w v = bw_write w (be_bytes 4 v)"

definition bw_write_u64 :: "buf_writer \<Rightarrow> u64 \<Rightarrow> buf_writer \<times> (store_error, unit) outcome" where
  "bw_write_u64 w v = bw_write w (be_bytes 8 v)"

text \<open>
  \<open>take\<close>: \<open>extract_if\<close> visits every full buffer, so the counter ends at their number. The
  partially filled buffer is handed out as a clone of its \<open>Arc\<close>; the model returns its state
  at that moment.
\<close>

definition bw_take :: "buf_writer \<Rightarrow> usize \<Rightarrow> buf_writer \<times> aligned_buf list" where
  "bw_take w slots =
     (let taken = length (full w);
          items = take slots (full w);
          w' = w\<lparr>full := drop slots (full w)\<rparr>
      in if taken < slots
         then (w'\<lparr>buffering := False\<rparr>,
               items @ (case current w of
                          Some b \<Rightarrow> if has_data b then [b] else []
                        | None \<Rightarrow> []))
         else if full w' = []
         then (w'\<lparr>buffering := (case current w of None \<Rightarrow> 0 | Some b \<Rightarrow> ab_limit b) > 0\<rparr>, items)
         else (w', items))"

definition bw_remaining :: "buf_writer \<Rightarrow> usize" where
  "bw_remaining w =
     (case current w of None \<Rightarrow> 0 | Some b \<Rightarrow> ab_remaining b) +
     sum_list (map ab_remaining (allocated w))"

section \<open>Invariant and abstraction\<close>

fun contiguous :: "u64 \<Rightarrow> aligned_buf list \<Rightarrow> bool" where
  "contiguous off [] = True"
| "contiguous off (b # bs) \<longleftrightarrow>
     ab_wal_offset b = off \<and> ab_wf b \<and> contiguous (off + ab_capacity b) bs"

text \<open>
  The buffers tile the WAL: full ones are filled to capacity, allocated ones are empty, and
  the cursor stands at the end of the valid bytes.
\<close>

definition bw_open :: "buf_writer \<Rightarrow> aligned_buf list" where
  "bw_open w = (case current w of None \<Rightarrow> [] | Some b \<Rightarrow> [b])"

definition bw_bytes :: "buf_writer \<Rightarrow> bytes" where
  "bw_bytes w = concat (map ab_valid (full w @ bw_open w))"

definition bw_base :: "buf_writer \<Rightarrow> u64" where
  "bw_base w = cursor w - length (bw_bytes w)"

definition bw_tiled :: "u64 \<Rightarrow> buf_writer \<Rightarrow> bool" where
  "bw_tiled base w \<longleftrightarrow>
     contiguous base (full w @ bw_open w @ allocated w) \<and>
     (\<forall>b \<in> set (full w). ab_limit b = ab_capacity b) \<and>
     (\<forall>b \<in> set (allocated w). ab_limit b = 0) \<and>
     (current w = None \<longrightarrow> full w = [])"

definition bw_inv :: "u64 \<Rightarrow> buf_writer \<Rightarrow> bool" where
  "bw_inv base w \<longleftrightarrow> bw_tiled base w \<and> cursor w = base + length (bw_bytes w)"

lemma contiguous_append:
  "contiguous off (xs @ ys) \<longleftrightarrow>
     contiguous off xs \<and> contiguous (off + sum_list (map ab_capacity xs)) ys"
  by (induction xs arbitrary: off) (auto simp: add.assoc)

lemma contiguous_wf: "contiguous off bs \<Longrightarrow> b \<in> set bs \<Longrightarrow> ab_wf b"
  by (induction bs arbitrary: off) auto

lemma bw_new_inv: "bw_inv c (bw_new c al)"
  by (simp add: bw_inv_def bw_tiled_def bw_new_def bw_bytes_def bw_open_def)

lemmas bw_defs = bw_tiled_def bw_bytes_def bw_open_def bw_remaining_def

text \<open>The cursor and the flag are not part of what the buffers hold.\<close>

lemma bw_frame [simp]:
  "bw_bytes (w\<lparr>cursor := c\<rparr>) = bw_bytes w" "bw_bytes (w\<lparr>buffering := f\<rparr>) = bw_bytes w"
  "bw_tiled base (w\<lparr>cursor := c\<rparr>) = bw_tiled base w"
  "bw_tiled base (w\<lparr>buffering := f\<rparr>) = bw_tiled base w"
  "bw_remaining (w\<lparr>cursor := c\<rparr>) = bw_remaining w"
  "bw_remaining (w\<lparr>buffering := f\<rparr>) = bw_remaining w"
  by (simp_all add: bw_defs)

lemma swap_spec:
  assumes tiled: "bw_tiled base w" and al: "allocated w = b # rest"
    and filled: "\<And>prev. current w = Some prev \<Longrightarrow> ab_limit prev = ab_capacity prev"
  obtains w' where "swap w = (w', Ok ())" and "bw_tiled base w'" and "bw_bytes w' = bw_bytes w"
    and "bw_remaining w' = bw_remaining w" and "current w' = Some b"
    and "cursor w' = cursor w" and "alignment w' = alignment w"
proof (cases "current w")
  case None
  let ?w = "w\<lparr>allocated := rest, current := Some b\<rparr>"
  have "swap w = (?w, Ok ())" using al None by (simp add: swap_def)
  then show ?thesis
    by (rule that) (use tiled al None in \<open>auto simp: bw_defs ab_valid_def\<close>)
next
  case (Some prev)
  let ?w = "w\<lparr>allocated := rest, current := Some b, full := full w @ [prev]\<rparr>"
  have "swap w = (?w, Ok ())" using al Some by (simp add: swap_def)
  then show ?thesis
    by (rule that)
      (use tiled al Some filled in \<open>auto simp: bw_defs ab_valid_def ab_remaining_def\<close>)
qed

text \<open>Filling the current buffer.\<close>

lemma fill_current:
  fixes c :: u64
  assumes tiled: "bw_tiled base w" and cur: "current w = Some b"
    and fits: "length d \<le> ab_remaining b"
  defines "w' \<equiv> w\<lparr>current := Some (fst (write_buf b c d))\<rparr>"
  shows "bw_tiled base w'" and "bw_bytes w' = bw_bytes w @ d"
    and "bw_remaining w' + length d = bw_remaining w"
    and "ab_remaining (the (current w')) + length d = ab_remaining b"
proof -
  obtain b' ok where wb: "write_buf b c d = (b', ok)" by fastforce
  have wf: "ab_wf b" using tiled cur by (auto simp: bw_defs contiguous_append)
  have "ab_limit b + length d \<le> ab_capacity b"
    using fits wf unfolding ab_remaining_def ab_wf_def by linarith
  note spec = write_buf_spec [OF wf this wb]
  have w': "w' = w\<lparr>current := Some b'\<rparr>" by (simp add: w'_def wb)
  show "bw_tiled base w'"
    using tiled cur spec by (auto simp: w' bw_defs contiguous_append)
  show "bw_bytes w' = bw_bytes w @ d"
    using cur spec by (simp add: w' bw_defs)
  have "ab_limit b' \<le> ab_capacity b'" using spec(2) by (simp add: ab_wf_def)
  then show "ab_remaining (the (current w')) + length d = ab_remaining b"
    using spec by (simp add: w' ab_remaining_def)
  with cur show "bw_remaining w' + length d = bw_remaining w"
    by (simp add: w' bw_remaining_def)
qed

lemma bw_remaining_Some: "current w = Some b \<Longrightarrow> ab_remaining b \<le> bw_remaining w"
  by (simp add: bw_remaining_def)

lemma write_loop_spec:
  assumes "bw_tiled base w" and "pos < length data \<or> current w \<noteq> None"
    and "pos \<le> length data" and "length data - pos \<le> bw_remaining w"
  shows "\<exists>w'. write_loop w data pos = (w', Ok (length data)) \<and> bw_tiled base w' \<and>
           bw_bytes w' = bw_bytes w @ drop pos data \<and>
           bw_remaining w' + (length data - pos) = bw_remaining w \<and>
           cursor w' = cursor w \<and> alignment w' = alignment w"
  using assms
proof (induction w data pos rule: write_loop.induct)
  case (1 w data pos)
  show ?case
  proof (cases "current w")
    case None
    with 1 have "0 < sum_list (map ab_remaining (allocated w))"
      by (auto simp: bw_remaining_def)
    then obtain b rest where al: "allocated w = b # rest"
      by (cases "allocated w") auto
    obtain w1 where sw: "swap w = (w1, Ok ())" and t1: "bw_tiled base w1"
      and by1: "bw_bytes w1 = bw_bytes w" and r1: "bw_remaining w1 = bw_remaining w"
      and c1: "current w1 = Some b" and k1: "cursor w1 = cursor w" "alignment w1 = alignment w"
      by (rule swap_spec [OF "1.prems"(1) al]) (simp_all add: None)
    have "write_loop w data pos = write_loop w1 data pos"
      using None sw by (simp add: write_loop.simps [of w])
    with "1.IH"(1) [OF None sw [symmetric] refl t1] "1.prems" c1 by1 r1 k1
    show ?thesis by simp
  next
    case (Some b)
    let ?r = "ab_remaining b"
    show ?thesis
    proof (cases "?r \<ge> length data - pos")
      case True
      let ?w = "w\<lparr>current := Some (fst (write_buf b (cursor w + pos) (drop pos data)))\<rparr>"
      have "write_loop w data pos = (?w, Ok (length data))"
        using Some True "1.prems"(3) by (simp add: write_loop.simps [of w])
      then show ?thesis
        using fill_current [OF "1.prems"(1) Some, of "drop pos data" "cursor w + pos"] True
        by auto
    next
      case False
      let ?d = "take ?r (drop pos data)"
      let ?w = "w\<lparr>current := Some (fst (write_buf b (cursor w + pos) ?d))\<rparr>"
      have len: "length ?d = ?r" using False by simp
      note fc = fill_current [OF "1.prems"(1) Some, of ?d "cursor w + pos", unfolded len, simplified]
      have "0 < sum_list (map ab_remaining (allocated w))"
        using False "1.prems"(4) Some by (simp add: bw_remaining_def)
      then obtain nb rest where al: "allocated ?w = nb # rest"
        by (cases "allocated w") auto
      have wf: "ab_wf (fst (write_buf b (cursor w + pos) ?d))"
        using fc(1) by (auto simp: bw_defs contiguous_append)
      obtain w1 where sw: "swap ?w = (w1, Ok ())" and t1: "bw_tiled base w1"
        and by1: "bw_bytes w1 = bw_bytes ?w" and r1: "bw_remaining w1 = bw_remaining ?w"
        and c1: "current w1 = Some nb" and k1: "cursor w1 = cursor w" "alignment w1 = alignment w"
        by (rule swap_spec [OF fc(1) al]) (use fc(4) wf in \<open>auto simp: ab_remaining_def ab_wf_def\<close>)
      have eq: "write_loop w data pos = write_loop w1 data (pos + ?r)"
        using Some False sw by (simp add: write_loop.simps [of w data pos])
      have "\<exists>w'. write_loop w1 data (pos + ?r) = (w', Ok (length data)) \<and> bw_tiled base w' \<and>
           bw_bytes w' = bw_bytes w1 @ drop (pos + ?r) data \<and>
           bw_remaining w' + (length data - (pos + ?r)) = bw_remaining w1 \<and>
           cursor w' = cursor w1 \<and> alignment w' = alignment w1"
        using "1.IH"(2) [OF Some refl False sw [symmetric] refl t1] False c1 r1 fc(3) "1.prems"(4)
        by simp
      moreover have "?d @ drop (pos + ?r) data = drop pos data"
        by (metis append_take_drop_id drop_drop add.commute)
      ultimately show ?thesis
        using eq by1 r1 k1 fc(2,3) False by auto
    qed
  qed
qed

section \<open>write\<close>

lemma bw_write_spec:
  assumes inv: "bw_inv base w" and data: "data \<noteq> [] \<or> current w \<noteq> None"
    and room: "length data \<le> bw_remaining w"
  shows "\<exists>w'. bw_write w data = (w', Ok ()) \<and> bw_inv base w' \<and>
           bw_bytes w' = bw_bytes w @ data \<and> cursor w' = cursor w + length data \<and>
           bw_remaining w' + length data = bw_remaining w \<and>
           alignment w' = alignment w \<and> buffering w'"
proof -
  obtain w1 where loop: "write_loop w data 0 = (w1, Ok (length data))" and "bw_tiled base w1"
    and "bw_bytes w1 = bw_bytes w @ data" and "bw_remaining w1 + length data = bw_remaining w"
    and "cursor w1 = cursor w" and "alignment w1 = alignment w"
    using write_loop_spec [of base w 0 data] assms by (auto simp: bw_inv_def)
  moreover from loop
  have "bw_write w data = (w1\<lparr>cursor := cursor w1 + length data, buffering := True\<rparr>, Ok ())"
    by (simp add: bw_write_def)
  ultimately show ?thesis
    using inv by (simp add: bw_inv_def)
qed

section \<open>reserve\_to\<close>

lemma contiguous_last:
  "contiguous off bs \<Longrightarrow> bs \<noteq> [] \<Longrightarrow>
     ab_wal_offset (last bs) + ab_capacity (last bs) = off + sum_list (map ab_capacity bs)"
  by (induction bs arbitrary: off) auto

lemma length_full_bytes:
  "\<forall>b \<in> set bs. ab_wf b \<and> ab_limit b = ab_capacity b \<Longrightarrow>
     length (concat (map ab_valid bs)) = sum_list (map ab_capacity bs)"
  by (induction bs) auto

lemma remaining_empty:
  "\<forall>b \<in> set bs. ab_limit b = 0 \<Longrightarrow>
     sum_list (map ab_remaining bs) = sum_list (map ab_capacity bs)"
  by (induction bs) (auto simp: ab_remaining_def)

text \<open>The room left is exactly the distance from the cursor to the end of what is allocated.\<close>

lemma bw_remaining_eq:
  assumes "bw_inv base w"
  shows "cursor w + bw_remaining w = max_allocated_wal_offset w"
proof -
  have t: "contiguous base (full w @ bw_open w @ allocated w)"
    and f: "\<forall>b \<in> set (full w). ab_limit b = ab_capacity b"
    and a: "\<forall>b \<in> set (allocated w). ab_limit b = 0" and n: "current w = None \<longrightarrow> full w = []"
    and c: "cursor w = base + length (bw_bytes w)"
    using assms by (auto simp: bw_inv_def bw_tiled_def)
  have len: "length (concat (map ab_valid (full w))) = sum_list (map ab_capacity (full w))"
    using f contiguous_wf [OF t] by (intro length_full_bytes) auto
  have al: "sum_list (map ab_remaining (allocated w)) = sum_list (map ab_capacity (allocated w))"
    using a by (rule remaining_empty)
  have mx: "max_allocated_wal_offset w =
      base + sum_list (map ab_capacity (full w @ bw_open w @ allocated w))"
  proof (cases "allocated w = []")
    case False
    with contiguous_last [OF t] show ?thesis by (simp add: max_allocated_wal_offset_def)
  next
    case True
    then show ?thesis
      using t n c by (auto simp: max_allocated_wal_offset_def bw_open_def bw_bytes_def
          contiguous_append split: option.split)
  qed
  show ?thesis
  proof (cases "current w")
    case None
    with n c mx al show ?thesis by (simp add: bw_defs)
  next
    case (Some b)
    then have "ab_wf b" using t by (simp add: bw_open_def contiguous_append)
    then have "length (ab_valid b) + ab_remaining b = ab_capacity b"
      by (simp add: ab_wf_def ab_valid_def ab_remaining_def)
    with Some len c mx al show ?thesis by (simp add: bw_bytes_def bw_open_def bw_remaining_def)
  qed
qed

text \<open>Appending an empty buffer at the end of what is allocated.\<close>

lemma add_allocated:
  assumes inv: "bw_inv base w" and new: "ab_new (max_allocated_wal_offset w) n al = Ok b"
  defines "w' \<equiv> w\<lparr>allocated := allocated w @ [b]\<rparr>"
  shows "bw_inv base w'" and "bw_bytes w' = bw_bytes w"
    and "max_allocated_wal_offset w' = max_allocated_wal_offset w + align_up al n"
    and "bw_remaining w' = bw_remaining w + align_up al n"
proof -
  note b = ab_new_Ok [OF new]
  show bytes: "bw_bytes w' = bw_bytes w" by (simp add: w'_def bw_bytes_def bw_open_def)
  show mx': "max_allocated_wal_offset w' = max_allocated_wal_offset w + align_up al n"
    using b by (simp add: w'_def max_allocated_wal_offset_def [of "w\<lparr>allocated := _\<rparr>"])
  let ?bs = "full w @ bw_open w @ allocated w"
  have t: "bw_tiled base w" using inv by (simp add: bw_inv_def)
  have "base + sum_list (map ab_capacity ?bs) = max_allocated_wal_offset w"
  proof (cases "?bs = []")
    case True
    then show ?thesis
      using inv by (auto simp: bw_inv_def bw_bytes_def bw_open_def max_allocated_wal_offset_def
          split: option.splits)
  next
    case False
    have "contiguous base ?bs" using t by (simp add: bw_tiled_def)
    from contiguous_last [OF this False] False t show ?thesis
      by (auto simp: max_allocated_wal_offset_def bw_open_def bw_tiled_def split: option.splits)
  qed
  then have "contiguous base (?bs @ [b])"
    using t b by (simp add: contiguous_append bw_tiled_def ac_simps)
  then have "bw_tiled base w'"
    using t b by (auto simp: w'_def bw_tiled_def bw_open_def)
  then show inv': "bw_inv base w'"
    using inv bytes by (simp add: bw_inv_def w'_def)
  from bw_remaining_eq [OF inv'] bw_remaining_eq [OF inv] mx'
  show "bw_remaining w' = bw_remaining w + align_up al n"
    by (simp add: w'_def)
qed

text \<open>The two allocation steps of \<open>reserve_to\<close>, named.\<close>

lemma reserve_to_cases:
  assumes "reserve_to w off fs = (w', Ok ())" and "\<not> off \<le> max_allocated_wal_offset w"
  defines "mx \<equiv> max_allocated_wal_offset w" and "a \<equiv> alignment w"
  defines "q \<equiv> (off - mx) div a * a"
  obtains (blocks) b w1 where "0 < a" "a \<le> off - mx" "ab_new mx q a = Ok b"
      "w1 = w\<lparr>allocated := allocated w @ [b]\<rparr>"
      "if (off - mx) mod a = 0 then w' = w1
       else \<exists>c. ab_new (mx + ab_capacity b) a a = Ok c \<and> w' = w1\<lparr>allocated := allocated w1 @ [c]\<rparr>"
  | (short) c where "0 < a" "off - mx < a" "ab_new mx a a = Ok c"
      "w' = w\<lparr>allocated := allocated w @ [c]\<rparr>"
proof (cases "a \<le> off - mx")
  case True
  from assms(1,2) True obtain b where a: "0 < a" and new: "ab_new mx q a = Ok b"
    and rest: "(if (off - mx) mod a \<noteq> 0
       then case ab_new (mx + ab_capacity b) a a of
              Panic \<Rightarrow> (w\<lparr>allocated := allocated w @ [b]\<rparr>, Panic)
            | Err e \<Rightarrow> (w\<lparr>allocated := allocated w @ [b]\<rparr>, Err e)
            | Ok c \<Rightarrow> (w\<lparr>allocated := allocated w @ [b] @ [c]\<rparr>, Ok ())
       else (w\<lparr>allocated := allocated w @ [b]\<rparr>, Ok ())) = (w', Ok ())"
    unfolding reserve_to_def mx_def a_def q_def
    by (auto simp: Let_def outcome_simps split: if_splits outcome.splits)
  show ?thesis
    by (rule blocks [OF a True new refl])
      (use rest in \<open>auto split: if_splits outcome.splits\<close>)
next
  case False
  then have m: "(off - mx) mod a = off - mx" "off - mx \<noteq> 0"
    using assms(2) by (simp_all add: mx_def)
  from assms(1,2) False m obtain c where "ab_new mx a a = Ok c"
    and "w' = w\<lparr>allocated := allocated w @ [c]\<rparr>"
    unfolding reserve_to_def mx_def a_def
    by (auto simp: Let_def split: if_splits outcome.splits)
  with False show ?thesis by (intro short) auto
qed

lemma reserve_to_spec:
  assumes inv: "bw_inv base w" and ok: "reserve_to w off fs = (w', Ok ())"
  shows "bw_inv base w' \<and> bw_bytes w' = bw_bytes w \<and> cursor w' = cursor w \<and>
         alignment w' = alignment w \<and> current w' = current w \<and>
         off \<le> max_allocated_wal_offset w' \<and>
         (\<not> off \<le> max_allocated_wal_offset w \<longrightarrow>
            max_allocated_wal_offset w' < off + alignment w)"
proof (cases "off \<le> max_allocated_wal_offset w")
  case True
  with ok have "w' = w" by (simp add: reserve_to_def Let_def)
  with inv True show ?thesis by simp
next
  case False
  let ?mx = "max_allocated_wal_offset w" and ?a = "alignment w"
  let ?q = "(off - ?mx) div ?a * ?a"
  from ok False show ?thesis
  proof (cases rule: reserve_to_cases)
    case (blocks b w1)
    note one = add_allocated [OF inv blocks(3), folded blocks(4)]
    have q: "align_up ?a ?q = ?q" using blocks(1) by (simp add: align_up_id)
    have split: "?q + (off - ?mx) mod ?a = off - ?mx" by simp
    have cap: "ab_capacity b = ?q" using ab_new_Ok(4) [OF blocks(3)] q by simp
    show ?thesis
    proof (cases "(off - ?mx) mod ?a = 0")
      case True
      with blocks one q split False show ?thesis by simp
    next
      case rem: False
      then obtain c where c: "ab_new (?mx + ?q) ?a ?a = Ok c"
        and w': "w' = w1\<lparr>allocated := allocated w1 @ [c]\<rparr>"
        using blocks(5) cap by auto
      then have "ab_new (max_allocated_wal_offset w1) ?a ?a = Ok c"
        using one(3) q by simp
      note two = add_allocated [OF one(1) this, folded w']
      have "(off - ?mx) mod ?a < ?a" using blocks(1) by simp
      then have "off \<le> ?mx + ?q + ?a" and "?mx + ?q < off"
        using split rem False by linarith+
      then show ?thesis
        using one two q False blocks(1,4) w' by (auto simp: align_up_id)
    qed
  next
    case (short c)
    note one = add_allocated [OF inv short(3), folded short(4)]
    then show ?thesis using short False by (auto simp: align_up_id)
  qed
qed

section \<open>take\<close>

lemma bw_bytes_full: "bw_bytes (w\<lparr>full := fs\<rparr>) = concat (map ab_valid fs) @ concat (map ab_valid (bw_open w))"
  by (simp add: bw_bytes_def bw_open_def)

lemma bw_tiled_drop:
  assumes "bw_tiled base w"
  shows "bw_tiled (base + sum_list (map ab_capacity (take n (full w)))) (w\<lparr>full := drop n (full w)\<rparr>)"
proof -
  have "contiguous base (take n (full w) @ drop n (full w) @ bw_open w @ allocated w)"
    using assms by (simp add: bw_tiled_def append_assoc [symmetric] del: append_assoc)
  then show ?thesis
    using assms by (auto simp: bw_tiled_def bw_open_def contiguous_append dest: in_set_dropD)
qed

lemma bw_inv_drop:
  assumes inv: "bw_inv base w"
  shows "bw_inv (base + length (concat (map ab_valid (take n (full w))))) (w\<lparr>full := drop n (full w)\<rparr>)"
    and "bw_bytes w = concat (map ab_valid (take n (full w))) @ bw_bytes (w\<lparr>full := drop n (full w)\<rparr>)"
proof -
  show eq: "bw_bytes w =
      concat (map ab_valid (take n (full w))) @ bw_bytes (w\<lparr>full := drop n (full w)\<rparr>)"
    unfolding bw_bytes_full unfolding bw_bytes_def map_append concat_append append_assoc [symmetric]
    by (simp flip: concat_append map_append)
  have t: "bw_tiled base w" using inv by (simp add: bw_inv_def)
  have "ab_wf b \<and> ab_limit b = ab_capacity b" if "b \<in> set (take n (full w))" for b
    using t that contiguous_wf [of base _ b] by (auto simp: bw_tiled_def dest: in_set_takeD)
  then have "length (concat (map ab_valid (take n (full w)))) =
      sum_list (map ab_capacity (take n (full w)))"
    by (intro length_full_bytes) blast
  with bw_tiled_drop [OF t, of n] inv eq
  show "bw_inv (base + length (concat (map ab_valid (take n (full w))))) (w\<lparr>full := drop n (full w)\<rparr>)"
    by (simp add: bw_inv_def)
qed

section \<open>Properties\<close>

text \<open>
  C25. Reserving before writing is enough. After \<open>reserve_to\<close> has made room up to the cursor
  plus the length of the data, \<open>write\<close> cannot run out of buffers: it succeeds, the bytes the
  writer holds grow by exactly the data, across as many buffers as needed, the cursor moves by
  its length, and the buffers keep tiling the WAL from the same base.
\<close>

theorem reserve_then_write:
  assumes "bw_inv base w" and "data \<noteq> []"
    and "reserve_to w (cursor w + length data) file_size = (w1, Ok ())"
  shows "\<exists>w2. bw_write w1 data = (w2, Ok ()) \<and> bw_inv base w2 \<and>
           bw_bytes w2 = bw_bytes w @ data \<and> cursor w2 = cursor w + length data"
proof -
  note r = reserve_to_spec [OF assms(1,3)]
  then have "length data \<le> bw_remaining w1"
    using bw_remaining_eq [of base w1] by simp
  with r assms(2) bw_write_spec [of base w1 data] show ?thesis by auto
qed

theorem reserve_then_write_witness:
  "\<exists>w1 w2. reserve_to (bw_new 0 4) 6 64 = (w1, Ok ()) \<and> bw_write w1 [1, 2, 3, 4, 5, 6] = (w2, Ok ()) \<and>
     bw_bytes w2 = [1, 2, 3, 4, 5, 6] \<and> cursor w2 = 6"
proof -
  have "(\<exists>k < 64. (4 :: nat) = 2 ^ k)"
    by (rule exI [of _ 2]) simp
  then obtain w1 where r: "reserve_to (bw_new 0 4) (cursor (bw_new 0 4) + length [1, 2, 3, 4, 5, 6 :: byte]) 64 = (w1, Ok ())"
    by (simp add: reserve_to_def bw_new_def max_allocated_wal_offset_def ab_new_def layout_ok_def
        align_up_def)
  have "cursor (bw_new 0 4) + length [1, 2, 3, 4, 5, 6 :: byte] = 6" by (simp add: bw_new_def)
  with r have r6: "reserve_to (bw_new 0 4) 6 64 = (w1, Ok ())" by (simp only:)
  have "bw_bytes (bw_new 0 4) = []" "cursor (bw_new 0 4) = 0"
    by (simp_all add: bw_new_def bw_bytes_def bw_open_def)
  with reserve_then_write [OF bw_new_inv _ r] r6 show ?thesis by auto
qed

text \<open>
  \<open>take\<close> hands out the buffered bytes in order. The items are a prefix of what the writer
  holds, the drained buffers leave the writer and the invariant moves its base past them, and
  when the flag reports that nothing is buffered any more, everything has been handed out.
\<close>

theorem take_hands_out_prefix:
  assumes inv: "bw_inv base w" and flag: "full w \<noteq> [] \<longrightarrow> buffering w"
    and take: "bw_take w slots = (w', items)"
  shows "bw_inv (base + length (concat (map ab_valid (take slots (full w))))) w' \<and>
         (full w' \<noteq> [] \<longrightarrow> buffering w') \<and>
         bw_bytes w = concat (map ab_valid (take slots (full w))) @ bw_bytes w' \<and>
         (\<exists>rest. bw_bytes w = concat (map ab_valid items) @ rest \<and>
                 (\<not> buffering w' \<longrightarrow> rest = []))"
proof -
  let ?w = "w\<lparr>full := drop slots (full w)\<rparr>"
  note d = bw_inv_drop [OF inv, of slots]
  have w': "w' = ?w\<lparr>buffering := buffering w'\<rparr>"
    using take by (auto simp: bw_take_def Let_def split: if_splits)
  have inv': "bw_inv (base + length (concat (map ab_valid (take slots (full w))))) w'"
    using d(1) by (subst w') (simp add: bw_inv_def)
  have bytes: "bw_bytes w' = bw_bytes ?w" by (subst w') simp
  consider (all) "length (full w) < slots" | (exact) "\<not> length (full w) < slots" "drop slots (full w) = []"
    | (more) "\<not> length (full w) < slots" "drop slots (full w) \<noteq> []" by blast
  then show ?thesis
  proof cases
    case all
    have "ab_limit b = 0 \<Longrightarrow> ab_valid b = []" for b by (simp add: ab_valid_def)
    with all take have "concat (map ab_valid items) = bw_bytes w"
      by (auto simp: bw_take_def Let_def bw_bytes_def bw_open_def has_data_def split: option.split)
    with all take inv' d(2) w' show ?thesis
      by (auto simp: bw_take_def Let_def)
  next
    case exact
    have "\<not> buffering w' \<Longrightarrow> concat (map ab_valid (bw_open w)) = []"
      using exact take by (auto simp: bw_take_def Let_def bw_open_def ab_valid_def split: option.splits)
    with exact take inv' d(2) w' show ?thesis
      by (auto simp: bw_take_def Let_def bw_bytes_full)
  next
    case more
    then have "full w \<noteq> []" by auto
    with more take inv' d(2) w' flag show ?thesis
      by (auto simp: bw_take_def Let_def)
  qed
qed

definition sample_writer :: buf_writer where
  "sample_writer = \<lparr>cursor = 5, alignment = 4,
     full = [\<lparr>ab_wal_offset = 0, ab_buf = [1, 2, 3, 4], ab_capacity = 4, ab_limit = 4\<rparr>],
     current = Some \<lparr>ab_wal_offset = 4, ab_buf = [5, 0, 0, 0], ab_capacity = 4, ab_limit = 1\<rparr>,
     allocated = [], buffering = True\<rparr>"

theorem take_hands_out_prefix_witness:
  "bw_inv 0 sample_writer \<and>
   (\<exists>w' items. bw_take sample_writer 8 = (w', items) \<and> \<not> buffering w' \<and>
      concat (map ab_valid items) = [1, 2, 3, 4, 5] \<and> bw_inv 4 w')"
proof -
  have inv: "bw_inv 0 sample_writer"
    by (simp add: sample_writer_def bw_inv_def bw_defs ab_wf_def ab_valid_def)
  obtain w' items where t: "bw_take sample_writer 8 = (w', items)" by fastforce
  have base: "0 + length (concat (map ab_valid (take 8 (full sample_writer)))) = 4"
    by (simp add: sample_writer_def ab_valid_def)
  from take_hands_out_prefix [OF inv _ t, unfolded base] inv t show ?thesis
    by (auto simp: sample_writer_def bw_take_def has_data_def ab_valid_def)
qed

end
