(* ===== verification/Wal_Record.thy ===== *)
theory Wal_Record
  imports Store_Error
begin

text \<open>
  The record prefix of the write-ahead log, \<open>src/components/store/src/io/record.rs\<close>: CRC (4 bytes),
  then length (3 bytes) and type (1 byte) packed into one 32-bit word. The packed word is kept at
  its width: \<open>len << 8\<close> drops the high byte of the length.
\<close>

unbundle bit_operations_syntax

section \<open>Model\<close>

definition RECORD_PREFIX_LENGTH :: u64 where
  "RECORD_PREFIX_LENGTH = 8"

datatype record_type = RZero | RFull | RFirst | RMiddle | RLast

fun record_type_num :: "record_type \<Rightarrow> u8" where
  "record_type_num RZero = 0"
| "record_type_num RFull = 1"
| "record_type_num RFirst = 2"
| "record_type_num RMiddle = 3"
| "record_type_num RLast = 4"

text \<open>\<open>RecordType::try_from\<close> of the derived \<open>TryFromPrimitive\<close>.\<close>

definition record_type_of :: "u8 \<Rightarrow> record_type option" where
  "record_type_of n =
     (if n = 0 then Some RZero else if n = 1 then Some RFull else if n = 2 then Some RFirst
      else if n = 3 then Some RMiddle else if n = 4 then Some RLast else None)"

definition with_length :: "record_type \<Rightarrow> 32 word \<Rightarrow> 32 word" where
  "with_length t len = push_bit 8 len OR of_nat (record_type_num t)"

definition rt_parse :: "32 word \<Rightarrow> (store_error, 32 word \<times> record_type) outcome" where
  "rt_parse val =
     (case record_type_of (unat (val AND 0xFF)) of
        None \<Rightarrow> Err UnsupportedRecordType
      | Some t \<Rightarrow> Ok (drop_bit 8 val, t))"

section \<open>Lemmas\<close>

lemma record_type_of_num [simp]: "record_type_of (record_type_num t) = Some t"
  by (cases t) (simp_all add: record_type_of_def)

lemma record_type_num_of: "record_type_of n = Some t \<Longrightarrow> record_type_num t = n"
  by (auto simp: record_type_of_def split: if_splits)

lemma record_type_num_less [simp]: "record_type_num t < 256"
  by (cases t) simp_all

lemma record_type_num_mask: "(of_nat (record_type_num t) :: 32 word) AND 0xFF = of_nat (record_type_num t)"
  by (cases t) simp_all

lemma record_type_num_drop: "drop_bit 8 (of_nat (record_type_num t) :: 32 word) = 0"
  by (cases t) simp_all

lemma mask8: "(0xFF :: 32 word) = mask 8"
  by (simp add: mask_eq_exp_minus_1)

lemma with_length_low: "with_length t len AND 0xFF = of_nat (record_type_num t)"
proof -
  have "push_bit 8 len AND mask 8 = 0"
    by (rule bit_eqI) (auto simp: bit_simps)
  then show ?thesis
    using record_type_num_mask [of t]
    by (simp add: with_length_def mask8 bit.conj_disj_distrib2)
qed

lemma with_length_high: "drop_bit 8 (with_length t len) = take_bit 24 len"
proof -
  have "drop_bit 8 (push_bit 8 len) = take_bit 24 len"
    by (rule bit_word_eqI) (auto simp: bit_simps)
  then show ?thesis
    by (simp add: with_length_def drop_bit_or record_type_num_drop)
qed

text \<open>The same on unsigned integers, as the segment scan reads the word.\<close>

lemma with_length_len: "n < 2 ^ 24 \<Longrightarrow> unat (drop_bit 8 (with_length t (of_nat n))) = n"
  unfolding with_length_high unsigned_take_bit_eq by (simp add: unat_of_nat take_bit_eq_mod)

lemma record_type_num_word: "unat (of_nat (record_type_num t) :: 32 word) = record_type_num t"
  by (cases t) simp_all

section \<open>Properties\<close>

text \<open>
  The packed length-and-type word of a record reads back to its type and, for a length below
  16 MiB, its length; a longer length is truncated to its low 24 bits.
\<close>

theorem with_length_parse:
  "rt_parse (with_length t len) = Ok (take_bit 24 len, t)"
  by (simp add: rt_parse_def with_length_low with_length_high record_type_num_word)

end
