(* ===== verification/Crc32.thy ===== *)
theory Crc32
  imports Prelude
begin

text \<open>
  The checksum helpers of \<open>src/components/util/src/crc32.rs\<close>. They wrap the external crate
  \<open>crc32fast\<close>, which is a parameter of the model: a record of its entry points. The predicate
  \<open>crc32fast_ok\<close> states the documented behaviour the callers rely on: feeding a hasher piece
  by piece gives the checksum of the concatenation, and a checksum is a 32-bit number.
\<close>

record 'h crc32fast =
  hasher_new :: 'h
  hasher_update :: "'h \<Rightarrow> bytes \<Rightarrow> 'h"
  hasher_finalize :: "'h \<Rightarrow> u32"
  hash_of :: "bytes \<Rightarrow> u32"

definition crc32 :: "('h, 'z) crc32fast_scheme \<Rightarrow> bytes \<Rightarrow> u32" where
  "crc32 H data = hash_of H data"

definition crc32_vectored :: "('h, 'z) crc32fast_scheme \<Rightarrow> bytes list \<Rightarrow> u32" where
  "crc32_vectored H io_vec = hasher_finalize H (foldl (hasher_update H) (hasher_new H) io_vec)"

definition crc32fast_ok :: "('h, 'z) crc32fast_scheme \<Rightarrow> bool" where
  "crc32fast_ok H \<longleftrightarrow>
     (\<forall>io_vec. hasher_finalize H (foldl (hasher_update H) (hasher_new H) io_vec) =
               hash_of H (concat io_vec)) \<and>
     (\<forall>data. hash_of H data < 2 ^ 32)"

lemma crc32_vectored_concat: "crc32fast_ok H \<Longrightarrow> crc32_vectored H io_vec = crc32 H (concat io_vec)"
  by (simp add: crc32fast_ok_def crc32_vectored_def crc32_def)

lemma crc32_less: "crc32fast_ok H \<Longrightarrow> crc32 H data < 2 ^ 32"
  by (simp add: crc32fast_ok_def crc32_def)

text \<open>
  A concrete checksum with these laws, for closed instances of the theorems: the state is the
  running sum of the bytes, weighted by position.
\<close>

definition sum_step :: "nat \<times> nat \<Rightarrow> byte \<Rightarrow> nat \<times> nat" where
  "sum_step s b = (case s of (i, a) \<Rightarrow> (Suc i, (a + (i + 1) * unat b) mod 2 ^ 32))"

definition sum_hasher :: "(nat \<times> nat) crc32fast" where
  "sum_hasher = \<lparr>hasher_new = (0, 0), hasher_update = foldl sum_step,
     hasher_finalize = snd, hash_of = (\<lambda>data. snd (foldl sum_step (0, 0) data))\<rparr>"

lemma foldl_foldl_concat: "foldl (foldl f) a xss = foldl f a (concat xss)"
  by (induction xss arbitrary: a) auto

lemma sum_step_less: "snd s < 2 ^ 32 \<Longrightarrow> snd (foldl sum_step s data) < 2 ^ 32"
proof (induction data arbitrary: s)
  case Nil
  then show ?case by simp
next
  case (Cons b data)
  have "snd (sum_step s b) < 2 ^ 32"
    by (simp add: sum_step_def split: prod.split)
  from Cons.IH [OF this] show ?case by simp
qed

lemma sum_hasher_ok: "crc32fast_ok sum_hasher"
proof -
  have "snd (foldl sum_step (0, 0) data) < 2 ^ 32" for data
    by (rule sum_step_less) simp
  then show ?thesis
    by (simp add: crc32fast_ok_def sum_hasher_def foldl_foldl_concat)
qed

end
