(* ===== verification/Log_Segment.thy ===== *)
theory Log_Segment
  imports Block_Cache Buf_Writer Wal_Record Crc32
begin

text \<open>
  One segment file of the write-ahead log, \<open>src/components/store/src/io/segment.rs\<close>: its name, its
  status, appending records and the footer through the buffer writer, and the reads and the
  truncation the recovery performs through the block cache. The file is its list of bytes; what
  the operating system answers (opening, \<open>fallocate\<close>) is an argument. The clock readings are a
  function of the loop iteration and the entry.
\<close>

section \<open>Model\<close>

definition FOOTER_LENGTH :: u64 where
  "FOOTER_LENGTH = 24"

record store_config =
  cfg_alignment :: usize
  segment_size :: u64
  total_segment_file_size :: u64
  max_cache_size :: u64
  cache_high_watermark :: usize
  recycle :: bool
  wal_path :: string

datatype medium = Ssd | Hdd | S3

record segment_descriptor =
  sd_medium :: medium
  sd_fd :: int
  sd_base_ptr :: u64

datatype status =
    OpenAt | Fallocate64 | Fsync | ReadWrite | Read | Close | UnlinkAt | Recycled | RenameAt string

record time_range =
  tr_begin :: u64
  tr_end :: "u64 option"

record 's log_segment =
  seg_wal_offset :: u64
  seg_size :: u64
  written :: u64
  seg_time_range :: "time_range option"
  seg_cache :: "'s block_cache"
  seg_status :: status
  seg_path :: string
  sd :: "segment_descriptor option"

text \<open>\<open>CString::new\<close> refuses a path with an embedded NUL.\<close>

definition seg_new :: "'s skiplist \<Rightarrow> store_config \<Rightarrow> u64 \<Rightarrow> u64 \<Rightarrow> string \<Rightarrow> (store_error, 's log_segment) outcome" where
  "seg_new sl cfg off sz path =
     (if CHR 0x00 \<in> set path then Err (InvalidPath path)
      else Ok \<lparr>seg_wal_offset = off, seg_size = sz, written = 0, seg_time_range = None,
               seg_cache = bc_new sl (cfg_alignment cfg) off, seg_status = OpenAt,
               seg_path = path, sd = None\<rparr>)"

subsection \<open>File names\<close>

text \<open>The standard library's decimal rendering and parsing of a \<open>u64\<close>.\<close>

definition digit_char :: "nat \<Rightarrow> char" where
  "digit_char d = char_of (48 + d)"

fun decimal :: "nat \<Rightarrow> string" where
  "decimal n = (if n < 10 then [digit_char n] else decimal (n div 10) @ [digit_char (n mod 10)])"

declare decimal.simps [simp del]

definition seg_format :: "u64 \<Rightarrow> string" where
  "seg_format off = replicate (20 - length (decimal off)) (CHR ''0'') @ decimal off"

definition char_digit :: "char \<Rightarrow> nat option" where
  "char_digit c = (let n = of_char c in if 48 \<le> n \<and> n \<le> 57 then Some (n - 48) else None)"

text \<open>Digits are accumulated with \<open>checked_mul\<close> and \<open>checked_add\<close>.\<close>

fun parse_digits :: "u64 \<Rightarrow> string \<Rightarrow> u64 option" where
  "parse_digits acc [] = Some acc"
| "parse_digits acc (c # cs) =
     (case char_digit c of
        None \<Rightarrow> None
      | Some d \<Rightarrow> if acc * 10 + d < 2 ^ 64 then parse_digits (acc * 10 + d) cs else None)"

definition parse_u64 :: "string \<Rightarrow> u64 option" where
  "parse_u64 s =
     (let ds = (case s of c # cs \<Rightarrow> if c = CHR ''+'' then cs else s | [] \<Rightarrow> []) in
      if ds = [] then None else parse_digits 0 ds)"

text \<open>\<open>Path::file_name\<close>: the last component, unless it is \<open>..\<close>.\<close>

definition path_components :: "string \<Rightarrow> string list" where
  "path_components path =
     filter (\<lambda>c. c \<noteq> [] \<and> c \<noteq> ''.'')
       (foldr (\<lambda>c acc. if c = CHR ''/'' then [] # acc else (c # hd acc) # tl acc) path [[]])"

definition file_name :: "string \<Rightarrow> string option" where
  "file_name path =
     (let cs = path_components path in
      if cs = [] \<or> last cs = ''..'' then None else Some (last cs))"

definition parse_offset :: "string \<Rightarrow> u64 option" where
  "parse_offset path = Option.bind (file_name path) parse_u64"

subsection \<open>Opening and status\<close>

text \<open>
  \<open>opened\<close> is the answer of opening the file: an IO error or the descriptor and the file's length;
  \<open>fallocated\<close> is the errno of \<open>fallocate\<close>, if it fails.
\<close>

definition seg_open :: "'s log_segment \<Rightarrow> string + (int \<times> u64) \<Rightarrow> int option \<Rightarrow> 's log_segment \<times> (store_error, unit) outcome" where
  "seg_open seg opened fallocated =
     (if sd seg \<noteq> None then (seg, Ok ())
      else (case opened of
              Inl e \<Rightarrow> (seg, Err (IO e))
            | Inr (fd, file_len) \<Rightarrow>
                let ready = (\<lambda>st. (seg\<lparr>seg_status := st,
                       sd := Some \<lparr>sd_medium = Ssd, sd_fd = fd, sd_base_ptr = 0\<rparr>\<rparr>, Ok ()))
                in if seg_size seg = file_len then ready Read
                   else if file_len = 0
                   then (case fallocated of Some errno \<Rightarrow> (seg, Err (System errno)) | None \<Rightarrow> ready ReadWrite)
                   else (seg, Err DataCorrupted)))"

definition writable :: "'s log_segment \<Rightarrow> bool" where
  "writable seg \<longleftrightarrow> written seg < seg_size seg \<and> seg_status seg = ReadWrite"

definition can_hold :: "'s log_segment \<Rightarrow> u64 \<Rightarrow> bool" where
  "can_hold seg payload_length \<longleftrightarrow>
     seg_status seg \<noteq> Read \<and>
     written seg + RECORD_PREFIX_LENGTH + payload_length + FOOTER_LENGTH \<le> seg_size seg"

definition seg_remaining :: "'s log_segment \<Rightarrow> (store_error, u64) outcome" where
  "seg_remaining seg =
     (if ReadWrite \<noteq> seg_status seg then Ok 0 else sub_or_panic (seg_size seg) (written seg))"

subsection \<open>Appending\<close>

definition checksum_record :: "'h crc32fast \<Rightarrow> bytes list \<Rightarrow> u64 \<Rightarrow> u32" where
  "checksum_record H payload file_offset =
     (let payload_crc = crc32_vectored H payload
      in crc32 H (be_bytes 4 payload_crc @ be_bytes 8 file_offset))"

definition length_type :: "record_type \<Rightarrow> u32 \<Rightarrow> u32" where
  "length_type t len = unat (with_length t (of_nat len))"

text \<open>Three writes in a row; a failing one ends the append with the writer as it then is.\<close>

definition write_record :: "buf_writer \<Rightarrow> u32 \<Rightarrow> u32 \<Rightarrow> bytes \<Rightarrow> buf_writer \<times> (store_error, unit) outcome" where
  "write_record w crc len_type payload =
     (case bw_write_u32 w crc of
        (w1, Ok _) \<Rightarrow>
          (case bw_write_u32 w1 len_type of
             (w2, Ok _) \<Rightarrow> bw_write w2 payload
           | (w2, r) \<Rightarrow> (w2, r))
      | (w1, r) \<Rightarrow> (w1, r))"

definition append_footer :: "'h crc32fast \<Rightarrow> 's log_segment \<Rightarrow> buf_writer
    \<Rightarrow> 's log_segment \<times> buf_writer \<times> (store_error, u64) outcome" where
  "append_footer H seg w =
     (if seg_size seg < written seg + RECORD_PREFIX_LENGTH + 8 + 8 then (seg, w, Panic)
      else
        let padding = seg_size seg - written seg - RECORD_PREFIX_LENGTH - 8 - 8 in
        if as_u32 padding + 8 + 8 \<ge> 2 ^ 32 then (seg, w, Panic)
        else
          let buf = replicate padding 0 @ be_bytes 8 0 @ be_bytes 8 0;
              crc = crc32 H (be_bytes 4 (crc32 H buf) @ be_bytes 8 (seg_wal_offset seg))
          in (case write_record w crc (length_type RZero (as_u32 padding + 8 + 8)) buf of
                (w', Ok _) \<Rightarrow>
                  let seg' = seg\<lparr>written := seg_size seg, seg_status := Read\<rparr>
                  in (seg', w', Ok (seg_wal_offset seg' + written seg'))
              | (w', Err e) \<Rightarrow> (seg, w', Err e)
              | (w', Panic) \<Rightarrow> (seg, w', Panic)))"

definition append_record :: "'h crc32fast \<Rightarrow> 's log_segment \<Rightarrow> buf_writer \<Rightarrow> bytes
    \<Rightarrow> 's log_segment \<times> buf_writer \<times> (store_error, u64) outcome" where
  "append_record H seg w payload =
     (let crc = checksum_record H [payload] (seg_wal_offset seg) in
      case write_record w crc (length_type RFull (as_u32 (length payload))) payload of
        (w', Ok _) \<Rightarrow>
          let seg' = seg\<lparr>written := written seg + 4 + 4 + length payload\<rparr>
          in (seg', w', Ok (seg_wal_offset seg' + written seg'))
      | (w', Err e) \<Rightarrow> (seg, w', Err e)
      | (w', Panic) \<Rightarrow> (seg, w', Panic))"

subsection \<open>Reading through the block cache\<close>

text \<open>The part of a cached buffer inside the bytes asked for.\<close>

definition narrow :: "u64 \<Rightarrow> u64 \<Rightarrow> aligned_buf \<Rightarrow> (store_error, bytes) outcome" where
  "narrow read_at read_len b =
     (let start_pos = (if ab_wal_offset b < read_at then as_u32 (read_at - ab_wal_offset b) else 0);
          limit = (case checked_sub (ab_wal_offset b + ab_limit b) (read_at + read_len) of
                     Some d \<Rightarrow> sub_or_panic (ab_limit b) d
                   | None \<Rightarrow> Ok (ab_limit b))
      in bind_outcome limit (\<lambda>l. ab_slice b (Included start_pos) (Excluded l)))"

fun narrow_all :: "u64 \<Rightarrow> u64 \<Rightarrow> aligned_buf list \<Rightarrow> (store_error, bytes list) outcome" where
  "narrow_all read_at read_len [] = Ok []"
| "narrow_all read_at read_len (b # bs) =
     bind_outcome (narrow read_at read_len b)
       (\<lambda>s. fmap_ok (\<lambda>ss. s # ss) (narrow_all read_at read_len bs))"

text \<open>
  Reading the missed ranges from the file into new entries. A range whose buffer cannot be
  allocated is skipped; a read past the end of the file fails.
\<close>

fun load_missed :: "'s skiplist \<Rightarrow> usize \<Rightarrow> bytes \<Rightarrow> (u32 \<Rightarrow> u64) \<Rightarrow> u64 \<Rightarrow> 's block_cache \<Rightarrow> entry_range list
    \<Rightarrow> 's block_cache \<times> (store_error, unit) outcome" where
  "load_missed sl al file now base c [] = (c, Ok ())"
| "load_missed sl al file now base c (e # es) =
     (case alloc_read_buf (er_wal_offset e) (er_len e) al of
        Panic \<Rightarrow> (c, Panic)
      | Err _ \<Rightarrow> load_missed sl al file now base c es
      | Ok buf \<Rightarrow>
          if er_wal_offset e < base then (c, Panic)
          else
            let file_pos = er_wal_offset e - base in
            if file_pos + ab_capacity buf > length file then (c, Err (IO ''failed to fill whole buffer''))
            else
              let buf' = increase_written (buf\<lparr>ab_buf := take (ab_capacity buf) (drop file_pos file)\<rparr>) (ab_capacity buf)
              in (case add_entry sl c buf' (now (as_u32 file_pos)) of
                    Ok c' \<Rightarrow> load_missed sl al file now base c' es
                  | Err e \<Rightarrow> (c, Err e)
                  | Panic \<Rightarrow> (c, Panic)))"

text \<open>The loop ends with a hit or an error; \<open>None\<close> is a loop that never ends.\<close>

partial_function (option) read_loop :: "'s skiplist \<Rightarrow> usize \<Rightarrow> bytes \<Rightarrow> (nat \<Rightarrow> u32 \<Rightarrow> u64) \<Rightarrow> nat
    \<Rightarrow> 's log_segment \<Rightarrow> entry_range \<Rightarrow> ('s log_segment \<times> (store_error, aligned_buf list) outcome) option" where
  "read_loop sl al file clock i seg r =
     (case try_get_entries sl (seg_cache seg) r (clock i) of
        (c, Ok (Some bufs)) \<Rightarrow> Some (seg\<lparr>seg_cache := c\<rparr>, Ok bufs)
      | (c, Ok None) \<Rightarrow> Some (seg\<lparr>seg_cache := c\<rparr>, Err CacheError)
      | (c, Panic) \<Rightarrow> Some (seg\<lparr>seg_cache := c\<rparr>, Panic)
      | (c, Err ms) \<Rightarrow>
          if sd seg = None then Some (seg\<lparr>seg_cache := c\<rparr>, Err NotOpened)
          else (case load_missed sl al file (clock i) (seg_wal_offset seg) c ms of
                  (c', Ok _) \<Rightarrow> read_loop sl al file clock (Suc i) (seg\<lparr>seg_cache := c'\<rparr>) r
                | (c', Err e) \<Rightarrow> Some (seg\<lparr>seg_cache := c'\<rparr>, Err e)
                | (c', Panic) \<Rightarrow> Some (seg\<lparr>seg_cache := c'\<rparr>, Panic)))"

definition read_exact_at :: "'s skiplist \<Rightarrow> usize \<Rightarrow> bytes \<Rightarrow> (nat \<Rightarrow> u32 \<Rightarrow> u64) \<Rightarrow> 's log_segment \<Rightarrow> usize \<Rightarrow> u64
    \<Rightarrow> ('s log_segment \<times> (store_error, bytes) outcome) option" where
  "read_exact_at sl al file clock seg len r_offset =
     (case er_new (seg_wal_offset seg + r_offset) (as_u32 len) al of
        Ok r \<Rightarrow>
          map_option
            (\<lambda>(seg', res).
               (seg', bind_outcome res (\<lambda>bufs.
                        bind_outcome (narrow_all (seg_wal_offset seg + r_offset) len bufs)
                          (\<lambda>slices. if length (concat slices) = len then Ok (concat slices) else Panic))))
            (read_loop sl al file clock 0 seg r)
      | Err e \<Rightarrow> Some (seg, Err e)
      | Panic \<Rightarrow> Some (seg, Panic))"

subsection \<open>Truncation\<close>

text \<open>A new buffer holding \<open>len\<close> bytes of \<open>b\<close> from \<open>start\<close> on, entered into the cache.\<close>

definition carve :: "'s skiplist \<Rightarrow> usize \<Rightarrow> u64 \<Rightarrow> 's block_cache \<Rightarrow> aligned_buf \<Rightarrow> u64 \<Rightarrow> usize \<Rightarrow> usize
    \<Rightarrow> (store_error, 's block_cache) outcome" where
  "carve sl al now c b off start len =
     bind_outcome (ab_new off len al) (\<lambda>nb.
     bind_outcome (ab_slice b (Included start) (Excluded (start + len))) (\<lambda>src.
     bind_outcome (ab_slice_mut_copy nb len src) (\<lambda>nb'.
     add_entry sl c (increase_written nb' len) now)))"

definition split_last_page :: "'s skiplist \<Rightarrow> usize \<Rightarrow> (nat \<Rightarrow> u64) \<Rightarrow> 's block_cache \<Rightarrow> aligned_buf \<Rightarrow> u64 \<Rightarrow> u32
    \<Rightarrow> 's block_cache \<times> (store_error, unit) outcome" where
  "split_last_page sl al now c b last_page_start last_page_len =
     (if ab_wal_offset b + ab_limit b > last_page_start
      then
        if last_page_start < ab_wal_offset b then (c, Panic)
        else
          let last_len = last_page_start - ab_wal_offset b in
          (case (if last_page_len \<noteq> 0
                 then carve sl al (now 0) c b last_page_start last_len last_page_len else Ok c) of
             Ok c1 \<Rightarrow>
               (case (if last_len \<noteq> 0
                      then carve sl al (now 1) c1 b (ab_wal_offset b) 0 last_len else Ok c1) of
                  Ok c2 \<Rightarrow> (c2, Ok ())
                | Err e \<Rightarrow> (c1, Err e)
                | Panic \<Rightarrow> (c1, Panic))
           | Err e \<Rightarrow> (c, Err e)
           | Panic \<Rightarrow> (c, Panic))
      else (c, Ok ()))"

definition truncate_to :: "'s skiplist \<Rightarrow> usize \<Rightarrow> (u32 \<Rightarrow> u64) \<Rightarrow> (nat \<Rightarrow> u64) \<Rightarrow> 's log_segment \<Rightarrow> u64
    \<Rightarrow> 's log_segment \<times> (store_error, unit) outcome" where
  "truncate_to sl al clock now seg wr =
     (if al = 0 then (seg, Panic)
      else
        let page = align_down al wr;
            last_page_len = as_u32 (wr - page);
            last_page_start = page + seg_wal_offset seg;
            from_wal_offset = (if seg_wal_offset seg + wr > 0 then seg_wal_offset seg + wr - 1 else 0)
        in (case er_new from_wal_offset 1 al of
              Ok r \<Rightarrow>
                (case try_get_entries sl (seg_cache seg) r clock of
                   (c, Ok (Some (b # bs))) \<Rightarrow>
                     (case split_last_page sl al now c b last_page_start last_page_len of
                        (c', Ok _) \<Rightarrow>
                          (case bc_remove sl c' (\<lambda>e. e_wal_offset e \<ge> seg_wal_offset seg + wr) of
                             Ok c'' \<Rightarrow> (seg\<lparr>seg_cache := c''\<rparr>, Ok ())
                           | Err e \<Rightarrow> (seg\<lparr>seg_cache := c'\<rparr>, Err e)
                           | Panic \<Rightarrow> (seg\<lparr>seg_cache := c'\<rparr>, Panic))
                      | (c', r') \<Rightarrow> (seg\<lparr>seg_cache := c'\<rparr>, r'))
                 | (c, Ok (Some [])) \<Rightarrow> (seg\<lparr>seg_cache := c\<rparr>, Panic)
                 | (c, Ok None) \<Rightarrow> (seg\<lparr>seg_cache := c\<rparr>, Err CacheError)
                 | (c, Err _) \<Rightarrow> (seg\<lparr>seg_cache := c\<rparr>, Err CacheError)
                 | (c, Panic) \<Rightarrow> (seg\<lparr>seg_cache := c\<rparr>, Panic))
            | Err e \<Rightarrow> (seg, Err e)
            | Panic \<Rightarrow> (seg, Panic)))"

section \<open>File names round-trip\<close>

lemma char_digit_digit_char: "d < 10 \<Longrightarrow> char_digit (digit_char d) = Some d"
  by (simp add: char_digit_def digit_char_def Let_def of_char_of)

lemma decimal_not_Nil [simp]: "decimal n \<noteq> []"
  by (subst decimal.simps) simp

lemma parse_digits_append:
  "parse_digits acc (xs @ ys) = Option.bind (parse_digits acc xs) (\<lambda>a. parse_digits a ys)"
  by (induction xs arbitrary: acc) (auto split: option.split)

lemma parse_digits_decimal: "n < 2 ^ 64 \<Longrightarrow> parse_digits 0 (decimal n) = Some n"
proof (induction n rule: decimal.induct)
  case (1 n)
  show ?case
  proof (cases "n < 10")
    case True
    then show ?thesis by (subst decimal.simps) (simp add: char_digit_digit_char)
  next
    case False
    with 1 have "parse_digits 0 (decimal (n div 10)) = Some (n div 10)" by simp
    moreover have "n div 10 * 10 + n mod 10 = n" by simp
    ultimately show ?thesis
      using False 1(2) by (subst decimal.simps) (simp add: parse_digits_append char_digit_digit_char)
  qed
qed

lemma parse_digits_zeros: "parse_digits 0 (replicate k (CHR ''0'') @ s) = parse_digits 0 s"
  by (induction k) (simp_all add: char_digit_def Let_def)

lemma decimal_chars: "c \<in> set (decimal n) \<Longrightarrow> 48 \<le> (of_char c :: nat) \<and> of_char c \<le> (57 :: nat)"
proof (induction n rule: decimal.induct)
  case (1 n)
  have d: "48 \<le> (of_char (digit_char d) :: nat) \<and> of_char (digit_char d) \<le> (57 :: nat)" if "d < 10" for d
    using that by (simp add: digit_char_def of_char_of)
  show ?case
  proof (cases "n < 10")
    case True
    with 1(2) have "c = digit_char n" by (subst (asm) decimal.simps) simp
    with d [of n] True show ?thesis by simp
  next
    case False
    from 1(2) False consider "c \<in> set (decimal (n div 10))" | "c = digit_char (n mod 10)"
      by (subst (asm) decimal.simps) auto
    then show ?thesis using 1(1) False d [of "n mod 10"] by cases auto
  qed
qed

lemma format_chars: "c \<in> set (seg_format n) \<Longrightarrow> 48 \<le> (of_char c :: nat) \<and> of_char c \<le> (57 :: nat)"
  using decimal_chars by (auto simp: seg_format_def)

lemma parse_u64_digits:
  "s \<noteq> [] \<Longrightarrow> \<forall>c \<in> set s. 48 \<le> (of_char c :: nat) \<Longrightarrow> parse_u64 s = parse_digits 0 s"
  by (cases s) (auto simp: parse_u64_def Let_def)

text \<open>Joining a name without a slash to a directory makes it the last component.\<close>

lemma split_name:
  "CHR ''/'' \<notin> set name \<Longrightarrow>
     foldr (\<lambda>c acc. if c = CHR ''/'' then [] # acc else (c # hd acc) # tl acc) name [[]] = [name]"
  by (induction name) auto

lemma split_join:
  assumes "CHR ''/'' \<notin> set name"
  defines "f \<equiv> \<lambda>c acc. if c = CHR ''/'' then [] # acc else (c # hd acc) # tl acc"
  shows "\<exists>pre. foldr f (dir @ CHR ''/'' # name) [[]] = pre @ [name] \<and> pre \<noteq> []"
proof (induction dir)
  case Nil
  have "foldr f name [[]] = [name]" unfolding f_def using assms(1) by (rule split_name)
  then show ?case by (simp add: f_def)
next
  case (Cons c dir)
  then obtain pre where "foldr f (dir @ CHR ''/'' # name) [[]] = pre @ [name]" "pre \<noteq> []" by blast
  then show ?case
    by (cases pre) (auto simp: f_def)
qed

lemma file_name_join:
  assumes "CHR ''/'' \<notin> set name" "name \<noteq> []" "name \<noteq> ''.''" "name \<noteq> ''..''"
  shows "file_name (dir @ CHR ''/'' # name) = Some name"
proof -
  from split_join [OF assms(1)] obtain pre where
    "foldr (\<lambda>c acc. if c = CHR ''/'' then [] # acc else (c # hd acc) # tl acc) (dir @ CHR ''/'' # name) [[]] = pre @ [name]"
    by blast
  with assms show ?thesis by (simp only: file_name_def path_components_def) simp
qed

section \<open>Appending\<close>

definition record_bytes :: "u32 \<Rightarrow> u32 \<Rightarrow> bytes \<Rightarrow> bytes" where
  "record_bytes crc lt payload = be_bytes 4 crc @ be_bytes 4 lt @ payload"

lemma bw_current: "bw_inv base w \<Longrightarrow> bw_bytes w \<noteq> [] \<Longrightarrow> current w \<noteq> None"
  by (cases "current w") (auto simp: bw_inv_def bw_defs)

lemma be_bytes_not_Nil: "0 < k \<Longrightarrow> be_bytes k n \<noteq> []"
  by (cases k) simp_all

lemma write_record_spec:
  assumes inv: "bw_inv base w" and room: "8 + length payload \<le> bw_remaining w"
  shows "\<exists>w'. write_record w crc lt payload = (w', Ok ()) \<and> bw_inv base w' \<and>
           bw_bytes w' = bw_bytes w @ record_bytes crc lt payload \<and>
           cursor w' = cursor w + 8 + length payload \<and>
           bw_remaining w' + 8 + length payload = bw_remaining w"
proof -
  have ne: "be_bytes 4 n \<noteq> []" for n by (rule be_bytes_not_Nil) simp
  have "length (be_bytes 4 crc) \<le> bw_remaining w" using room by simp
  from bw_write_spec [OF inv disjI1 [OF ne] this] obtain w1 where
    w1: "bw_write w (be_bytes 4 crc) = (w1, Ok ())" "bw_inv base w1" "bw_bytes w1 = bw_bytes w @ be_bytes 4 crc"
      "cursor w1 = cursor w + 4" "bw_remaining w1 + 4 = bw_remaining w" by auto
  have "length (be_bytes 4 lt) \<le> bw_remaining w1" using room w1(5) by simp
  from bw_write_spec [OF w1(2) disjI1 [OF ne] this] obtain w2 where
    w2: "bw_write w1 (be_bytes 4 lt) = (w2, Ok ())" "bw_inv base w2" "bw_bytes w2 = bw_bytes w1 @ be_bytes 4 lt"
      "cursor w2 = cursor w1 + 4" "bw_remaining w2 + 4 = bw_remaining w1" by auto
  have c: "current w2 \<noteq> None" using bw_current [OF w2(2)] w2(3) ne by simp
  have "length payload \<le> bw_remaining w2" using room w1(5) w2(5) by simp
  from bw_write_spec [OF w2(2) disjI2 [OF c] this] obtain w3 where
    w3: "bw_write w2 payload = (w3, Ok ())" "bw_inv base w3" "bw_bytes w3 = bw_bytes w2 @ payload"
      "cursor w3 = cursor w2 + length payload" "bw_remaining w3 + length payload = bw_remaining w2" by auto
  show ?thesis
    using w1 w2 w3 by (auto simp: write_record_def bw_write_u32_def record_bytes_def)
qed

text \<open>The wire image of a record and of the footer of a segment.\<close>

definition record_image :: "'h crc32fast \<Rightarrow> u64 \<Rightarrow> bytes \<Rightarrow> bytes" where
  "record_image H off payload =
     record_bytes (checksum_record H [payload] off) (length_type RFull (length payload)) payload"

definition footer_image :: "'h crc32fast \<Rightarrow> u64 \<Rightarrow> nat \<Rightarrow> bytes" where
  "footer_image H off padding =
     (let body = replicate padding 0 @ be_bytes 8 0 @ be_bytes 8 0
      in record_bytes (crc32 H (be_bytes 4 (crc32 H body) @ be_bytes 8 off)) (length_type RZero (padding + 16)) body)"

text \<open>A segment and a writer at its start, for examples.\<close>

definition sample_seg :: "score_key list log_segment" where
  "sample_seg = \<lparr>seg_wal_offset = 64, seg_size = 64, written = 0, seg_time_range = None,
     seg_cache = bc_new list_skiplist 8 64, seg_status = ReadWrite, seg_path = ''/wal/64'',
     sd = Some \<lparr>sd_medium = Ssd, sd_fd = 3, sd_base_ptr = 0\<rparr>\<rparr>"

lemma sample_writer_room:
  obtains w where "reserve_to (bw_new 64 8) 128 64 = (w, Ok ())" "bw_inv 64 w" "bw_bytes w = []"
    "64 \<le> bw_remaining w"
proof -
  have "(\<exists>k < 64. (8 :: nat) = 2 ^ k)" by (rule exI [of _ 3]) simp
  then obtain w where r: "reserve_to (bw_new 64 8) 128 64 = (w, Ok ())"
    by (simp add: reserve_to_def bw_new_def max_allocated_wal_offset_def ab_new_def layout_ok_def align_up_def)
  from reserve_to_spec [OF bw_new_inv r] bw_remaining_eq [of 64 w]
  have "bw_inv 64 w" "bw_bytes w = []" "64 \<le> bw_remaining w"
    by (auto simp: bw_new_def bw_bytes_def bw_open_def)
  with r that show thesis by blast
qed

section \<open>Properties\<close>

text \<open>
  A segment's file name gives back its offset: parsing the path the log builds for an offset
  (the directory joined with the 20-digit zero-padded number) returns that offset.
\<close>

theorem format_parse:
  assumes "off < 2 ^ 64"
  shows "parse_offset (dir @ CHR ''/'' # seg_format off) = Some off"
proof -
  let ?s = "seg_format off"
  have ch: "c \<in> set ?s \<Longrightarrow> 48 \<le> (of_char c :: nat)" for c using format_chars by blast
  have ne: "?s \<noteq> []" by (simp add: seg_format_def)
  have "CHR ''/'' \<notin> set ?s" "?s \<noteq> ''.''" "?s \<noteq> ''..''" using ch [of "CHR ''/''"] ch [of "CHR ''.''"] by auto
  with ne have "file_name (dir @ CHR ''/'' # ?s) = Some ?s" by (intro file_name_join)
  moreover have "parse_u64 ?s = parse_digits 0 ?s" using ne ch by (intro parse_u64_digits) auto
  moreover have "parse_digits 0 ?s = Some off"
    using assms by (simp add: seg_format_def parse_digits_zeros parse_digits_decimal)
  ultimately show ?thesis by (simp add: parse_offset_def)
qed

theorem format_parse_witness: "parse_offset ''/wal/00000000000000001048'' = Some 1048"
proof -
  have "''/wal'' @ CHR ''/'' # seg_format 1048 = ''/wal/00000000000000001048''" by code_simp
  with format_parse [of 1048 "''/wal''"] show ?thesis by simp
qed



text \<open>
  The footer fills the segment exactly: with at least the footer's length left, \<open>append_footer\<close>
  does not abort, writes the rest of the segment to the last byte, and turns it read-only.
\<close>

theorem append_footer_fills:
  assumes inv: "bw_inv base w" and room: "seg_size seg - written seg \<le> bw_remaining w"
    and left: "written seg + FOOTER_LENGTH \<le> seg_size seg" and bound: "seg_size seg < 2 ^ 32"
  shows "\<exists>w'. append_footer H seg w =
                (seg\<lparr>written := seg_size seg, seg_status := Read\<rparr>, w', Ok (seg_wal_offset seg + seg_size seg)) \<and>
           bw_inv base w' \<and>
           bw_bytes w' = bw_bytes w @ footer_image H (seg_wal_offset seg) (seg_size seg - written seg - FOOTER_LENGTH) \<and>
           length (footer_image H (seg_wal_offset seg) (seg_size seg - written seg - FOOTER_LENGTH)) = seg_size seg - written seg"
proof -
  define p where "p = seg_size seg - written seg - FOOTER_LENGTH"
  have sz: "seg_size seg = written seg + 24 + p" using left by (simp add: p_def FOOTER_LENGTH_def)
  define body where "body = replicate p (0 :: byte) @ be_bytes 8 0 @ be_bytes 8 0"
  have len: "length body = p + 16" by (simp add: body_def)
  have "8 + length body \<le> bw_remaining w" using room sz len by simp
  from write_record_spec [OF inv this] obtain w' where
    "write_record w (crc32 H (be_bytes 4 (crc32 H body) @ be_bytes 8 (seg_wal_offset seg))) (length_type RZero (p + 16)) body = (w', Ok ())"
    "bw_inv base w'" "bw_bytes w' = bw_bytes w @ footer_image H (seg_wal_offset seg) p"
    unfolding footer_image_def body_def Let_def by blast
  moreover have "as_u32 p = p" using bound sz by (intro as_u32_id) simp
  moreover have "length (footer_image H (seg_wal_offset seg) p) = 24 + p"
    by (simp add: footer_image_def record_bytes_def Let_def)
  ultimately show ?thesis
    unfolding p_def [symmetric] using bound sz
    by (simp add: append_footer_def RECORD_PREFIX_LENGTH_def body_def Let_def add.commute)
qed

theorem append_footer_fills_witness:
  "\<exists>w w'. reserve_to (bw_new 64 8) 128 64 = (w, Ok ()) \<and>
     append_footer sum_hasher sample_seg w = (sample_seg\<lparr>written := 64, seg_status := Read\<rparr>, w', Ok 128) \<and>
     length (bw_bytes w') = 64"
proof -
  obtain w where w: "reserve_to (bw_new 64 8) 128 64 = (w, Ok ())" "bw_inv 64 w" "bw_bytes w = []"
    "64 \<le> bw_remaining w" by (rule sample_writer_room)
  from append_footer_fills [OF w(2), of sample_seg sum_hasher] w show ?thesis
    by (auto simp: sample_seg_def FOOTER_LENGTH_def)
qed

text \<open>
  Recovery cannot truncate an empty segment that is not the first one: the page before the
  segment's start is never in its cache, so \<open>truncate_to\<close> of zero bytes fails with a cache error
  whatever was read before.
\<close>

theorem truncate_empty_fails:
  assumes "0 < seg_wal_offset seg" and "bc_wal_offset (seg_cache seg) = seg_wal_offset seg" and "0 < al"
  shows "truncate_to sl al clock now seg 0 = (seg, Err CacheError)"
proof -
  have "align_down al (seg_wal_offset seg - 1) < seg_wal_offset seg"
    using align_down_le [of al "seg_wal_offset seg - 1"] assms(1) by linarith
  with assms show ?thesis
    by (simp add: truncate_to_def er_new_def try_get_entries_def checked_sub_def Let_def)
qed

theorem truncate_empty_fails_witness:
  "truncate_to list_skiplist 8 (\<lambda>_. 0) (\<lambda>_. 0) sample_seg 0 = (sample_seg, Err CacheError)"
  by (rule truncate_empty_fails) (simp_all add: sample_seg_def bc_new_def)

end
