(* ===== verification/Byte_Reader.thy ===== *)
theory Byte_Reader
  imports Prelude
begin

text \<open>
  Reads from a \<open>std::io::Cursor\<close> through the \<open>Buf\<close> trait, shared by the codecs, and the
  rules that run a sequence of reads. A signed length is sign-extended by \<open>as usize\<close>.
\<close>

section \<open>Cursor reads\<close>

text \<open>
  A \<open>Cursor\<close> is the bytes from its position on. The \<open>Buf\<close> getters panic when the bytes run
  out.
\<close>

definition take_bytes :: "nat \<Rightarrow> bytes \<Rightarrow> ('e, bytes \<times> bytes) outcome" where
  "take_bytes n src = (if n \<le> length src then Ok (take n src, drop n src) else Panic)"

definition get_be :: "nat \<Rightarrow> bytes \<Rightarrow> ('e, nat \<times> bytes) outcome" where
  "get_be n src = (if n \<le> length src then Ok (be_val (take n src), drop n src) else Panic)"

definition adv :: "nat \<Rightarrow> bytes \<Rightarrow> ('e, bytes) outcome" where
  "adv n src = (if n \<le> length src then Ok (drop n src) else Panic)"

text \<open>\<open>get_i32() as usize\<close>: a negative length becomes a huge unsigned one.\<close>

definition i32_as_usize :: "nat \<Rightarrow> usize" where
  "i32_as_usize n = (if n < 2 ^ 31 then n else n + (2 ^ 64 - 2 ^ 32))"

lemma bind_take_bytes:
  "bind_outcome (take_bytes n src) k =
     (if n \<le> length src then k (take n src, drop n src) else Panic)"
  by (simp add: take_bytes_def)

lemma bind_get_be:
  "bind_outcome (get_be n src) k =
     (if n \<le> length src then k (be_val (take n src), drop n src) else Panic)"
  by (simp add: get_be_def)

lemma bind_adv: "bind_outcome (adv n src) k = (if n \<le> length src then k (drop n src) else Panic)"
  by (simp add: adv_def)

lemma bind_sub:
  "bind_outcome (sub_or_panic a b) k = (if b \<le> a then k (a - b) else Panic)"
  by (simp add: sub_or_panic_def)

lemmas reader_simps = bind_take_bytes bind_get_be bind_adv bind_sub

text \<open>The same with the bounds as conditions, for buffers known to be long enough.\<close>

lemma bind_take_bytes_ok:
  "n \<le> length src \<Longrightarrow> bind_outcome (take_bytes n src) k = k (take n src, drop n src)"
  by (simp add: take_bytes_def)

lemma bind_get_be_ok:
  "n \<le> length src \<Longrightarrow> bind_outcome (get_be n src) k = k (be_val (take n src), drop n src)"
  by (simp add: get_be_def)

lemma bind_adv_ok: "n \<le> length src \<Longrightarrow> bind_outcome (adv n src) k = k (drop n src)"
  by (simp add: adv_def)

lemma bind_sub_ok: "b \<le> a \<Longrightarrow> bind_outcome (sub_or_panic a b) k = k (a - b)"
  by (simp add: sub_or_panic_def)

lemmas reader_ok = bind_take_bytes_ok bind_get_be_ok bind_adv_ok bind_sub_ok

end
