(* ===== verification/Index_Record.thy ===== *)
theory Index_Record
  imports Byte_Reader
begin

text \<open>
  Index entries of the store, \<open>src/components/store/src/index/record.rs\<close>: the key locates a
  record batch in its stream and range, the value locates it in the write-ahead log. RocksDB
  orders keys as byte strings; \<open>index_key_order\<close> shows that this is the order of stream,
  range and offset, which every seek of the indexer relies on.
\<close>

unbundle bit_operations_syntax

section \<open>Model\<close>

datatype handle_ext = Hash u64 | BatchSize u32

record record_index =
  ri_stream_id :: u64
  ri_range :: u32
  ri_offset :: u64

record record_handle =
  rh_wal_offset :: u64
  rh_len :: u32
  rh_ext :: handle_ext

record index_record =
  ir_index :: record_index
  ir_handle :: record_handle

definition end_offset :: "index_record \<Rightarrow> u64" where
  "end_offset r =
     (case rh_ext (ir_handle r) of
        Hash _ \<Rightarrow> ri_offset (ir_index r) + 1
      | BatchSize len \<Rightarrow> ri_offset (ir_index r) + len)"

fun ext_count :: "handle_ext \<Rightarrow> u32" where
  "ext_count (Hash _) = 1"
| "ext_count (BatchSize len) = len"

text \<open>The error is a message that carries the length found.\<close>

definition index_try_from :: "bytes \<Rightarrow> (nat, record_index) outcome" where
  "index_try_from value =
     (if length value \<noteq> 20 then Err (length value)
      else bind_outcome (get_be 8 value) (\<lambda>(stream_id, cur).
           bind_outcome (get_be 4 cur) (\<lambda>(range, cur).
           bind_outcome (get_be 8 cur) (\<lambda>(off, cur).
           Ok \<lparr>ri_stream_id = stream_id, ri_range = range, ri_offset = off\<rparr>))))"

definition index_bytes :: "record_index \<Rightarrow> bytes" where
  "index_bytes i = be_bytes 8 (ri_stream_id i) @ be_bytes 4 (ri_range i) @ be_bytes 8 (ri_offset i)"

definition handle_try_from :: "bytes \<Rightarrow> (nat, record_handle) outcome" where
  "handle_try_from value =
     (if length value < 12 then Err (length value)
      else bind_outcome (get_be 8 value) (\<lambda>(off, cur).
           bind_outcome (get_be 4 cur) (\<lambda>(length_type, cur).
           let ty = length_type mod 256; len = length_type div 256 in
           bind_outcome
             (if ty = 0 then fmap_ok (\<lambda>(h, _). Hash h) (get_be 8 cur)
              else if ty = 1 then fmap_ok (\<lambda>(n, _). BatchSize n) (get_be 4 cur)
              else Panic)
             (\<lambda>ext. Ok \<lparr>rh_wal_offset = off, rh_len = len, rh_ext = ext\<rparr>))))"

text \<open>\<open>len << 8\<close> keeps 32 bits; the type is or-ed into the free low byte.\<close>

definition handle_length_type :: "record_handle \<Rightarrow> 32 word" where
  "handle_length_type h =
     (let length_type = push_bit 8 (of_nat (rh_len h) :: 32 word) in
      case rh_ext h of Hash _ \<Rightarrow> length_type | BatchSize _ \<Rightarrow> length_type OR 1)"

definition handle_bytes :: "record_handle \<Rightarrow> bytes" where
  "handle_bytes h =
     be_bytes 8 (rh_wal_offset h) @ be_bytes 4 (unat (handle_length_type h)) @
     (case rh_ext h of Hash hash \<Rightarrow> be_bytes 8 hash | BatchSize len \<Rightarrow> be_bytes 4 len)"

section \<open>Lemmas\<close>

lemma push_bit_8_of_nat: "push_bit 8 (of_nat n :: 32 word) = of_nat (n * 256)"
  by (simp add: push_bit_eq_mult)

lemma push_bit_8_nat: "n < 2 ^ 24 \<Longrightarrow> unat (push_bit 8 (of_nat n :: 32 word)) = n * 256"
  unfolding push_bit_8_of_nat by (simp only: unat_of_nat) simp

lemma push_bit_8_or_1: "n < 2 ^ 24 \<Longrightarrow> unat (push_bit 8 (of_nat n :: 32 word) OR 1) = n * 256 + 1"
proof -
  assume n: "n < 2 ^ 24"
  have "push_bit 8 (of_nat n :: 32 word) OR 1 = of_nat (n * 256 + 1)"
    unfolding or_one_eq by (simp add: push_bit_eq_mult even_mult_iff)
  with n show ?thesis by (simp only: unat_of_nat) simp
qed

text \<open>Byte strings of one length compare like the numbers they spell.\<close>

fun bytes_less :: "bytes \<Rightarrow> bytes \<Rightarrow> bool" where
  "bytes_less [] ys \<longleftrightarrow> ys \<noteq> []"
| "bytes_less (x # xs) [] \<longleftrightarrow> False"
| "bytes_less (x # xs) (y # ys) \<longleftrightarrow> x < y \<or> x = y \<and> bytes_less xs ys"

lemma be_val_Cons: "be_val (x # xs) = unat x * 256 ^ length xs + be_val xs"
  using be_val_append [of "[x]" xs] by simp

lemma bytes_less_be_val:
  "length xs = length ys \<Longrightarrow> bytes_less xs ys \<longleftrightarrow> be_val xs < be_val ys"
proof (induction xs ys rule: bytes_less.induct)
  case (3 x xs y ys)
  have IH: "bytes_less xs ys \<longleftrightarrow> be_val xs < be_val ys" if "x = y" using 3 that by simp
  define K where "K = (256 :: nat) ^ length xs"
  have less: "be_val xs < K" "be_val ys < K"
    using be_val_less [of xs] be_val_less [of ys] 3(2) by (simp_all add: K_def)
  have val: "be_val (x # xs) = unat x * K + be_val xs" "be_val (y # ys) = unat y * K + be_val ys"
    using 3(2) by (simp_all add: be_val_Cons K_def)
  consider "unat x < unat y" | "unat y < unat x" | "unat x = unat y" by linarith
  then show ?case
  proof cases
    case 1
    then have "(unat x + 1) * K \<le> unat y * K" by (intro mult_right_mono) simp_all
    with less val 1 show ?thesis by (simp add: word_less_nat_alt)
  next
    case 2
    then have "(unat y + 1) * K \<le> unat x * K" by (intro mult_right_mono) simp_all
    with less val 2 show ?thesis by (auto simp: word_less_nat_alt)
  next
    case 3
    then have "x = y" by (simp add: word_unat_eq_iff)
    with val 3 IH show ?thesis by simp
  qed
qed simp_all

lemma bytes_less_append:
  "length xs = length ys \<Longrightarrow>
     bytes_less (xs @ xs') (ys @ ys') \<longleftrightarrow> bytes_less xs ys \<or> xs = ys \<and> bytes_less xs' ys'"
  by (induction xs ys rule: list_induct2) auto

lemma be_bytes_less:
  assumes "m < 256 ^ k" "n < 256 ^ k"
  shows "bytes_less (be_bytes k m) (be_bytes k n) \<longleftrightarrow> m < n" and "be_bytes k m = be_bytes k n \<longleftrightarrow> m = n"
proof -
  show "bytes_less (be_bytes k m) (be_bytes k n) \<longleftrightarrow> m < n"
    using bytes_less_be_val [of "be_bytes k m" "be_bytes k n"] assms by (simp add: be_val_be_bytes)
  show "be_bytes k m = be_bytes k n \<longleftrightarrow> m = n"
    using be_val_be_bytes [OF assms(1)] be_val_be_bytes [OF assms(2)] by metis
qed

definition index_ok :: "record_index \<Rightarrow> bool" where
  "index_ok i \<longleftrightarrow> ri_stream_id i < 2 ^ 64 \<and> ri_range i < 2 ^ 32 \<and> ri_offset i < 2 ^ 64"

definition handle_ok :: "record_handle \<Rightarrow> bool" where
  "handle_ok h \<longleftrightarrow> rh_wal_offset h < 2 ^ 64 \<and> rh_len h < 2 ^ 24 \<and>
     (case rh_ext h of Hash x \<Rightarrow> x < 2 ^ 64 | BatchSize n \<Rightarrow> n < 2 ^ 32)"

lemma index_bytes_less:
  assumes "index_ok i" and "index_ok j"
  shows "bytes_less (index_bytes i) (index_bytes j) \<longleftrightarrow>
           ri_stream_id i < ri_stream_id j \<or>
           ri_stream_id i = ri_stream_id j \<and>
             (ri_range i < ri_range j \<or> ri_range i = ri_range j \<and> ri_offset i < ri_offset j)"
proof -
  have pow: "(256 :: nat) ^ 8 = 2 ^ 64" "(256 :: nat) ^ 4 = 2 ^ 32" by simp_all
  from assms show ?thesis
    unfolding index_bytes_def index_ok_def pow [symmetric]
    by (simp only: bytes_less_append length_be_bytes be_bytes_less)
qed

section \<open>Properties\<close>

text \<open>
  RocksDB's byte order on index keys is the order of the records they locate: first by
  stream, then by range, then by offset.
\<close>

theorem index_key_order:
  assumes "index_ok i" and "index_ok j"
  shows "bytes_less (index_bytes i) (index_bytes j) \<longleftrightarrow>
           ri_stream_id i < ri_stream_id j \<or>
           ri_stream_id i = ri_stream_id j \<and>
             (ri_range i < ri_range j \<or> ri_range i = ri_range j \<and> ri_offset i < ri_offset j)"
  using assms by (rule index_bytes_less)

theorem index_key_order_witness:
  "bytes_less (index_bytes \<lparr>ri_stream_id = 1, ri_range = 300, ri_offset = 9\<rparr>)
     (index_bytes \<lparr>ri_stream_id = 1, ri_range = 301, ri_offset = 0\<rparr>)"
  using index_key_order [of "\<lparr>ri_stream_id = 1, ri_range = 300, ri_offset = 9\<rparr>"
      "\<lparr>ri_stream_id = 1, ri_range = 301, ri_offset = 0\<rparr>"]
  by (simp add: index_ok_def)

text \<open>
  Index entries survive the key-value store: the key bytes decode to the index and, for a
  record below 16 MiB, the value bytes decode to the handle.
\<close>

theorem index_entry_roundtrip:
  assumes "index_ok i" and "handle_ok h"
  shows "index_try_from (index_bytes i) = Ok i \<and> handle_try_from (handle_bytes h) = Ok h"
proof -
  have "index_try_from (index_bytes i) = Ok i"
    using assms(1)
    by (simp add: index_try_from_def index_bytes_def index_ok_def bind_get_be_ok be_val_be_bytes)
  moreover have "handle_try_from (handle_bytes h) = Ok h"
  proof (cases "rh_ext h")
    case (Hash x)
    have "unat (handle_length_type h) = rh_len h * 256"
      using assms(2) Hash by (simp add: handle_length_type_def handle_ok_def push_bit_8_nat del: push_bit_of_nat)
    with assms(2) Hash show ?thesis
      by (cases h) (simp add: handle_try_from_def handle_bytes_def handle_ok_def bind_get_be_ok be_val_be_bytes get_be_def Let_def)
  next
    case (BatchSize n)
    have "unat (handle_length_type h) = rh_len h * 256 + 1"
      using assms(2) BatchSize by (simp add: handle_length_type_def handle_ok_def push_bit_8_or_1)
    moreover have "Suc (k * 256) mod 256 = Suc 0" "Suc (k * 256) div 256 = k" for k :: nat
      by presburger+
    ultimately show ?thesis
      using assms(2) BatchSize
      by (cases h) (simp add: handle_try_from_def handle_bytes_def handle_ok_def bind_get_be_ok be_val_be_bytes get_be_def Let_def)
  qed
  ultimately show ?thesis ..
qed

theorem index_entry_roundtrip_witness:
  "index_try_from (index_bytes \<lparr>ri_stream_id = 1, ri_range = 2, ri_offset = 3\<rparr>) =
     Ok \<lparr>ri_stream_id = 1, ri_range = 2, ri_offset = 3\<rparr> \<and>
   handle_try_from (handle_bytes \<lparr>rh_wal_offset = 4096, rh_len = 70000, rh_ext = BatchSize 5\<rparr>) =
     Ok \<lparr>rh_wal_offset = 4096, rh_len = 70000, rh_ext = BatchSize 5\<rparr>"
  by (rule index_entry_roundtrip) (simp_all add: index_ok_def handle_ok_def)

end
