(* ===== verification/Record_Batch.thy ===== *)
theory Record_Batch
  imports Byte_Reader
begin

text \<open>
  Record batches and their storage and network layout: \<open>src/components/model/src/record/mod.rs\<close>,
  \<open>record/flat_record.rs\<close>, \<open>payload.rs\<close>, \<open>append_entry.rs\<close> and the errors of \<open>error.rs\<close>.
  A flat batch is magic (1), metadata length (4), metadata, payload length (4), payload. The
  metadata is a FlatBuffers table; its generated packing and verification are a parameter, of
  which \<open>fb_meta_ok\<close> states that verifying what was packed gives the table back, for the
  tables in question.
\<close>

section \<open>Model\<close>

datatype record_error = RequiredFieldMissing | StreamIdMismatch | ParseHeader

datatype decode_error =
    BuildRecord record_error
  | DataLengthMismatch
  | InvalidMagic
  | InvalidDataFormat
  | Flatbuffer

subsection \<open>Batches and their builder\<close>

record record_batch_meta =
  m_stream_id :: int
  m_range_index :: int
  m_flags :: int
  m_base_offset :: int
  m_last_offset_delta :: int
  m_base_timestamp :: int
  m_properties :: "(string \<times> string) list option"

record record_batch =
  rb_metadata :: record_batch_meta
  rb_payload :: bytes

definition rb_last_offset_delta :: "record_batch \<Rightarrow> usize" where
  "rb_last_offset_delta b = nat (m_last_offset_delta (rb_metadata b) mod 2 ^ 64)"

definition rb_is_empty :: "record_batch \<Rightarrow> bool" where
  "rb_is_empty b \<longleftrightarrow> rb_last_offset_delta b = 0"

record record_batch_builder =
  b_stream_id :: "int option"
  b_range_index :: "int option"
  b_flags :: "int option"
  b_base_offset :: "int option"
  b_last_offset_delta :: "int option"
  b_base_timestamp :: "int option"
  b_properties :: "(string \<rightharpoonup> string) option"
  b_payload :: "bytes option"

definition new_builder :: record_batch_builder where
  "new_builder = \<lparr>b_stream_id = None, b_range_index = None, b_flags = None, b_base_offset = None,
     b_last_offset_delta = None, b_base_timestamp = None, b_properties = None, b_payload = None\<rparr>"

definition with_stream_id :: "int \<Rightarrow> record_batch_builder \<Rightarrow> record_batch_builder" where
  "with_stream_id v b = b\<lparr>b_stream_id := Some v\<rparr>"

definition with_range_index :: "int \<Rightarrow> record_batch_builder \<Rightarrow> record_batch_builder" where
  "with_range_index v b = b\<lparr>b_range_index := Some v\<rparr>"

definition with_flags :: "int \<Rightarrow> record_batch_builder \<Rightarrow> record_batch_builder" where
  "with_flags v b = b\<lparr>b_flags := Some v\<rparr>"

definition with_base_offset :: "int \<Rightarrow> record_batch_builder \<Rightarrow> record_batch_builder" where
  "with_base_offset v b = b\<lparr>b_base_offset := Some v\<rparr>"

definition with_last_offset_delta :: "int \<Rightarrow> record_batch_builder \<Rightarrow> record_batch_builder" where
  "with_last_offset_delta v b = b\<lparr>b_last_offset_delta := Some v\<rparr>"

definition with_base_timestamp :: "int \<Rightarrow> record_batch_builder \<Rightarrow> record_batch_builder" where
  "with_base_timestamp v b = b\<lparr>b_base_timestamp := Some v\<rparr>"

definition with_property :: "string \<Rightarrow> string \<Rightarrow> record_batch_builder \<Rightarrow> record_batch_builder" where
  "with_property k v b =
     b\<lparr>b_properties := Some ((case b_properties b of None \<Rightarrow> Map.empty | Some m \<Rightarrow> m)(k \<mapsto> v))\<rparr>"

definition with_payload :: "bytes \<Rightarrow> record_batch_builder \<Rightarrow> record_batch_builder" where
  "with_payload v b = b\<lparr>b_payload := Some v\<rparr>"

text \<open>
  \<open>now\<close> is the current time; \<open>order\<close> lists the entries of a hash map in the order an iteration
  visits them.
\<close>

definition build :: "((string \<rightharpoonup> string) \<Rightarrow> (string \<times> string) list) \<Rightarrow> int \<Rightarrow> record_batch_builder
    \<Rightarrow> (record_error, record_batch) outcome" where
  "build order now b =
     (case (b_stream_id b, b_range_index b, b_base_offset b, b_last_offset_delta b, b_payload b) of
        (Some sid, Some ri, Some bo, Some lod, Some pl) \<Rightarrow>
          Ok \<lparr>rb_metadata = \<lparr>m_stream_id = sid, m_range_index = ri,
                m_flags = (case b_flags b of None \<Rightarrow> 0 | Some f \<Rightarrow> f),
                m_base_offset = bo, m_last_offset_delta = lod,
                m_base_timestamp = (case b_base_timestamp b of None \<Rightarrow> now | Some t \<Rightarrow> t),
                m_properties = map_option order (b_properties b)\<rparr>,
              rb_payload = pl\<rparr>
      | _ \<Rightarrow> Err RequiredFieldMissing)"

subsection \<open>The flat layout\<close>

definition Magic0 :: u8 where
  "Magic0 = 0x22"

definition MIN_RECORD_BATCH_LEN :: usize where
  "MIN_RECORD_BATCH_LEN = 1 + 4 + 4"

record fb_meta =
  fb_pack :: "record_batch_meta \<Rightarrow> bytes"
  fb_root :: "bytes \<Rightarrow> record_batch_meta option"

definition fb_meta_ok :: "fb_meta \<Rightarrow> record_batch_meta set \<Rightarrow> bool" where
  "fb_meta_ok fb M \<longleftrightarrow> (\<forall>m \<in> M. fb_root fb (fb_pack fb m) = Some m)"

record flat_record_batch =
  f_magic :: "u8 option"
  f_metadata :: bytes
  f_payload :: bytes

definition init_from_struct :: "fb_meta \<Rightarrow> record_batch \<Rightarrow> flat_record_batch" where
  "init_from_struct fb b =
     \<lparr>f_magic = Some Magic0, f_metadata = fb_pack fb (rb_metadata b), f_payload = rb_payload b\<rparr>"

text \<open>\<open>as i32\<close> keeps the low 32 bits, read as a signed number.\<close>

definition len_as_i32 :: "nat \<Rightarrow> int" where
  "len_as_i32 n = (let m = int (n mod 2 ^ 32) in if m < 2 ^ 31 then m else m - 2 ^ 32)"

definition flat_encode :: "flat_record_batch \<Rightarrow> bytes list \<times> int" where
  "flat_encode f =
     (let magic = (case f_magic f of Some m \<Rightarrow> m | None \<Rightarrow> Magic0);
          meta_len = length (f_metadata f)
      in ([be_bytes 1 magic @ be_bytes 4 meta_len, f_metadata f,
           be_bytes 4 (length (f_payload f)), f_payload f],
          len_as_i32 (MIN_RECORD_BATCH_LEN + meta_len + length (f_payload f))))"

text \<open>
  \<open>metadata_len + 4\<close> is checked arithmetic: the sign-extended lengths -4 to -1 leave \<open>usize\<close>.
\<close>

definition init_from_buf :: "bytes \<Rightarrow> bytes \<times> (decode_error, flat_record_batch) outcome" where
  "init_from_buf buf =
     (if length buf < MIN_RECORD_BATCH_LEN then (buf, Err DataLengthMismatch)
      else
        let magic = be_val (take 1 buf) in
        if magic \<noteq> Magic0 then (buf, Err InvalidMagic)
        else
          let metadata_len = i32_as_usize (be_val (take 4 (drop 1 buf))) in
          if metadata_len + 4 \<ge> 2 ^ 64 then (buf, Panic)
          else if length buf - 5 < metadata_len + 4 then (buf, Err DataLengthMismatch)
          else
            let payload_len = i32_as_usize (be_val (take 4 (drop (5 + metadata_len) buf))) in
            if length buf - 9 - metadata_len < payload_len then (buf, Err DataLengthMismatch)
            else
              (drop (9 + metadata_len + payload_len) buf,
               Ok \<lparr>f_magic = Some magic,
                   f_metadata = take metadata_len (drop 5 buf),
                   f_payload = take payload_len (drop (9 + metadata_len) buf)\<rparr>))"

definition flat_decode :: "fb_meta \<Rightarrow> flat_record_batch \<Rightarrow> (decode_error, record_batch) outcome" where
  "flat_decode fb f =
     (case fb_root fb (f_metadata f) of
        None \<Rightarrow> Err InvalidDataFormat
      | Some m \<Rightarrow> Ok \<lparr>rb_metadata = m, rb_payload = f_payload f\<rparr>)"

definition decode_to_record_batch :: "fb_meta \<Rightarrow> bytes \<Rightarrow> bytes \<times> (decode_error, record_batch) outcome" where
  "decode_to_record_batch fb buf =
     (case init_from_buf buf of (buf', r) \<Rightarrow> (buf', bind_outcome r (flat_decode fb)))"

subsection \<open>Append entries\<close>

record append_entry =
  ae_stream_id :: u64
  ae_index :: u32
  ae_offset :: "u64 option"
  ae_len :: u32

definition entry_of_meta :: "record_batch_meta \<Rightarrow> append_entry" where
  "entry_of_meta m =
     \<lparr>ae_stream_id = nat (m_stream_id m mod 2 ^ 64), ae_index = nat (m_range_index m mod 2 ^ 32),
      ae_offset = (if m_base_offset m \<ge> 0 then Some (nat (m_base_offset m)) else None),
      ae_len = nat (m_last_offset_delta m mod 2 ^ 32)\<rparr>"

text \<open>The result carries the number of bytes consumed.\<close>

definition parse_append_entry :: "fb_meta \<Rightarrow> bytes \<Rightarrow> (decode_error, append_entry option \<times> usize) outcome" where
  "parse_append_entry fb payload =
     (if payload = [] then Ok (None, 0)
      else if length payload < 9 then Err DataLengthMismatch
      else
        bind_outcome (get_be 1 payload) (\<lambda>(magic_code, cur).
        if magic_code \<noteq> Magic0 then Err InvalidMagic
        else bind_outcome (get_be 4 cur) (\<lambda>(ml, cur).
        let metadata_len = i32_as_usize ml in
        if length cur \<le> metadata_len then Err DataLengthMismatch
        else (case fb_root fb (take metadata_len cur) of
                None \<Rightarrow> Err Flatbuffer
              | Some m \<Rightarrow>
                  bind_outcome (adv metadata_len cur) (\<lambda>cur.
                  bind_outcome (get_be 4 cur) (\<lambda>(pl, cur).
                  let payload_len = i32_as_usize pl in
                  if length cur < payload_len then Err DataLengthMismatch
                  else bind_outcome (adv payload_len cur) (\<lambda>cur.
                  Ok (Some (entry_of_meta m), length payload - length cur))))))))"

lemma parse_append_entry_progress:
  assumes "parse_append_entry fb payload = Ok (Some e, n)"
  shows "0 < n \<and> n \<le> length payload"
  using assms
  by (simp add: parse_append_entry_def reader_simps Let_def split: if_splits option.splits) linarith

function parse_append_entries :: "fb_meta \<Rightarrow> bytes \<Rightarrow> (decode_error, append_entry list) outcome" where
  "parse_append_entries fb payload =
     (case parse_append_entry fb payload of
        Ok (Some e, n) \<Rightarrow> fmap_ok (\<lambda>es. e # es) (parse_append_entries fb (drop n payload))
      | Ok (None, n) \<Rightarrow> Ok []
      | Err e \<Rightarrow> Err e
      | Panic \<Rightarrow> Panic)"
  by auto

termination
  by (relation "measure (\<lambda>(fb, p). length p)") (auto dest!: parse_append_entry_progress)

declare parse_append_entries.simps [simp del]

section \<open>Lemmas\<close>

lemma i32_as_usize_small: "n < 2 ^ 31 \<Longrightarrow> i32_as_usize n = n"
  by (simp add: i32_as_usize_def)

lemma be_val_take_append: "n < 256 ^ k \<Longrightarrow> be_val (take k (be_bytes k n @ xs)) = n"
  by (simp add: be_val_be_bytes)

definition flat_bytes :: "flat_record_batch \<Rightarrow> bytes" where
  "flat_bytes f = concat (fst (flat_encode f))"

definition flat_ok :: "flat_record_batch \<Rightarrow> bool" where
  "flat_ok f \<longleftrightarrow> f_magic f = Some Magic0 \<and> length (f_metadata f) < 2 ^ 31 \<and> length (f_payload f) < 2 ^ 31"

lemma flat_bytes_eq:
  "flat_ok f \<Longrightarrow> flat_bytes f = be_bytes 1 Magic0 @ be_bytes 4 (length (f_metadata f)) @ f_metadata f @
     be_bytes 4 (length (f_payload f)) @ f_payload f"
  by (simp add: flat_bytes_def flat_encode_def flat_ok_def Let_def)

lemma init_from_struct_ok:
  "length (fb_pack fb (rb_metadata b)) < 2 ^ 31 \<Longrightarrow> length (rb_payload b) < 2 ^ 31 \<Longrightarrow> flat_ok (init_from_struct fb b)"
  by (simp add: flat_ok_def init_from_struct_def)

lemma init_from_buf_bytes:
  assumes "flat_ok f"
  shows "init_from_buf (flat_bytes f @ rest) = (rest, Ok f)"
proof -
  define md pl where "md = f_metadata f" and "pl = f_payload f"
  have len: "length md < 2 ^ 31" "length pl < 2 ^ 31" and f: "f = \<lparr>f_magic = Some Magic0, f_metadata = md, f_payload = pl\<rparr>"
    using assms by (auto simp: flat_ok_def md_def pl_def)
  define B where "B = be_bytes 1 Magic0 @ be_bytes 4 (length md) @ md @ be_bytes 4 (length pl) @ pl @ rest"
  note [simp del] = be_bytes.simps
  have b: "flat_bytes f @ rest = B" using flat_bytes_eq [OF assms] by (simp add: md_def pl_def B_def)
  have d1: "drop 1 B = be_bytes 4 (length md) @ md @ be_bytes 4 (length pl) @ pl @ rest" by (simp add: B_def)
  have d5: "drop 5 B = md @ be_bytes 4 (length pl) @ pl @ rest" by (simp add: B_def)
  have dm: "drop (5 + length md) B = be_bytes 4 (length pl) @ pl @ rest" by (simp add: B_def)
  have dp: "drop (9 + length md) B = pl @ rest" by (simp add: B_def)
  have m: "be_val (take 1 B) = Magic0" by (simp add: B_def be_val_be_bytes Magic0_def)
  have ml: "be_val (take 4 (drop 1 B)) = length md"
    unfolding d1 using len by (intro be_val_take_append) simp
  have plen: "be_val (take 4 (drop (5 + length md) B)) = length pl"
    unfolding dm using len by (intro be_val_take_append) simp
  have parts: "take (length md) (drop 5 B) = md" "take (length pl) (drop (9 + length md) B) = pl"
    unfolding d5 dp by simp_all
  have rest: "drop (9 + length md + length pl) B = rest" by (simp add: B_def)
  have lB: "length B = 9 + length md + length pl + length rest" by (simp add: B_def)
  have small: "i32_as_usize (length md) = length md" "i32_as_usize (length pl) = length pl" "\<not> length md + 4 \<ge> 2 ^ 64"
    using len by (simp_all add: i32_as_usize_small)
  have "init_from_buf B = (rest, Ok \<lparr>f_magic = Some Magic0, f_metadata = md, f_payload = pl\<rparr>)"
    unfolding init_from_buf_def MIN_RECORD_BATCH_LEN_def Let_def m ml small(1) plen small(2) parts rest lB
    using small(3) by (simp del: One_nat_def)
  then show ?thesis unfolding b using f by simp
qed

lemma parse_append_entry_bytes:
  assumes ok: "flat_ok f" and m: "fb_root fb (f_metadata f) = Some m"
  shows "parse_append_entry fb (flat_bytes f @ rest) = Ok (Some (entry_of_meta m), length (flat_bytes f))"
proof -
  define md pl where "md = f_metadata f" and "pl = f_payload f"
  have len: "length md < 2 ^ 31" "length pl < 2 ^ 31" using ok by (auto simp: flat_ok_def md_def pl_def)
  define B where "B = be_bytes 1 Magic0 @ be_bytes 4 (length md) @ md @ be_bytes 4 (length pl) @ pl @ rest"
  define C where "C = be_bytes 4 (length md) @ md @ be_bytes 4 (length pl) @ pl @ rest"
  note [simp del] = be_bytes.simps
  have b: "flat_bytes f @ rest = B" and lf: "length (flat_bytes f) = 9 + length md + length pl"
    using flat_bytes_eq [OF ok] by (simp_all add: md_def pl_def B_def)
  have B: "be_val (take 1 B) = Magic0" "drop 1 B = C" "length B = 9 + length md + length pl + length rest" "B \<noteq> []"
    by (auto simp: B_def C_def be_val_be_bytes Magic0_def simp flip: length_0_conv)
  have C: "be_val (take 4 C) = length md" "drop 4 C = md @ be_bytes 4 (length pl) @ pl @ rest"
    "length C = 8 + length md + length pl + length rest"
    using len by (simp_all add: C_def be_val_be_bytes)
  have "be_val (be_bytes 4 (length pl)) = length pl" using len by (simp add: be_val_be_bytes)
  then show ?thesis
    unfolding b lf using len m B C
    by (simp add: parse_append_entry_def bind_get_be_ok bind_adv_ok i32_as_usize_small md_def [symmetric] Let_def)
qed

lemma parse_append_entries_Nil: "parse_append_entries fb [] = Ok []"
  by (simp add: parse_append_entries.simps parse_append_entry_def)

lemma parse_append_entries_Cons:
  assumes "flat_ok f" "fb_root fb (f_metadata f) = Some m"
  shows "parse_append_entries fb (flat_bytes f @ rest) =
           fmap_ok (\<lambda>es. entry_of_meta m # es) (parse_append_entries fb rest)"
  by (subst parse_append_entries.simps) (simp add: parse_append_entry_bytes [OF assms])

section \<open>Properties\<close>

definition encode_batch :: "fb_meta \<Rightarrow> record_batch \<Rightarrow> bytes" where
  "encode_batch fb b = concat (fst (flat_encode (init_from_struct fb b)))"

text \<open>Batches whose parts fit the layout's signed 32-bit length fields.\<close>

definition batch_fits :: "fb_meta \<Rightarrow> record_batch \<Rightarrow> bool" where
  "batch_fits fb b \<longleftrightarrow> length (fb_pack fb (rb_metadata b)) < 2 ^ 31 \<and> length (rb_payload b) < 2 ^ 31"

lemma encode_batch_flat: "encode_batch fb b = flat_bytes (init_from_struct fb b)"
  by (simp add: encode_batch_def flat_bytes_def)

lemma batch_fits_flat: "batch_fits fb b \<Longrightarrow> flat_ok (init_from_struct fb b)"
  by (simp add: batch_fits_def init_from_struct_ok)

lemma decode_encoded:
  assumes "fb_meta_ok fb {rb_metadata b}" and "batch_fits fb b"
  shows "decode_to_record_batch fb (encode_batch fb b @ rest) = (rest, Ok b)"
  using assms(1) init_from_buf_bytes [OF batch_fits_flat [OF assms(2)], of rest]
  by (simp add: decode_to_record_batch_def encode_batch_flat flat_decode_def init_from_struct_def fb_meta_ok_def)

text \<open>
  C27. A record batch survives its storage and network layout: decoding the encoded batch, followed
  by any bytes, gives the batch back and leaves exactly the bytes that follow.
\<close>

theorem batch_roundtrip:
  assumes "fb_meta_ok fb {rb_metadata b}" and "batch_fits fb b"
  shows "decode_to_record_batch fb (encode_batch fb b @ rest) = (rest, Ok b)"
  using assms by (rule decode_encoded)

text \<open>A table and a packing that round-trips it, for examples.\<close>

definition sample_meta :: record_batch_meta where
  "sample_meta = \<lparr>m_stream_id = 1, m_range_index = 0, m_flags = 0, m_base_offset = 10,
     m_last_offset_delta = 2, m_base_timestamp = 0, m_properties = None\<rparr>"

definition sample_fb :: fb_meta where
  "sample_fb = \<lparr>fb_pack = (\<lambda>m. [7, 7]), fb_root = (\<lambda>bs. if bs = [7, 7] then Some sample_meta else None)\<rparr>"

definition sample_batch :: record_batch where
  "sample_batch = \<lparr>rb_metadata = sample_meta, rb_payload = [1, 2, 3]\<rparr>"

lemma sample_fb_ok: "fb_meta_ok sample_fb {sample_meta}"
  by (simp add: fb_meta_ok_def sample_fb_def)

lemma sample_batch_fits: "batch_fits sample_fb sample_batch"
  by (simp add: batch_fits_def sample_fb_def sample_batch_def)

theorem batch_roundtrip_witness:
  "decode_to_record_batch sample_fb (encode_batch sample_fb sample_batch @ [9]) = ([9], Ok sample_batch)"
  by (rule batch_roundtrip) (simp_all add: sample_fb_ok sample_batch_fits sample_batch_def [THEN arg_cong [of _ _ rb_metadata]])

text \<open>
  An append request carrying several batches is taken apart completely: parsing the
  concatenated batches yields one entry per batch, in order, with the batch's stream, range,
  base offset and record count.
\<close>

theorem append_entries_roundtrip:
  assumes "fb_meta_ok fb (rb_metadata ` set bs)" and "\<forall>b \<in> set bs. batch_fits fb b"
  shows "parse_append_entries fb (concat (map (encode_batch fb) bs)) =
           Ok (map (\<lambda>b. entry_of_meta (rb_metadata b)) bs)"
  using assms
proof (induction bs)
  case Nil
  then show ?case by (simp add: parse_append_entries_Nil)
next
  case (Cons b bs)
  then have "flat_ok (init_from_struct fb b)" by (simp add: batch_fits_flat)
  moreover have "fb_root fb (f_metadata (init_from_struct fb b)) = Some (rb_metadata b)"
    using Cons.prems(1) by (simp add: init_from_struct_def fb_meta_ok_def)
  moreover have "parse_append_entries fb (concat (map (encode_batch fb) bs)) =
      Ok (map (\<lambda>b. entry_of_meta (rb_metadata b)) bs)"
    using Cons by (simp add: fb_meta_ok_def)
  ultimately show ?case
    using parse_append_entries_Cons [of "init_from_struct fb b" fb "rb_metadata b"]
    by (simp add: encode_batch_flat [of fb b])
qed

theorem append_entries_roundtrip_witness:
  "parse_append_entries sample_fb (concat (map (encode_batch sample_fb) [sample_batch, sample_batch])) =
     Ok [\<lparr>ae_stream_id = 1, ae_index = 0, ae_offset = Some 10, ae_len = 2\<rparr>,
         \<lparr>ae_stream_id = 1, ae_index = 0, ae_offset = Some 10, ae_len = 2\<rparr>]"
proof -
  have "fb_meta_ok sample_fb (rb_metadata ` set [sample_batch, sample_batch])"
    using sample_fb_ok by (simp add: sample_batch_def)
  from append_entries_roundtrip [OF this] sample_batch_fits show ?thesis
    by (simp add: sample_batch_def entry_of_meta_def sample_meta_def)
qed

text \<open>
  A truncated append request can abort the server. The check after the metadata only asks
  for one more byte, so a payload that ends one to three bytes after valid metadata makes the
  read of the payload length run out of bytes and panic.
\<close>

theorem parse_append_entry_short_panics:
  assumes "fb_root fb md = Some m" and "length md < 2 ^ 31" and "4 \<le> length md + length tail"
    and "tail \<noteq> []" and "length tail < 4"
  shows "parse_append_entry fb (be_bytes 1 Magic0 @ be_bytes 4 (length md) @ md @ tail) = Panic"
proof -
  let ?b = "be_bytes 1 Magic0 @ be_bytes 4 (length md) @ md @ tail"
  have "be_val (be_bytes 4 (length md)) = length md" "be_val (be_bytes 1 Magic0) = Magic0"
    using assms(2) by (simp_all add: be_val_be_bytes Magic0_def del: be_bytes.simps)
  moreover have "?b \<noteq> []" by simp
  ultimately show ?thesis
    using assms
    by (simp add: parse_append_entry_def bind_get_be_ok bind_adv_ok i32_as_usize_small Let_def del: be_bytes.simps)
      (simp add: get_be_def)
qed

theorem parse_append_entry_short_panics_witness:
  "parse_append_entry sample_fb ([0x22, 0, 0, 0, 2, 7, 7] @ [0, 0]) = Panic"
proof -
  have "be_bytes 1 Magic0 @ be_bytes 4 (length [7, 7 :: byte]) @ [7, 7] @ [0, 0] = [0x22, 0, 0, 0, 2, 7, 7] @ [0, 0]"
    by code_simp
  with parse_append_entry_short_panics [of sample_fb "[7, 7]" sample_meta "[0, 0]"] show ?thesis
    by (simp add: sample_fb_def)
qed

text \<open>
  A negative metadata length can abort the reader of flat batches: the sign-extended length
  plus four overflows \<open>usize\<close> for the lengths -4 to -1.
\<close>

theorem init_from_buf_negative_panics:
  assumes "1 \<le> k" and "k \<le> 4" and "4 \<le> length tail"
  shows "init_from_buf (be_bytes 1 Magic0 @ be_bytes 4 (2 ^ 32 - k) @ tail) =
           (be_bytes 1 Magic0 @ be_bytes 4 (2 ^ 32 - k) @ tail, Panic)"
proof -
  have "be_val (be_bytes 4 (2 ^ 32 - k)) = 2 ^ 32 - k"
    using assms(1) by (intro be_val_be_bytes) simp
  moreover have "be_val (be_bytes 1 Magic0) = Magic0"
    by (simp add: be_val_be_bytes Magic0_def del: be_bytes.simps)
  moreover have "i32_as_usize (2 ^ 32 - k) + 4 \<ge> 2 ^ 64"
    using assms(1,2) unfolding i32_as_usize_def by auto
  ultimately show ?thesis
    using assms(3) by (simp add: init_from_buf_def MIN_RECORD_BATCH_LEN_def Let_def del: be_bytes.simps)
qed

theorem init_from_buf_negative_panics_witness:
  "snd (init_from_buf (be_bytes 1 Magic0 @ be_bytes 4 (2 ^ 32 - 1) @ [0, 0, 0, 0])) = Panic"
  using init_from_buf_negative_panics [of 1 "[0, 0, 0, 0]"] by simp

end
