(* ===== verification/Wal.thy ===== *)
theory Wal
  imports Log_Segment Index_Record Record_Batch
begin

text \<open>
  The write-ahead log as a queue of segment files, \<open>src/components/store/src/io/wal.rs\<close>: loading
  and recovering the segments, allocating, closing, recycling and deleting them through the
  control ring, and reclaiming cache memory. The \<open>io_uring\<close> crate is seen through what it tells
  the log: whether a push or a submit succeeds (\<open>ring_env\<close>) and the completions, which are
  arguments; the entries the log pushes are kept in its state. File contents, directory
  listings and the answers of opening a file are arguments as well.
\<close>

section \<open>Model\<close>

datatype sqe =
    SqeRenameAt string string u64
  | SqeOpenAt string u64
  | SqeFallocate int u64 u64
  | SqeFsync int u64
  | SqeClose int u64
  | SqeUnlinkAt string u64

record ring_env =
  push_ok :: bool
  submit_ok :: bool

record 's wal =
  segments :: "'s log_segment list"
  inflight :: "u64 \<rightharpoonup> status"
  current_cache_size :: u64
  sq :: "sqe list"
  submitted :: "sqe list"

definition wal_new :: "'s wal" where
  "wal_new = \<lparr>segments = [], inflight = Map.empty, current_cache_size = 0, sq = [], submitted = []\<rparr>"

definition inflight_control_task_num :: "'s wal \<Rightarrow> nat" where
  "inflight_control_task_num w = card (dom (inflight w))"

subsection \<open>Loading\<close>

text \<open>A directory entry: its path, and whether it is a directory, if its metadata is readable.\<close>

type_synonym dir_entry = "string \<times> bool option"

definition path_join :: "string \<Rightarrow> string \<Rightarrow> string" where
  "path_join dir name = dir @ CHR ''/'' # name"

definition segment_of_entry :: "'s skiplist \<Rightarrow> store_config \<Rightarrow> dir_entry \<Rightarrow> 's log_segment option" where
  "segment_of_entry sl cfg d =
     (case d of (path, meta) \<Rightarrow>
        (case meta of
           None \<Rightarrow> None
         | Some True \<Rightarrow> None
         | Some False \<Rightarrow>
             (case parse_offset path of
                None \<Rightarrow> None
              | Some off \<Rightarrow>
                  (case seg_new sl cfg off (segment_size cfg) path of Ok s \<Rightarrow> Some s | _ \<Rightarrow> None))))"

text \<open>
  The offsets of the pre-allocated segments. With a segment size of zero the source's iterator
  has no end; the configured size is positive.
\<close>

function preallocate :: "store_config \<Rightarrow> u64 \<Rightarrow> u64 list" where
  "preallocate cfg off =
     (if 0 < segment_size cfg \<and> off + segment_size cfg \<le> total_segment_file_size cfg
      then off # preallocate cfg (off + segment_size cfg) else [])"
  by auto

termination
  by (relation "measure (\<lambda>(cfg, off). total_segment_file_size cfg - off)") auto

declare preallocate.simps [simp del]

fun open_all :: "(string \<Rightarrow> string + (int \<times> u64)) \<Rightarrow> (string \<Rightarrow> int option) \<Rightarrow> 's log_segment list
    \<Rightarrow> 's log_segment list \<times> (store_error, unit) outcome" where
  "open_all fs_open fs_fallocate [] = ([], Ok ())"
| "open_all fs_open fs_fallocate (s # ss) =
     (case seg_open s (fs_open (seg_path s)) (fs_fallocate (seg_path s)) of
        (s', Ok _) \<Rightarrow> (case open_all fs_open fs_fallocate ss of (ss', r) \<Rightarrow> (s' # ss', r))
      | (s', r) \<Rightarrow> ([], r))"

definition load_from_paths :: "'s skiplist \<Rightarrow> store_config \<Rightarrow> string + dir_entry list
    \<Rightarrow> (string \<Rightarrow> string + (int \<times> u64)) \<Rightarrow> (string \<Rightarrow> int option) \<Rightarrow> 's wal
    \<Rightarrow> 's wal \<times> (store_error, unit) outcome" where
  "load_from_paths sl cfg listing fs_open fs_fallocate w =
     (case listing of
        Inl e \<Rightarrow> (w, Err (IO e))
      | Inr ds \<Rightarrow>
          let found = sort_key seg_wal_offset (List.map_filter (segment_of_entry sl cfg) ds);
              next_wal_offset = (if found = [] then 0 else seg_wal_offset (last found) + seg_size (last found));
              fresh = List.map_filter (\<lambda>off.
                        case seg_new sl cfg off (segment_size cfg) (path_join (wal_path cfg) (seg_format off)) of
                          Ok s \<Rightarrow> Some s | _ \<Rightarrow> None) (preallocate cfg next_wal_offset)
          in (case open_all fs_open fs_fallocate (found @ fresh) of
                (ss, r) \<Rightarrow> (w\<lparr>segments := segments w @ ss\<rparr>, r)))"

subsection \<open>Finding a segment\<close>

definition holds_offset :: "u64 \<Rightarrow> 's log_segment \<Rightarrow> bool" where
  "holds_offset off s \<longleftrightarrow> seg_wal_offset s \<le> off \<and> seg_wal_offset s + seg_size s > off"

definition segment_file_of :: "'s log_segment list \<Rightarrow> u64 \<Rightarrow> 's log_segment option" where
  "segment_file_of ss off = find (holds_offset off) (rev ss)"

text \<open>Updating the segment \<open>segment_file_of\<close> found: the last one that holds the offset.\<close>

fun update_last :: "('a \<Rightarrow> bool) \<Rightarrow> ('a \<Rightarrow> 'a) \<Rightarrow> 'a list \<Rightarrow> 'a list" where
  "update_last P f [] = []"
| "update_last P f (x # xs) =
     (if P x \<and> \<not> (\<exists>y \<in> set xs. P y) then f x # xs else x # update_last P f xs)"

subsection \<open>Recovery\<close>

text \<open>Indexing one payload; the answer is the index record, if the payload holds an entry.\<close>

definition index_payload :: "fb_meta \<Rightarrow> 's log_segment \<Rightarrow> u64 \<Rightarrow> bytes \<Rightarrow> (store_error, index_record list) outcome" where
  "index_payload fb seg file_pos buf =
     (case parse_append_entry fb buf of
        Ok (Some entry, len) \<Rightarrow>
          (case ae_offset entry of
             None \<Rightarrow> Panic
           | Some off \<Rightarrow>
               if seg_wal_offset seg + file_pos < len + 8 \<or> as_u32 len + 8 \<ge> 2 ^ 32 then Panic
               else Ok [\<lparr>ir_index = \<lparr>ri_stream_id = ae_stream_id entry, ri_range = ae_index entry, ri_offset = off\<rparr>,
                         ir_handle = \<lparr>rh_wal_offset = seg_wal_offset seg + file_pos - len - 8,
                                      rh_len = as_u32 len + 8, rh_ext = BatchSize (ae_len entry)\<rparr>\<rparr>])
      | Ok (None, _) \<Rightarrow> Ok []
      | Err _ \<Rightarrow> Ok []
      | Panic \<Rightarrow> Panic)"

text \<open>
  The scan of one segment from a file position on. The result carries the position reached,
  whether the end of the log was found, and the index records in order.
\<close>

record scan_env =
  sc_alignment :: usize
  sc_file :: bytes
  sc_clock :: "nat \<Rightarrow> nat \<Rightarrow> u32 \<Rightarrow> u64"

definition scan_read :: "'s skiplist \<Rightarrow> scan_env \<Rightarrow> nat \<Rightarrow> 's log_segment \<Rightarrow> usize \<Rightarrow> u64
    \<Rightarrow> ('s log_segment \<times> (store_error, bytes) outcome) option" where
  "scan_read sl env i seg len pos = read_exact_at sl (sc_alignment env) (sc_file env) (sc_clock env i) seg len pos"

datatype 'a scan_step = Stop "(store_error, u64 \<times> bool) outcome" | Continue 'a

text \<open>One iteration: the segment afterwards, the new index records, and how the scan goes on.\<close>

definition scan_one :: "'h crc32fast \<Rightarrow> fb_meta \<Rightarrow> 's skiplist \<Rightarrow> scan_env \<Rightarrow> nat \<Rightarrow> 's log_segment \<Rightarrow> u64
    \<Rightarrow> ('s log_segment \<times> index_record list \<times> u64 scan_step) option" where
  "scan_one H fb sl env i seg pos =
     Option.bind (scan_read sl env (3 * i) seg 4 pos) (\<lambda>(seg1, r1).
       case r1 of
         Err e \<Rightarrow> Some (seg1, [], Stop (Err e))
       | Panic \<Rightarrow> Some (seg1, [], Stop Panic)
       | Ok meta1 \<Rightarrow>
           Option.bind (scan_read sl env (3 * i + 1) seg1 4 (pos + 4)) (\<lambda>(seg2, r2).
             case r2 of
               Err e \<Rightarrow> Some (seg2, [], Stop (Err e))
             | Panic \<Rightarrow> Some (seg2, [], Stop Panic)
             | Ok meta2 \<Rightarrow>
                 let crc = be_val meta1; len_type = be_val meta2; len = len_type div 256;
                     ended = (\<lambda>s. s\<lparr>seg_status := ReadWrite, written := pos\<rparr>)
                 in if pos + 8 + len > seg_size seg2 \<or> len = 0
                    then Some (ended seg2, [], Stop (Ok (pos, True)))
                    else
                      Option.bind (scan_read sl env (3 * i + 2) seg2 len (pos + 8)) (\<lambda>(seg3, r3).
                        case r3 of
                          Err e \<Rightarrow> Some (seg3, [], Stop (Err e))
                        | Panic \<Rightarrow> Some (seg3, [], Stop Panic)
                        | Ok buf \<Rightarrow>
                            if checksum_record H [buf] (seg_wal_offset seg3) \<noteq> crc
                            then Some (ended seg3, [], Stop (Ok (pos, True)))
                            else
                              (case record_type_of (len_type mod 256) of
                                 None \<Rightarrow> Some (seg3, [], Stop Panic)
                               | Some RZero \<Rightarrow>
                                   Some (seg3\<lparr>written := seg_size seg3, seg_status := Read\<rparr>, [],
                                         Stop (Ok (pos + 8 + len, False)))
                               | Some _ \<Rightarrow>
                                   (case index_payload fb seg3 (pos + 8 + len) buf of
                                      Ok idx \<Rightarrow> Some (seg3, idx, Continue (pos + 8 + len))
                                    | Err e \<Rightarrow> Some (seg3, [], Stop (Err e))
                                    | Panic \<Rightarrow> Some (seg3, [], Stop Panic))))))"

partial_function (option) scan_loop :: "'h crc32fast \<Rightarrow> fb_meta \<Rightarrow> 's skiplist \<Rightarrow> scan_env \<Rightarrow> nat \<Rightarrow> 's log_segment
    \<Rightarrow> u64 \<Rightarrow> index_record list \<Rightarrow> ('s log_segment \<times> index_record list \<times> (store_error, u64 \<times> bool) outcome) option" where
  "scan_loop H fb sl env i seg pos idx =
     Option.bind (scan_one H fb sl env i seg pos) (\<lambda>(seg', new, st).
       case st of
         Stop r \<Rightarrow> Some (seg', idx @ new, r)
       | Continue pos' \<Rightarrow> scan_loop H fb sl env (Suc i) seg' pos' (idx @ new))"

text \<open>\<open>scan_record\<close>: the new position, whether the end was found, and the index records.\<close>

definition scan_record :: "'h crc32fast \<Rightarrow> fb_meta \<Rightarrow> 's skiplist \<Rightarrow> scan_env \<Rightarrow> (u32 \<Rightarrow> u64) \<Rightarrow> (nat \<Rightarrow> u64) \<Rightarrow> 's log_segment \<Rightarrow> u64
    \<Rightarrow> ('s log_segment \<times> index_record list \<times> (store_error, u64 \<times> bool) outcome) option" where
  "scan_record H fb sl env t_clock t_now seg pos =
     (if pos < seg_wal_offset seg then Some (seg, [], Panic)
      else
        map_option (\<lambda>(seg', idx, r).
            case r of
              Ok (file_pos, last_found) \<Rightarrow>
                (case truncate_to sl (sc_alignment env) t_clock t_now seg' (written seg') of
                   (seg'', Ok _) \<Rightarrow> (seg'', idx, Ok (seg_wal_offset seg' + file_pos, last_found))
                 | (seg'', Err e) \<Rightarrow> (seg'', idx, Err e)
                 | (seg'', Panic) \<Rightarrow> (seg'', idx, Panic))
            | Err e \<Rightarrow> (seg', idx, Err e)
            | Panic \<Rightarrow> (seg', idx, Panic))
          (scan_loop H fb sl env 0 seg (pos - seg_wal_offset seg) []))"

text \<open>The files and clocks the recovery sees, by segment offset.\<close>

record recover_env =
  rc_scan :: "u64 \<Rightarrow> scan_env"
  rc_clock :: "u64 \<Rightarrow> u32 \<Rightarrow> u64"
  rc_now :: "u64 \<Rightarrow> nat \<Rightarrow> u64"

fun recover_loop :: "'h crc32fast \<Rightarrow> fb_meta \<Rightarrow> 's skiplist \<Rightarrow> recover_env \<Rightarrow> u64 \<Rightarrow> 's log_segment list \<Rightarrow> u64 \<Rightarrow> bool \<Rightarrow> index_record list
    \<Rightarrow> ('s log_segment list \<times> index_record list \<times> (store_error, u64) outcome) option" where
  "recover_loop H fb sl env off [] pos need_scan idx = Some ([], idx, Ok pos)"
| "recover_loop H fb sl env off (s # ss) pos need_scan idx =
     (if seg_wal_offset s + seg_size s \<le> off
      then map_option (\<lambda>(ss', r). (s\<lparr>seg_status := Read, written := seg_size s\<rparr> # ss', r))
             (recover_loop H fb sl env off ss pos need_scan idx)
      else if \<not> need_scan
      then map_option (\<lambda>(ss', r). (s\<lparr>written := 0, seg_status := ReadWrite\<rparr> # ss', r))
             (recover_loop H fb sl env off ss pos need_scan idx)
      else
        Option.bind (scan_record H fb sl (rc_scan env (seg_wal_offset s)) (rc_clock env (seg_wal_offset s))
                       (rc_now env (seg_wal_offset s)) s pos) (\<lambda>(s', new, r).
          case r of
            Ok (pos', last_found) \<Rightarrow>
              map_option (\<lambda>(ss', r'). (s' # ss', r'))
                (recover_loop H fb sl env off ss pos' (\<not> last_found) (idx @ new))
          | Err e \<Rightarrow> Some (s' # ss, idx @ new, Err e)
          | Panic \<Rightarrow> Some (s' # ss, idx @ new, Panic)))"

definition recover :: "'h crc32fast \<Rightarrow> fb_meta \<Rightarrow> 's skiplist \<Rightarrow> recover_env \<Rightarrow> 's wal \<Rightarrow> u64
    \<Rightarrow> ('s wal \<times> index_record list \<times> (store_error, u64) outcome) option" where
  "recover H fb sl env w off =
     (let pos = (case segments w of s # _ \<Rightarrow> if off < seg_wal_offset s then seg_wal_offset s else off | [] \<Rightarrow> off)
      in map_option (\<lambda>(ss, r). (w\<lparr>segments := ss\<rparr>, r))
           (recover_loop H fb sl env off (segments w) pos True []))"

end
