(* ===== verification/Int_Cast.thy ===== *)
theory Int_Cast
  imports Prelude
begin

text \<open>
  Casts between the unsigned types of the model and the signed integers of the wire tables:
  two's complement at the width of the target, as \<open>as\<close> does.
\<close>

definition to_signed :: "nat \<Rightarrow> nat \<Rightarrow> int" where
  "to_signed w n = (if n mod 2 ^ w < 2 ^ (w - 1) then int (n mod 2 ^ w) else int (n mod 2 ^ w) - 2 ^ w)"

definition to_unsigned :: "nat \<Rightarrow> int \<Rightarrow> nat" where
  "to_unsigned w i = nat (i mod 2 ^ w)"

abbreviation as_i64 :: "nat \<Rightarrow> int" where "as_i64 \<equiv> to_signed 64"
abbreviation as_i32 :: "nat \<Rightarrow> int" where "as_i32 \<equiv> to_signed 32"
abbreviation as_i16 :: "nat \<Rightarrow> int" where "as_i16 \<equiv> to_signed 16"
abbreviation as_i8 :: "nat \<Rightarrow> int" where "as_i8 \<equiv> to_signed 8"
abbreviation int_as_u64 :: "int \<Rightarrow> u64" where "int_as_u64 \<equiv> to_unsigned 64"
abbreviation int_as_u32 :: "int \<Rightarrow> u32" where "int_as_u32 \<equiv> to_unsigned 32"
abbreviation int_as_u16 :: "int \<Rightarrow> u16" where "int_as_u16 \<equiv> to_unsigned 16"
abbreviation int_as_u8 :: "int \<Rightarrow> u8" where "int_as_u8 \<equiv> to_unsigned 8"

text \<open>The values of a signed type.\<close>

definition fits_signed :: "nat \<Rightarrow> int \<Rightarrow> bool" where
  "fits_signed w i \<longleftrightarrow> - (2 ^ (w - 1)) \<le> i \<and> i < 2 ^ (w - 1)"

lemma to_unsigned_less: "to_unsigned w i < 2 ^ w"
proof -
  have "i mod 2 ^ w < 2 ^ w" "0 \<le> i mod 2 ^ w" by simp_all
  then show ?thesis unfolding to_unsigned_def by (simp add: nat_less_iff)
qed

lemma to_unsigned_to_signed: "n < 2 ^ w \<Longrightarrow> to_unsigned w (to_signed w n) = n"
proof -
  assume n: "n < 2 ^ w"
  have z: "(int n - 2 ^ w) mod 2 ^ w = int n mod 2 ^ w" by simp
  have "int n mod 2 ^ w = int n" using n by simp
  with n z show ?thesis by (simp add: to_unsigned_def to_signed_def)
qed

lemma to_signed_to_unsigned: "0 < w \<Longrightarrow> fits_signed w i \<Longrightarrow> to_signed w (to_unsigned w i) = i"
proof -
  assume w: "0 < w" and i: "fits_signed w i"
  have p: "(2 :: int) ^ w = 2 * 2 ^ (w - 1)" and pn: "(2 :: nat) ^ w = 2 * 2 ^ (w - 1)"
    using w by (cases w; simp)+
  have lt: "to_unsigned w i < 2 ^ w" by (rule to_unsigned_less)
  show ?thesis
  proof (cases "0 \<le> i")
    case True
    then have "i mod 2 ^ w = i" using i p by (simp add: fits_signed_def)
    then have u: "to_unsigned w i = nat i" by (simp add: to_unsigned_def)
    then have "nat i < 2 ^ (w - 1)" using True i by (simp add: fits_signed_def nat_less_iff)
    with u lt True show ?thesis by (simp add: to_signed_def)
  next
    case False
    have bounds: "0 \<le> i + 2 ^ w" "i + 2 ^ w < 2 ^ w" "2 ^ (w - 1) \<le> i + 2 ^ w"
      using i False unfolding fits_signed_def p by linarith+
    have "i mod 2 ^ w = (i + 2 ^ w) mod 2 ^ w" by simp
    also have "\<dots> = i + 2 ^ w" using bounds(1,2) by (rule mod_pos_pos_trivial)
    finally have u: "int (to_unsigned w i) = i + 2 ^ w" using bounds(1) by (simp add: to_unsigned_def)
    then have "\<not> int (to_unsigned w i) < 2 ^ (w - 1)" using bounds(3) by linarith
    then have "\<not> to_unsigned w i < 2 ^ (w - 1)" by (metis of_nat_less_iff of_nat_numeral of_nat_power)
    with u lt show ?thesis by (simp add: to_signed_def)
  qed
qed

lemma to_signed_fits: "0 < w \<Longrightarrow> fits_signed w (to_signed w n)"
proof -
  assume w: "0 < w"
  have p: "(2 :: int) ^ w = 2 * 2 ^ (w - 1)" using w by (cases w) simp_all
  have lt: "n mod 2 ^ w < 2 ^ w" by simp
  then have li: "int (n mod 2 ^ w) < 2 ^ w" by (metis of_nat_less_iff of_nat_numeral of_nat_power)
  have c: "n mod 2 ^ w < 2 ^ (w - 1) \<longleftrightarrow> int (n mod 2 ^ w) < 2 ^ (w - 1)"
    by (metis of_nat_less_iff of_nat_numeral of_nat_power)
  show ?thesis using li c p unfolding fits_signed_def to_signed_def by auto
qed

lemma to_signed_id: "0 < w \<Longrightarrow> n < 2 ^ (w - 1) \<Longrightarrow> to_signed w n = int n"
proof -
  assume w: "0 < w" and n: "n < 2 ^ (w - 1)"
  have "(2 :: nat) ^ (w - 1) \<le> 2 ^ w" by (rule power_increasing) simp_all
  with n have "n < 2 ^ w" by linarith
  then have "n mod 2 ^ w = n" by simp
  with n show ?thesis by (simp add: to_signed_def)
qed

lemma to_unsigned_id: "0 \<le> i \<Longrightarrow> i < 2 ^ w \<Longrightarrow> to_unsigned w i = nat i"
  by (simp add: to_unsigned_def)

lemma to_signed_minus_one: "0 < w \<Longrightarrow> n < 2 ^ w \<Longrightarrow> to_signed w n = -1 \<longleftrightarrow> n = 2 ^ w - 1"
proof -
  assume w: "0 < w" and n: "n < 2 ^ w"
  have "to_signed w n = -1 \<longleftrightarrow> to_unsigned w (to_signed w n) = to_unsigned w (-1)"
  proof
    assume "to_unsigned w (to_signed w n) = to_unsigned w (-1)"
    then have "to_signed w (to_unsigned w (to_signed w n)) = to_signed w (to_unsigned w (-1))" by simp
    moreover have "(0 :: int) < 2 ^ (w - 1)" by simp
    then have "fits_signed w (-1)" unfolding fits_signed_def by linarith
    ultimately show "to_signed w n = -1" using to_signed_to_unsigned [OF w] to_signed_fits [OF w] by simp
  qed simp
  moreover have "to_unsigned w (-1) = 2 ^ w - 1"
  proof -
    have "(-1 :: int) mod 2 ^ w = 2 ^ w - 1" by (simp add: zmod_minus1)
    then show ?thesis by (simp add: to_unsigned_def nat_diff_distrib' nat_power_eq)
  qed
  ultimately show ?thesis using to_unsigned_to_signed [OF n] by simp
qed

end
