(* ===== verification/Wal_Control.thy ===== *)
theory Wal_Control
  imports Wal Int_Cast
begin

text \<open>
  The control plane of the write-ahead log, \<open>src/components/store/src/io/wal.rs\<close>: a segment file
  is opened (or renamed from a recycled one), pre-allocated and synced before it takes writes,
  and closed and then deleted or recycled once it expires. Each stage is an entry on the
  control ring; its completion moves the segment to the next stage. Also here: reclaiming
  cache memory across the segments.
\<close>

section \<open>Model\<close>

subsection \<open>The control ring\<close>

definition push_sqes :: "ring_env \<Rightarrow> sqe list \<Rightarrow> 's wal \<Rightarrow> 's wal \<times> (store_error, unit) outcome" where
  "push_sqes env es w = (if push_ok env then (w\<lparr>sq := sq w @ es\<rparr>, Ok ()) else (w, Err IoUring))"

definition ring_submit :: "ring_env \<Rightarrow> 's wal \<Rightarrow> 's wal \<times> (store_error, unit) outcome" where
  "ring_submit env w =
     (if submit_ok env then (w\<lparr>submitted := submitted w @ sq w, sq := []\<rparr>, Ok ()) else (w, Err IoUring))"

definition enqueue_and_submit_entry :: "ring_env \<Rightarrow> sqe \<Rightarrow> 's wal \<Rightarrow> 's wal \<times> (store_error, unit) outcome" where
  "enqueue_and_submit_entry env e w =
     (case push_sqes env [e] w of
        (w', Ok _) \<Rightarrow> ring_submit env w'
      | (w', r) \<Rightarrow> (w', r))"

definition enqueue_and_submit_entries :: "ring_env \<Rightarrow> sqe list \<Rightarrow> 's wal \<Rightarrow> 's wal \<times> (store_error, unit) outcome" where
  "enqueue_and_submit_entries env es w =
     (if es = [] then (w, Ok ())
      else (case push_sqes env es w of
              (w', Ok _) \<Rightarrow> ring_submit env w'
            | (w', r) \<Rightarrow> (w', r)))"

subsection \<open>Opening\<close>

definition alloc_segment :: "'s skiplist \<Rightarrow> store_config \<Rightarrow> 's wal \<Rightarrow> (store_error, 's log_segment) outcome" where
  "alloc_segment sl cfg w =
     (let off = (if segments w = [] then 0 else seg_wal_offset (last (segments w)) + segment_size cfg)
      in seg_new sl cfg off (segment_size cfg) (path_join (wal_path cfg) (seg_format off)))"

definition has_recyclable :: "'s wal \<Rightarrow> bool" where
  "has_recyclable w = (case segments w of s # _ \<Rightarrow> seg_status s = Recycled | [] \<Rightarrow> False)"

text \<open>The new segment joins the queue only after its entry is submitted.\<close>

definition try_open_segment :: "'s skiplist \<Rightarrow> store_config \<Rightarrow> ring_env \<Rightarrow> 's wal \<Rightarrow> 's wal \<times> (store_error, unit) outcome" where
  "try_open_segment sl cfg env w =
     (case alloc_segment sl cfg w of
        Err e \<Rightarrow> (w, Err e)
      | Panic \<Rightarrow> (w, Panic)
      | Ok seg \<Rightarrow>
          let off = seg_wal_offset seg;
              (seg', entry, rest) =
                (if recycle cfg \<and> has_recyclable w
                 then (let old = seg_path (hd (segments w))
                       in (seg\<lparr>seg_status := RenameAt old\<rparr>, SqeRenameAt old (seg_path seg) off, tl (segments w)))
                 else (seg, SqeOpenAt (seg_path seg) off, segments w))
          in (case enqueue_and_submit_entry env entry
                     (w\<lparr>segments := rest, inflight := (inflight w)(off \<mapsto> seg_status seg')\<rparr>) of
                (w', Ok _) \<Rightarrow> (w'\<lparr>segments := segments w' @ [seg']\<rparr>, Ok ())
              | (w', r) \<Rightarrow> (w', r)))"

subsection \<open>Expiring and closing\<close>

fun close_first :: "nat \<Rightarrow> 's log_segment list \<Rightarrow> 's log_segment list" where
  "close_first n [] = []"
| "close_first n (s # ss) =
     (if seg_status s = Read \<and> 0 < n then s\<lparr>seg_status := Close\<rparr> # close_first (n - 1) ss
      else s # close_first n ss)"

definition read_count :: "'s log_segment list \<Rightarrow> nat" where
  "read_count ss = length (filter (\<lambda>s. seg_status s = Read) ss)"

definition check_expired_segment :: "store_config \<Rightarrow> 's wal \<Rightarrow> (store_error, 's wal) outcome" where
  "check_expired_segment cfg w =
     (if segment_size cfg = 0 then Panic
      else
        let max_num = total_segment_file_size cfg div segment_size cfg;
            cur_num = read_count (segments w)
        in if cur_num > max_num
           then Ok (w\<lparr>segments := close_first (cur_num - max_num) (segments w)\<rparr>)
           else Ok w)"

definition to_close :: "'s wal \<Rightarrow> 's log_segment list" where
  "to_close w =
     filter (\<lambda>s. seg_wal_offset s \<notin> dom (inflight w)) (takeWhile (\<lambda>s. seg_status s = Close) (segments w))"

definition close_sqes :: "'s log_segment list \<Rightarrow> sqe list" where
  "close_sqes ss = List.map_filter (\<lambda>s. map_option (\<lambda>d. SqeClose (sd_fd d) (seg_wal_offset s)) (sd s)) ss"

definition mark_inflight :: "'s log_segment list \<Rightarrow> (u64 \<rightharpoonup> status) \<Rightarrow> u64 \<rightharpoonup> status" where
  "mark_inflight ss m = fold (\<lambda>s m. m(seg_wal_offset s \<mapsto> seg_status s)) ss m"

definition try_close_segment :: "store_config \<Rightarrow> ring_env \<Rightarrow> 's wal \<Rightarrow> 's wal \<times> (store_error, unit) outcome" where
  "try_close_segment cfg env w =
     (case check_expired_segment cfg w of
        Ok w1 \<Rightarrow>
          enqueue_and_submit_entries env (close_sqes (to_close w1))
            (w1\<lparr>inflight := mark_inflight (to_close w1) (inflight w1)\<rparr>)
      | Err e \<Rightarrow> (w, Err e)
      | Panic \<Rightarrow> (w, Panic))"

subsection \<open>Completions\<close>

definition writable_segment_count :: "'s wal \<Rightarrow> nat" where
  "writable_segment_count w = length (takeWhile (\<lambda>s. seg_status s \<noteq> Read) (rev (segments w)))"

definition delete_segments :: "u64 list \<Rightarrow> 's wal \<Rightarrow> 's wal" where
  "delete_segments offs w =
     (if offs = [] then w
      else w\<lparr>segments := filter (\<lambda>s. \<not> (seg_status s = UnlinkAt \<and> seg_wal_offset s \<in> set offs)) (segments w)\<rparr>)"

definition update_segment :: "u64 \<Rightarrow> ('s log_segment \<Rightarrow> 's log_segment) \<Rightarrow> 's wal \<Rightarrow> 's wal" where
  "update_segment off f w = w\<lparr>segments := update_last (holds_offset off) f (segments w)\<rparr>"

text \<open>Pushing the entry of the next stage and recording it as in flight.\<close>

definition next_stage :: "ring_env \<Rightarrow> u64 \<Rightarrow> sqe \<Rightarrow> status \<Rightarrow> 's wal \<Rightarrow> 's wal \<times> (store_error, unit) outcome" where
  "next_stage env off e st w =
     (case push_sqes env [e] w of
        (w', Ok _) \<Rightarrow> (w'\<lparr>inflight := (inflight w')(off \<mapsto> st)\<rparr>, Ok ())
      | (w', r) \<Rightarrow> (w', r))"

definition complete_stage :: "store_config \<Rightarrow> ring_env \<Rightarrow> 's wal \<Rightarrow> u64 \<Rightarrow> int \<Rightarrow> 's log_segment
    \<Rightarrow> 's wal \<times> u64 list \<times> (store_error, unit) outcome" where
  "complete_stage cfg env w off result s =
     (case seg_status s of
        OpenAt \<Rightarrow>
          (case next_stage env off (SqeFallocate result (seg_size s) off) Fallocate64
                  (update_segment off (\<lambda>s. s\<lparr>sd := Some \<lparr>sd_medium = Ssd, sd_fd = result, sd_base_ptr = 0\<rparr>,
                                            seg_status := Fallocate64\<rparr>) w) of
             (w', r) \<Rightarrow> (w', [], r))
      | Fallocate64 \<Rightarrow>
          (case sd s of
             None \<Rightarrow> (update_segment off (\<lambda>s. s\<lparr>seg_status := Fsync\<rparr>) w, [], Panic)
           | Some d \<Rightarrow>
               (case next_stage env off (SqeFsync (sd_fd d) (seg_wal_offset s)) Fsync
                       (update_segment off (\<lambda>s. s\<lparr>seg_status := Fsync\<rparr>) w) of
                  (w', r) \<Rightarrow> (w', [], r)))
      | Fsync \<Rightarrow> (update_segment off (\<lambda>s. s\<lparr>seg_status := ReadWrite\<rparr>) w, [], Ok ())
      | Close \<Rightarrow>
          if \<not> recycle cfg
          then (case next_stage env off (SqeUnlinkAt (seg_path s) off) UnlinkAt
                       (update_segment off (\<lambda>s. s\<lparr>sd := None, seg_status := UnlinkAt\<rparr>) w) of
                  (w', r) \<Rightarrow> (w', [], r))
          else (update_segment off (\<lambda>s. s\<lparr>sd := None, seg_status := Recycled\<rparr>) w, [], Ok ())
      | UnlinkAt \<Rightarrow> (w, [off], Ok ())
      | RenameAt _ \<Rightarrow>
          (case next_stage env off (SqeOpenAt (seg_path s) off) OpenAt
                  (update_segment off (\<lambda>s. s\<lparr>seg_status := OpenAt\<rparr>) w) of
             (w', r) \<Rightarrow> (w', [], r))
      | _ \<Rightarrow> (w, [], Ok ()))"

definition on_file_op_completion :: "store_config \<Rightarrow> ring_env \<Rightarrow> 's wal \<Rightarrow> u64 \<Rightarrow> int
    \<Rightarrow> 's wal \<times> (store_error, unit) outcome" where
  "on_file_op_completion cfg env w off result =
     (case segment_file_of (segments w) off of
        Some s \<Rightarrow>
          if result = -1 then (w, Err (System result))
          else
            (case complete_stage cfg env w off result s of
               (w', to_remove, Ok _) \<Rightarrow>
                 (case ring_submit env w' of
                    (w'', Ok _) \<Rightarrow> (delete_segments to_remove w'', Ok ())
                  | (w'', r) \<Rightarrow> (w'', r))
             | (w', to_remove, r) \<Rightarrow> (w', r))
      | None \<Rightarrow> ring_submit env w)"

text \<open>
  \<open>reap_control_tasks\<close> handles the completions of a batch, in the order the hash map yields them;
  a completion that fails is dropped.
\<close>

definition reap_one :: "store_config \<Rightarrow> ring_env \<Rightarrow> u64 \<times> int \<Rightarrow> 's wal \<Rightarrow> 's wal \<times> (store_error, unit) outcome" where
  "reap_one cfg env c w =
     (case c of (off, result) \<Rightarrow>
        if inflight w off = None
        then (w, Err (Internal ''file_op misses expected in-progress offset-status entry''))
        else on_file_op_completion cfg env (w\<lparr>inflight := (inflight w)(off := None)\<rparr>) off result)"

fun reap_control_tasks :: "store_config \<Rightarrow> (u64 \<Rightarrow> ring_env) \<Rightarrow> (u64 \<times> int) list \<Rightarrow> 's wal \<Rightarrow> 's wal \<times> (store_error, unit) outcome" where
  "reap_control_tasks cfg env [] w = (w, Ok ())"
| "reap_control_tasks cfg env (c # cs) w =
     (case reap_one cfg (env (fst c)) c w of
        (w', Panic) \<Rightarrow> (w', Panic)
      | (w', _) \<Rightarrow> reap_control_tasks cfg env cs w')"

subsection \<open>Reclaiming cache memory\<close>

text \<open>
  The segments wait in an ordered list of their lowest scores. The \<open>skiplist\<close> crate yields one
  with the least score; which one among equals is the parameter \<open>pop\<close>. An element is the index of
  its segment.
\<close>

type_synonym reclaim_queue = "(nat \<times> u64) list"

definition pop_ok :: "(reclaim_queue \<Rightarrow> nat \<times> u64) \<Rightarrow> bool" where
  "pop_ok pop \<longleftrightarrow> (\<forall>q. q \<noteq> [] \<longrightarrow> pop q \<in> set q \<and> (\<forall>e \<in> set q. snd (pop q) \<le> snd e))"

definition queue_of :: "'s skiplist \<Rightarrow> 's log_segment list \<Rightarrow> reclaim_queue" where
  "queue_of sl ss =
     filter (\<lambda>e. snd e > 0) (zip [0..<length ss] (map (min_score sl \<circ> seg_cache) ss))"

definition seg_with_cache :: "'s block_cache \<Rightarrow> 's log_segment \<Rightarrow> 's log_segment" where
  "seg_with_cache c s = s\<lparr>seg_cache := c\<rparr>"

text \<open>
  One turn of the loop: the segment's entry of lowest score leaves its cache. When the segment
  takes writes and the entry is its last, the turn ends there; else the entry counts as
  reclaimed and the segment rejoins the queue if its cache has another candidate.
\<close>

definition reclaim_turn :: "'s skiplist \<Rightarrow> nat \<Rightarrow> reclaim_queue \<Rightarrow> 's log_segment list \<Rightarrow> u64
    \<Rightarrow> (store_error, reclaim_queue \<times> 's log_segment list \<times> u64) outcome" where
  "reclaim_turn sl i q ss reclaimed =
     (let s = ss ! i; last_wal_offset = wal_offset_of_last_cache_entry (seg_cache s) in
      case remove_by_score sl (seg_cache s) of
        Ok (c, Some e) \<Rightarrow>
          let ss' = ss[i := seg_with_cache c s] in
          if seg_status s = ReadWrite \<and> e_wal_offset e = last_wal_offset then Ok (q, ss', reclaimed)
          else let score = min_score sl c
               in Ok (if score > 0 then (i, score) # q else q, ss', reclaimed + e_capacity e)
      | Ok (c, None) \<Rightarrow> Ok (q, ss[i := seg_with_cache c s], reclaimed)
      | Err e \<Rightarrow> Err e
      | Panic \<Rightarrow> Panic)"

definition reclaim_measure :: "reclaim_queue \<Rightarrow> 's log_segment list \<Rightarrow> nat" where
  "reclaim_measure q ss = length q + sum_list (map (\<lambda>s. length (entries (seg_cache s))) ss)"

lemma remove_by_shrinks:
  assumes "remove_by sl c off = Ok (c', Some e)"
  shows "length (entries c') < length (entries c)"
proof -
  from assms obtain k where g: "bt_get k (entries c) = Some e" and en: "entries c' = bt_remove k (entries c)"
    by (auto simp: remove_by_def release_entry_entries outcome_simps split: option.splits)
  then have "\<exists>x \<in> set (entries c). fst x = k"
    by (force simp: bt_get_def dest: map_of_SomeD)
  then show ?thesis
    unfolding en bt_remove_def by (rule bexE) (rule length_filter_less, auto)
qed

lemma remove_by_score_shrinks:
  assumes "remove_by_score sl c = Ok (c', r)"
  shows "r = None \<Longrightarrow> length (entries c') \<le> length (entries c)"
    and "r = Some e \<Longrightarrow> length (entries c') < length (entries c)"
proof -
  have "length (entries c') \<le> length (entries c)" if "remove_by sl c off = Ok (c', None)" for off
    using that by (auto simp: remove_by_def outcome_simps split: option.splits)
  with assms remove_by_shrinks [of sl c _ c' e]
  show "r = None \<Longrightarrow> length (entries c') \<le> length (entries c)"
    and "r = Some e \<Longrightarrow> length (entries c') < length (entries c)"
    by (auto simp: remove_by_score_def split: option.splits if_splits)
qed

lemma sum_list_update_nat:
  fixes f :: "'a \<Rightarrow> nat"
  assumes "i < length xs"
  shows "sum_list (map f (xs[i := x])) + f (xs ! i) = sum_list (map f xs) + f x"
  using assms by (induction xs arbitrary: i) (auto split: nat.split)

lemma reclaim_turn_decreases:
  assumes "reclaim_turn sl i q ss n = Ok (q', ss', n')" and "i < length ss"
  shows "reclaim_measure q' ss' \<le> reclaim_measure q ss"
proof -
  let ?f = "\<lambda>s. length (entries (seg_cache s))"
  have upd: "sum_list (map ?f (ss[i := seg_with_cache c (ss ! i)])) + ?f (ss ! i) = sum_list (map ?f ss) + length (entries c)" for c
    using sum_list_update_nat [OF assms(2), of ?f "seg_with_cache c (ss ! i)"] by (simp add: seg_with_cache_def)
  from assms(1) obtain c r where rm: "remove_by_score sl (seg_cache (ss ! i)) = Ok (c, r)"
    by (auto simp: reclaim_turn_def Let_def split: outcome.splits option.splits)
  show ?thesis
  proof (cases r)
    case None
    with assms(1) rm remove_by_score_shrinks(1) [OF rm] upd [of c] show ?thesis
      by (auto simp: reclaim_turn_def reclaim_measure_def Let_def)
  next
    case (Some e)
    with assms(1) rm remove_by_score_shrinks(2) [OF rm] upd [of c] show ?thesis
      by (auto simp: reclaim_turn_def reclaim_measure_def Let_def split: if_splits)
  qed
qed

text \<open>Every turn takes an element off the queue, and puts one back only against a cache entry.\<close>

function reclaim_loop :: "(reclaim_queue \<Rightarrow> nat \<times> u64) \<Rightarrow> 's skiplist \<Rightarrow> u64 \<Rightarrow> reclaim_queue \<Rightarrow> 's log_segment list \<Rightarrow> u64
    \<Rightarrow> (store_error, 's log_segment list \<times> u64) outcome" where
  "reclaim_loop pop sl to_reclaim q ss reclaimed =
     (if reclaimed \<ge> to_reclaim \<or> q = [] then Ok (ss, reclaimed)
      else if pop q \<notin> set q \<or> fst (pop q) \<ge> length ss then Panic
      else (case reclaim_turn sl (fst (pop q)) (remove1 (pop q) q) ss reclaimed of
              Ok (q', ss', n) \<Rightarrow> reclaim_loop pop sl to_reclaim q' ss' n
            | Err e \<Rightarrow> Err e
            | Panic \<Rightarrow> Panic))"
  by auto

termination
proof (relation "measure (\<lambda>(pop, sl, n, q, ss, m). reclaim_measure q ss)", goal_cases)
  case (2 pop sl to_reclaim q ss reclaimed a b c d e)
  then have "reclaim_measure b d \<le> reclaim_measure (remove1 (pop q) q) ss"
    by (auto intro: reclaim_turn_decreases)
  moreover have "length (remove1 (pop q) q) < length q"
    using 2 by (auto simp: length_remove1 length_greater_0_conv)
  ultimately show ?case by (simp add: reclaim_measure_def)
qed simp

declare reclaim_loop.simps [simp del]

text \<open>
  The \<open>percentage\<close> crate is the parameter \<open>percent\<close>. The comment of the source promises the
  reclaimed bytes and the free bytes afterwards.
\<close>

definition try_reclaim :: "(usize \<Rightarrow> u64 \<Rightarrow> u64) \<Rightarrow> (reclaim_queue \<Rightarrow> nat \<times> u64) \<Rightarrow> 's skiplist \<Rightarrow> store_config \<Rightarrow> 's wal \<Rightarrow> u32
    \<Rightarrow> 's wal \<times> (store_error, u64 \<times> u64) outcome" where
  "try_reclaim percent pop sl cfg w min_free_bytes =
     (let cache = sum_list (map (cache_size \<circ> seg_cache) (segments w));
          high = percent (cache_high_watermark cfg) (max_cache_size cfg);
          over = (if cache > high then cache - high else 0);
          free = as_i64 (max_cache_size cfg) - as_i64 cache;
          to_reclaim = (if free + as_i64 over < int min_free_bytes
                        then int_as_u64 (int min_free_bytes - free) else over)
      in if to_reclaim = 0 then (w, Ok (0, int_as_u64 free))
         else (case reclaim_loop pop sl to_reclaim (queue_of sl (segments w)) (segments w) 0 of
                 Ok (ss, reclaimed) \<Rightarrow>
                   if reclaimed > cache then (w\<lparr>segments := ss\<rparr>, Panic)
                   else (w\<lparr>segments := ss, current_cache_size := cache - reclaimed\<rparr>,
                         Ok (reclaimed, int_as_u64 (max 0 (free + int reclaimed))))
               | Err e \<Rightarrow> (w, Err e)
               | Panic \<Rightarrow> (w, Panic)))"

end
