(* ===== verification/Wal_Lifecycle.thy ===== *)
theory Wal_Lifecycle
  imports Wal_Control
begin

text \<open>
  The life of the segments under the control plane: a step relation over the operations of
  \<open>Wal_Control\<close>, its invariant, and what follows for completions, expiry and reclaiming.
\<close>

section \<open>Order of the segments\<close>

definition seg_before :: "'s log_segment \<Rightarrow> 's log_segment \<Rightarrow> bool" where
  "seg_before a b \<longleftrightarrow> seg_wal_offset a + seg_size a \<le> seg_wal_offset b"

definition ordered_segments :: "u64 \<Rightarrow> 's log_segment list \<Rightarrow> bool" where
  "ordered_segments sz ss \<longleftrightarrow> 0 < sz \<and> (\<forall>s \<in> set ss. seg_size s = sz) \<and> sorted_wrt seg_before ss"

lemma sorted_wrt_total:
  "sorted_wrt R xs \<Longrightarrow> x \<in> set xs \<Longrightarrow> y \<in> set xs \<Longrightarrow> x = y \<or> R x y \<or> R y x"
  by (induction xs) auto

lemma ordered_holds:
  assumes "ordered_segments sz ss" "s \<in> set ss" "x \<in> set ss"
  shows "holds_offset (seg_wal_offset s) x \<longleftrightarrow> x = s" and "seg_wal_offset x = seg_wal_offset s \<longleftrightarrow> x = s"
proof -
  from assms have sz: "0 < sz" "seg_size s = sz" "seg_size x = sz" and w: "sorted_wrt seg_before ss"
    by (simp_all add: ordered_segments_def)
  from sorted_wrt_total [OF w assms(2,3)] sz
  show "holds_offset (seg_wal_offset s) x \<longleftrightarrow> x = s" and "seg_wal_offset x = seg_wal_offset s \<longleftrightarrow> x = s"
    by (auto simp: holds_offset_def seg_before_def)
qed

lemma find_unique:
  assumes "x \<in> set xs" "P x" "\<And>y. y \<in> set xs \<Longrightarrow> P y \<Longrightarrow> y = x"
  shows "find P xs = Some x"
proof -
  obtain y where y: "find P xs = Some y"
    using assms(1,2) by (cases "find P xs") (auto simp: find_None_iff)
  then have "y \<in> set xs" "P y" by (auto simp: find_Some_iff)
  then have "y = x" by (rule assms(3))
  with y show ?thesis by simp
qed

lemma segment_file_of_ordered:
  assumes "ordered_segments sz ss" "s \<in> set ss"
  shows "segment_file_of ss (seg_wal_offset s) = Some s"
  unfolding segment_file_of_def
  by (rule find_unique) (use ordered_holds(1) [OF assms] assms(2) in \<open>simp_all\<close>)

lemma update_last_unique:
  assumes "s \<in> set xs" "\<forall>y \<in> set xs. P y \<longleftrightarrow> y = s" "distinct xs"
  shows "update_last P f xs = map (\<lambda>x. if x = s then f x else x) xs"
  using assms
proof (induction xs)
  case (Cons x xs)
  show ?case
  proof (cases "x = s")
    case True
    with Cons.prems have "\<forall>y \<in> set xs. \<not> P y \<and> y \<noteq> s" by auto
    with True Cons.prems show ?thesis by (auto intro: map_idI [symmetric])
  next
    case False
    with Cons show ?thesis by auto
  qed
qed simp

lemma ordered_distinct: "ordered_segments sz ss \<Longrightarrow> distinct ss"
proof (induction ss)
  case (Cons s ss)
  have "s \<notin> set ss"
  proof
    assume mem: "s \<in> set ss"
    from Cons.prems have all: "\<forall>y \<in> set ss. seg_before s y" and sz: "seg_size s = sz" "0 < sz"
      by (simp_all add: ordered_segments_def)
    from bspec [OF all mem] sz show False by (simp add: seg_before_def)
  qed
  with Cons show ?case by (simp add: ordered_segments_def)
qed simp

lemma update_segment_ordered:
  assumes "ordered_segments sz (segments w)" "s \<in> set (segments w)"
  shows "segments (update_segment (seg_wal_offset s) f w) = map (\<lambda>x. if x = s then f x else x) (segments w)"
  unfolding update_segment_def
  using update_last_unique [OF assms(2) _ ordered_distinct [OF assms(1)]] ordered_holds(1) [OF assms]
  by simp

definition keeps_place :: "('s log_segment \<Rightarrow> 's log_segment) \<Rightarrow> bool" where
  "keeps_place f \<longleftrightarrow> (\<forall>s. seg_wal_offset (f s) = seg_wal_offset s \<and> seg_size (f s) = seg_size s)"

definition place :: "'s log_segment \<Rightarrow> u64 \<times> u64" where
  "place s = (seg_wal_offset s, seg_size s)"

lemma ordered_place:
  "ordered_segments sz ss \<longleftrightarrow> 0 < sz \<and> (\<forall>p \<in> set (map place ss). snd p = sz) \<and>
     sorted_wrt (\<lambda>p q. fst p + snd p \<le> fst q) (map place ss)"
  by (simp add: ordered_segments_def sorted_wrt_map place_def seg_before_def [abs_def])

lemma ordered_map: "keeps_place f \<Longrightarrow> ordered_segments sz ss \<Longrightarrow> ordered_segments sz (map f ss)"
  unfolding ordered_segments_def keeps_place_def by (auto simp: sorted_wrt_map seg_before_def [abs_def])

lemma ordered_filter: "ordered_segments sz ss \<Longrightarrow> ordered_segments sz (filter P ss)"
  by (auto simp: ordered_segments_def sorted_wrt_filter)

lemma ordered_tl: "ordered_segments sz ss \<Longrightarrow> ordered_segments sz (tl ss)"
  by (cases ss) (auto simp: ordered_segments_def)

lemma ordered_snoc:
  assumes "ordered_segments sz ss" "seg_size s = sz"
    "\<forall>x \<in> set ss. seg_wal_offset x + sz \<le> seg_wal_offset s"
  shows "ordered_segments sz (ss @ [s])"
  using assms by (auto simp: ordered_segments_def sorted_wrt_append seg_before_def)

lemma ordered_last:
  assumes "ordered_segments sz ss" "x \<in> set ss"
  shows "seg_wal_offset x \<le> seg_wal_offset (last ss)"
proof -
  from assms have l: "last ss \<in> set ss" and w: "sorted_wrt seg_before ss" by (cases ss, auto simp: ordered_segments_def)
  obtain ys where ys: "ss = ys @ [last ss]" using assms(2) by (cases ss rule: rev_cases) auto
  with assms(2) consider "x = last ss" | "x \<in> set ys" by (metis Un_iff empty_iff insert_iff list.set set_append)
  then show ?thesis
  proof cases
    case 2
    from w ys have "sorted_wrt seg_before (ys @ [last ss])" by simp
    with 2 show ?thesis by (auto simp: sorted_wrt_append seg_before_def)
  qed simp
qed

section \<open>The step relation and its invariant\<close>

text \<open>Statuses that wait for a completion.\<close>

fun transitional :: "status \<Rightarrow> bool" where
  "transitional ReadWrite = False"
| "transitional Read = False"
| "transitional Recycled = False"
| "transitional _ = True"

text \<open>
  What moves the control plane while the ring works: opening and closing segments, the
  completion of an operation in flight, and a segment filled up by the data plane.
\<close>

inductive wal_step :: "'s skiplist \<Rightarrow> store_config \<Rightarrow> 's wal \<Rightarrow> 's wal \<Rightarrow> bool" for sl cfg where
  open_segment: "try_open_segment sl cfg env w = (w', Ok ()) \<Longrightarrow> wal_step sl cfg w w'"
| close_segment: "try_close_segment cfg env w = (w', Ok ()) \<Longrightarrow> wal_step sl cfg w w'"
| completion: "push_ok env \<Longrightarrow> submit_ok env \<Longrightarrow> inflight w off = Some st \<Longrightarrow>
    reap_one cfg env (off, result) w = (w', r) \<Longrightarrow> wal_step sl cfg w w'"
| filled: "i < length (segments w) \<Longrightarrow> seg_status (segments w ! i) = ReadWrite \<Longrightarrow>
    wal_step sl cfg w (w\<lparr>segments := (segments w)[i := (segments w ! i)\<lparr>written := seg_size (segments w ! i), seg_status := Read\<rparr>]\<rparr>)"

inductive_cases wal_stepE: "wal_step sl cfg w w'"

definition inflight_ok :: "'s wal \<Rightarrow> bool" where
  "inflight_ok w \<longleftrightarrow> (\<forall>off st. inflight w off = Some st \<longrightarrow>
     transitional st \<and> (\<exists>s \<in> set (segments w). seg_wal_offset s = off \<and> seg_status s = st))"

definition opened_ok :: "'s log_segment list \<Rightarrow> bool" where
  "opened_ok ss \<longleftrightarrow> (\<forall>s \<in> set ss. seg_status s \<in> {Fallocate64, Fsync} \<longrightarrow> sd s \<noteq> None)"

definition wal_inv :: "store_config \<Rightarrow> 's wal \<Rightarrow> bool" where
  "wal_inv cfg w \<longleftrightarrow>
     ordered_segments (segment_size cfg) (segments w) \<and> inflight_ok w \<and> opened_ok (segments w)"

lemma wal_inv_new: "0 < segment_size cfg \<Longrightarrow> wal_inv cfg wal_new"
  by (simp add: wal_inv_def wal_new_def ordered_segments_def inflight_ok_def opened_ok_def)

text \<open>An update of one segment, with what is then in flight at its offset.\<close>

lemma inv_update:
  assumes inv: "wal_inv cfg w" and s: "s \<in> set (segments w)" and keep: "keeps_place f"
    and w': "segments w' = map (\<lambda>x. if x = s then f x else x) (segments w)"
    and infl: "inflight w' = (inflight w)(seg_wal_offset s := st)"
    and st: "\<And>t. st = Some t \<Longrightarrow> transitional t \<and> seg_status (f s) = t"
    and sd: "seg_status (f s) \<in> {Fallocate64, Fsync} \<longrightarrow> sd (f s) \<noteq> None"
  shows "wal_inv cfg w'"
proof -
  from inv have ord: "ordered_segments (segment_size cfg) (segments w)" and fl: "inflight_ok w"
    and op: "opened_ok (segments w)" by (simp_all add: wal_inv_def)
  have "keeps_place (\<lambda>x. if x = s then f x else x)" using keep by (simp add: keeps_place_def)
  from ordered_map [OF this ord] have "ordered_segments (segment_size cfg) (segments w')" by (simp add: w')
  moreover have "inflight_ok w'"
    unfolding inflight_ok_def
  proof (intro allI impI)
    fix off t assume t: "inflight w' off = Some t"
    show "transitional t \<and> (\<exists>x \<in> set (segments w'). seg_wal_offset x = off \<and> seg_status x = t)"
    proof (cases "off = seg_wal_offset s")
      case True
      with t infl st [of t] s keep show ?thesis by (force simp: w' keeps_place_def)
    next
      case False
      with t infl fl obtain x where "transitional t" "x \<in> set (segments w)" "seg_wal_offset x = off" "seg_status x = t"
        by (auto simp: inflight_ok_def)
      with False show ?thesis by (force simp: w')
    qed
  qed
  moreover have "opened_ok (segments w')"
    using op sd by (auto simp: w' opened_ok_def)
  ultimately show ?thesis by (simp add: wal_inv_def)
qed

lemma seg_new_fields:
  "seg_new sl cfg off sz path = Ok s \<Longrightarrow>
     seg_wal_offset s = off \<and> seg_size s = sz \<and> seg_status s = OpenAt \<and> written s = 0 \<and> sd s = None \<and> seg_path s = path"
  by (auto simp: seg_new_def split: if_splits)

lemma enqueue_entry_Ok:
  "enqueue_and_submit_entry env e w = (w', Ok ()) \<Longrightarrow>
     segments w' = segments w \<and> inflight w' = inflight w \<and> submitted w' = submitted w @ sq w @ [e] \<and> sq w' = []"
  by (auto simp: enqueue_and_submit_entry_def push_sqes_def ring_submit_def split: if_splits)

lemma enqueue_entries_Ok:
  "enqueue_and_submit_entries env es w = (w', Ok ()) \<Longrightarrow> segments w' = segments w \<and> inflight w' = inflight w"
  by (auto simp: enqueue_and_submit_entries_def push_sqes_def ring_submit_def split: if_splits)

text \<open>The two ways a segment is opened, with the queue it joins.\<close>

lemma try_open_segment_Ok:
  assumes "try_open_segment sl cfg env w = (w', Ok ())"
  obtains seg st rest where "alloc_segment sl cfg w = Ok seg"
    "segments w' = rest @ [seg\<lparr>seg_status := st\<rparr>]" "inflight w' = (inflight w)(seg_wal_offset seg \<mapsto> st)"
    "transitional st" "st \<notin> {Fallocate64, Fsync}"
    "rest = segments w \<or> (\<exists>r. segments w = r # rest \<and> seg_status r = Recycled)"
proof -
  from assms obtain seg where seg: "alloc_segment sl cfg w = Ok seg"
    by (auto simp: try_open_segment_def split: outcome.splits)
  then have st: "seg_status seg = OpenAt"
    by (auto simp: alloc_segment_def Let_def dest: seg_new_fields)
  show thesis
  proof (cases "recycle cfg \<and> has_recyclable w")
    case True
    then obtain r rest where r: "segments w = r # rest" "seg_status r = Recycled"
      by (auto simp: has_recyclable_def split: list.splits)
    let ?st = "RenameAt (seg_path r)"
    from assms seg True r obtain w1 where
      w1: "enqueue_and_submit_entry env (SqeRenameAt (seg_path r) (seg_path seg) (seg_wal_offset seg))
           (w\<lparr>segments := rest, inflight := (inflight w)(seg_wal_offset seg \<mapsto> ?st)\<rparr>) = (w1, Ok ())"
      and w': "w' = w1\<lparr>segments := segments w1 @ [seg\<lparr>seg_status := ?st\<rparr>]\<rparr>"
      by (auto simp: try_open_segment_def Let_def split: prod.splits outcome.splits)
    from enqueue_entry_Ok [OF w1] w' seg r show thesis by (intro that [of seg rest ?st]) auto
  next
    case False
    from assms seg False obtain w1 where
      w1: "enqueue_and_submit_entry env (SqeOpenAt (seg_path seg) (seg_wal_offset seg))
           (w\<lparr>segments := segments w, inflight := (inflight w)(seg_wal_offset seg \<mapsto> seg_status seg)\<rparr>) = (w1, Ok ())"
      and w': "w' = w1\<lparr>segments := segments w1 @ [seg]\<rparr>"
      by (auto simp: try_open_segment_def Let_def split: prod.splits outcome.splits)
    have "seg\<lparr>seg_status := OpenAt\<rparr> = seg" using st by (cases seg) simp
    with enqueue_entry_Ok [OF w1] w' seg st show thesis
      by (intro that [of seg "segments w" OpenAt]) simp_all
  qed
qed

lemma alloc_segment_after:
  assumes "ordered_segments (segment_size cfg) (segments w)" "alloc_segment sl cfg w = Ok seg"
    "x \<in> set (segments w)"
  shows "seg_wal_offset x + segment_size cfg \<le> seg_wal_offset seg"
  using assms ordered_last [OF assms(1,3)]
  by (auto simp: alloc_segment_def Let_def dest!: seg_new_fields split: if_splits)

lemma open_segment_inv:
  assumes inv: "wal_inv cfg w" and step: "try_open_segment sl cfg env w = (w', Ok ())"
  shows "wal_inv cfg w'"
proof -
  from inv have ord: "ordered_segments (segment_size cfg) (segments w)" and fl: "inflight_ok w"
    and op: "opened_ok (segments w)" by (simp_all add: wal_inv_def)
  obtain seg st rest where seg: "alloc_segment sl cfg w = Ok seg"
    and w': "segments w' = rest @ [seg\<lparr>seg_status := st\<rparr>]" "inflight w' = (inflight w)(seg_wal_offset seg \<mapsto> st)"
    and st: "transitional st" "st \<notin> {Fallocate64, Fsync}"
    and rest: "rest = segments w \<or> (\<exists>r. segments w = r # rest \<and> seg_status r = Recycled)"
    using step by (rule try_open_segment_Ok)
  have sub: "set rest \<subseteq> set (segments w)" using rest by auto
  have "ordered_segments (segment_size cfg) rest" using ord rest ordered_tl [OF ord] by auto
  moreover have "seg_size seg = segment_size cfg"
    using seg by (auto simp: alloc_segment_def Let_def dest: seg_new_fields)
  ultimately have "ordered_segments (segment_size cfg) (segments w')"
    unfolding w' using alloc_segment_after [OF ord seg] sub by (intro ordered_snoc) auto
  moreover have "inflight_ok w'"
    unfolding inflight_ok_def
  proof (intro allI impI)
    fix off t assume t: "inflight w' off = Some t"
    show "transitional t \<and> (\<exists>x \<in> set (segments w'). seg_wal_offset x = off \<and> seg_status x = t)"
    proof (cases "off = seg_wal_offset seg")
      case True
      with t st w' show ?thesis by auto
    next
      case False
      with t w' fl obtain x where x: "transitional t" "x \<in> set (segments w)" "seg_wal_offset x = off" "seg_status x = t"
        by (auto simp: inflight_ok_def)
      with rest have "x \<in> set rest" by auto
      with x w' show ?thesis by auto
    qed
  qed
  moreover have "opened_ok (segments w')" using op sub st by (auto simp: w' opened_ok_def)
  ultimately show ?thesis by (simp add: wal_inv_def)
qed

text \<open>Closing only touches segments that are read-only.\<close>

definition maybe_closed :: "'s log_segment \<Rightarrow> 's log_segment \<Rightarrow> bool" where
  "maybe_closed s s' \<longleftrightarrow> s' = s \<or> seg_status s = Read \<and> s' = s\<lparr>seg_status := Close\<rparr>"

lemma close_first_closes: "list_all2 maybe_closed ss (close_first n ss)"
  by (induction n ss rule: close_first.induct) (auto simp: maybe_closed_def list_all2_same)

lemma check_expired_Ok:
  "check_expired_segment cfg w = Ok w' \<Longrightarrow>
     list_all2 maybe_closed (segments w) (segments w') \<and> inflight w' = inflight w"
  using close_first_closes
  by (auto simp: check_expired_segment_def Let_def maybe_closed_def list_all2_same split: if_splits)

lemma maybe_closed_place: "list_all2 maybe_closed ss ss' \<Longrightarrow> map place ss' = map place ss"
  by (induction rule: list_all2_induct) (auto simp: maybe_closed_def place_def)

lemma maybe_closed_kept:
  "list_all2 maybe_closed ss ss' \<Longrightarrow> s \<in> set ss \<Longrightarrow> seg_status s \<noteq> Read \<Longrightarrow> s \<in> set ss'"
  by (induction rule: list_all2_induct) (auto simp: maybe_closed_def)

lemma maybe_closed_fields:
  "maybe_closed s s' \<Longrightarrow> sd s' = sd s \<and> (seg_status s' \<noteq> Close \<longrightarrow> seg_status s' = seg_status s)"
  by (auto simp: maybe_closed_def)

lemma opened_ok_Cons: "opened_ok (s # ss) \<longleftrightarrow> (seg_status s \<in> {Fallocate64, Fsync} \<longrightarrow> sd s \<noteq> None) \<and> opened_ok ss"
  by (simp add: opened_ok_def)

lemma maybe_closed_opened: "list_all2 maybe_closed ss ss' \<Longrightarrow> opened_ok ss \<Longrightarrow> opened_ok ss'"
proof (induction rule: list_all2_induct)
  case (Cons s ss s' ss')
  then show ?case using maybe_closed_fields [OF Cons.hyps(1)] by (auto simp: opened_ok_Cons)
qed simp

lemma expire_inv:
  assumes inv: "wal_inv cfg w" and step: "check_expired_segment cfg w = Ok w'"
  shows "wal_inv cfg w'"
proof -
  note c = check_expired_Ok [OF step]
  from inv have fl: "inflight_ok w" by (simp add: wal_inv_def)
  have "inflight_ok w'"
    unfolding inflight_ok_def
  proof (intro allI impI)
    fix off t assume "inflight w' off = Some t"
    with c fl obtain s where s: "transitional t" "s \<in> set (segments w)" "seg_wal_offset s = off" "seg_status s = t"
      by (auto simp: inflight_ok_def)
    then have "seg_status s \<noteq> Read" by auto
    with maybe_closed_kept [OF conjunct1 [OF c] s(2)] s
    show "transitional t \<and> (\<exists>s \<in> set (segments w'). seg_wal_offset s = off \<and> seg_status s = t)" by blast
  qed
  with inv c maybe_closed_place [OF conjunct1 [OF c]] maybe_closed_opened [OF conjunct1 [OF c]] show ?thesis
    by (simp add: wal_inv_def ordered_place)
qed

lemma mark_inflight_Some:
  "mark_inflight ss m off = Some st \<Longrightarrow> m off = Some st \<or> (\<exists>s \<in> set ss. seg_wal_offset s = off \<and> seg_status s = st)"
  unfolding mark_inflight_def by (induction ss arbitrary: m) (fastforce split: if_splits)+

lemma to_close_in: "s \<in> set (to_close w) \<Longrightarrow> s \<in> set (segments w) \<and> seg_status s = Close"
  by (auto simp: to_close_def dest: set_takeWhileD)

lemma close_segment_inv:
  assumes inv: "wal_inv cfg w" and step: "try_close_segment cfg env w = (w', Ok ())"
  shows "wal_inv cfg w'"
proof -
  from step obtain w1 where w1: "check_expired_segment cfg w = Ok w1"
    and enq: "enqueue_and_submit_entries env (close_sqes (to_close w1))
      (w1\<lparr>inflight := mark_inflight (to_close w1) (inflight w1)\<rparr>) = (w', Ok ())"
    by (auto simp: try_close_segment_def split: outcome.splits)
  from expire_inv [OF inv w1] have inv1: "wal_inv cfg w1" .
  from enqueue_entries_Ok [OF enq] have w': "segments w' = segments w1"
    "inflight w' = mark_inflight (to_close w1) (inflight w1)" by simp_all
  have "inflight_ok w'"
    using inv1 unfolding inflight_ok_def wal_inv_def w'
    by (auto dest!: mark_inflight_Some to_close_in)
  with inv1 w' show ?thesis by (simp add: wal_inv_def)
qed

lemma filled_inv:
  assumes inv: "wal_inv cfg w" and i: "i < length (segments w)" "seg_status (segments w ! i) = ReadWrite"
  shows "wal_inv cfg (w\<lparr>segments := (segments w)[i := (segments w ! i)\<lparr>written := seg_size (segments w ! i), seg_status := Read\<rparr>]\<rparr>)"
    (is "wal_inv cfg ?w")
proof -
  have "map place (segments ?w) = map place (segments w)"
    using i by (intro nth_equalityI) (auto simp: nth_list_update place_def)
  moreover have "inflight_ok ?w"
    unfolding inflight_ok_def
  proof (intro allI impI)
    fix off t assume "inflight ?w off = Some t"
    with inv obtain s where s: "transitional t" "s \<in> set (segments w)" "seg_wal_offset s = off" "seg_status s = t"
      by (auto simp: wal_inv_def inflight_ok_def)
    then obtain j where j: "j < length (segments w)" "s = segments w ! j" by (auto simp: in_set_conv_nth)
    with s i have "i \<noteq> j" by auto
    with j have "s \<in> set (segments ?w)" by (auto simp: in_set_conv_nth)
    with s show "transitional t \<and> (\<exists>s \<in> set (segments ?w). seg_wal_offset s = off \<and> seg_status s = t)" by blast
  qed
  moreover have "opened_ok (segments ?w)"
    using inv by (auto simp: wal_inv_def opened_ok_def dest!: subsetD [OF set_update_subset_insert])
  ultimately show ?thesis using inv by (simp add: wal_inv_def ordered_place)
qed

subsection \<open>Completions\<close>

lemma next_stage_healthy:
  "push_ok env \<Longrightarrow> next_stage env off e st w =
     (w\<lparr>sq := sq w @ [e], inflight := (inflight w)(off \<mapsto> st)\<rparr>, Ok ())"
  by (simp add: next_stage_def push_sqes_def)

lemma update_segment_inflight [simp]: "inflight (update_segment off f w) = inflight w"
  by (simp add: update_segment_def)

text \<open>What the completion of a stage does to the segment and to what is in flight at its offset.\<close>

fun stage_effect :: "bool \<Rightarrow> int \<Rightarrow> status \<Rightarrow> 's log_segment \<Rightarrow> 's log_segment" where
  "stage_effect rcy result OpenAt s =
     s\<lparr>sd := Some \<lparr>sd_medium = Ssd, sd_fd = result, sd_base_ptr = 0\<rparr>, seg_status := Fallocate64\<rparr>"
| "stage_effect rcy result Fallocate64 s = s\<lparr>seg_status := Fsync\<rparr>"
| "stage_effect rcy result Fsync s = s\<lparr>seg_status := ReadWrite\<rparr>"
| "stage_effect rcy result Close s = s\<lparr>sd := None, seg_status := if rcy then Recycled else UnlinkAt\<rparr>"
| "stage_effect rcy result (RenameAt p) s = s\<lparr>seg_status := OpenAt\<rparr>"
| "stage_effect rcy result st s = s"

fun stage_after :: "bool \<Rightarrow> status \<Rightarrow> status option" where
  "stage_after rcy OpenAt = Some Fallocate64"
| "stage_after rcy Fallocate64 = Some Fsync"
| "stage_after rcy Close = (if rcy then None else Some UnlinkAt)"
| "stage_after rcy (RenameAt p) = Some OpenAt"
| "stage_after rcy st = None"

lemma stage_effect_keeps: "keeps_place (stage_effect rcy result st)"
  by (cases st) (simp_all add: keeps_place_def)

lemma stage_effect_next:
  assumes "transitional st" "stage_after rcy st = Some t" "seg_status s = st"
    "st = Fallocate64 \<longrightarrow> sd s \<noteq> None"
  shows "transitional t \<and> seg_status (stage_effect rcy result st s) = t"
  using assms by (cases st) (auto split: if_splits)

lemma stage_effect_sd:
  assumes "seg_status s = st" "st \<in> {Fallocate64, Fsync} \<longrightarrow> sd s \<noteq> None"
  shows "seg_status (stage_effect rcy result st s) \<in> {Fallocate64, Fsync} \<longrightarrow>
         sd (stage_effect rcy result st s) \<noteq> None"
  using assms by (cases st) auto

text \<open>
  A completion with a working ring applies the stage's effect to the segment in flight; a
  deleted segment leaves the queue, and a failed operation changes nothing but what is in flight.
\<close>

lemma completion_cases:
  assumes inv: "wal_inv cfg w" and env: "push_ok env" "submit_ok env" and fl: "inflight w off = Some st"
    and reap: "reap_one cfg env (off, result) w = (w', r)"
  obtains s where "s \<in> set (segments w)" "seg_wal_offset s = off" "seg_status s = st" "transitional st"
    "r = Ok () \<or> r = Err (System (-1))"
    "result = -1 \<Longrightarrow> r = Err (System (-1)) \<and> segments w' = segments w \<and> inflight w' = (inflight w)(off := None)"
    "result \<noteq> -1 \<Longrightarrow> st = UnlinkAt \<Longrightarrow> r = Ok () \<and> inflight w' = (inflight w)(off := None) \<and>
       segments w' = filter (\<lambda>x. \<not> (seg_status x = UnlinkAt \<and> seg_wal_offset x = off)) (segments w)"
    "result \<noteq> -1 \<Longrightarrow> st \<noteq> UnlinkAt \<Longrightarrow> r = Ok () \<and>
       inflight w' = (inflight w)(off := stage_after (recycle cfg) st) \<and>
       segments w' = map (\<lambda>x. if x = s then stage_effect (recycle cfg) result st x else x) (segments w)"
proof -
  from inv fl obtain s where s: "transitional st" "s \<in> set (segments w)" "seg_wal_offset s = off" "seg_status s = st"
    by (auto simp: wal_inv_def inflight_ok_def)
  from inv have ord: "ordered_segments (segment_size cfg) (segments w)" by (simp add: wal_inv_def)
  let ?w0 = "w\<lparr>inflight := (inflight w)(off := None)\<rparr>"
  have found: "segment_file_of (segments ?w0) off = Some s"
    using segment_file_of_ordered [OF ord s(2)] s(3) by simp
  have upd: "segments (update_segment off f ?w0) = map (\<lambda>x. if x = s then f x else x) (segments w)" for f
    using update_segment_ordered [of "segment_size cfg" ?w0 s f] ord s by simp
  from reap fl have op: "on_file_op_completion cfg env ?w0 off result = (w', r)" by (simp add: reap_one_def)
  have sdn: "st = Fallocate64 \<longrightarrow> sd s \<noteq> None" using inv s by (auto simp: wal_inv_def opened_ok_def)
  note defs = on_file_op_completion_def complete_stage_def next_stage_healthy [OF env(1)] ring_submit_def delete_segments_def
  show thesis
  proof (rule that [OF s(2,3,4,1)])
    show "r = Ok () \<or> r = Err (System (-1))"
      using op found env s sdn by (auto simp: defs split: status.splits option.splits if_splits)
    show "r = Err (System (-1)) \<and> segments w' = segments w \<and> inflight w' = (inflight w)(off := None)" if "result = -1"
      using op found that by (auto simp: on_file_op_completion_def)
    show "r = Ok () \<and> inflight w' = (inflight w)(off := None) \<and>
        segments w' = filter (\<lambda>x. \<not> (seg_status x = UnlinkAt \<and> seg_wal_offset x = off)) (segments w)"
      if "result \<noteq> -1" "st = UnlinkAt"
      using op found that env s by (auto simp: defs)
    show "r = Ok () \<and> inflight w' = (inflight w)(off := stage_after (recycle cfg) st) \<and>
        segments w' = map (\<lambda>x. if x = s then stage_effect (recycle cfg) result st x else x) (segments w)"
      if "result \<noteq> -1" "st \<noteq> UnlinkAt"
      using op found that env s sdn upd
      by (cases st) (auto simp: defs split: option.splits if_splits)
  qed
qed

lemma completion_inv:
  assumes inv: "wal_inv cfg w" and env: "push_ok env" "submit_ok env" and fl: "inflight w off = Some st"
    and reap: "reap_one cfg env (off, result) w = (w', r)"
  shows "wal_inv cfg w'"
  using assms
proof (rule completion_cases)
  fix s
  assume s: "s \<in> set (segments w)" "seg_wal_offset s = off" "seg_status s = st" "transitional st"
    and failed: "result = -1 \<Longrightarrow> r = Err (System (-1)) \<and> segments w' = segments w \<and> inflight w' = (inflight w)(off := None)"
    and gone: "result \<noteq> -1 \<Longrightarrow> st = UnlinkAt \<Longrightarrow> r = Ok () \<and> inflight w' = (inflight w)(off := None) \<and>
       segments w' = filter (\<lambda>x. \<not> (seg_status x = UnlinkAt \<and> seg_wal_offset x = off)) (segments w)"
    and nxt: "result \<noteq> -1 \<Longrightarrow> st \<noteq> UnlinkAt \<Longrightarrow> r = Ok () \<and>
       inflight w' = (inflight w)(off := stage_after (recycle cfg) st) \<and>
       segments w' = map (\<lambda>x. if x = s then stage_effect (recycle cfg) result st x else x) (segments w)"
  have sdn: "st \<in> {Fallocate64, Fsync} \<longrightarrow> sd s \<noteq> None" using inv s by (auto simp: wal_inv_def opened_ok_def)
  consider "result = -1" | "result \<noteq> -1" "st = UnlinkAt" | "result \<noteq> -1" "st \<noteq> UnlinkAt" by blast
  then show ?thesis
  proof cases
    case 1
    have "keeps_place (\<lambda>s. s)" by (simp add: keeps_place_def)
    with inv_update [OF inv s(1), of "\<lambda>s. s" w' None] failed [OF 1] s sdn show ?thesis by simp
  next
    case 2
    have "inflight_ok w'"
      unfolding inflight_ok_def
    proof (intro allI impI)
      fix o' t
      assume t: "inflight w' o' = Some t"
      with gone [OF 2] have ne: "o' \<noteq> off" and t0: "inflight w o' = Some t" by (auto split: if_splits)
      from inv t0 obtain x where "transitional t" "x \<in> set (segments w)" "seg_wal_offset x = o'" "seg_status x = t"
        unfolding wal_inv_def inflight_ok_def by blast
      with ne gone [OF 2] show "transitional t \<and> (\<exists>s \<in> set (segments w'). seg_wal_offset s = o' \<and> seg_status s = t)"
        by auto
    qed
    with inv gone [OF 2] show ?thesis
      by (auto simp: wal_inv_def opened_ok_def intro: ordered_filter)
  next
    case 3
    from inv_update [OF inv s(1) stage_effect_keeps conjunct2 [OF conjunct2 [OF nxt [OF 3]]]] nxt [OF 3] s sdn
      stage_effect_next [of st "recycle cfg" _ s result] stage_effect_sd [of s st "recycle cfg" result]
    show ?thesis by auto
  qed
qed

lemma wal_step_inv: "wal_step sl cfg w w' \<Longrightarrow> wal_inv cfg w \<Longrightarrow> wal_inv cfg w'"
  by (auto elim!: wal_stepE intro: open_segment_inv close_segment_inv completion_inv filled_inv)

lemma wal_inv_unique:
  "wal_inv cfg w \<Longrightarrow> a \<in> set (segments w) \<Longrightarrow> b \<in> set (segments w) \<Longrightarrow> seg_wal_offset a = seg_wal_offset b \<Longrightarrow> a = b"
  unfolding wal_inv_def using ordered_holds(2) by blast

lemma completion_advance:
  assumes inv: "wal_inv cfg w" and env: "push_ok env" "submit_ok env" and fl: "inflight w off = Some st"
    and res: "result \<noteq> -1" and st: "st \<noteq> UnlinkAt"
  shows "\<exists>w' s. reap_one cfg env (off, result) w = (w', Ok ()) \<and> s \<in> set (segments w) \<and> seg_wal_offset s = off \<and>
    wal_inv cfg w' \<and> inflight w' off = stage_after (recycle cfg) st \<and>
    stage_effect (recycle cfg) result st s \<in> set (segments w')"
proof -
  obtain w' r where reap: "reap_one cfg env (off, result) w = (w', r)" by fastforce
  have inv': "wal_inv cfg w'" using inv env fl reap by (rule completion_inv)
  from inv env fl reap show ?thesis
  proof (rule completion_cases)
    fix s
    assume s: "s \<in> set (segments w)" "seg_wal_offset s = off"
      and "result \<noteq> -1 \<Longrightarrow> st \<noteq> UnlinkAt \<Longrightarrow> r = Ok () \<and>
       inflight w' = (inflight w)(off := stage_after (recycle cfg) st) \<and>
       segments w' = map (\<lambda>x. if x = s then stage_effect (recycle cfg) result st x else x) (segments w)"
    from this(3) [OF res st] s have "r = Ok ()" "inflight w' off = stage_after (recycle cfg) st"
      "stage_effect (recycle cfg) result st s \<in> set (segments w')"
      by (simp_all add: rev_image_eqI)
    with reap s inv' show ?thesis by blast
  qed
qed

definition wal_reach :: "'s skiplist \<Rightarrow> store_config \<Rightarrow> 's wal \<Rightarrow> bool" where
  "wal_reach sl cfg w \<longleftrightarrow> (wal_step sl cfg)\<^sup>*\<^sup>* wal_new w"

lemma wal_reach_inv:
  assumes "wal_reach sl cfg w" "0 < segment_size cfg"
  shows "wal_inv cfg w"
  using assms(1) unfolding wal_reach_def
  by (induction rule: rtranclp_induct) (auto intro: wal_inv_new [OF assms(2)] wal_step_inv)

section \<open>Expiry\<close>

lemma read_count_close_first: "n \<le> read_count ss \<Longrightarrow> read_count (close_first n ss) = read_count ss - n"
  by (induction n ss rule: close_first.induct) (auto simp: read_count_def)

definition close_read :: "'s log_segment \<Rightarrow> 's log_segment" where
  "close_read s = (if seg_status s = Read then s\<lparr>seg_status := Close\<rparr> else s)"

lemma close_first_zero: "close_first 0 ss = ss"
  by (induction ss) auto

lemma close_first_split: "\<exists>xs ys. ss = xs @ ys \<and> close_first n ss = map close_read xs @ ys"
proof (induction n ss rule: close_first.induct)
  case (2 n s ss)
  show ?case
  proof (cases "seg_status s = Read \<and> 0 < n")
    case True
    from 2(1) [OF True] obtain xs ys where "ss = xs @ ys" "close_first (n - 1) ss = map close_read xs @ ys" by blast
    with True show ?thesis by (intro exI [of _ "s # xs"] exI [of _ ys]) (simp add: close_read_def)
  next
    case False
    from 2(2) [OF False] obtain xs ys where ih: "ss = xs @ ys" "close_first n ss = map close_read xs @ ys" by blast
    show ?thesis
    proof (cases "n = 0")
      case True
      then show ?thesis by (intro exI [of _ "[]"] exI [of _ "s # ss"]) (simp add: close_first_zero)
    next
      case n: False
      with ih False show ?thesis by (intro exI [of _ "s # xs"] exI [of _ ys]) (simp add: close_read_def)
    qed
  qed
qed simp

section \<open>Properties\<close>


definition sample_config :: store_config where
  "sample_config = \<lparr>cfg_alignment = 8, segment_size = 64, total_segment_file_size = 128, max_cache_size = 1024,
     cache_high_watermark = 80, recycle = False, wal_path = ''w''\<rparr>"

definition ring_up :: ring_env where
  "ring_up = \<lparr>push_ok = True, submit_ok = True\<rparr>"

lemma format_no_nul: "CHR 0x00 \<notin> set (path_join ''w'' (seg_format off))"
proof -
  have "CHR 0x00 \<notin> set (seg_format off)" using format_chars [of "CHR 0x00" off] by auto
  then show ?thesis by (simp add: path_join_def)
qed

lemma sample_open:
  obtains w s where "try_open_segment sl sample_config ring_up wal_new = (w, Ok ())"
    "segments w = [s]" "seg_wal_offset s = 0" "seg_status s = OpenAt" "inflight w = [0 \<mapsto> OpenAt]"
  using format_no_nul [of 0]
  by (auto simp: try_open_segment_def alloc_segment_def seg_new_def wal_new_def sample_config_def ring_up_def
      enqueue_and_submit_entry_def push_sqes_def ring_submit_def has_recyclable_def Let_def)


text \<open>
  C21. A segment becomes writable. While the ring works, the completions of opening, pre-allocating
  and syncing a segment, one after the other, take it from the stage in which it was opened to
  read-write, with the descriptor the opening returned and nothing left in flight for it.
\<close>

theorem open_reaches_read_write:
  assumes inv: "wal_inv cfg w" and fl: "inflight w off = Some OpenAt" and env: "push_ok env" "submit_ok env"
    and res: "fd \<noteq> -1" "r1 \<noteq> -1" "r2 \<noteq> -1"
  shows "\<exists>w1 w2 w3 s. reap_one cfg env (off, fd) w = (w1, Ok ()) \<and> reap_one cfg env (off, r1) w1 = (w2, Ok ()) \<and>
           reap_one cfg env (off, r2) w2 = (w3, Ok ()) \<and> s \<in> set (segments w3) \<and> seg_wal_offset s = off \<and>
           seg_status s = ReadWrite \<and> map_option sd_fd (sd s) = Some fd \<and> inflight w3 off = None"
proof -
  obtain w1 a where a: "reap_one cfg env (off, fd) w = (w1, Ok ())" "seg_wal_offset a = off" "wal_inv cfg w1"
    "inflight w1 off = Some Fallocate64" "stage_effect (recycle cfg) fd OpenAt a \<in> set (segments w1)"
    using completion_advance [OF inv env fl res(1)] by auto
  obtain w2 b where b: "reap_one cfg env (off, r1) w1 = (w2, Ok ())" "b \<in> set (segments w1)" "seg_wal_offset b = off"
    "wal_inv cfg w2" "inflight w2 off = Some Fsync" "b\<lparr>seg_status := Fsync\<rparr> \<in> set (segments w2)"
    using completion_advance [OF a(3) env a(4) res(2)] by auto
  obtain w3 c where c: "reap_one cfg env (off, r2) w2 = (w3, Ok ())" "c \<in> set (segments w2)" "seg_wal_offset c = off"
    "inflight w3 off = None" "c\<lparr>seg_status := ReadWrite\<rparr> \<in> set (segments w3)"
    using completion_advance [OF b(4) env b(5) res(3)] by auto
  have "b = stage_effect (recycle cfg) fd OpenAt a"
    using wal_inv_unique [OF a(3) b(2) a(5)] a(2) b(3) by simp
  moreover have "c = b\<lparr>seg_status := Fsync\<rparr>"
    using wal_inv_unique [OF b(4) c(2) b(6)] b(3) c(3) by simp
  ultimately show ?thesis using a(1) b(1) c
    by (intro exI [of _ w1] exI [of _ w2] exI [of _ w3] exI [of _ "c\<lparr>seg_status := ReadWrite\<rparr>"]) simp
qed

theorem open_reaches_read_write_witness:
  "\<exists>w w1 w2 w3 s. try_open_segment list_skiplist sample_config ring_up wal_new = (w, Ok ()) \<and>
     reap_one sample_config ring_up (0, 7) w = (w1, Ok ()) \<and> reap_one sample_config ring_up (0, 0) w1 = (w2, Ok ()) \<and>
     reap_one sample_config ring_up (0, 0) w2 = (w3, Ok ()) \<and> s \<in> set (segments w3) \<and> seg_status s = ReadWrite"
proof -
  obtain w s where w: "try_open_segment list_skiplist sample_config ring_up wal_new = (w, Ok ())"
    "inflight w = [0 \<mapsto> OpenAt]" by (rule sample_open)
  have inv: "wal_inv sample_config w"
    by (rule open_segment_inv [OF wal_inv_new w(1)]) (simp add: sample_config_def)
  from open_reaches_read_write [OF inv, of 0 ring_up 7 0 0] w show ?thesis
    by (auto simp: ring_up_def)
qed

text \<open>
  Expiry keeps the newest segments. After \<open>check_expired_segment\<close> no more read-only segments
  are left than the configured total size allows, and the ones marked for closing are the
  oldest: a prefix of the queue loses its read-only segments and the rest is untouched.
\<close>

theorem expiry_bounds_oldest_first:
  assumes "check_expired_segment cfg w = Ok w'"
  shows "read_count (segments w') = min (read_count (segments w)) (total_segment_file_size cfg div segment_size cfg) \<and>
         (\<exists>xs ys. segments w = xs @ ys \<and>
            segments w' = map close_read xs @ ys)"
proof -
  let ?max = "total_segment_file_size cfg div segment_size cfg" and ?cur = "read_count (segments w)"
  have "w' = w\<lparr>segments := close_first (?cur - ?max) (segments w)\<rparr>"
    using assms by (auto simp: check_expired_segment_def Let_def close_first_zero split: if_splits)
  with close_first_split [of "segments w" "?cur - ?max"] read_count_close_first [of "?cur - ?max" "segments w"]
  show ?thesis by (simp add: min_def)
qed

definition read_segment :: "u64 \<Rightarrow> score_key list log_segment" where
  "read_segment off = sample_seg\<lparr>seg_wal_offset := off, seg_status := Read\<rparr>"

theorem expiry_bounds_oldest_first_witness:
  "\<exists>w'. check_expired_segment sample_config
      (wal_new\<lparr>segments := [read_segment 0, read_segment 64, read_segment 128]\<rparr>) = Ok w' \<and>
     read_count (segments w') = 2"
proof -
  let ?w = "wal_new\<lparr>segments := [read_segment 0, read_segment 64, read_segment 128]\<rparr>"
  have "\<exists>w'. check_expired_segment sample_config ?w = Ok w'"
    by (simp add: check_expired_segment_def sample_config_def Let_def)
  then obtain w' where "check_expired_segment sample_config ?w = Ok w'" ..
  with expiry_bounds_oldest_first [OF this] show ?thesis
    by (auto simp: read_count_def read_segment_def sample_config_def)
qed

text \<open>
  A failed file operation is taken for a success. Only the result -1 counts as a failure, but
  the ring reports an error as the negated errno: the completion of an opening that failed with
  another errno moves the segment on to pre-allocation with that negative number as descriptor.
\<close>

theorem open_error_taken_as_descriptor:
  assumes inv: "wal_inv cfg w" and fl: "inflight w off = Some OpenAt" and env: "push_ok env" "submit_ok env"
    and errno: "1 < errno"
  shows "\<exists>w' s. reap_one cfg env (off, - errno) w = (w', Ok ()) \<and> s \<in> set (segments w') \<and> seg_wal_offset s = off \<and>
           seg_status s = Fallocate64 \<and> map_option sd_fd (sd s) = Some (- errno)"
proof -
  have ne: "- errno \<noteq> -1" using errno by simp
  obtain w' s where s: "reap_one cfg env (off, - errno) w = (w', Ok ())" "seg_wal_offset s = off"
    "stage_effect (recycle cfg) (- errno) OpenAt s \<in> set (segments w')"
    using completion_advance [OF inv env fl ne] by auto
  then show ?thesis
    by (intro exI [of _ w'] exI [of _ "stage_effect (recycle cfg) (- errno) OpenAt s"]) simp
qed

theorem open_error_taken_as_descriptor_witness:
  "\<exists>w w' s. try_open_segment list_skiplist sample_config ring_up wal_new = (w, Ok ()) \<and>
     reap_one sample_config ring_up (0, -28) w = (w', Ok ()) \<and> s \<in> set (segments w') \<and>
     map_option sd_fd (sd s) = Some (-28)"
proof -
  obtain w s where w: "try_open_segment list_skiplist sample_config ring_up wal_new = (w, Ok ())"
    "inflight w = [0 \<mapsto> OpenAt]" by (rule sample_open)
  have inv: "wal_inv sample_config w"
    by (rule open_segment_inv [OF wal_inv_new w(1)]) (simp add: sample_config_def)
  from open_error_taken_as_descriptor [OF inv, of 0 ring_up 28] w show ?thesis
    by (auto simp: ring_up_def)
qed

text \<open>
  Reclaiming drops the last writable entry of a segment that takes writes, uncounted: the turn
  that means to skip it has already removed it from the cache, and neither counts its bytes nor
  lets the segment rejoin the queue.
\<close>

theorem reclaim_drops_last_writable:
  assumes "remove_by_score sl (seg_cache (ss ! i)) = Ok (c, Some e)" and "i < length ss"
    and "seg_status (ss ! i) = ReadWrite"
    and "e_wal_offset e = wal_offset_of_last_cache_entry (seg_cache (ss ! i))"
  shows "\<exists>ss'. reclaim_turn sl i q ss n = Ok (q, ss', n) \<and>
           length (entries (seg_cache (ss' ! i))) < length (entries (seg_cache (ss ! i)))"
  using assms remove_by_score_shrinks(2) [OF assms(1)]
  by (simp add: reclaim_turn_def Let_def seg_with_cache_def)

definition last_entry_cache :: "score_key list block_cache" where
  "last_entry_cache = sample_cache\<lparr>entries := [(8, entry_new (cached_buf 8 2) 2)], score_list := [(2, 8)]\<rparr>"

theorem reclaim_drops_last_writable_witness:
  "\<exists>ss'. reclaim_turn list_skiplist 0 [] [sample_seg\<lparr>seg_status := ReadWrite, seg_cache := last_entry_cache\<rparr>] 0 = Ok ([], ss', 0) \<and>
     entries (seg_cache (ss' ! 0)) = []"
proof -
  let ?s = "sample_seg\<lparr>seg_status := ReadWrite, seg_cache := last_entry_cache\<rparr>"
  have "\<exists>c. remove_by_score list_skiplist last_entry_cache = Ok (c, Some (entry_new (cached_buf 8 2) 2))"
    by (simp add: remove_by_score_def front_entry_def remove_by_def release_entry_def checked_sub_def last_entry_cache_def
        sample_cache_def bc_eval pick_def score_cmp_def cmp_nat_def is_strong_referenced_def sub_or_panic_def)
  then obtain c where rm: "remove_by_score list_skiplist (seg_cache ([?s] ! 0)) = Ok (c, Some (entry_new (cached_buf 8 2) 2))"
    by auto
  have "length (entries last_entry_cache) = 1" by (simp add: last_entry_cache_def)
  with reclaim_drops_last_writable [OF rm, of "[]" 0] show ?thesis
    by (auto simp: wal_offset_of_last_cache_entry_def last_entry_cache_def sample_cache_def bc_eval e_wal_offset_def bt_last_def)
qed

end
