(* ===== verification/Object_Metadata.thy ===== *)
theory Object_Metadata
  imports Int_Cast Byte_Reader
begin

text \<open>
  Metadata of the objects a range is offloaded to, \<open>src/components/model/src/object.rs\<close>: the
  object key, the footer, the conversions to the wire tables \<open>Obj\<close> and \<open>ObjectMetadata\<close> of
  \<open>src/components/protocol/fbs/rpc.fbs\<close>, and \<open>find_bound\<close>, which turns a range of offsets into a
  range of byte positions of the object with the help of its sparse index.
\<close>

section \<open>Model\<close>

definition BLOCK_DELIMITER :: byte where "BLOCK_DELIMITER = 0x66"
definition FOOTER_MAGIC :: u64 where "FOOTER_MAGIC = 0x88e241b785f4cff7"

record object_metadata =
  om_stream_id :: u64
  om_range_index :: u32
  om_epoch :: u16
  om_start_offset :: u64
  om_end_offset_delta :: u32
  om_data_len :: u32
  om_sparse_index :: bytes
  om_key :: "string option"

definition om_new :: "u64 \<Rightarrow> u32 \<Rightarrow> u16 \<Rightarrow> u64 \<Rightarrow> object_metadata" where
  "om_new stream_id range_index epoch start_offset =
     \<lparr>om_stream_id = stream_id, om_range_index = range_index, om_epoch = epoch, om_start_offset = start_offset,
      om_end_offset_delta = 0, om_data_len = 0, om_sparse_index = [], om_key = None\<rparr>"

definition om_end_offset :: "object_metadata \<Rightarrow> u64" where
  "om_end_offset m = om_start_offset m + om_end_offset_delta m"

text \<open>
  The sparse index is a sequence of pairs of 32-bit integers: the end offset of a record batch
  relative to the start of the object, and a byte position. The first loop looks for the last
  entry that ends at or before the wanted offset, and raises the size hint by the position of
  every later entry.
\<close>

function find_start :: "u64 \<Rightarrow> u64 \<Rightarrow> u32 \<Rightarrow> u32 \<Rightarrow> bytes \<Rightarrow> ('e, u32 \<times> u32) outcome" where
  "find_start base target position size_hint cursor =
     (if cursor = [] then Ok (position, size_hint)
      else if length cursor < 8 then Panic
      else
        let index_end_offset = base + be_val (take 4 cursor);
            index_position = be_val (take 4 (drop 4 cursor))
        in if index_end_offset \<le> target then find_start base target index_position size_hint (drop 8 cursor)
           else if index_position < position \<or> size_hint + (index_position - position) \<ge> 2 ^ 32 then Panic
           else find_start base target position (size_hint + (index_position - position)) (drop 8 cursor))"
  by auto
termination by (relation "measure (\<lambda>(_, _, _, _, c). length c)") auto

declare find_start.simps [simp del]

function find_end :: "u64 \<Rightarrow> u64 option \<Rightarrow> u32 \<Rightarrow> u32 \<Rightarrow> u32 \<Rightarrow> bytes \<Rightarrow> ('e, u32) outcome" where
  "find_end base end_offset start_position size_hint end_position cursor =
     (if cursor = [] then Ok end_position
      else if length cursor < 8 then Panic
      else
        let index_end_offset = base + be_val (take 4 cursor);
            index_position = be_val (take 4 (drop 4 cursor))
        in if (case end_offset of Some e \<Rightarrow> e \<le> index_end_offset | None \<Rightarrow> False) then Ok index_position
           else if index_position < start_position
           then find_end base end_offset start_position size_hint end_position (drop 8 cursor)
           else if index_position - start_position \<ge> size_hint then Ok index_position
           else find_end base end_offset start_position size_hint end_position (drop 8 cursor))"
  by auto
termination by (relation "measure (\<lambda>(_, _, _, _, _, c). length c)") auto

declare find_end.simps [simp del]

definition find_bound :: "object_metadata \<Rightarrow> u64 \<Rightarrow> u64 option \<Rightarrow> u32 \<Rightarrow> u32 option
    \<Rightarrow> ('e, (u32 \<times> u32) option) outcome" where
  "find_bound m start_offset end_offset size_hint position =
     (if om_end_offset m \<le> start_offset then Ok None
      else if (case end_offset of Some e \<Rightarrow> e \<le> om_start_offset m | None \<Rightarrow> False) then Ok None
      else
        bind_outcome
          (if start_offset = om_start_offset m then Ok (0, size_hint)
           else (case position of
                   Some p \<Rightarrow> Ok (p, size_hint)
                 | None \<Rightarrow>
                     bind_outcome (find_start (om_start_offset m) start_offset 0 size_hint (om_sparse_index m))
                       (\<lambda>(p, h). Ok (p, if p = 0 then om_data_len m else h))))
          (\<lambda>(start_position, hint).
             bind_outcome
               (find_end (om_start_offset m) end_offset start_position hint (om_data_len m) (om_sparse_index m))
               (\<lambda>end_position. Ok (Some (start_position, end_position)))))"

subsection \<open>Keys and footer\<close>

fun hex_digits :: "nat \<Rightarrow> string" where
  "hex_digits n =
     (if n < 16 then [(''0123456789abcdef'') ! n]
      else hex_digits (n div 16) @ [(''0123456789abcdef'') ! (n mod 16)])"

declare hex_digits.simps [simp del]

definition key_prefix_number :: "u64 \<Rightarrow> u32 \<Rightarrow> u64 \<Rightarrow> u64" where
  "key_prefix_number stream_id range_index start_offset =
     ((((stream_id * 31) mod 2 ^ 64 + range_index) mod 2 ^ 64 * 31) mod 2 ^ 64 + start_offset) mod 2 ^ 64"

definition gen_object_key :: "string \<Rightarrow> u64 \<Rightarrow> u32 \<Rightarrow> u16 \<Rightarrow> u64 \<Rightarrow> string" where
  "gen_object_key cluster stream_id range_index epoch start_offset =
     rev (hex_digits (key_prefix_number stream_id range_index start_offset)) @ ''_'' @ cluster @ ''_'' @
     hex_digits stream_id @ ''_'' @ hex_digits range_index @ ''_'' @ hex_digits epoch @ ''_'' @ hex_digits start_offset"

definition om_gen_object_key :: "string \<Rightarrow> object_metadata \<Rightarrow> object_metadata" where
  "om_gen_object_key cluster m =
     m\<lparr>om_key := Some (gen_object_key cluster (om_stream_id m) (om_range_index m) (om_epoch m) (om_start_offset m))\<rparr>"

definition gen_footer :: "u32 \<Rightarrow> u32 \<Rightarrow> ('e, bytes) outcome" where
  "gen_footer data_len index_len =
     (if data_len + 1 \<ge> 2 ^ 32 then Panic
      else Ok (be_bytes 4 (data_len + 1) @ be_bytes 4 index_len @ replicate (40 - 8) 0 @ be_bytes 8 FOOTER_MAGIC))"

subsection \<open>Wire tables\<close>

record object_metadata_t =
  omt_key :: string
  omt_start_offset :: int
  omt_end_offset_delta :: int
  omt_data_len :: int
  omt_sparse_index :: "bytes option"

record obj_t =
  ot_stream_id :: int
  ot_range_index :: int
  ot_epoch :: int
  ot_start_offset :: int
  ot_end_offset_delta :: int
  ot_data_len :: int
  ot_sparse_index :: "bytes option"

definition obj_default :: obj_t where
  "obj_default = \<lparr>ot_stream_id = -1, ot_range_index = -1, ot_epoch = -1, ot_start_offset = -1,
     ot_end_offset_delta = -1, ot_data_len = -1, ot_sparse_index = None\<rparr>"

definition om_of_metadata_t :: "object_metadata_t \<Rightarrow> object_metadata" where
  "om_of_metadata_t t =
     \<lparr>om_stream_id = 0, om_range_index = 0, om_epoch = 0, om_start_offset = int_as_u64 (omt_start_offset t),
      om_end_offset_delta = int_as_u32 (omt_end_offset_delta t), om_data_len = int_as_u32 (omt_data_len t),
      om_sparse_index = (case omt_sparse_index t of Some i \<Rightarrow> i | None \<Rightarrow> []), om_key = Some (omt_key t)\<rparr>"

definition metadata_t_of_om :: "object_metadata \<Rightarrow> object_metadata_t" where
  "metadata_t_of_om m =
     \<lparr>omt_key = (case om_key m of Some k \<Rightarrow> k | None \<Rightarrow> []), omt_start_offset = as_i64 (om_start_offset m),
      omt_end_offset_delta = as_i32 (om_end_offset_delta m), omt_data_len = as_i32 (om_data_len m),
      omt_sparse_index = Some (om_sparse_index m)\<rparr>"

definition om_of_obj_t :: "obj_t \<Rightarrow> object_metadata" where
  "om_of_obj_t t =
     \<lparr>om_stream_id = int_as_u64 (ot_stream_id t), om_range_index = int_as_u32 (ot_range_index t),
      om_epoch = int_as_u16 (ot_epoch t), om_start_offset = int_as_u64 (ot_start_offset t),
      om_end_offset_delta = int_as_u32 (ot_end_offset_delta t), om_data_len = int_as_u32 (ot_data_len t),
      om_sparse_index = (case ot_sparse_index t of Some i \<Rightarrow> i | None \<Rightarrow> []), om_key = None\<rparr>"

definition obj_t_of_om :: "object_metadata \<Rightarrow> obj_t" where
  "obj_t_of_om m =
     \<lparr>ot_stream_id = as_i64 (om_stream_id m), ot_range_index = as_i32 (om_range_index m), ot_epoch = as_i16 (om_epoch m),
      ot_start_offset = as_i64 (om_start_offset m), ot_end_offset_delta = as_i32 (om_end_offset_delta m),
      ot_data_len = as_i32 (om_data_len m), ot_sparse_index = Some (om_sparse_index m)\<rparr>"

text \<open>The widths of the fields.\<close>

definition om_wf :: "object_metadata \<Rightarrow> bool" where
  "om_wf m \<longleftrightarrow> om_stream_id m < 2 ^ 64 \<and> om_range_index m < 2 ^ 32 \<and> om_epoch m < 2 ^ 16 \<and>
     om_start_offset m < 2 ^ 64 \<and> om_end_offset_delta m < 2 ^ 32 \<and> om_data_len m < 2 ^ 32"

section \<open>Conversions\<close>

lemma obj_roundtrip: "om_wf m \<Longrightarrow> om_of_obj_t (obj_t_of_om m) = m\<lparr>om_key := None\<rparr>"
  by (simp add: om_wf_def om_of_obj_t_def obj_t_of_om_def to_unsigned_to_signed)

lemma metadata_roundtrip:
  "om_wf m \<Longrightarrow> om_key m = Some k \<Longrightarrow>
     om_of_metadata_t (metadata_t_of_om m) = m\<lparr>om_stream_id := 0, om_range_index := 0, om_epoch := 0\<rparr>"
  by (simp add: om_wf_def om_of_metadata_t_def metadata_t_of_om_def to_unsigned_to_signed)

lemma gen_footer_length: "gen_footer n k = Ok bs \<Longrightarrow> length bs = 48"
  by (auto simp: gen_footer_def split: if_splits)

section \<open>The index as a list of entries\<close>

fun index_bytes_of :: "(u32 \<times> u32) list \<Rightarrow> bytes" where
  "index_bytes_of [] = []"
| "index_bytes_of ((d, p) # es) = be_bytes 4 d @ be_bytes 4 p @ index_bytes_of es"

definition u32_pairs :: "(u32 \<times> u32) list \<Rightarrow> bool" where
  "u32_pairs es \<longleftrightarrow> (\<forall>(d, p) \<in> set es. d < 2 ^ 32 \<and> p < 2 ^ 32)"

lemma u32_pairs_Cons [simp]: "u32_pairs ((d, p) # es) \<longleftrightarrow> d < 2 ^ 32 \<and> p < 2 ^ 32 \<and> u32_pairs es"
  by (simp add: u32_pairs_def)

lemma find_start_Nil [simp]: "find_start base target pos h [] = Ok (pos, h)"
  by (simp add: find_start.simps)

lemma index_cell:
  assumes "d < 2 ^ 32" "p < 2 ^ 32"
  obtains c where "c = index_bytes_of ((d, p) # es)" "c \<noteq> []" "\<not> length c < 8" "be_val (take 4 c) = d"
    "be_val (take 4 (drop 4 c)) = p" "drop 8 c = index_bytes_of es"
  using be_val_be_bytes [of d 4] be_val_be_bytes [of p 4] assms
  by (intro that [of "index_bytes_of ((d, p) # es)"]) (simp_all flip: length_greater_0_conv)

lemma find_start_Cons:
  assumes "d < 2 ^ 32" "p < 2 ^ 32"
  shows "find_start base target pos h (index_bytes_of ((d, p) # es)) =
     (if base + d \<le> target then find_start base target p h (index_bytes_of es)
      else if p < pos \<or> h + (p - pos) \<ge> 2 ^ 32 then Panic
      else find_start base target pos (h + (p - pos)) (index_bytes_of es))"
  using assms
proof (rule index_cell)
  fix c
  assume c: "c = index_bytes_of ((d, p) # es)" "c \<noteq> []" "\<not> length c < 8" "be_val (take 4 c) = d"
    "be_val (take 4 (drop 4 c)) = p" "drop 8 c = index_bytes_of es"
  show ?thesis
    unfolding c(1) [symmetric] find_start.simps [of base target pos h c] using c(2-) by (auto simp: Let_def split: option.split)
qed

lemma find_end_Nil [simp]: "find_end base eo sp h ep [] = Ok ep"
  by (simp add: find_end.simps)

lemma find_end_Cons:
  assumes "d < 2 ^ 32" "p < 2 ^ 32"
  shows "find_end base eo sp h ep (index_bytes_of ((d, p) # es)) =
     (if (case eo of Some e \<Rightarrow> e \<le> base + d | None \<Rightarrow> False) then Ok p
      else if p < sp \<or> p - sp < h then find_end base eo sp h ep (index_bytes_of es)
      else Ok p)"
  using assms
proof (rule index_cell)
  fix c
  assume c: "c = index_bytes_of ((d, p) # es)" "c \<noteq> []" "\<not> length c < 8" "be_val (take 4 c) = d"
    "be_val (take 4 (drop 4 c)) = p" "drop 8 c = index_bytes_of es"
  show ?thesis
    unfolding c(1) [symmetric] find_end.simps [of base eo sp h ep c] using c(2-) by (auto simp: Let_def split: option.split)
qed

text \<open>
  The start position is that of the last entry that ends at or before the wanted offset, and 0
  when there is none.
\<close>

lemma find_start_position:
  assumes "u32_pairs es" "find_start base target pos h (index_bytes_of es) = Ok (q, h')"
  shows "q = last (pos # map snd (filter (\<lambda>(d, p). base + d \<le> target) es))"
  using assms
proof (induction es arbitrary: pos h)
  case (Cons e es)
  obtain d p where e: "e = (d, p)" by (cases e)
  from Cons.prems Cons.IH show ?case
    unfolding e by (auto simp: find_start_Cons simp del: index_bytes_of.simps split: if_splits)
qed simp

text \<open>The end position with a wanted end never exceeds the first entry that reaches it.\<close>

lemma find_end_position:
  assumes "u32_pairs es" "sorted (map snd es)" "(d, p) \<in> set es" "e \<le> base + d"
    and "find_end base (Some e) sp h ep (index_bytes_of es) = Ok q"
  shows "q \<le> p"
  using assms
proof (induction es)
  case (Cons x es)
  obtain d' p' where x: "x = (d', p')" by (cases x)
  from Cons.prems have wf: "d' < 2 ^ 32" "p' < 2 ^ 32" "u32_pairs es" by (simp_all add: x)
  have le: "p' \<le> p" using Cons.prems(2,3) by (auto simp: x)
  show ?case
  proof (cases "e \<le> base + d' \<or> \<not> (p' < sp \<or> p' - sp < h)")
    case True
    with Cons.prems(5) le show ?thesis unfolding x find_end_Cons [OF wf(1,2)] by (auto split: if_splits)
  next
    case False
    with Cons.prems(3,4) have "(d, p) \<in> set es" by (auto simp: x)
    with Cons.IH [OF wf(3) _ this Cons.prems(4)] Cons.prems(2,5) False show ?thesis
      unfolding x find_end_Cons [OF wf(1,2)] by (auto split: if_splits)
  qed
qed simp

end
