(* ===== verification/Metadata.thy ===== *)
theory Metadata
  imports Object_Metadata
begin

text \<open>
  Metadata of ranges, streams and range servers and the events that announce their changes,
  \<open>src/components/model/src/\<close> (\<open>range/mod.rs\<close>, \<open>stream/mod.rs\<close>, \<open>range_server.rs\<close>, \<open>replica.rs\<close>,
  \<open>resource.rs\<close>), with the wire tables of \<open>src/components/protocol/fbs/rpc.fbs\<close> they convert to
  and from. A table is the record of its fields, an absent optional field is \<open>None\<close>.
\<close>

section \<open>Model\<close>

subsection \<open>Range servers\<close>

datatype range_server_state = StateUnspecified | ReadOnly | StateReadWrite | Offline

record range_server =
  rs_server_id :: int
  rs_advertise_address :: string
  rs_state :: range_server_state

record range_server_t =
  rst_server_id :: int
  rst_advertise_addr :: string
  rst_state :: range_server_state

definition rs_to_t :: "range_server \<Rightarrow> range_server_t" where
  "rs_to_t s = \<lparr>rst_server_id = rs_server_id s, rst_advertise_addr = rs_advertise_address s, rst_state = rs_state s\<rparr>"

definition rs_of_t :: "range_server_t \<Rightarrow> range_server" where
  "rs_of_t t = \<lparr>rs_server_id = rst_server_id t, rs_advertise_address = rst_advertise_addr t, rs_state = rst_state t\<rparr>"

definition range_server_t_default :: range_server_t where
  "range_server_t_default = \<lparr>rst_server_id = -1, rst_advertise_addr = [], rst_state = StateUnspecified\<rparr>"

subsection \<open>Ranges\<close>

record offload_owner =
  oo_server_id :: int
  oo_epoch :: int

record offload_owner_t =
  oot_server_id :: int
  oot_epoch :: int

definition oo_to_t :: "offload_owner \<Rightarrow> offload_owner_t" where
  "oo_to_t w = \<lparr>oot_server_id = oo_server_id w, oot_epoch = oo_epoch w\<rparr>"

definition oo_of_t :: "offload_owner_t \<Rightarrow> offload_owner" where
  "oo_of_t t = \<lparr>oo_server_id = oot_server_id t, oo_epoch = oot_epoch t\<rparr>"

record range_metadata =
  rm_stream_id :: u64
  rm_epoch :: u64
  rm_index :: int
  rm_start :: u64
  rm_end :: "u64 option"
  rm_replica :: "range_server list"
  rm_replica_count :: u8
  rm_ack_count :: u8
  rm_offload_owner :: "offload_owner option"

definition rm_new_range :: "u64 \<Rightarrow> int \<Rightarrow> u64 \<Rightarrow> u64 \<Rightarrow> u64 option \<Rightarrow> u8 \<Rightarrow> u8 \<Rightarrow> range_metadata" where
  "rm_new_range stream_id index epoch start end' replica_count ack_count =
     \<lparr>rm_stream_id = stream_id, rm_epoch = epoch, rm_index = index, rm_start = start, rm_end = end', rm_replica = [],
      rm_replica_count = replica_count, rm_ack_count = ack_count,
      rm_offload_owner = Some \<lparr>oo_server_id = 0, oo_epoch = 0\<rparr>\<rparr>"

definition rm_new :: "u64 \<Rightarrow> int \<Rightarrow> u64 \<Rightarrow> u64 \<Rightarrow> u64 option \<Rightarrow> range_metadata" where
  "rm_new stream_id index epoch start end' = rm_new_range stream_id index epoch start end' 0 0"

text \<open>\<open>PartialEq\<close> is derived and ignores the replica list.\<close>

definition rm_eq :: "range_metadata \<Rightarrow> range_metadata \<Rightarrow> bool" where
  "rm_eq a b \<longleftrightarrow> a\<lparr>rm_replica := []\<rparr> = b\<lparr>rm_replica := []\<rparr>"

definition held_by :: "range_metadata \<Rightarrow> int \<Rightarrow> bool" where
  "held_by m server_id \<longleftrightarrow> list_ex (\<lambda>s. rs_server_id s = server_id) (rm_replica m)"

definition rm_contains :: "range_metadata \<Rightarrow> u64 \<Rightarrow> bool" where
  "rm_contains m offset =
     (if rm_start m > offset then False
      else (case rm_end m of None \<Rightarrow> True | Some e \<Rightarrow> offset < e))"

definition trim_start :: "u64 \<Rightarrow> range_metadata \<Rightarrow> range_metadata" where
  "trim_start offset m = m\<lparr>rm_start := offset\<rparr>"

definition has_end :: "range_metadata \<Rightarrow> bool" where
  "has_end m \<longleftrightarrow> rm_end m \<noteq> None"

definition set_end :: "u64 \<Rightarrow> range_metadata \<Rightarrow> range_metadata" where
  "set_end e m = m\<lparr>rm_end := Some e\<rparr>"

record range_t =
  rt_stream_id :: int
  rt_epoch :: int
  rt_index :: int
  rt_start :: int
  rt_end :: int
  rt_servers :: "range_server_t list option"
  rt_replica_count :: int
  rt_ack_count :: int
  rt_offload_owner :: "offload_owner_t option"

definition range_t_default :: range_t where
  "range_t_default = \<lparr>rt_stream_id = -1, rt_epoch = -1, rt_index = -1, rt_start = -1, rt_end = -1, rt_servers = None,
     rt_replica_count = -1, rt_ack_count = -1, rt_offload_owner = None\<rparr>"

definition rm_to_t :: "range_metadata \<Rightarrow> range_t" where
  "rm_to_t m =
     \<lparr>rt_stream_id = as_i64 (rm_stream_id m), rt_epoch = as_i64 (rm_epoch m), rt_index = rm_index m,
      rt_start = as_i64 (rm_start m), rt_end = (case rm_end m of None \<Rightarrow> -1 | Some e \<Rightarrow> as_i64 e),
      rt_servers = (if rm_replica m = [] then None else Some (map rs_to_t (rm_replica m))),
      rt_replica_count = as_i8 (rm_replica_count m), rt_ack_count = as_i8 (rm_ack_count m),
      rt_offload_owner = map_option oo_to_t (rm_offload_owner m)\<rparr>"

definition rm_of_t :: "range_t \<Rightarrow> range_metadata" where
  "rm_of_t t =
     \<lparr>rm_stream_id = int_as_u64 (rt_stream_id t), rm_epoch = int_as_u64 (rt_epoch t), rm_index = rt_index t,
      rm_start = int_as_u64 (rt_start t), rm_end = (if rt_end t = -1 then None else Some (int_as_u64 (rt_end t))),
      rm_replica = (case rt_servers t of Some ss \<Rightarrow> map rs_of_t ss | None \<Rightarrow> []),
      rm_replica_count = int_as_u8 (rt_replica_count t), rm_ack_count = int_as_u8 (rt_ack_count t),
      rm_offload_owner = map_option oo_of_t (rt_offload_owner t)\<rparr>"

datatype range_event =
    OffsetMove "u64 \<times> u32" u64
  | Offloaded "u64 \<times> u32"
  | Del "u64 \<times> u32"

record range_progress =
  rp_stream_id :: u64
  rp_range_index :: u32
  rp_confirm_offset :: u64

record range_progress_t =
  rpt_stream_id :: int
  rpt_range_index :: int
  rpt_confirm_offset :: int

definition rp_to_t :: "range_progress \<Rightarrow> range_progress_t" where
  "rp_to_t p = \<lparr>rpt_stream_id = as_i64 (rp_stream_id p), rpt_range_index = as_i32 (rp_range_index p),
     rpt_confirm_offset = as_i64 (rp_confirm_offset p)\<rparr>"

subsection \<open>Streams\<close>

text \<open>The retention period is its number of milliseconds.\<close>

record stream_metadata =
  sm_stream_id :: u64
  sm_replica :: u8
  sm_ack_count :: u8
  sm_retention_period :: u64
  sm_start_offset :: u64
  sm_epoch :: u64
  sm_deleted :: bool

definition stream_metadata_default :: stream_metadata where
  "stream_metadata_default = \<lparr>sm_stream_id = 0, sm_replica = 0, sm_ack_count = 0, sm_retention_period = 0,
     sm_start_offset = 0, sm_epoch = 0, sm_deleted = False\<rparr>"

record stream_t =
  st_stream_id :: int
  st_replica :: int
  st_ack_count :: int
  st_retention_period_ms :: int
  st_start_offset :: int
  st_epoch :: int
  st_deleted :: bool

definition stream_t_default :: stream_t where
  "stream_t_default = \<lparr>st_stream_id = -1, st_replica = -1, st_ack_count = -1, st_retention_period_ms = -1,
     st_start_offset = -1, st_epoch = -1, st_deleted = False\<rparr>"

definition sm_of_t :: "stream_t \<Rightarrow> stream_metadata" where
  "sm_of_t t =
     \<lparr>sm_stream_id = int_as_u64 (st_stream_id t), sm_replica = int_as_u8 (st_replica t), sm_ack_count = int_as_u8 (st_ack_count t),
      sm_retention_period = int_as_u64 (st_retention_period_ms t), sm_start_offset = int_as_u64 (st_start_offset t),
      sm_epoch = int_as_u64 (st_epoch t), sm_deleted = st_deleted t\<rparr>"

subsection \<open>Resources and their events\<close>

datatype resource =
    ResourceNone
  | ResourceRangeServer range_server
  | ResourceStream stream_metadata
  | ResourceRange range_metadata
  | ResourceObject object_metadata

record resource_t =
  res_type :: int
  res_range_server :: "range_server_t option"
  res_stream :: "stream_t option"
  res_range :: "range_t option"
  res_object :: "obj_t option"

definition or_default :: "'a \<Rightarrow> 'a option \<Rightarrow> 'a" where
  "or_default d x = (case x of Some a \<Rightarrow> a | None \<Rightarrow> d)"

definition resource_of_t :: "resource_t \<Rightarrow> resource" where
  "resource_of_t t =
     (if res_type t = 1 then ResourceRangeServer (rs_of_t (or_default range_server_t_default (res_range_server t)))
      else if res_type t = 2 then ResourceStream (sm_of_t (or_default stream_t_default (res_stream t)))
      else if res_type t = 3 then ResourceRange (rm_of_t (or_default range_t_default (res_range t)))
      else if res_type t = 4 then ResourceObject (om_of_obj_t (or_default obj_default (res_object t)))
      else ResourceNone)"

datatype event_type = EventNone | Listed | ListFinished | Added | Modified | Deleted | Reset

record resource_event =
  ev_type :: event_type
  ev_resource :: resource

record resource_event_t =
  evt_type :: int
  evt_resource :: resource_t

definition event_of_t :: "resource_event_t \<Rightarrow> resource_event" where
  "event_of_t t =
     \<lparr>ev_type = (if evt_type t = 1 then Added else if evt_type t = 2 then Modified else if evt_type t = 3 then Deleted
                 else EventNone),
      ev_resource = resource_of_t (evt_resource t)\<rparr>"

definition ev_list_finished :: resource_event where
  "ev_list_finished = \<lparr>ev_type = ListFinished, ev_resource = ResourceNone\<rparr>"

definition ev_reset :: resource_event where
  "ev_reset = \<lparr>ev_type = Reset, ev_resource = ResourceNone\<rparr>"

section \<open>Conversions\<close>

text \<open>The widths of the fields.\<close>

definition rm_wf :: "range_metadata \<Rightarrow> bool" where
  "rm_wf m \<longleftrightarrow> rm_stream_id m < 2 ^ 64 \<and> rm_epoch m < 2 ^ 64 \<and> fits_signed 32 (rm_index m) \<and> rm_start m < 2 ^ 64 \<and>
     (\<forall>e. rm_end m = Some e \<longrightarrow> e < 2 ^ 64) \<and> rm_replica_count m < 2 ^ 8 \<and> rm_ack_count m < 2 ^ 8"

lemma rs_roundtrip [simp]: "rs_of_t (rs_to_t s) = s" by (simp add: rs_of_t_def rs_to_t_def)
lemma rs_roundtrip_map [simp]: "map (rs_of_t \<circ> rs_to_t) ss = ss" by (simp add: comp_def)
lemma oo_roundtrip [simp]: "oo_of_t (oo_to_t o') = o'" by (simp add: oo_of_t_def oo_to_t_def)
lemma oo_roundtrip_map [simp]: "map_option (oo_of_t \<circ> oo_to_t) x = x" by (simp add: comp_def option.map_ident)

lemma rm_eq_refl [simp]: "rm_eq m m" by (simp add: rm_eq_def)

text \<open>
  C29. The metadata of a range survives the wire: packing it into the table and reading it back
  gives the same metadata, except for an end at the largest 64-bit offset, which the table's
  encoding of an open range takes over.
\<close>

theorem range_metadata_roundtrip:
  assumes "rm_wf m"
  shows "rm_of_t (rm_to_t m) = (if rm_end m = Some (2 ^ 64 - 1) then m\<lparr>rm_end := None\<rparr> else m)"
proof (cases "rm_end m")
  case None
  with assms show ?thesis
    by (auto simp: rm_wf_def rm_of_t_def rm_to_t_def to_unsigned_to_signed option.map_comp)
next
  case (Some e)
  then have e: "e < 2 ^ 64" using assms by (simp add: rm_wf_def)
  have "as_i64 e = -1 \<longleftrightarrow> e = 2 ^ 64 - 1" using to_signed_minus_one [of 64 e] e by simp
  with assms Some e show ?thesis
    by (auto simp: rm_wf_def rm_of_t_def rm_to_t_def to_unsigned_to_signed option.map_comp)
qed

definition sample_range :: range_metadata where
  "sample_range = (rm_new_range 1 2 3 4 (Some 9) 3 2)\<lparr>rm_replica := [\<lparr>rs_server_id = 7, rs_advertise_address = ''h:1'', rs_state = ReadOnly\<rparr>]\<rparr>"

theorem range_metadata_roundtrip_witness: "rm_of_t (rm_to_t sample_range) = sample_range"
  using range_metadata_roundtrip [of sample_range]
  by (simp add: sample_range_def rm_new_range_def rm_wf_def fits_signed_def)

end
