(* ===== verification/Store_Buffer.thy ===== *)
theory Store_Buffer
  imports Metadata Store_Error "HOL-Library.Multiset"
begin

text \<open>
  Buffering and sorting of append requests, \<open>src/components/store/src/store/buffer/\<close> and
  \<open>src/components/store/src/request.rs\<close>: a \<open>RangeBuffer\<close> holds requests back until they are
  continuous, a \<open>StreamBuffer\<close> and the \<open>StoreBuffer\<close> keep one per range, and \<open>BufferedStore\<close>
  forwards what has become continuous to the nested store. Offsets lie below \<open>2 ^ 63\<close>, so that the
  sum of an offset and a batch length stays in its type.
\<close>

section \<open>Model\<close>

subsection \<open>Requests\<close>

record append_request =
  req_stream_id :: u64
  req_range_index :: int
  req_offset :: u64
  req_len :: u32
  req_buffer :: bytes

record append_result =
  ar_stream_id :: u64
  ar_range_index :: u32
  ar_offset :: u64
  ar_last_offset_delta :: u32
  ar_wal_offset :: u64
  ar_bytes_len :: u32

record read_options =
  ro_stream_id :: u64
  ro_range :: u32
  ro_offset :: u64
  ro_max_offset :: u64
  ro_max_wait_ms :: int
  ro_max_bytes :: int

text \<open>
  \<open>Ord\<close> compares the other way round, so that the greatest request is the one with the least
  stream, range and offset; equality ignores the length and the bytes.
\<close>

definition req_le :: "append_request \<Rightarrow> append_request \<Rightarrow> bool" where
  "req_le a b \<longleftrightarrow>
     req_stream_id b < req_stream_id a \<or>
     req_stream_id b = req_stream_id a \<and>
       (req_range_index b < req_range_index a \<or>
        req_range_index b = req_range_index a \<and> req_offset b \<le> req_offset a)"

text \<open>A buffered request carries the sender that its caller waits on, named by a number.\<close>

record buffered_request =
  br_request :: append_request
  br_tx :: nat

subsection \<open>The heap\<close>

text \<open>
  \<open>BinaryHeap\<close> of the standard library: \<open>peek\<close> shows a greatest element and \<open>pop\<close> removes it. The
  heap is the list of its elements.
\<close>

definition heap_max :: "buffered_request \<Rightarrow> buffered_request list \<Rightarrow> bool" where
  "heap_max x h \<longleftrightarrow> list_all (\<lambda>y. req_le (br_request y) (br_request x)) h"

definition heap_peek :: "buffered_request list \<Rightarrow> buffered_request option" where
  "heap_peek h = find (\<lambda>x. heap_max x h) h"

definition heap_push :: "buffered_request \<Rightarrow> buffered_request list \<Rightarrow> buffered_request list" where
  "heap_push x h = x # h"

definition heap_pop :: "buffered_request list \<Rightarrow> buffered_request list" where
  "heap_pop h = (case heap_peek h of Some x \<Rightarrow> remove1 x h | None \<Rightarrow> h)"

subsection \<open>Range buffer\<close>

record range_buffer =
  rbuf_next :: u64
  rbuf_buffered :: "buffered_request list"

definition rbuf_new :: "u64 \<Rightarrow> range_buffer" where
  "rbuf_new offset = \<lparr>rbuf_next = offset, rbuf_buffered = []\<rparr>"

definition rbuf_fast_forward :: "append_request \<Rightarrow> range_buffer \<Rightarrow> range_buffer \<times> bool" where
  "rbuf_fast_forward req b =
     (if rbuf_next b < req_offset req then (b, False)
      else if rbuf_next b = req_offset req then (b\<lparr>rbuf_next := rbuf_next b + req_len req\<rparr>, True)
      else (b, True))"

lemma heap_peek_in: "heap_peek h = Some x \<Longrightarrow> x \<in> set h"
  by (auto simp: heap_peek_def find_Some_iff)

lemma heap_pop_length: "heap_peek h = Some x \<Longrightarrow> length (heap_pop h) < length h"
  using heap_peek_in [of h x] length_pos_if_in_set [of x h] by (simp add: heap_pop_def length_remove1)

function drain_loop :: "u64 \<Rightarrow> buffered_request list \<Rightarrow> u64 \<times> buffered_request list \<times> buffered_request list" where
  "drain_loop n h =
     (case heap_peek h of
        None \<Rightarrow> (n, h, [])
      | Some item \<Rightarrow>
          if req_offset (br_request item) \<noteq> n then (n, h, [])
          else (case drain_loop (n + req_len (br_request item)) (heap_pop h) of
                  (n', h', res) \<Rightarrow> (n', h', item # res)))"
  by auto
termination by (relation "measure (length \<circ> snd)") (auto simp: heap_pop_length)

declare drain_loop.simps [simp del]

definition rbuf_drain :: "range_buffer \<Rightarrow> range_buffer \<times> buffered_request list option" where
  "rbuf_drain b =
     (case heap_peek (rbuf_buffered b) of
        None \<Rightarrow> (b, None)
      | Some item \<Rightarrow>
          if req_offset (br_request item) \<noteq> rbuf_next b then (b, None)
          else (case drain_loop (rbuf_next b) (rbuf_buffered b) of
                  (n, h, res) \<Rightarrow> (\<lparr>rbuf_next = n, rbuf_buffered = h\<rparr>, Some res)))"

definition rbuf_buffer :: "buffered_request \<Rightarrow> range_buffer \<Rightarrow> range_buffer" where
  "rbuf_buffer req b = b\<lparr>rbuf_buffered := heap_push req (rbuf_buffered b)\<rparr>"

subsection \<open>Stream buffer\<close>

record stream_buffer =
  sbuf_stream_id :: u64
  sbuf_buffers :: "u32 \<rightharpoonup> range_buffer"

definition sbuf_new :: "u64 \<Rightarrow> stream_buffer" where
  "sbuf_new stream_id = \<lparr>sbuf_stream_id = stream_id, sbuf_buffers = Map.empty\<rparr>"

definition sbuf_put :: "u32 \<Rightarrow> range_buffer \<Rightarrow> stream_buffer \<Rightarrow> stream_buffer" where
  "sbuf_put i b s = s\<lparr>sbuf_buffers := (sbuf_buffers s)(i \<mapsto> b)\<rparr>"

definition sbuf_fast_forward :: "append_request \<Rightarrow> stream_buffer \<Rightarrow> stream_buffer \<times> bool" where
  "sbuf_fast_forward req s =
     (let i = int_as_u32 (req_range_index req) in
      case sbuf_buffers s i of
        Some b \<Rightarrow> (case rbuf_fast_forward req b of (b', ok) \<Rightarrow> (sbuf_put i b' s, ok))
      | None \<Rightarrow> (s, False))"

definition sbuf_buffer :: "buffered_request \<Rightarrow> stream_buffer \<Rightarrow> stream_buffer \<times> bool" where
  "sbuf_buffer req s =
     (let i = int_as_u32 (req_range_index (br_request req)) in
      case sbuf_buffers s i of
        Some b \<Rightarrow> (sbuf_put i (rbuf_buffer req b) s, True)
      | None \<Rightarrow> (s, False))"

definition sbuf_create_range :: "u32 \<Rightarrow> u64 \<Rightarrow> stream_buffer \<Rightarrow> stream_buffer" where
  "sbuf_create_range i offset s =
     (case sbuf_buffers s i of Some _ \<Rightarrow> s | None \<Rightarrow> sbuf_put i (rbuf_new offset) s)"

definition sbuf_seal_range :: "u32 \<Rightarrow> stream_buffer \<Rightarrow> stream_buffer" where
  "sbuf_seal_range i s = s\<lparr>sbuf_buffers := (sbuf_buffers s)(i := None)\<rparr>"

definition sbuf_drain :: "u32 \<Rightarrow> stream_buffer \<Rightarrow> stream_buffer \<times> buffered_request list option" where
  "sbuf_drain i s =
     (case sbuf_buffers s i of
        Some b \<Rightarrow> (case rbuf_drain b of (b', r) \<Rightarrow> (sbuf_put i b' s, r))
      | None \<Rightarrow> (s, None))"

subsection \<open>Store buffer\<close>

type_synonym store_buffer = "u64 \<rightharpoonup> stream_buffer"

definition stream_buffer_of :: "u64 \<Rightarrow> store_buffer \<Rightarrow> stream_buffer" where
  "stream_buffer_of stream_id m = (case m stream_id of Some s \<Rightarrow> s | None \<Rightarrow> sbuf_new stream_id)"

definition stbuf_fast_forward :: "append_request \<Rightarrow> store_buffer \<Rightarrow> store_buffer \<times> bool" where
  "stbuf_fast_forward req m =
     (case sbuf_fast_forward req (stream_buffer_of (req_stream_id req) m) of
        (s, ok) \<Rightarrow> (m(req_stream_id req \<mapsto> s), ok))"

definition stbuf_buffer :: "buffered_request \<Rightarrow> store_buffer \<Rightarrow> store_buffer \<times> bool" where
  "stbuf_buffer req m =
     (case sbuf_buffer req (stream_buffer_of (req_stream_id (br_request req)) m) of
        (s, ok) \<Rightarrow> (m(req_stream_id (br_request req) \<mapsto> s), ok))"

definition stbuf_create_range :: "u64 \<Rightarrow> u32 \<Rightarrow> u64 \<Rightarrow> store_buffer \<Rightarrow> store_buffer" where
  "stbuf_create_range stream_id i offset m =
     m(stream_id \<mapsto> sbuf_create_range i offset (stream_buffer_of stream_id m))"

definition stbuf_seal_range :: "u64 \<Rightarrow> u32 \<Rightarrow> store_buffer \<Rightarrow> store_buffer" where
  "stbuf_seal_range stream_id i m = m(stream_id \<mapsto> sbuf_seal_range i (stream_buffer_of stream_id m))"

definition stbuf_drain :: "u64 \<Rightarrow> u32 \<Rightarrow> store_buffer \<Rightarrow> store_buffer \<times> buffered_request list option" where
  "stbuf_drain stream_id i m =
     (case sbuf_drain i (stream_buffer_of stream_id m) of (s, r) \<Rightarrow> (m(stream_id \<mapsto> s), r))"

subsection \<open>Buffered store\<close>

text \<open>
  The synchronous part of \<open>BufferedStore::append\<close>: either the request and what it made continuous
  go to the nested store, in this order, with the senders of the latter; or the caller waits on
  its sender; or the range is unknown.
\<close>

datatype append_start =
    Forward "append_request list" "nat list"
  | Waiting
  | Rejected append_error

definition bs_append :: "nat \<Rightarrow> append_request \<Rightarrow> store_buffer \<Rightarrow> store_buffer \<times> append_start" where
  "bs_append tx req m =
     (case stbuf_fast_forward req m of
        (m1, True) \<Rightarrow>
          (case stbuf_drain (req_stream_id req) (int_as_u32 (req_range_index req)) m1 of
             (m2, Some rs) \<Rightarrow> (m2, Forward (req # map br_request rs) (map br_tx rs))
           | (m2, None) \<Rightarrow> (m2, Forward [req] []))
      | (m1, False) \<Rightarrow>
          (case stbuf_buffer \<lparr>br_request = req, br_tx = tx\<rparr> m1 of
             (m2, True) \<Rightarrow> (m2, Waiting)
           | (m2, False) \<Rightarrow> (m2, Rejected RangeNotFound)))"

text \<open>The results of the nested store: the first is the caller's, the others go to the senders.\<close>

definition bs_deliver :: "'r list \<Rightarrow> nat list \<Rightarrow> ('e, 'r \<times> (nat \<times> 'r) list) outcome" where
  "bs_deliver results senders =
     (case results of [] \<Rightarrow> Panic | r # rs \<Rightarrow> Ok (r, zip senders rs))"

definition bs_create_range :: "range_metadata \<Rightarrow> store_buffer \<Rightarrow> store_buffer" where
  "bs_create_range rng m = stbuf_create_range (rm_stream_id rng) (int_as_u32 (rm_index rng)) (rm_start rng) m"

definition bs_seal_range :: "range_metadata \<Rightarrow> store_buffer \<Rightarrow> store_buffer" where
  "bs_seal_range rng m = stbuf_seal_range (rm_stream_id rng) (int_as_u32 (rm_index rng)) m"

definition bs_on_resource_event :: "resource_event \<Rightarrow> store_buffer \<Rightarrow> store_buffer" where
  "bs_on_resource_event event m =
     (case ev_type event of
        Added \<Rightarrow> (case ev_resource event of ResourceRange rng \<Rightarrow> bs_create_range rng m | _ \<Rightarrow> m)
      | Listed \<Rightarrow>
          (case ev_resource event of
             ResourceRange rng \<Rightarrow> if has_end rng then bs_seal_range rng m else bs_create_range rng m
           | _ \<Rightarrow> m)
      | Modified \<Rightarrow>
          (case ev_resource event of
             ResourceRange rng \<Rightarrow> if has_end rng then bs_seal_range rng m else bs_create_range rng m
           | _ \<Rightarrow> m)
      | _ \<Rightarrow> m)"

section \<open>The heap's contract\<close>

locale max_heap =
  fixes push :: "'a \<Rightarrow> 'h \<Rightarrow> 'h"
    and peek :: "'h \<Rightarrow> 'a option"
    and pop :: "'h \<Rightarrow> 'h"
    and items :: "'h \<Rightarrow> 'a multiset"
    and le :: "'a \<Rightarrow> 'a \<Rightarrow> bool"
  assumes items_push: "items (push x h) = add_mset x (items h)"
    and peek_None: "peek h = None \<longleftrightarrow> items h = {#}"
    and peek_Some: "peek h = Some x \<Longrightarrow> x \<in># items h \<and> (\<forall>y \<in># items h. le y x)"
    and items_pop: "peek h = Some x \<Longrightarrow> items (pop h) = items h - {#x#}"
begin

text \<open>An element above all others is the one on top.\<close>

lemma peek_greatest:
  assumes "x \<in># items h" and "\<And>y. y \<in># items h \<Longrightarrow> y \<noteq> x \<Longrightarrow> \<not> le x y"
  shows "peek h = Some x"
proof (cases "peek h")
  case None
  with assms(1) peek_None show ?thesis by simp
next
  case (Some y)
  with peek_Some [OF Some] assms show ?thesis by blast
qed

end

lemma req_le_total: "req_le a b \<or> req_le b a"
  by (auto simp: req_le_def)

lemma req_le_trans: "req_le a b \<Longrightarrow> req_le b c \<Longrightarrow> req_le a c"
  by (auto simp: req_le_def)

lemma heap_max_exists: "h \<noteq> [] \<Longrightarrow> \<exists>x \<in> set h. heap_max x h"
proof (induction h)
  case (Cons y h)
  show ?case
  proof (cases "h = []")
    case True
    then show ?thesis using req_le_total [of "br_request y" "br_request y"] by (simp add: heap_max_def)
  next
    case False
    with Cons.IH obtain x where x: "x \<in> set h" "heap_max x h" by blast
    show ?thesis
    proof (cases "req_le (br_request y) (br_request x)")
      case True
      with x show ?thesis by (auto simp: heap_max_def)
    next
      case False
      then have "req_le (br_request x) (br_request y)" using req_le_total by blast
      then have "req_le (br_request z) (br_request y)" if "z \<in> set h" for z
        using x(2) that by (auto simp: heap_max_def list_all_iff intro: req_le_trans)
      then have "heap_max y (y # h)"
        using req_le_total [of "br_request y" "br_request y"] by (simp add: heap_max_def list_all_iff)
      then show ?thesis by auto
    qed
  qed
qed simp

interpretation bh: max_heap heap_push heap_peek heap_pop mset "\<lambda>a b. req_le (br_request a) (br_request b)"
proof
  show "mset (heap_push x h) = add_mset x (mset h)" for x h by (simp add: heap_push_def)
  show "heap_peek h = None \<longleftrightarrow> mset h = {#}" for h
    using heap_max_exists [of h] by (auto simp: heap_peek_def find_None_iff)
  show "x \<in># mset h \<and> (\<forall>y \<in># mset h. req_le (br_request y) (br_request x))" if "heap_peek h = Some x" for h x
    using that by (auto simp: heap_peek_def find_Some_iff heap_max_def list_all_iff)
  show "mset (heap_pop h) = mset h - {#x#}" if "heap_peek h = Some x" for h x
    using that by (simp add: heap_pop_def)
qed

section \<open>Sorting\<close>

text \<open>A continuous sequence of requests of one range, from an offset on.\<close>

fun continuous :: "u64 \<Rightarrow> append_request list \<Rightarrow> bool" where
  "continuous n [] = True"
| "continuous n (q # qs) = (req_offset q = n \<and> 0 < req_len q \<and> continuous (n + req_len q) qs)"

definition same_range :: "u64 \<Rightarrow> int \<Rightarrow> append_request list \<Rightarrow> bool" where
  "same_range sid idx qs \<longleftrightarrow> (\<forall>q \<in> set qs. req_stream_id q = sid \<and> req_range_index q = idx)"

definition end_of :: "u64 \<Rightarrow> append_request list \<Rightarrow> u64" where
  "end_of n qs = n + sum_list (map req_len qs)"

lemma end_of_Nil [simp]: "end_of n [] = n" by (simp add: end_of_def)
lemma end_of_Cons [simp]: "end_of n (q # qs) = end_of (n + req_len q) qs" by (simp add: end_of_def)

lemma continuous_append: "continuous n (xs @ ys) \<longleftrightarrow> continuous n xs \<and> continuous (end_of n xs) ys"
  by (induction xs arbitrary: n) auto

lemma continuous_offset: "continuous n qs \<Longrightarrow> q \<in> set qs \<Longrightarrow> n \<le> req_offset q \<and> (n = req_offset q \<longleftrightarrow> q = hd qs)"
proof (induction qs arbitrary: n)
  case (Cons a qs)
  show ?case
  proof (cases "q = a")
    case False
    with Cons have "q \<in> set qs" "n + req_len a \<le> req_offset q" by auto
    with Cons.prems False show ?thesis by auto
  qed (use Cons.prems in auto)
qed simp

lemma continuous_distinct: "continuous n qs \<Longrightarrow> distinct qs"
proof (induction qs arbitrary: n)
  case (Cons q qs)
  then have "req_offset q \<noteq> req_offset x" if "x \<in> set qs" for x
    using continuous_offset [of "n + req_len q" qs x] that by auto
  with Cons show ?case by auto
qed simp

text \<open>
  What is buffered: later requests of the sequence, each once. Draining hands out the requests
  that follow on without a gap.
\<close>

lemma drain_loop_spec:
  assumes "continuous n qs" "same_range sid idx qs" "distinct (map br_request h)" "br_request ` set h \<subseteq> set qs"
  shows "drain_loop n h = (n', h', rs) \<Longrightarrow>
    map br_request rs = takeWhile (\<lambda>q. q \<in> br_request ` set h) qs \<and> n' = end_of n (map br_request rs) \<and>
    mset h = mset rs + mset h'"
  using assms
proof (induction qs arbitrary: n h n' h' rs)
  case Nil
  then have "h = []" by simp
  with Nil.prems(1) bh.peek_None [of "[]"] show ?case by (simp add: drain_loop.simps)
next
  case (Cons q qs)
  note cont = Cons.prems(2) and same = Cons.prems(3) and dist = Cons.prems(4) and sub = Cons.prems(5)
  have later: "req_offset q < req_offset x" if "x \<in> set qs" for x
    using cont continuous_offset [of "n + req_len q" qs x] that by auto
  show ?case
  proof (cases "q \<in> br_request ` set h")
    case False
    have "req_offset (br_request x) \<noteq> n" if "heap_peek h = Some x" for x
    proof -
      have "br_request x \<in> set (q # qs)" "br_request x \<noteq> q" using sub False heap_peek_in [OF that] by auto
      with later [of "br_request x"] cont show ?thesis by auto
    qed
    with Cons.prems(1) have "n' = n \<and> h' = h \<and> rs = []"
      by (auto simp: drain_loop.simps split: option.splits)
    with False show ?thesis by simp
  next
    case True
    then obtain x where x: "x \<in> set h" "br_request x = q" by auto
    have peek: "heap_peek h = Some x"
    proof (rule bh.peek_greatest)
      show "x \<in># mset h" using x by simp
      fix y
      assume y: "y \<in># mset h" "y \<noteq> x"
      then have "br_request y \<noteq> q" using dist x by (auto simp: distinct_map inj_on_def)
      then have "br_request y \<in> set qs" using sub y by auto
      with later [of "br_request y"] same x show "\<not> req_le (br_request x) (br_request y)"
        by (auto simp: req_le_def same_range_def)
    qed
    obtain m g ts where rec: "drain_loop (n + req_len q) (heap_pop h) = (m, g, ts)" by (cases "drain_loop (n + req_len q) (heap_pop h)")
    have res: "n' = m" "h' = g" "rs = x # ts"
      using Cons.prems(1) cont x rec unfolding drain_loop.simps [of n h] by (simp_all add: peek)
    have ms: "mset (heap_pop h) = mset h - {#x#}" by (rule bh.items_pop [OF peek])
    have pop: "heap_pop h = remove1 x h" by (simp add: heap_pop_def peek)
    have dist': "distinct (map br_request (heap_pop h))" "q \<notin> br_request ` set (heap_pop h)"
      and img: "br_request ` set h = insert q (br_request ` set (heap_pop h))"
      using dist x unfolding pop by (auto simp: distinct_map inj_on_def)
    have sub': "br_request ` set (heap_pop h) \<subseteq> set qs" using sub dist'(2) img by auto
    have "same_range sid idx qs" using same by (simp add: same_range_def)
    with Cons.IH [OF rec _ _ dist'(1) sub'] cont
    have ih: "map br_request ts = takeWhile (\<lambda>q. q \<in> br_request ` set (heap_pop h)) qs"
      "m = end_of (n + req_len q) (map br_request ts)" "mset (heap_pop h) = mset ts + mset g" by simp_all
    have "takeWhile (\<lambda>q. q \<in> br_request ` set (heap_pop h)) qs = takeWhile (\<lambda>q. q \<in> br_request ` set h) qs"
      using later by (intro takeWhile_cong) (auto simp: img)
    moreover have "mset h = add_mset x (mset (heap_pop h))" using ms x by simp
    ultimately show ?thesis using ih res x True by simp
  qed
qed

definition drained :: "buffered_request list option \<Rightarrow> buffered_request list" where
  "drained r = (case r of Some rs \<Rightarrow> rs | None \<Rightarrow> [])"

lemma rbuf_drain_loop:
  assumes "rbuf_drain b = (b', r)"
  shows "drain_loop (rbuf_next b) (rbuf_buffered b) = (rbuf_next b', rbuf_buffered b', drained r)"
proof (cases "\<exists>x. heap_peek (rbuf_buffered b) = Some x \<and> req_offset (br_request x) = rbuf_next b")
  case True
  with assms show ?thesis by (auto simp: rbuf_drain_def drained_def split: prod.splits)
next
  case False
  then have "drain_loop (rbuf_next b) (rbuf_buffered b) = (rbuf_next b, rbuf_buffered b, [])"
    by (subst drain_loop.simps) (auto split: option.split)
  with assms False show ?thesis by (auto simp: rbuf_drain_def drained_def split: option.splits if_splits)
qed

text \<open>One arrival at the buffer of a range, and the requests it forwards.\<close>

definition rbuf_arrive :: "nat \<Rightarrow> append_request \<Rightarrow> range_buffer \<Rightarrow> range_buffer \<times> append_request list" where
  "rbuf_arrive tx req b =
     (case rbuf_fast_forward req b of
        (b1, True) \<Rightarrow> (case rbuf_drain b1 of (b2, r) \<Rightarrow> (b2, req # map br_request (drained r)))
      | (b1, False) \<Rightarrow> (rbuf_buffer \<lparr>br_request = req, br_tx = tx\<rparr> b1, []))"

definition buffer_inv :: "u64 \<Rightarrow> append_request list \<Rightarrow> append_request set \<Rightarrow> range_buffer \<Rightarrow> append_request list \<Rightarrow> bool" where
  "buffer_inv n qs A b out \<longleftrightarrow>
     out = takeWhile (\<lambda>q. q \<in> A) qs \<and> rbuf_next b = end_of n out \<and>
     distinct (map br_request (rbuf_buffered b)) \<and> br_request ` set (rbuf_buffered b) = A - set out"

lemma end_of_append: "end_of n (xs @ ys) = end_of (end_of n xs) ys"
  by (simp add: end_of_def)

lemma buffer_inv_arrive:
  assumes inv: "buffer_inv n qs A b out" and cont: "continuous n qs" and same: "same_range sid idx qs"
    and A: "A \<subseteq> set qs" and q: "q \<in> set qs" "q \<notin> A" and arr: "rbuf_arrive tx q b = (b', fwd)"
  shows "buffer_inv n qs (insert q A) b' (out @ fwd)"
proof -
  define rest where "rest = dropWhile (\<lambda>q. q \<in> A) qs"
  have out: "out = takeWhile (\<lambda>q. q \<in> A) qs" and nxt: "rbuf_next b = end_of n out"
    and dist: "distinct (map br_request (rbuf_buffered b))" and img: "br_request ` set (rbuf_buffered b) = A - set out"
    using inv by (simp_all add: buffer_inv_def)
  have qs: "qs = out @ rest" by (simp add: out rest_def)
  have outA: "set out \<subseteq> A" by (auto simp: out dest: set_takeWhileD)
  have qr: "q \<in> set rest" using q outA by (auto simp: qs)
  have cr: "continuous (end_of n out) rest" and dq: "distinct (out @ rest)"
    using cont continuous_distinct [OF cont] by (simp_all add: qs continuous_append)
  have hd: "hd rest \<notin> A" using hd_dropWhile [of "\<lambda>q. q \<in> A" qs] qr unfolding rest_def by (metis empty_iff list.set(1))
  note off = continuous_offset [OF cr qr]
  have tw: "takeWhile (\<lambda>x. x \<in> insert q A) qs = out @ takeWhile (\<lambda>x. x \<in> insert q A) rest"
    unfolding qs by (rule takeWhile_append2) (use outA in auto)
  show ?thesis
  proof (cases "q = hd rest")
    case False
    then have "rbuf_next b < req_offset q" using off nxt by simp
    then have b': "b' = rbuf_buffer \<lparr>br_request = q, br_tx = tx\<rparr> b" "fwd = []"
      using arr by (auto simp: rbuf_arrive_def rbuf_fast_forward_def)
    have "takeWhile (\<lambda>x. x \<in> insert q A) rest = []" using hd False qr by (cases rest) auto
    with tw b' dist img nxt q outA show ?thesis
      by (auto simp: buffer_inv_def rbuf_buffer_def heap_push_def)
  next
    case True
    then obtain rest' where rest: "rest = q # rest'" using qr by (cases rest) auto
    define b1 where "b1 = b\<lparr>rbuf_next := end_of n out + req_len q\<rparr>"
    obtain b2 r where dr: "rbuf_drain b1 = (b2, r)" by fastforce
    have arr': "b' = b2" "fwd = q # map br_request (drained r)"
      using arr off nxt True dr by (auto simp: rbuf_arrive_def rbuf_fast_forward_def b1_def)
    have sub: "br_request ` set (rbuf_buffered b1) \<subseteq> set rest'"
      using img A q by (auto simp: b1_def qs rest)
    have sr: "same_range sid idx rest'" using same by (simp add: qs rest same_range_def)
    have cr': "continuous (rbuf_next b1) rest'" using cr by (simp add: b1_def rest)
    have loop: "map br_request (drained r) = takeWhile (\<lambda>x. x \<in> br_request ` set (rbuf_buffered b1)) rest'"
      "rbuf_next b2 = end_of (rbuf_next b1) (map br_request (drained r))"
      "mset (rbuf_buffered b1) = mset (drained r) + mset (rbuf_buffered b2)"
      using drain_loop_spec [OF cr' sr _ sub rbuf_drain_loop [OF dr]] dist by (simp_all add: b1_def)
    have "takeWhile (\<lambda>x. x \<in> br_request ` set (rbuf_buffered b1)) rest' = takeWhile (\<lambda>x. x \<in> insert q A) rest'"
      using dq by (intro takeWhile_cong) (auto simp: b1_def img rest)
    then have fwd: "out @ fwd = takeWhile (\<lambda>x. x \<in> insert q A) qs" using arr' loop(1) unfolding tw rest by simp
    have "mset (map br_request (rbuf_buffered b1)) = mset (map br_request (drained r @ rbuf_buffered b2))"
      using loop(3) by simp
    then have dd: "distinct (map br_request (drained r @ rbuf_buffered b2))"
      using dist mset_eq_imp_distinct_iff by (fastforce simp: b1_def)
    have "set (rbuf_buffered b1) = set (drained r) \<union> set (rbuf_buffered b2)"
      using loop(3) by (metis set_mset_mset set_mset_union)
    then have "br_request ` set (drained r) \<union> br_request ` set (rbuf_buffered b2) = A - set out"
      using img by (simp add: b1_def image_Un)
    moreover have "br_request ` set (drained r) \<inter> br_request ` set (rbuf_buffered b2) = {}" using dd by auto
    ultimately have im: "br_request ` set (rbuf_buffered b2) = insert q A - set (out @ fwd)"
      using arr'(2) q(2) by auto
    have "rbuf_next b2 = end_of n (out @ fwd)" using arr'(2) loop(2) by (simp add: b1_def end_of_append)
    moreover have "distinct (map br_request (rbuf_buffered b2))" using dd by simp
    ultimately show ?thesis unfolding buffer_inv_def arr'(1) using fwd im by blast
  qed
qed

text \<open>The buffer of a range inside the store's buffer.\<close>

definition range_buffer_of :: "u64 \<Rightarrow> u32 \<Rightarrow> store_buffer \<Rightarrow> range_buffer option" where
  "range_buffer_of sid i m = (case m sid of Some s \<Rightarrow> sbuf_buffers s i | None \<Rightarrow> None)"

fun forwarded :: "append_start \<Rightarrow> append_request list" where
  "forwarded (Forward rs txs) = rs"
| "forwarded _ = []"

lemma bs_append_range:
  assumes "range_buffer_of (req_stream_id q) (int_as_u32 (req_range_index q)) m = Some b"
    and "bs_append tx q m = (m', r)"
  shows "rbuf_arrive tx q b = (the (range_buffer_of (req_stream_id q) (int_as_u32 (req_range_index q)) m'), forwarded r) \<and>
         range_buffer_of (req_stream_id q) (int_as_u32 (req_range_index q)) m' \<noteq> None \<and>
         (\<forall>sid i. (sid, i) \<noteq> (req_stream_id q, int_as_u32 (req_range_index q)) \<longrightarrow>
            range_buffer_of sid i m' = range_buffer_of sid i m)"
proof -
  obtain s where s: "m (req_stream_id q) = Some s" "sbuf_buffers s (int_as_u32 (req_range_index q)) = Some b"
    using assms(1) by (auto simp: range_buffer_of_def split: option.splits)
  note defs = bs_append_def stbuf_fast_forward_def stream_buffer_of_def sbuf_fast_forward_def sbuf_put_def
    stbuf_drain_def sbuf_drain_def stbuf_buffer_def sbuf_buffer_def range_buffer_of_def rbuf_arrive_def drained_def Let_def
  obtain b1 ok where ff: "rbuf_fast_forward q b = (b1, ok)" by fastforce
  show ?thesis
  proof (cases ok)
    case True
    obtain b2 d where "rbuf_drain b1 = (b2, d)" by fastforce
    with assms(2) s ff True show ?thesis by (cases d) (auto simp: defs split: option.splits if_splits)
  next
    case False
    with assms(2) s ff show ?thesis by (auto simp: defs split: option.splits if_splits)
  qed
qed

fun bs_run :: "(nat \<times> append_request) list \<Rightarrow> store_buffer \<Rightarrow> store_buffer \<times> append_request list" where
  "bs_run [] m = (m, [])"
| "bs_run ((tx, q) # arr) m =
     (case bs_append tx q m of (m1, r) \<Rightarrow> case bs_run arr m1 of (m2, out) \<Rightarrow> (m2, forwarded r @ out))"

lemma bs_run_inv:
  assumes "continuous n qs" "same_range sid idx qs"
    and "range_buffer_of sid (int_as_u32 idx) m = Some b" "buffer_inv n qs A b out" "A \<subseteq> set qs"
    and "distinct (map snd arr)" "snd ` set arr \<subseteq> set qs - A" "bs_run arr m = (m', out')"
  shows "\<exists>b'. range_buffer_of sid (int_as_u32 idx) m' = Some b' \<and> buffer_inv n qs (A \<union> snd ` set arr) b' (out @ out')"
  using assms(3-)
proof (induction arr arbitrary: m b A out out')
  case (Cons a arr)
  obtain tx q where a: "a = (tx, q)" by (cases a)
  obtain m1 r where r: "bs_append tx q m = (m1, r)" by fastforce
  obtain fo where rest: "bs_run arr m1 = (m', fo)" "out' = forwarded r @ fo"
    using Cons.prems(6) r by (auto simp: a split: prod.splits)
  have q: "q \<in> set qs" "q \<notin> A" using Cons.prems(5) by (auto simp: a)
  have rng: "req_stream_id q = sid" "req_range_index q = idx" using assms(2) q by (auto simp: same_range_def)
  from bs_append_range [OF _ r, of b] Cons.prems(1) rng obtain b1 where
    b1: "range_buffer_of sid (int_as_u32 idx) m1 = Some b1" "rbuf_arrive tx q b = (b1, forwarded r)" by auto
  have inv: "buffer_inv n qs (insert q A) b1 (out @ forwarded r)"
    using buffer_inv_arrive [OF Cons.prems(2) assms(1,2) Cons.prems(3) q b1(2)] .
  have sub: "insert q A \<subseteq> set qs" "distinct (map snd arr)" "snd ` set arr \<subseteq> set qs - insert q A"
    using Cons.prems(3,4,5) q by (auto simp: a)
  have "A \<union> snd ` set (a # arr) = insert q A \<union> snd ` set arr" by (simp add: a)
  with Cons.IH [OF b1(1) inv sub rest(1)] rest(2) show ?case by simp
qed auto

section \<open>Properties\<close>

text \<open>
  C7. The buffered store sorts. Whatever the order in which requests of a continuous sequence
  arrive at a fresh range, the nested store receives them in sequence order: after the arrivals so
  far it has received exactly the longest run of the sequence, from its start on, that has
  arrived. When all have arrived, it has received the whole sequence.
\<close>

theorem buffered_store_sorts:
  assumes "range_buffer_of sid (int_as_u32 idx) m = Some (rbuf_new n)"
    and "continuous n qs" "same_range sid idx qs" and "distinct (map snd arr)" "snd ` set arr \<subseteq> set qs"
  shows "snd (bs_run arr m) = takeWhile (\<lambda>q. q \<in> snd ` set arr) qs"
proof -
  have "buffer_inv n qs {} (rbuf_new n) []" by (cases qs) (simp_all add: buffer_inv_def rbuf_new_def)
  moreover obtain m' out where "bs_run arr m = (m', out)" by fastforce
  ultimately show ?thesis
    using bs_run_inv [OF assms(2,3,1), of "{}" "[]" arr m' out] assms(4,5) by (auto simp: buffer_inv_def)
qed

definition sample_request :: "u64 \<Rightarrow> u32 \<Rightarrow> append_request" where
  "sample_request offset len = \<lparr>req_stream_id = 1, req_range_index = 0, req_offset = offset, req_len = len, req_buffer = []\<rparr>"

theorem buffered_store_sorts_witness:
  "snd (bs_run [(7, sample_request 15 5), (8, sample_request 12 3), (9, sample_request 10 2)]
     (bs_create_range (rm_new 1 0 0 10 None) Map.empty)) =
   [sample_request 10 2, sample_request 12 3, sample_request 15 5]"
proof -
  let ?qs = "[sample_request 10 2, sample_request 12 3, sample_request 15 5]"
  let ?m = "bs_create_range (rm_new 1 0 0 10 None) Map.empty"
  have "range_buffer_of 1 (int_as_u32 0) ?m = Some (rbuf_new 10)"
    by (simp add: bs_create_range_def rm_new_def rm_new_range_def stbuf_create_range_def range_buffer_of_def
        sbuf_create_range_def stream_buffer_of_def sbuf_new_def sbuf_put_def)
  from buffered_store_sorts [OF this, of ?qs "[(7, sample_request 15 5), (8, sample_request 12 3), (9, sample_request 10 2)]"]
  show ?thesis by (simp add: sample_request_def same_range_def)
qed

end
