(* ===== verification/Range_Manager.thy ===== *)
theory Range_Manager
  imports Store_Buffer
begin

text \<open>
  The ranges a range server serves, \<open>src/range-server/src/range_manager/\<close>: the append window of a
  range, the range with its committed offset, the stream with its ranges, and the manager that
  dispatches to them and follows the metadata events of the placement driver. The string that
  identifies a range in log messages is left out and the message of a not-found error is abbreviated. Offsets lie below \<open>2 ^ 63\<close>, so that the sum of
  an offset and a batch length stays in its type.
\<close>

section \<open>Model\<close>

datatype service_error =
    Unsupported int
  | DescribeStream
  | AcquireRange
  | Seal
  | AlreadySealed
  | AlreadyExisted
  | ResourceNotFound string
  | OffsetCommitted
  | OffsetInFlight
  | OffsetOutOfOrder
  | ServiceInternal string

subsection \<open>Window\<close>

record window =
  win_next :: u64
  win_committed :: u64

definition win_new :: "u64 \<Rightarrow> window" where
  "win_new n = \<lparr>win_next = n, win_committed = n\<rparr>"

definition win_check_barrier :: "u64 \<Rightarrow> u32 \<Rightarrow> window \<Rightarrow> window \<times> (service_error, unit) outcome" where
  "win_check_barrier offset len w =
     (if offset < win_committed w then (w, Err OffsetCommitted)
      else if offset < win_next w then (w, Err OffsetInFlight)
      else if offset > win_next w then (w, Err OffsetOutOfOrder)
      else (w\<lparr>win_next := win_next w + len\<rparr>, Ok ()))"

definition win_commit :: "u64 \<Rightarrow> window \<Rightarrow> window \<times> u64" where
  "win_commit v w =
     (let w' = (if v > win_committed w then w\<lparr>win_committed := v\<rparr> else w) in (w', win_committed w'))"

subsection \<open>Range\<close>

record srv_range =
  rg_metadata :: range_metadata
  rg_committed :: "u64 option"
  rg_window :: "window option"

definition rg_new :: "range_metadata \<Rightarrow> srv_range" where
  "rg_new md = \<lparr>rg_metadata = md, rg_committed = None,
     rg_window = (if has_end md then None else Some (win_new (rm_start md)))\<rparr>"

definition rg_commit :: "u64 \<Rightarrow> srv_range \<Rightarrow> srv_range \<times> (service_error, unit) outcome" where
  "rg_commit new_committed_offset r =
     (case rg_window r of
        None \<Rightarrow> (r, Err AlreadySealed)
      | Some w \<Rightarrow>
          (case win_commit new_committed_offset w of (w', n) \<Rightarrow>
             let r' = r\<lparr>rg_window := Some w'\<rparr> in
             (case rg_committed r' of
                Some c \<Rightarrow> (r'\<lparr>rg_committed := Some (if n > c then n else c)\<rparr>, Ok ())
              | None \<Rightarrow>
                  (if n \<ge> rm_start (rg_metadata r') then r'\<lparr>rg_committed := Some n\<rparr> else r', Ok ()))))"

text \<open>\<open>seal\<close> fixes the end of its own metadata only when the request carries one.\<close>

definition rg_seal :: "range_metadata \<Rightarrow> srv_range \<Rightarrow> srv_range \<times> range_metadata" where
  "rg_seal md r =
     (let e = (case rg_committed r of Some c \<Rightarrow> c | None \<Rightarrow> rm_start (rg_metadata r));
          own = (case rm_end md of Some end_offset \<Rightarrow> set_end end_offset (rg_metadata r) | None \<Rightarrow> rg_metadata r)
      in (r\<lparr>rg_metadata := own, rg_window := None\<rparr>, set_end e md))"

definition data_complete :: "srv_range \<Rightarrow> bool" where
  "data_complete r =
     (case rg_committed r of
        Some c \<Rightarrow> c \<ge> (case rm_end (rg_metadata r) of Some e \<Rightarrow> e | None \<Rightarrow> rm_start (rg_metadata r))
      | None \<Rightarrow> False)"

definition rg_index :: "srv_range \<Rightarrow> int" where
  "rg_index r = rm_index (rg_metadata r)"

subsection \<open>Stream\<close>

record srv_stream =
  str_metadata :: stream_metadata
  str_ranges :: "srv_range list"

definition str_new :: "stream_metadata \<Rightarrow> srv_stream" where
  "str_new md = \<lparr>str_metadata = md, str_ranges = []\<rparr>"

definition trim_range :: "u64 \<Rightarrow> srv_range \<Rightarrow> srv_range option" where
  "trim_range offset r =
     (if (case rm_end (rg_metadata r) of Some e \<Rightarrow> e \<le> offset | None \<Rightarrow> False) then None
      else Some (if rm_start (rg_metadata r) < offset then r\<lparr>rg_metadata := trim_start offset (rg_metadata r)\<rparr> else r))"

definition trim_ranges :: "u64 \<Rightarrow> srv_stream \<Rightarrow> srv_stream" where
  "trim_ranges offset s = s\<lparr>str_ranges := List.map_filter (trim_range offset) (str_ranges s)\<rparr>"

definition str_update_metadata :: "stream_metadata \<Rightarrow> srv_stream \<Rightarrow> srv_stream" where
  "str_update_metadata md s = trim_ranges (sm_start_offset md) (s\<lparr>str_metadata := md\<rparr>)"

definition verify_stream_id :: "range_metadata \<Rightarrow> srv_stream \<Rightarrow> (service_error, unit) outcome" where
  "verify_stream_id md s =
     (if sm_stream_id (str_metadata s) \<noteq> rm_stream_id md then Err (ServiceInternal ''Stream-id mismatch'') else Ok ())"

definition str_get_range :: "int \<Rightarrow> srv_stream \<Rightarrow> srv_range option" where
  "str_get_range i s = find (\<lambda>r. rg_index r = i) (str_ranges s)"

definition str_has_range :: "int \<Rightarrow> srv_stream \<Rightarrow> bool" where
  "str_has_range i s = list_ex (\<lambda>r. rg_index r = i) (str_ranges s)"

text \<open>Writing through \<open>get_range_mut\<close> changes the first range with the index.\<close>

fun update_first :: "('a \<Rightarrow> bool) \<Rightarrow> ('a \<Rightarrow> 'a) \<Rightarrow> 'a list \<Rightarrow> 'a list" where
  "update_first P f [] = []"
| "update_first P f (x # xs) = (if P x then f x # xs else x # update_first P f xs)"

definition str_set_range :: "int \<Rightarrow> srv_range \<Rightarrow> srv_stream \<Rightarrow> srv_stream" where
  "str_set_range i r s = s\<lparr>str_ranges := update_first (\<lambda>x. rg_index x = i) (\<lambda>_. r) (str_ranges s)\<rparr>"

definition str_create_range :: "range_metadata \<Rightarrow> srv_stream \<Rightarrow> srv_stream" where
  "str_create_range md s =
     (case verify_stream_id md s of
        Ok _ \<Rightarrow>
          (case str_get_range (rm_index md) s of
             Some _ \<Rightarrow> s
           | None \<Rightarrow> s\<lparr>str_ranges := sort_key rg_index (str_ranges s @ [rg_new md])\<rparr>)
      | _ \<Rightarrow> s)"

definition str_remove_range :: "range_metadata \<Rightarrow> srv_stream \<Rightarrow> srv_stream" where
  "str_remove_range md s = s\<lparr>str_ranges := filter (\<lambda>r. rg_index r \<noteq> rm_index md) (str_ranges s)\<rparr>"

definition str_seal :: "range_metadata \<Rightarrow> srv_stream \<Rightarrow> srv_stream \<times> range_metadata \<times> (service_error, unit) outcome" where
  "str_seal md s =
     (case verify_stream_id md s of
        Err e \<Rightarrow> (s, md, Err e)
      | Panic \<Rightarrow> (s, md, Panic)
      | Ok _ \<Rightarrow>
          (case str_get_range (rm_index md) s of
             Some r \<Rightarrow> (case rg_seal md r of (r', md') \<Rightarrow> (str_set_range (rm_index md) r' s, md', Ok ()))
           | None \<Rightarrow> (s, md, Err (ResourceNotFound ''Range''))))"

subsection \<open>Manager\<close>

text \<open>
  The manager's state: its streams, and the buffer of the \<open>BufferedStore\<close> below it, which is
  registered for the same metadata events.
\<close>

record manager =
  streams :: "u64 \<rightharpoonup> srv_stream"
  buffer :: store_buffer

definition mgr_new :: manager where
  "mgr_new = \<lparr>streams = Map.empty, buffer = Map.empty\<rparr>"

definition mgr_get_range_mut :: "u64 \<Rightarrow> int \<Rightarrow> manager \<Rightarrow> srv_range option" where
  "mgr_get_range_mut stream_id i m = (case streams m stream_id of Some s \<Rightarrow> str_get_range i s | None \<Rightarrow> None)"

definition mgr_get_range :: "u64 \<Rightarrow> u32 \<Rightarrow> manager \<Rightarrow> srv_range option" where
  "mgr_get_range stream_id i m = mgr_get_range_mut stream_id (as_i32 i) m"

definition mgr_set_range :: "u64 \<Rightarrow> int \<Rightarrow> srv_range \<Rightarrow> manager \<Rightarrow> manager" where
  "mgr_set_range stream_id i r m =
     (case streams m stream_id of
        Some s \<Rightarrow> m\<lparr>streams := (streams m)(stream_id \<mapsto> str_set_range i r s)\<rparr>
      | None \<Rightarrow> m)"

definition stream_holder :: "u64 \<Rightarrow> srv_stream" where
  "stream_holder stream_id = str_new (stream_metadata_default\<lparr>sm_stream_id := stream_id\<rparr>)"

definition on_range_event :: "event_type \<Rightarrow> range_metadata \<Rightarrow> manager \<Rightarrow> manager" where
  "on_range_event ty md m =
     (if ty \<in> {Added, Modified, Listed} then
        let s = (case streams m (rm_stream_id md) of Some s \<Rightarrow> s | None \<Rightarrow> stream_holder (rm_stream_id md));
            s' = (case str_get_range (rm_index md) s of
                    Some r \<Rightarrow> str_set_range (rm_index md) (r\<lparr>rg_metadata := md\<rparr>) s
                  | None \<Rightarrow> str_create_range md s)
        in m\<lparr>streams := (streams m)(rm_stream_id md \<mapsto> s')\<rparr>
      else if ty = Deleted then
        (case streams m (rm_stream_id md) of
           Some s \<Rightarrow> m\<lparr>streams := (streams m)(rm_stream_id md \<mapsto> str_remove_range md s)\<rparr>
         | None \<Rightarrow> m)
      else m)"

definition on_stream_event :: "event_type \<Rightarrow> stream_metadata \<Rightarrow> manager \<Rightarrow> manager" where
  "on_stream_event ty md m =
     (if ty \<in> {Added, Modified, Listed} then
        (case streams m (sm_stream_id md) of
           Some s \<Rightarrow> m\<lparr>streams := (streams m)(sm_stream_id md \<mapsto> str_update_metadata md s)\<rparr>
         | None \<Rightarrow> m\<lparr>streams := (streams m)(sm_stream_id md \<mapsto> str_new md)\<rparr>)
      else if ty = Deleted then m\<lparr>streams := (streams m)(sm_stream_id md := None)\<rparr>
      else m)"

definition mgr_on_resource_event :: "resource_event \<Rightarrow> manager \<Rightarrow> manager" where
  "mgr_on_resource_event event m =
     (case ev_resource event of
        ResourceRange rng \<Rightarrow> on_range_event (ev_type event) rng m
      | ResourceStream str \<Rightarrow> on_stream_event (ev_type event) str m
      | _ \<Rightarrow> m)"

text \<open>A stream the manager makes up for a range it was not told about: one second of retention.\<close>

definition placeholder_stream :: "u64 \<Rightarrow> srv_stream" where
  "placeholder_stream stream_id =
     str_new (stream_metadata_default\<lparr>sm_stream_id := stream_id, sm_retention_period := 1000\<rparr>)"

text \<open>
  \<open>create_range\<close> calls the store's \<open>create\<close>, an asynchronous function, and drops the future it
  returns without polling it: the store's buffer does not change.
\<close>

definition mgr_create_range :: "range_metadata \<Rightarrow> manager \<Rightarrow> manager \<times> (service_error, unit) outcome" where
  "mgr_create_range md m =
     (let s = (case streams m (rm_stream_id md) of Some s \<Rightarrow> s | None \<Rightarrow> placeholder_stream (rm_stream_id md))
      in (m\<lparr>streams := (streams m)(rm_stream_id md \<mapsto> str_create_range md s)\<rparr>, Ok ()))"

definition mgr_commit :: "u64 \<Rightarrow> int \<Rightarrow> u64 \<Rightarrow> u32 \<Rightarrow> manager \<Rightarrow> manager \<times> (service_error, unit) outcome" where
  "mgr_commit stream_id i offset last_offset_delta m =
     (case mgr_get_range_mut stream_id i m of
        Some r \<Rightarrow> (case rg_commit (offset + last_offset_delta) r of (r', res) \<Rightarrow> (mgr_set_range stream_id i r' m, res))
      | None \<Rightarrow> (m, Err (ResourceNotFound ''range'')))"

definition mgr_seal :: "range_metadata \<Rightarrow> manager \<Rightarrow> manager \<times> range_metadata \<times> (service_error, unit) outcome" where
  "mgr_seal md m =
     (case streams m (rm_stream_id md) of
        Some s \<Rightarrow>
          let s1 = (if \<not> str_has_range (rm_index md) s then str_create_range md s else s) in
          (case str_seal md s1 of (s2, md', res) \<Rightarrow>
             (m\<lparr>streams := (streams m)(rm_stream_id md \<mapsto> s2)\<rparr>, md', res))
      | None \<Rightarrow>
          (case str_seal md (str_create_range md (placeholder_stream (rm_stream_id md))) of
             (s2, md', Ok _) \<Rightarrow> (m\<lparr>streams := (streams m)(rm_stream_id md \<mapsto> s2)\<rparr>, md', Ok ())
           | (s2, md', res) \<Rightarrow> (m, md', res)))"

fun append_error_of :: "service_error \<Rightarrow> append_error" where
  "append_error_of OffsetCommitted = Committed"
| "append_error_of OffsetInFlight = Inflight"
| "append_error_of OffsetOutOfOrder = OutOfOrder"
| "append_error_of _ = AppendInternal"

definition mgr_check_barrier :: "u64 \<Rightarrow> int \<Rightarrow> u64 \<Rightarrow> u32 \<Rightarrow> manager \<Rightarrow> manager \<times> (append_error, unit) outcome" where
  "mgr_check_barrier stream_id i offset len m =
     (case mgr_get_range_mut stream_id i m of
        Some r \<Rightarrow>
          (case rg_window r of
             Some w \<Rightarrow>
               (case win_check_barrier offset len w of
                  (w', Ok _) \<Rightarrow> (mgr_set_range stream_id i (r\<lparr>rg_window := Some w'\<rparr>) m, Ok ())
                | (w', Err e) \<Rightarrow> (m, Err (append_error_of e))
                | (w', Panic) \<Rightarrow> (m, Panic))
           | None \<Rightarrow> (m, Err RangeSealed))
      | None \<Rightarrow> (m, Err RangeNotFound))"

definition mgr_has_range :: "u64 \<Rightarrow> u32 \<Rightarrow> manager \<Rightarrow> bool" where
  "mgr_has_range stream_id i m \<longleftrightarrow> mgr_get_range stream_id i m \<noteq> None"

definition get_range_progress :: "(u64 \<times> u32) list \<Rightarrow> manager \<Rightarrow> range_progress list" where
  "get_range_progress offloading m =
     List.map_filter (\<lambda>(sid, i).
       case mgr_get_range sid i m of
         Some r \<Rightarrow> map_option (\<lambda>c. \<lparr>rp_stream_id = sid, rp_range_index = i, rp_confirm_offset = c\<rparr>) (rg_committed r)
       | None \<Rightarrow> None) offloading"

definition mgr_append :: "nat \<Rightarrow> append_request \<Rightarrow> manager \<Rightarrow> manager \<times> append_start" where
  "mgr_append tx req m = (case bs_append tx req (buffer m) of (b, r) \<Rightarrow> (m\<lparr>buffer := b\<rparr>, r))"

section \<open>Looking up ranges\<close>

text \<open>No stream has two ranges of one index; then a lookup is membership.\<close>

definition indexed :: "srv_range list \<Rightarrow> bool" where
  "indexed rs \<longleftrightarrow> distinct (map rg_index rs)"

definition mgr_ok :: "manager \<Rightarrow> bool" where
  "mgr_ok m \<longleftrightarrow> (\<forall>sid s. streams m sid = Some s \<longrightarrow> indexed (str_ranges s) \<and> sm_stream_id (str_metadata s) = sid)"

lemma find_index: "indexed rs \<Longrightarrow> find (\<lambda>r. rg_index r = i) rs = Some r \<longleftrightarrow> r \<in> set rs \<and> rg_index r = i"
  unfolding indexed_def by (induction rs) (auto simp: rev_image_eqI)

lemma update_first_index:
  assumes "indexed rs" "rg_index r' = i"
  shows "indexed (update_first (\<lambda>x. rg_index x = i) (\<lambda>_. r') rs)"
    and "find (\<lambda>r. rg_index r = i) (update_first (\<lambda>x. rg_index x = i) (\<lambda>_. r') rs) =
         map_option (\<lambda>_. r') (find (\<lambda>r. rg_index r = i) rs)"
    and "j \<noteq> i \<Longrightarrow> find (\<lambda>r. rg_index r = j) (update_first (\<lambda>x. rg_index x = i) (\<lambda>_. r') rs) = find (\<lambda>r. rg_index r = j) rs"
proof -
  have "map rg_index (update_first (\<lambda>x. rg_index x = i) (\<lambda>_. r') rs) = map rg_index rs"
    using assms(2) by (induction rs) auto
  then show "indexed (update_first (\<lambda>x. rg_index x = i) (\<lambda>_. r') rs)" using assms(1) by (simp add: indexed_def)
  show "find (\<lambda>r. rg_index r = i) (update_first (\<lambda>x. rg_index x = i) (\<lambda>_. r') rs) =
         map_option (\<lambda>_. r') (find (\<lambda>r. rg_index r = i) rs)"
    using assms(2) by (induction rs) auto
  show "find (\<lambda>r. rg_index r = j) (update_first (\<lambda>x. rg_index x = i) (\<lambda>_. r') rs) = find (\<lambda>r. rg_index r = j) rs" if "j \<noteq> i"
    using assms(2) that by (induction rs) auto
qed

lemma str_create_range_index:
  assumes "indexed (str_ranges s)" "sm_stream_id (str_metadata s) = rm_stream_id md"
  shows "indexed (str_ranges (str_create_range md s))"
    and "str_metadata (str_create_range md s) = str_metadata s"
    and "str_get_range i (str_create_range md s) =
         (if i = rm_index md \<and> str_get_range i s = None then Some (rg_new md) else str_get_range i s)"
proof -
  let ?new = "sort_key rg_index (str_ranges s @ [rg_new md])"
  have new: "rg_index (rg_new md) = rm_index md" by (simp add: rg_index_def rg_new_def)
  have ix: "indexed ?new" if "str_get_range (rm_index md) s = None"
  proof -
    have "rm_index md \<notin> rg_index ` set (str_ranges s)" using that by (auto simp: str_get_range_def find_None_iff)
    then have "distinct (map rg_index (str_ranges s @ [rg_new md]))" using assms(1) new by (simp add: indexed_def)
    moreover have "mset (map rg_index ?new) = mset (map rg_index (str_ranges s @ [rg_new md]))" by simp
    ultimately show ?thesis unfolding indexed_def using mset_eq_imp_distinct_iff by blast
  qed
  show "indexed (str_ranges (str_create_range md s))"
    using assms ix by (auto simp: str_create_range_def verify_stream_id_def split: option.splits)
  show "str_metadata (str_create_range md s) = str_metadata s"
    by (auto simp: str_create_range_def split: option.splits outcome.splits)
  show "str_get_range i (str_create_range md s) =
         (if i = rm_index md \<and> str_get_range i s = None then Some (rg_new md) else str_get_range i s)"
  proof (cases "str_get_range (rm_index md) s")
    case None
    have "find (\<lambda>r. rg_index r = i) ?new = Some r \<longleftrightarrow> r \<in> set (str_ranges s) \<and> rg_index r = i \<or> r = rg_new md \<and> i = rm_index md" for r
      using find_index [OF ix [OF None], of i r] new by auto
    moreover have "find (\<lambda>r. rg_index r = i) (str_ranges s) = Some r \<longleftrightarrow> r \<in> set (str_ranges s) \<and> rg_index r = i" for r
      by (rule find_index [OF assms(1)])
    moreover have "str_create_range md s = s\<lparr>str_ranges := ?new\<rparr>"
      using None assms(2) by (simp add: str_create_range_def verify_stream_id_def)
    ultimately show ?thesis using None
      by (cases "find (\<lambda>r. rg_index r = i) ?new"; cases "find (\<lambda>r. rg_index r = i) (str_ranges s)")
        (auto simp: str_get_range_def)
  next
    case (Some r)
    with assms(2) have "str_create_range md s = s" by (simp add: str_create_range_def verify_stream_id_def)
    with Some show ?thesis by auto
  qed
qed

lemma mgr_ok_stream: "mgr_ok m \<Longrightarrow> streams m sid = Some s \<Longrightarrow> indexed (str_ranges s) \<and> sm_stream_id (str_metadata s) = sid"
  by (simp add: mgr_ok_def)

lemma mgr_set_range_lookup:
  assumes "mgr_ok m" "mgr_get_range_mut sid i m = Some r" "rg_index r' = i"
  shows "mgr_ok (mgr_set_range sid i r' m)"
    and "mgr_get_range_mut sid' j (mgr_set_range sid i r' m) =
         (if (sid', j) = (sid, i) then Some r' else mgr_get_range_mut sid' j m)"
proof -
  from assms(2) obtain s where s: "streams m sid = Some s" "str_get_range i s = Some r"
    by (auto simp: mgr_get_range_mut_def split: option.splits)
  have ix: "indexed (str_ranges s)" and id: "sm_stream_id (str_metadata s) = sid"
    using mgr_ok_stream [OF assms(1) s(1)] by simp_all
  note u = update_first_index [OF ix assms(3)]
  show "mgr_ok (mgr_set_range sid i r' m)"
    using assms(1) s id u(1) by (auto simp: mgr_ok_def mgr_set_range_def str_set_range_def)
  show "mgr_get_range_mut sid' j (mgr_set_range sid i r' m) =
         (if (sid', j) = (sid, i) then Some r' else mgr_get_range_mut sid' j m)"
    using s u(2,3) by (auto simp: mgr_get_range_mut_def mgr_set_range_def str_set_range_def str_get_range_def)
qed

lemma placeholder_stream_index:
  "indexed (str_ranges (placeholder_stream sid))" "sm_stream_id (str_metadata (placeholder_stream sid)) = sid"
  "str_get_range i (placeholder_stream sid) = None"
  by (simp_all add: placeholder_stream_def str_new_def indexed_def str_get_range_def)

lemma mgr_create_range_lookup:
  assumes "mgr_ok m" "mgr_create_range md m = (m', res)"
  shows "mgr_ok m'"
    and "mgr_get_range_mut sid i m' =
         (if (sid, i) = (rm_stream_id md, rm_index md) \<and> mgr_get_range_mut sid i m = None then Some (rg_new md)
          else mgr_get_range_mut sid i m)"
proof -
  define s where "s = (case streams m (rm_stream_id md) of Some s \<Rightarrow> s | None \<Rightarrow> placeholder_stream (rm_stream_id md))"
  have s: "indexed (str_ranges s)" "sm_stream_id (str_metadata s) = rm_stream_id md"
    using mgr_ok_stream [OF assms(1)] placeholder_stream_index by (auto simp: s_def split: option.splits)
  have look: "mgr_get_range_mut (rm_stream_id md) j m = str_get_range j s" for j
    using placeholder_stream_index(3) by (auto simp: mgr_get_range_mut_def s_def split: option.splits)
  have m': "m' = m\<lparr>streams := (streams m)(rm_stream_id md \<mapsto> str_create_range md s)\<rparr>"
    using assms(2) by (simp add: mgr_create_range_def s_def)
  note c = str_create_range_index [OF s]
  show "mgr_ok m'" using assms(1) c(1,2) s(2) by (auto simp: mgr_ok_def m')
  show "mgr_get_range_mut sid i m' =
         (if (sid, i) = (rm_stream_id md, rm_index md) \<and> mgr_get_range_mut sid i m = None then Some (rg_new md)
          else mgr_get_range_mut sid i m)"
    using look c(3) [of i] by (auto simp: mgr_get_range_mut_def m')
qed

lemma str_has_range_iff: "str_has_range i s \<longleftrightarrow> str_get_range i s \<noteq> None"
  by (auto simp: str_has_range_def str_get_range_def list_ex_iff find_None_iff)

text \<open>The range a seal request works on: the one there is, or a new one.\<close>

definition sealed_range :: "range_metadata \<Rightarrow> manager \<Rightarrow> srv_range" where
  "sealed_range md m =
     (case mgr_get_range_mut (rm_stream_id md) (rm_index md) m of Some r \<Rightarrow> r | None \<Rightarrow> rg_new md)"

lemma rg_seal_index: "rg_index (fst (rg_seal md r)) = rg_index r"
  by (simp add: rg_seal_def rg_index_def Let_def set_end_def split: option.split)

lemma mgr_seal_lookup:
  assumes "mgr_ok m" "mgr_seal md m = (m', md', res)"
  shows "mgr_ok m'" and "res = Ok ()" and "md' = snd (rg_seal md (sealed_range md m))"
    and "mgr_get_range_mut sid i m' =
         (if (sid, i) = (rm_stream_id md, rm_index md) then Some (fst (rg_seal md (sealed_range md m)))
          else mgr_get_range_mut sid i m)"
proof -
  define s where "s = (case streams m (rm_stream_id md) of Some s \<Rightarrow> s | None \<Rightarrow> placeholder_stream (rm_stream_id md))"
  define s1 where "s1 = str_create_range md s"
  have s: "indexed (str_ranges s)" "sm_stream_id (str_metadata s) = rm_stream_id md"
    using mgr_ok_stream [OF assms(1)] placeholder_stream_index by (auto simp: s_def split: option.splits)
  note c = str_create_range_index [OF s, folded s1_def]
  have look: "mgr_get_range_mut (rm_stream_id md) j m = str_get_range j s" for j
    using placeholder_stream_index(3) by (auto simp: mgr_get_range_mut_def s_def split: option.splits)
  have g: "str_get_range (rm_index md) s1 = Some (sealed_range md m)"
    using c(3) look by (auto simp: sealed_range_def split: option.split)
  have keep: "(if \<not> str_has_range (rm_index md) s then str_create_range md s else s) = s1"
    using s(2) by (auto simp: s1_def str_has_range_iff str_create_range_def verify_stream_id_def split: option.split)
  obtain r' md0 where r': "rg_seal md (sealed_range md m) = (r', md0)" by fastforce
  define s2 where "s2 = str_set_range (rm_index md) r' s1"
  have seal: "str_seal md s1 = (s2, md0, Ok ())"
    using g r' s(2) c(2) by (simp add: str_seal_def verify_stream_id_def s2_def)
  have all: "m' = m\<lparr>streams := (streams m)(rm_stream_id md \<mapsto> s2)\<rparr> \<and> md' = md0 \<and> res = Ok ()"
  proof (cases "streams m (rm_stream_id md)")
    case None
    then have "str_create_range md (placeholder_stream (rm_stream_id md)) = s1" by (simp add: s1_def s_def)
    with None assms(2) seal show ?thesis by (simp add: mgr_seal_def)
  next
    case (Some x)
    then have "x = s" by (simp add: s_def)
    with Some assms(2) seal keep show ?thesis by (simp add: mgr_seal_def Let_def)
  qed
  then show "res = Ok ()" and "md' = snd (rg_seal md (sealed_range md m))" using r' by simp_all
  have ri: "rg_index r' = rm_index md"
    using rg_seal_index [of md "sealed_range md m"] r' g c(1) find_index [of "str_ranges s1" "rm_index md" "sealed_range md m"]
    by (simp add: str_get_range_def)
  note u = update_first_index [OF c(1) ri]
  show "mgr_ok m'" using all assms(1) u(1) s(2) c(2) by (auto simp: mgr_ok_def s2_def str_set_range_def)
  show "mgr_get_range_mut sid i m' =
         (if (sid, i) = (rm_stream_id md, rm_index md) then Some (fst (rg_seal md (sealed_range md m)))
          else mgr_get_range_mut sid i m)"
    using all u(2,3) g r' c(3) [of i] look [of i]
    by (auto simp: mgr_get_range_mut_def s2_def str_set_range_def str_get_range_def split: if_splits)
qed

section \<open>Appends, acknowledgements and commits of a range\<close>

text \<open>
  The life of one range under the requests of all clients: besides the manager, the history of the
  appends it accepted and the number of them the store has acknowledged. The store acknowledges in
  the order of acceptance; the commits of acknowledged appends come in any order.
\<close>

inductive srv_step :: "u64 \<Rightarrow> int \<Rightarrow> manager \<times> append_request list \<times> nat \<Rightarrow> manager \<times> append_request list \<times> nat \<Rightarrow> bool"
  for sid idx where
  create: "mgr_create_range md m = (m', res) \<Longrightarrow> srv_step sid idx (m, acc, n) (m', acc, n)"
| accept: "mgr_check_barrier (req_stream_id q) (req_range_index q) (req_offset q) (req_len q) m = (m', Ok ()) \<Longrightarrow>
    srv_step sid idx (m, acc, n)
      (m', if req_stream_id q = sid \<and> req_range_index q = idx then acc @ [q] else acc, n)"
| persist: "n < length acc \<Longrightarrow> srv_step sid idx (m, acc, n) (m, acc, Suc n)"
| commit: "j < n \<Longrightarrow> n \<le> length acc \<Longrightarrow> mgr_commit sid idx (req_offset (acc ! j)) (req_len (acc ! j)) m = (m', res) \<Longrightarrow>
    srv_step sid idx (m, acc, n) (m', acc, n)"
| commit_other: "(sid', i) \<noteq> (sid, idx) \<Longrightarrow> mgr_commit sid' i offset delta m = (m', res) \<Longrightarrow>
    srv_step sid idx (m, acc, n) (m', acc, n)"
| seal: "mgr_seal md m = (m', md', res) \<Longrightarrow> srv_step sid idx (m, acc, n) (m', acc, n)"

inductive_cases srv_stepE: "srv_step sid idx (m, acc, n) st'"

text \<open>Requests that follow on from an offset; a batch may be empty.\<close>

fun chained :: "u64 \<Rightarrow> append_request list \<Rightarrow> bool" where
  "chained n [] = True"
| "chained n (q # qs) = (req_offset q = n \<and> chained (n + req_len q) qs)"

lemma chained_snoc: "chained n (qs @ [q]) \<longleftrightarrow> chained n qs \<and> req_offset q = end_of n qs"
  by (induction qs arbitrary: n) auto

lemma end_of_take_mono: "j \<le> k \<Longrightarrow> end_of n (take j qs) \<le> end_of n (take k qs)"
proof -
  assume "j \<le> k"
  then have "take k qs = take j qs @ drop j (take k qs)" by (metis append_take_drop_id min.absorb1 take_take)
  then show ?thesis by (metis end_of_append end_of_def le_add1)
qed

lemma end_of_ge: "n \<le> end_of n qs" by (simp add: end_of_def)

lemma chained_nth: "chained n qs \<Longrightarrow> j < length qs \<Longrightarrow> req_offset (qs ! j) + req_len (qs ! j) = end_of n (take (Suc j) qs)"
proof (induction qs arbitrary: n j)
  case (Cons q qs)
  then show ?case by (cases j) auto
qed simp

definition range_hist :: "append_request list \<Rightarrow> nat \<Rightarrow> srv_range \<Rightarrow> bool" where
  "range_hist acc n r \<longleftrightarrow>
     (let start = rm_start (rg_metadata r); durable = end_of start (take n acc) in
      chained start acc \<and>
      (\<forall>w. rg_window r = Some w \<longrightarrow> win_next w = end_of start acc \<and> start \<le> win_committed w \<and> win_committed w \<le> durable) \<and>
      (\<forall>c. rg_committed r = Some c \<longrightarrow> start \<le> c \<and> c \<le> durable))"

definition hist_inv :: "u64 \<Rightarrow> int \<Rightarrow> manager \<times> append_request list \<times> nat \<Rightarrow> bool" where
  "hist_inv sid idx st \<longleftrightarrow>
     (case st of (m, acc, n) \<Rightarrow>
        mgr_ok m \<and> n \<le> length acc \<and>
        (case mgr_get_range_mut sid idx m of
           None \<Rightarrow> acc = []
         | Some r \<Rightarrow> rg_index r = idx \<and> range_hist acc n r))"

lemma mgr_get_range_mut_index: "mgr_get_range_mut sid i m = Some r \<Longrightarrow> rg_index r = i"
  by (auto simp: mgr_get_range_mut_def str_get_range_def find_Some_iff split: option.splits)

lemma rg_new_index: "rg_index (rg_new md) = rm_index md"
  by (simp add: rg_index_def rg_new_def)

lemma range_hist_mono:
  assumes "range_hist acc n r"
  shows "range_hist acc (Suc n) r"
proof -
  have "end_of (rm_start (rg_metadata r)) (take n acc) \<le> end_of (rm_start (rg_metadata r)) (take (Suc n) acc)"
    by (rule end_of_take_mono) simp
  with assms show ?thesis by (auto simp: range_hist_def Let_def intro: order_trans)
qed

lemma range_hist_new: "range_hist [] 0 (rg_new md)"
  by (simp add: range_hist_def rg_new_def win_new_def)

lemma rg_commit_hist:
  assumes "range_hist acc n r" "v \<le> end_of (rm_start (rg_metadata r)) (take n acc)" "rg_commit v r = (r', res)"
  shows "range_hist acc n r'" and "rg_index r' = rg_index r"
  using assms by (auto simp: range_hist_def rg_commit_def win_commit_def rg_index_def Let_def split: option.splits if_splits)

lemma rg_commit_index: "rg_commit v r = (r', res) \<Longrightarrow> rg_index r' = rg_index r"
  by (auto simp: rg_commit_def win_commit_def rg_index_def Let_def split: option.splits if_splits)

lemma rg_seal_hist: "range_hist acc n r \<Longrightarrow> range_hist acc n (fst (rg_seal md r))"
  by (auto simp: range_hist_def rg_seal_def Let_def set_end_def split: option.split)

lemma mgr_commit_lookup:
  assumes "mgr_ok m" "mgr_commit sid i offset delta m = (m', res)"
  shows "mgr_ok m' \<and> (\<forall>sid' j. mgr_get_range_mut sid' j m' =
    (if (sid', j) = (sid, i) then map_option (\<lambda>r. fst (rg_commit (offset + delta) r)) (mgr_get_range_mut sid i m)
     else mgr_get_range_mut sid' j m))"
proof (cases "mgr_get_range_mut sid i m")
  case None
  with assms show ?thesis by (simp add: mgr_commit_def)
next
  case (Some r)
  obtain r' q where c: "rg_commit (offset + delta) r = (r', q)" by fastforce
  have "rg_index r' = i" using rg_commit_index [OF c] mgr_get_range_mut_index [OF Some] by simp
  from mgr_set_range_lookup [OF assms(1) Some this] assms(2) Some c show ?thesis by (auto simp: mgr_commit_def)
qed

lemma mgr_check_barrier_Ok:
  assumes "mgr_ok m" "mgr_check_barrier sid i offset len m = (m', Ok ())"
  obtains r w where "mgr_get_range_mut sid i m = Some r" "rg_window r = Some w" "offset = win_next w" "mgr_ok m'"
    "\<And>sid' j. mgr_get_range_mut sid' j m' =
      (if (sid', j) = (sid, i) then Some (r\<lparr>rg_window := Some (w\<lparr>win_next := win_next w + len\<rparr>)\<rparr>)
       else mgr_get_range_mut sid' j m)"
proof -
  from assms(2) obtain r w where r: "mgr_get_range_mut sid i m = Some r" "rg_window r = Some w" "offset = win_next w"
    and m': "m' = mgr_set_range sid i (r\<lparr>rg_window := Some (w\<lparr>win_next := win_next w + len\<rparr>)\<rparr>) m"
    by (auto simp: mgr_check_barrier_def win_check_barrier_def split: option.splits if_splits)
  have "rg_index (r\<lparr>rg_window := Some (w\<lparr>win_next := win_next w + len\<rparr>)\<rparr>) = i"
    using mgr_get_range_mut_index [OF r(1)] by (simp add: rg_index_def)
  from mgr_set_range_lookup [OF assms(1) r(1) this] r m' show thesis by (intro that) auto
qed

lemma accept_hist:
  assumes "range_hist acc n r" "rg_window r = Some w" "n \<le> length acc" "req_offset q = win_next w"
  shows "range_hist (acc @ [q]) n (r\<lparr>rg_window := Some (w\<lparr>win_next := win_next w + req_len q\<rparr>)\<rparr>)"
  using assms by (simp add: range_hist_def Let_def chained_snoc end_of_append)

lemma srv_step_inv:
  assumes "srv_step sid idx st st'" "hist_inv sid idx st"
  shows "hist_inv sid idx st'"
  using assms
proof (induction rule: srv_step.induct)
  case (create md m m' res acc n)
  note l = mgr_create_range_lookup [OF _ create(1)]
  from create(2) l(1) l(2) [of sid idx] range_hist_new [of md] show ?case
    by (auto simp: hist_inv_def rg_index_def rg_new_def split: option.splits if_splits)
next
  case (accept q m m' acc n)
  from accept(2) have ok: "mgr_ok m" by (simp add: hist_inv_def)
  from ok accept(1) show ?case
  proof (rule mgr_check_barrier_Ok)
    fix r w
    assume "mgr_get_range_mut (req_stream_id q) (req_range_index q) m = Some r" "rg_window r = Some w" "req_offset q = win_next w"
      "mgr_ok m'" "\<And>sid' j. mgr_get_range_mut sid' j m' =
        (if (sid', j) = (req_stream_id q, req_range_index q) then Some (r\<lparr>rg_window := Some (w\<lparr>win_next := win_next w + req_len q\<rparr>)\<rparr>)
         else mgr_get_range_mut sid' j m)"
    with accept(2) accept_hist [of acc n r w q] show ?thesis
      by (auto simp: hist_inv_def rg_index_def split: option.splits)
  qed
next
  case (persist n acc m)
  then show ?case by (auto simp: hist_inv_def split: option.splits dest: range_hist_mono)
next
  case (commit j n acc m m' res)
  from commit(4) have ok: "mgr_ok m" by (simp add: hist_inv_def)
  note l = mgr_commit_lookup [OF ok commit(3)]
  show ?case
  proof (cases "mgr_get_range_mut sid idx m")
    case None
    with l commit(4) show ?thesis by (auto simp: hist_inv_def)
  next
    case (Some r)
    let ?v = "req_offset (acc ! j) + req_len (acc ! j)"
    from commit(4) Some have h: "range_hist acc n r" "rg_index r = idx" by (simp_all add: hist_inv_def)
    have "?v \<le> end_of (rm_start (rg_metadata r)) (take n acc)"
      using h(1) commit(1,2) chained_nth [of "rm_start (rg_metadata r)" acc j]
        end_of_take_mono [of "Suc j" n "rm_start (rg_metadata r)" acc]
      by (simp add: range_hist_def Let_def)
    from rg_commit_hist [OF h(1) this] h l Some commit(4) show ?thesis
      by (cases "rg_commit ?v r") (auto simp: hist_inv_def)
  qed
next
  case (commit_other sid' i offset delta m m' res acc n)
  from commit_other(3) have ok: "mgr_ok m" by (simp add: hist_inv_def)
  from mgr_commit_lookup [OF ok commit_other(2)] commit_other(1,3) show ?case by (auto simp: hist_inv_def)
next
  case (seal md m m' md' res acc n)
  from seal(2) have ok: "mgr_ok m" by (simp add: hist_inv_def)
  note l = mgr_seal_lookup [OF ok seal(1)]
  show ?case
  proof (cases "mgr_get_range_mut sid idx m")
    case None
    with l(1) l(4) [of sid idx] seal(2) rg_seal_hist [OF range_hist_new, of md md] show ?thesis
      by (auto simp: hist_inv_def sealed_range_def rg_seal_index rg_new_index split: if_splits)
  next
    case (Some r)
    with l(1) l(4) [of sid idx] seal(2) rg_seal_hist [of acc n r md] show ?thesis
      by (auto simp: hist_inv_def sealed_range_def rg_seal_index split: if_splits)
  qed
qed

definition srv_reach :: "u64 \<Rightarrow> int \<Rightarrow> manager \<times> append_request list \<times> nat \<Rightarrow> bool" where
  "srv_reach sid idx st \<longleftrightarrow> (srv_step sid idx)\<^sup>*\<^sup>* (mgr_new, [], 0) st"

lemma srv_reach_inv: "srv_reach sid idx st \<Longrightarrow> hist_inv sid idx st"
  unfolding srv_reach_def
proof (induction rule: rtranclp_induct)
  case base
  show ?case by (simp add: hist_inv_def mgr_ok_def mgr_new_def mgr_get_range_mut_def)
qed (rule srv_step_inv)

section \<open>Properties\<close>


definition open_range :: range_metadata where
  "open_range = rm_new 1 0 0 10 None"

definition one_append :: manager where
  "one_append = fst (mgr_check_barrier 1 0 10 5 (fst (mgr_create_range open_range mgr_new)))"

lemmas mgr_eval = mgr_create_range_def mgr_new_def str_create_range_def placeholder_stream_def
  stream_metadata_default_def open_range_def rm_new_def rm_new_range_def str_new_def verify_stream_id_def str_get_range_def
  rg_new_def has_end_def win_new_def mgr_check_barrier_def mgr_get_range_mut_def win_check_barrier_def mgr_set_range_def
  str_set_range_def rg_index_def

lemma one_append_step: "mgr_check_barrier 1 0 10 5 (fst (mgr_create_range open_range mgr_new)) = (one_append, Ok ())"
  unfolding one_append_def by (simp add: mgr_eval)

lemma one_append_reach: "srv_reach 1 0 (one_append, [sample_request 10 5], 0)"
proof -
  obtain m res where c: "mgr_create_range open_range mgr_new = (m, res)" by fastforce
  then have "srv_step 1 0 (mgr_new, [], 0) (m, [], 0)" by (rule srv_step.create)
  moreover have "srv_step 1 0 (m, [], 0) (one_append, [sample_request 10 5], 0)"
    using srv_step.accept [of "sample_request 10 5" m one_append 1 0 "[]" 0] one_append_step c
    by (simp add: sample_request_def)
  ultimately show ?thesis unfolding srv_reach_def by (meson rtranclp.rtrancl_into_rtrancl rtranclp.rtrancl_refl)
qed




text \<open>
  C30. A range created by a client cannot be appended to until the placement driver announces it,
  and an append tried before then blocks the range. Creating a range does not reach the store's
  buffer, so the first append passes the window, which advances, and is rejected by the store as
  for an unknown range; the retry of the same append is refused as still in flight.
\<close>

theorem create_then_append_stuck:
  assumes "rm_end md = None" and "req_stream_id q = rm_stream_id md" "req_range_index q = rm_index md"
    and "req_offset q = rm_start md" "0 < req_len q"
  shows "\<exists>m1 m2. mgr_create_range md mgr_new = (m1, Ok ()) \<and>
           mgr_check_barrier (req_stream_id q) (req_range_index q) (req_offset q) (req_len q) m1 = (m2, Ok ()) \<and>
           (\<exists>m3. mgr_append tx q m2 = (m3, Rejected RangeNotFound) \<and>
             mgr_check_barrier (req_stream_id q) (req_range_index q) (req_offset q) (req_len q) m3 = (m3, Err Inflight))"
  using assms
  by (simp add: mgr_eval mgr_append_def bs_append_def stbuf_fast_forward_def stream_buffer_of_def sbuf_new_def
      sbuf_fast_forward_def stbuf_buffer_def sbuf_buffer_def Let_def)

theorem create_then_append_stuck_witness:
  "\<exists>m1 m2 m3. mgr_create_range open_range mgr_new = (m1, Ok ()) \<and>
     mgr_check_barrier 1 0 10 5 m1 = (m2, Ok ()) \<and> mgr_append 3 (sample_request 10 5) m2 = (m3, Rejected RangeNotFound) \<and>
     mgr_check_barrier 1 0 10 5 m3 = (m3, Err Inflight)"
  using create_then_append_stuck [of open_range "sample_request 10 5" 3]
  by (simp add: open_range_def rm_new_def rm_new_range_def sample_request_def)

text \<open>
  A range sealed by the placement driver keeps accepting appends: the event replaces the
  metadata but leaves the append window, so the next append passes the barrier although the range
  has an end.
\<close>

theorem sealed_event_keeps_window:
  assumes "mgr_ok m" "mgr_get_range_mut sid idx m = Some r" "rg_window r = Some w"
    and "rm_stream_id md = sid" "rm_index md = idx" "rm_end md = Some e" and "win_committed w \<le> win_next w"
  shows "\<exists>m2 r2. mgr_check_barrier sid idx (win_next w) len (on_range_event Modified md m) = (m2, Ok ()) \<and>
           mgr_get_range_mut sid idx (on_range_event Modified md m) = Some r2 \<and> rm_end (rg_metadata r2) = Some e"
proof -
  from assms(2) obtain s where s: "streams m sid = Some s" "str_get_range idx s = Some r"
    by (auto simp: mgr_get_range_mut_def split: option.splits)
  then have "on_range_event Modified md m = mgr_set_range sid idx (r\<lparr>rg_metadata := md\<rparr>) m"
    using assms(4,5) by (simp add: on_range_event_def mgr_set_range_def)
  moreover have "mgr_get_range_mut sid idx (mgr_set_range sid idx (r\<lparr>rg_metadata := md\<rparr>) m) = Some (r\<lparr>rg_metadata := md\<rparr>)"
    using mgr_set_range_lookup(2) [OF assms(1,2)] assms(5) by (simp add: rg_index_def)
  ultimately show ?thesis using assms(3,6,7) by (simp add: mgr_check_barrier_def win_check_barrier_def)
qed

theorem sealed_event_keeps_window_witness:
  "\<exists>m2. mgr_check_barrier 1 0 15 5 (on_range_event Modified (set_end 15 open_range) one_append) = (m2, Ok ())"
proof -
  have ok: "mgr_ok one_append" using srv_reach_inv [OF one_append_reach] by (simp add: hist_inv_def)
  have "\<exists>r w. mgr_get_range_mut 1 0 one_append = Some r \<and> rg_window r = Some w \<and> win_next w = 15 \<and> win_committed w = 10"
    unfolding one_append_def by (simp add: mgr_eval)
  then obtain r w where "mgr_get_range_mut 1 0 one_append = Some r" "rg_window r = Some w" "win_next w = 15" "win_committed w = 10"
    by blast
  with sealed_event_keeps_window [OF ok, of 1 0 r w "set_end 15 open_range" 15 5] show ?thesis
    by (auto simp: set_end_def open_range_def rm_new_def rm_new_range_def)
qed

end
