(* ===== verification/Frame_Codec.thy ===== *)
theory Frame_Codec
  imports Crc32 Byte_Reader
begin

text \<open>
  The wire format of the RPC protocol: \<open>src/components/codec/src/frame.rs\<close>. A frame travels as
  length (4), magic (1), operation code (2), flag (1), stream id (4), header format (1), header
  length (3), header, payload, payload checksum (4), big-endian. \<open>check\<close> validates untrusted
  bytes, \<open>parse\<close> decodes what \<open>check\<close> accepted, \<open>encode\<close> is the sender's side.
\<close>

unbundle bit_operations_syntax

section \<open>Data\<close>

datatype header_format = Unknown | FlatBuffer | ProtoBuffer | JSON

fun header_format_num :: "header_format \<Rightarrow> nat" where
  "header_format_num Unknown = 0"
| "header_format_num FlatBuffer = 1"
| "header_format_num ProtoBuffer = 2"
| "header_format_num JSON = 3"

definition header_format_of :: "nat \<Rightarrow> header_format" where
  "header_format_of n =
     (if n = 1 then FlatBuffer else if n = 2 then ProtoBuffer else if n = 3 then JSON
      else Unknown)"

text \<open>
  \<open>OperationCode\<close> is a newtype over \<open>i16\<close>, generated from the protocol schema; its bits are
  a 16-bit word. The flag bits are the generated constants of the schema.
\<close>

record frame =
  operation_code :: "16 word"
  flag :: byte
  stream_id :: u32
  header_format :: header_format
  header :: "bytes option"
  payload :: "bytes list option"

text \<open>The reason of a \<open>BadFrame\<close> is the data its message is formatted from.\<close>

datatype bad_frame_reason =
    FrameTooShort u32 u32
  | HeaderExceeds u32 u32
  | PayloadExceeds u32 u32 u32

datatype frame_error =
    Incomplete
  | BadFrame bad_frame_reason
  | TooLongFrame u32 u32
  | MagicCodeMismatch u8 u8
  | TooLongFrameHeader u32 u32
  | PayloadChecksumMismatch u32 u32
  | ConnectionReset

definition MAGIC_CODE :: u8 where
  "MAGIC_CODE = 23"

definition MIN_FRAME_LENGTH :: u32 where
  "MIN_FRAME_LENGTH = 16"

definition MAX_FRAME_LENGTH :: u32 where
  "MAX_FRAME_LENGTH = 16 * 1024 * 1024"

datatype common_flags = REQUEST | RESPONSE | END_OF_STREAM | SYSTEM_ERROR
datatype go_away_flags = CONNECTION_IDLE | SERVER_MAINTENANCE

fun common_flag_bits :: "common_flags \<Rightarrow> byte" where
  "common_flag_bits REQUEST = 0"
| "common_flag_bits RESPONSE = 1"
| "common_flag_bits END_OF_STREAM = 2"
| "common_flag_bits SYSTEM_ERROR = 4"

fun go_away_flag_bits :: "go_away_flags \<Rightarrow> byte" where
  "go_away_flag_bits CONNECTION_IDLE = 0"
| "go_away_flag_bits SERVER_MAINTENANCE = 1"

section \<open>Construction and flags\<close>

text \<open>
  The thread-local stream-id counter is passed through; it is a \<open>u32\<close>, so taking the last id
  aborts.
\<close>

definition frame_new :: "u32 \<Rightarrow> 16 word \<Rightarrow> (frame_error, frame \<times> u32) outcome" where
  "frame_new counter op =
     (if counter + 1 < 2 ^ 32
      then Ok (\<lparr>operation_code = op, flag = 0, stream_id = counter,
                header_format = FlatBuffer, header = None, payload = None\<rparr>, counter + 1)
      else Panic)"

definition flag_common :: "common_flags \<Rightarrow> frame \<Rightarrow> frame" where
  "flag_common c f = f\<lparr>flag := flag f OR common_flag_bits c\<rparr>"

definition has_common_flag :: "common_flags \<Rightarrow> frame \<Rightarrow> bool" where
  "has_common_flag c f \<longleftrightarrow> flag f AND common_flag_bits c = common_flag_bits c"

definition is_response :: "frame \<Rightarrow> bool" where
  "is_response f = has_common_flag RESPONSE f"

definition flag_response :: "frame \<Rightarrow> frame" where
  "flag_response f = flag_common RESPONSE f"

definition end_of_stream :: "frame \<Rightarrow> bool" where
  "end_of_stream f = has_common_flag END_OF_STREAM f"

definition flag_end_of_response_stream :: "frame \<Rightarrow> frame" where
  "flag_end_of_response_stream f = flag_common END_OF_STREAM (flag_common RESPONSE f)"

definition system_error :: "frame \<Rightarrow> bool" where
  "system_error f = has_common_flag SYSTEM_ERROR f"

definition flag_system_err :: "frame \<Rightarrow> frame" where
  "flag_system_err f =
     flag_common SYSTEM_ERROR (flag_common RESPONSE (flag_common END_OF_STREAM f))"

definition flag_go_away :: "go_away_flags \<Rightarrow> frame \<Rightarrow> frame" where
  "flag_go_away g f = f\<lparr>flag := flag f OR go_away_flag_bits g\<rparr>"

definition has_go_away_flag :: "go_away_flags \<Rightarrow> frame \<Rightarrow> bool" where
  "has_go_away_flag g f \<longleftrightarrow> flag f AND go_away_flag_bits g = go_away_flag_bits g"

section \<open>check\<close>

definition check_checksum ::
  "('h, 'z) crc32fast_scheme \<Rightarrow> bytes option \<Rightarrow> bytes \<Rightarrow> (frame_error, bytes) outcome" where
  "check_checksum H pl src =
     (case pl of
        Some body \<Rightarrow>
          bind_outcome (get_be 4 src) (\<lambda>(checksum, src).
            let ckm = crc32 H body in
            if checksum \<noteq> ckm then Err (PayloadChecksumMismatch checksum ckm) else Ok src)
      | None \<Rightarrow> adv 4 src)"

definition check_payload ::
  "('h, 'z) crc32fast_scheme \<Rightarrow> u32 \<Rightarrow> u32 \<Rightarrow> bytes \<Rightarrow> (frame_error, bytes) outcome" where
  "check_payload H frame_length header_length src =
     (if header_length > frame_length - MIN_FRAME_LENGTH
      then Err (BadFrame (HeaderExceeds header_length frame_length))
      else bind_outcome (adv header_length src) (\<lambda>src.
        if header_length + MIN_FRAME_LENGTH < frame_length
        then
          let payload_length = frame_length - header_length - MIN_FRAME_LENGTH in
          if payload_length > as_u32 (length src)
          then Err (BadFrame (PayloadExceeds payload_length frame_length header_length))
          else bind_outcome (take_bytes payload_length src) (\<lambda>(body, src).
                 check_checksum H (Some body) src)
        else check_checksum H None src))"

definition check_body ::
  "('h, 'z) crc32fast_scheme \<Rightarrow> u32 \<Rightarrow> bytes \<Rightarrow> (frame_error, bytes) outcome" where
  "check_body H frame_length src =
     bind_outcome (adv 2 src) (\<lambda>src.
     bind_outcome (adv 1 src) (\<lambda>src.
     bind_outcome (adv 4 src) (\<lambda>src.
     bind_outcome (adv 1 src) (\<lambda>src.
     bind_outcome (get_be 1 src) (\<lambda>(hi, src).
     bind_outcome (get_be 2 src) (\<lambda>(lo, src).
     check_payload H frame_length (lo + hi * 2 ^ 16) src))))))"

definition check ::
  "('h, 'z) crc32fast_scheme \<Rightarrow> bytes \<Rightarrow> (frame_error, bytes) outcome" where
  "check H src =
     (if length src < 4 then Err Incomplete
      else
        let frame_length = be_val (take 4 src); src = drop 4 src in
        if frame_length < MIN_FRAME_LENGTH
        then Err (BadFrame (FrameTooShort frame_length MIN_FRAME_LENGTH))
        else if frame_length > MAX_FRAME_LENGTH
        then Err (TooLongFrame frame_length MAX_FRAME_LENGTH)
        else if length src < frame_length then Err Incomplete
        else bind_outcome (get_be 1 src) (\<lambda>(magic_code, src).
          if MAGIC_CODE \<noteq> magic_code then Err (MagicCodeMismatch magic_code MAGIC_CODE)
          else check_body H frame_length src))"

section \<open>parse\<close>

definition to_opcode_unchecked :: "u16 \<Rightarrow> 16 word" where
  "to_opcode_unchecked code = of_nat code"

text \<open>The variable part: header, payload and checksum.\<close>

definition parse_tail ::
  "u32 \<Rightarrow> u32 \<Rightarrow> bytes \<Rightarrow> (frame_error, bytes option \<times> bytes list option \<times> bytes) outcome" where
  "parse_tail remaining header_length src =
     bind_outcome (if header_length > 0
                   then bind_outcome (take_bytes header_length src) (\<lambda>(h, src). Ok (Some h, src))
                   else Ok (None, src)) (\<lambda>(hdr, src).
     bind_outcome (sub_or_panic remaining header_length) (\<lambda>remaining.
     bind_outcome (sub_or_panic remaining 4) (\<lambda>payload_length.
     bind_outcome (if payload_length > 0
                   then bind_outcome (take_bytes payload_length src) (\<lambda>(p, src). Ok (Some [p], src))
                   else Ok (None, src)) (\<lambda>(pl, src).
     bind_outcome (sub_or_panic remaining payload_length) (\<lambda>remaining.
     bind_outcome (adv 4 src) (\<lambda>src.
     bind_outcome (sub_or_panic remaining 4) (\<lambda>remaining.
     Ok (hdr, pl, src))))))))"

definition parse :: "bytes \<Rightarrow> (frame_error, frame \<times> bytes) outcome" where
  "parse src =
     bind_outcome (get_be 4 src) (\<lambda>(frame_length, src).
     bind_outcome (adv 1 src) (\<lambda>src.
     bind_outcome (sub_or_panic frame_length 1) (\<lambda>remaining.
     bind_outcome (get_be 2 src) (\<lambda>(op_code, src).
     bind_outcome (sub_or_panic remaining 2) (\<lambda>remaining.
     bind_outcome (get_be 1 src) (\<lambda>(fl, src).
     bind_outcome (sub_or_panic remaining 1) (\<lambda>remaining.
     bind_outcome (get_be 4 src) (\<lambda>(sid, src).
     bind_outcome (sub_or_panic remaining 4) (\<lambda>remaining.
     bind_outcome (get_be 1 src) (\<lambda>(fmt, src).
     bind_outcome (sub_or_panic remaining 1) (\<lambda>remaining.
     bind_outcome (get_be 1 src) (\<lambda>(hi, src).
     bind_outcome (get_be 2 src) (\<lambda>(lo, src).
     bind_outcome (sub_or_panic remaining 3) (\<lambda>remaining.
     bind_outcome (parse_tail remaining (lo + hi * 2 ^ 16) src) (\<lambda>(hdr, pl, src).
     Ok (\<lparr>operation_code = to_opcode_unchecked op_code, flag = of_nat fl, stream_id = sid,
          header_format = header_format_of fmt, header = hdr, payload = pl\<rparr>, src))))))))))))))))"

section \<open>encode\<close>

definition payload_len :: "frame \<Rightarrow> usize" where
  "payload_len f = (case payload f of None \<Rightarrow> 0 | Some ps \<Rightarrow> sum_list (map length ps))"

definition frame_len :: "frame \<Rightarrow> usize" where
  "frame_len f = 16 + (case header f of None \<Rightarrow> 0 | Some h \<Rightarrow> length h) + payload_len f"

definition basic_part :: "frame \<Rightarrow> bytes" where
  "basic_part f =
     be_bytes 4 (as_u32 (frame_len f)) @ be_bytes 1 MAGIC_CODE @
     be_bytes 2 (unat (operation_code f)) @ [flag f] @ be_bytes 4 (stream_id f) @
     be_bytes 1 (header_format_num (header_format f)) @
     (case header f of
        Some h \<Rightarrow> drop 1 (be_bytes 4 (as_u32 (length h))) @ h
      | None \<Rightarrow> be_bytes 1 0 @ be_bytes 2 0)"

definition encode ::
  "('h, 'z) crc32fast_scheme \<Rightarrow> frame \<Rightarrow> frame_error + bytes list" where
  "encode H f =
     (if frame_len f > MAX_FRAME_LENGTH
      then Inl (TooLongFrame (as_u32 (frame_len f)) MAX_FRAME_LENGTH)
      else Inr (basic_part f #
             (case payload f of
                Some ps \<Rightarrow> ps @ [be_bytes 4 (crc32_vectored H ps)]
              | None \<Rightarrow> [[0, 0, 0, 0]])))"

definition get_response_payload :: "frame \<Rightarrow> bytes option" where
  "get_response_payload f =
     (case payload f of
        Some parts \<Rightarrow> if length parts = 1 then Some (parts ! 0) else Some (concat parts)
      | None \<Rightarrow> None)"

section \<open>Reading\<close>

lemmas frame_consts = MIN_FRAME_LENGTH_def MAX_FRAME_LENGTH_def MAGIC_CODE_def

lemma as_u32_le: "as_u32 n \<le> n"
  by (simp add: as_u32_def)

text \<open>Fields at their place in a buffer.\<close>

definition flen_at :: "bytes \<Rightarrow> nat" where
  "flen_at src = be_val (take 4 src)"

definition hlen_at :: "bytes \<Rightarrow> nat" where
  "hlen_at src = be_val (take 2 (drop 14 src)) + be_val (take 1 (drop 13 src)) * 2 ^ 16"

lemma check_body_fixed:
  "11 \<le> length src \<Longrightarrow>
     check_body H fl src =
     check_payload H fl (be_val (take 2 (drop 9 src)) + be_val (take 1 (drop 8 src)) * 2 ^ 16)
       (drop 11 src)"
  by (simp add: check_body_def reader_ok)

lemma parse_fixed:
  assumes "16 \<le> length src" and "12 \<le> flen_at src"
  shows "parse src =
     bind_outcome (parse_tail (flen_at src - 12) (hlen_at src) (drop 16 src)) (\<lambda>(hdr, pl, rest).
     Ok (\<lparr>operation_code = to_opcode_unchecked (be_val (take 2 (drop 5 src))),
          flag = of_nat (be_val (take 1 (drop 7 src))),
          stream_id = be_val (take 4 (drop 8 src)),
          header_format = header_format_of (be_val (take 1 (drop 12 src))),
          header = hdr, payload = pl\<rparr>, rest))"
  using assms by (simp add: parse_def reader_ok flen_at_def hlen_at_def)

lemma check_fixed:
  "check H src =
    (if length src < 4 then Err Incomplete
     else if flen_at src < 16 then Err (BadFrame (FrameTooShort (flen_at src) 16))
     else if flen_at src > MAX_FRAME_LENGTH then Err (TooLongFrame (flen_at src) MAX_FRAME_LENGTH)
     else if length src < flen_at src + 4 then Err Incomplete
     else if be_val (take 1 (drop 4 src)) \<noteq> MAGIC_CODE
     then Err (MagicCodeMismatch (be_val (take 1 (drop 4 src))) MAGIC_CODE)
     else check_payload H (flen_at src) (hlen_at src) (drop 16 src))"
proof (cases "length src < 4 \<or> flen_at src < 16 \<or> length src < flen_at src + 4")
  case True
  then show ?thesis
    by (auto simp: check_def flen_at_def MIN_FRAME_LENGTH_def Let_def)
next
  case False
  then have "4 \<le> length src" and "16 \<le> be_val (take 4 src)"
    and "\<not> length src - 4 < be_val (take 4 src)" and "11 \<le> length (drop 5 src)"
    by (auto simp: flen_at_def)
  with False show ?thesis
    by (simp add: check_def flen_at_def hlen_at_def MIN_FRAME_LENGTH_def reader_ok
        check_body_fixed Let_def)
qed

lemma check_payload_eq:
  assumes "16 \<le> fl" and "fl \<le> length src + 12"
  shows "check_payload H fl hl src =
    (if fl < hl + 16 then Err (BadFrame (HeaderExceeds hl fl))
     else if fl = hl + 16 then Ok (drop (fl - 12) src)
     else if as_u32 (length src - hl) < fl - hl - 16
     then Err (BadFrame (PayloadExceeds (fl - hl - 16) fl hl))
     else let body = take (fl - hl - 16) (drop hl src);
              checksum = be_val (take 4 (drop (fl - 16) src)) in
          if checksum \<noteq> crc32 H body then Err (PayloadChecksumMismatch checksum (crc32 H body))
          else Ok (drop (fl - 12) src))"
proof -
  consider "fl < hl + 16" | "fl = hl + 16" | "hl + 16 < fl" by linarith
  then show ?thesis
  proof cases
    case 1
    with assms show ?thesis by (simp add: check_payload_def MIN_FRAME_LENGTH_def) linarith
  next
    case 2
    with assms show ?thesis
      by (simp add: check_payload_def MIN_FRAME_LENGTH_def check_checksum_def reader_ok adv_def
          add.commute)
  next
    case 3
    then have le: "\<not> fl - 16 < hl" "hl \<le> length src" using assms by linarith+
    have "fl - hl - 16 \<le> length src - hl" and "4 \<le> length src - hl - (fl - hl - 16)"
      and eq: "hl + (fl - hl - 16) = fl - 16" "hl + (fl - hl - 16) + 4 = fl - 12"
      using 3 assms by linarith+
    with 3 le show ?thesis
      by (simp add: check_payload_def MIN_FRAME_LENGTH_def check_checksum_def reader_ok Let_def
          add.commute [of _ hl] add.assoc)
  qed
qed

lemma parse_tail_eq:
  assumes "hl + 16 \<le> fl" and "fl \<le> length src + 12"
  shows "parse_tail (fl - 12) hl src =
    Ok (if hl = 0 then None else Some (take hl src),
        if fl = hl + 16 then None else Some [take (fl - hl - 16) (drop hl src)],
        drop (fl - 12) src)"
proof -
  define p where "p = fl - hl - 16"
  then have fl: "fl = hl + p + 16" using assms(1) by simp
  have len: "hl + p + 4 \<le> length src" using assms(2) fl by simp
  then have "hl \<le> length src" and "p \<le> length src - hl" and "4 \<le> length src - (hl + p)"
    by linarith+
  then show ?thesis
    unfolding fl
    by (cases "hl = 0"; cases "p = 0")
      (simp_all add: parse_tail_def reader_ok ac_simps)
qed

section \<open>Encoding\<close>

text \<open>What \<open>parse\<close> gives back: the payload parts joined, empty parts absent.\<close>

definition wire_form :: "frame \<Rightarrow> frame" where
  "wire_form f = f\<lparr>
     header := (case header f of Some (b # h) \<Rightarrow> Some (b # h) | _ \<Rightarrow> None),
     payload := (case payload f of
                   None \<Rightarrow> None
                 | Some ps \<Rightarrow> if concat ps = [] then None else Some [concat ps])\<rparr>"

definition header_bytes :: "frame \<Rightarrow> bytes" where
  "header_bytes f = (case header f of None \<Rightarrow> [] | Some h \<Rightarrow> h)"

definition payload_bytes :: "frame \<Rightarrow> bytes" where
  "payload_bytes f = (case payload f of None \<Rightarrow> [] | Some ps \<Rightarrow> concat ps)"

definition frame_wf :: "frame \<Rightarrow> bool" where
  "frame_wf f \<longleftrightarrow> stream_id f < 2 ^ 32"

lemma payload_len_eq: "payload_len f = length (payload_bytes f)"
  by (simp add: payload_len_def payload_bytes_def length_concat split: option.split)

lemma frame_len_eq: "frame_len f = 16 + length (header_bytes f) + length (payload_bytes f)"
  by (simp add: frame_len_def payload_len_eq header_bytes_def split: option.split)

lemma basic_part_eq:
  assumes "frame_len f \<le> MAX_FRAME_LENGTH"
  shows "basic_part f =
     be_bytes 4 (frame_len f) @ be_bytes 1 MAGIC_CODE @ be_bytes 2 (unat (operation_code f)) @
     [flag f] @ be_bytes 4 (stream_id f) @ be_bytes 1 (header_format_num (header_format f)) @
     be_bytes 1 (length (header_bytes f) div 256 ^ 2) @ be_bytes 2 (length (header_bytes f)) @
     header_bytes f"
proof -
  have small: "frame_len f < 2 ^ 32" "length (header_bytes f) < 2 ^ 32"
    using assms by (simp_all add: frame_len_eq MAX_FRAME_LENGTH_def)
  have three: "drop 1 (be_bytes 4 n) = be_bytes 1 (n div 256 ^ 2) @ be_bytes 2 n" for n
  proof -
    have four: "(4 :: nat) = 1 + (1 + 2)" by simp
    show ?thesis unfolding four drop_be_bytes by (rule be_bytes_add)
  qed
  show ?thesis
  proof (cases "header f")
    case None
    then show ?thesis
      using small(1) by (simp add: basic_part_def header_bytes_def as_u32_id)
  next
    case (Some h)
    then show ?thesis
      using small by (simp only: basic_part_def header_bytes_def as_u32_id option.case three append_assoc)
  qed
qed

lemma encode_wire:
  assumes "encode H f = Inr parts"
  shows "frame_len f \<le> MAX_FRAME_LENGTH"
    and "\<exists>ck. concat parts = basic_part f @ payload_bytes f @ ck \<and> length ck = 4 \<and>
           (payload_bytes f \<noteq> [] \<and> crc32fast_ok H \<longrightarrow>
              be_val ck = crc32 H (payload_bytes f))"
proof -
  show "frame_len f \<le> MAX_FRAME_LENGTH"
    using assms by (auto simp: encode_def split: if_splits)
  show "\<exists>ck. concat parts = basic_part f @ payload_bytes f @ ck \<and> length ck = 4 \<and>
           (payload_bytes f \<noteq> [] \<and> crc32fast_ok H \<longrightarrow>
              be_val ck = crc32 H (payload_bytes f))"
  proof (cases "payload f")
    case None
    with assms show ?thesis
      by (auto simp: encode_def payload_bytes_def split: if_splits)
  next
    case (Some ps)
    have "crc32fast_ok H \<Longrightarrow> be_val (be_bytes 4 (crc32_vectored H ps)) = crc32 H (concat ps)"
      using crc32_less [of H "concat ps"]
      by (simp add: crc32_vectored_concat be_val_be_bytes)
    with Some assms show ?thesis
      by (auto simp: encode_def payload_bytes_def split: if_splits)
  qed
qed

text \<open>The fields of an encoded frame, read at their places.\<close>

lemma header_format_of_num [simp]: "header_format_of (header_format_num x) = x"
  by (cases x) (auto simp: header_format_of_def)

lemma header_format_num_less: "header_format_num x < 256"
  by (cases x) auto

lemma wire_fields:
  assumes "frame_wf f" and "frame_len f \<le> MAX_FRAME_LENGTH"
    and src: "src = basic_part f @ rest"
  shows "flen_at src = frame_len f" and "hlen_at src = length (header_bytes f)"
    and "drop 16 src = header_bytes f @ rest"
    and "be_val (take 1 (drop 4 src)) = MAGIC_CODE"
    and "to_opcode_unchecked (be_val (take 2 (drop 5 src))) = operation_code f"
    and "of_nat (be_val (take 1 (drop 7 src))) = flag f"
    and "be_val (take 4 (drop 8 src)) = stream_id f"
    and "header_format_of (be_val (take 1 (drop 12 src))) = header_format f"
proof -
  let ?h = "length (header_bytes f)"
  have h: "?h < 2 ^ 24" and l: "frame_len f < 2 ^ 32" and s: "stream_id f < 2 ^ 32"
    using assms(1,2) by (simp_all add: frame_wf_def frame_len_eq MAX_FRAME_LENGTH_def)
  have op: "unat (operation_code f) < 2 ^ 16"
    using unsigned_less [of "operation_code f"] by simp
  note b = basic_part_eq [OF assms(2)]
  show "flen_at src = frame_len f"
    using l by (simp add: flen_at_def src b be_val_be_bytes)
  show "drop 16 src = header_bytes f @ rest"
    by (simp add: src b)
  show "be_val (take 1 (drop 4 src)) = MAGIC_CODE"
    by (simp add: src b MAGIC_CODE_def)
  show "of_nat (be_val (take 1 (drop 7 src))) = flag f"
    by (simp add: src b)
  show "be_val (take 4 (drop 8 src)) = stream_id f"
    using s by (simp add: src b be_val_be_bytes)
  show "header_format_of (be_val (take 1 (drop 12 src))) = header_format f"
    using header_format_num_less [of "header_format f"] header_format_of_num [of "header_format f"]
    by (simp add: src b unat_byte_of_nat)
  show "to_opcode_unchecked (be_val (take 2 (drop 5 src))) = operation_code f"
    using op by (simp add: src b be_val_be_bytes to_opcode_unchecked_def)
  have "?h div 65536 < 256" using h by simp
  then have "?h mod 65536 + ?h div 65536 mod 256 * 65536 = ?h"
    by simp
  then show "hlen_at src = ?h"
    by (simp add: hlen_at_def src b be_val_be_bytes_mod unat_byte_of_nat)
qed

section \<open>Properties\<close>


definition sample_frame :: frame where
  "sample_frame = \<lparr>operation_code = 4097, flag = 1, stream_id = 7, header_format = FlatBuffer,
     header = Some [10, 20, 30], payload = Some [[1, 2], [], [3]]\<rparr>"


text \<open>
  \<open>check\<close> never panics, whatever bytes a peer sends: every cursor read it makes is inside
  the buffer and every difference it takes is non-negative.
\<close>

theorem check_never_panics: "check H src \<noteq> Panic"
proof (cases "length src < 4 \<or> flen_at src < 16 \<or> length src < flen_at src + 4")
  case True
  then show ?thesis by (auto simp: check_fixed)
next
  case False
  then have "16 \<le> flen_at src" and "flen_at src \<le> length (drop 16 src) + 12" by auto
  from check_payload_eq [OF this, of H "hlen_at src"] show ?thesis
    by (auto simp: check_fixed Let_def)
qed

text \<open>
  \<open>parse\<close> relies on an earlier \<open>check\<close> (its safety comment). Whatever \<open>check\<close> accepts,
  \<open>parse\<close> decodes without panicking, and both consume the same bytes: the four length bytes and
  the announced frame length, which lies between the minimum and the maximum.
\<close>

theorem check_then_parse:
  assumes "check H src = Ok rest"
  shows "(\<exists>f. parse src = Ok (f, rest)) \<and> rest = drop (4 + flen_at src) src \<and>
         MIN_FRAME_LENGTH \<le> flen_at src \<and> flen_at src \<le> MAX_FRAME_LENGTH"
proof -
  have fl: "16 \<le> flen_at src" and len: "flen_at src \<le> length (drop 16 src) + 12"
    and maxl: "flen_at src \<le> MAX_FRAME_LENGTH"
    and body: "check_payload H (flen_at src) (hlen_at src) (drop 16 src) = Ok rest"
    using assms by (auto simp: check_fixed split: if_splits)
  from body have hl: "hlen_at src + 16 \<le> flen_at src"
    and rest: "rest = drop (flen_at src - 12) (drop 16 src)"
    unfolding check_payload_eq [OF fl len] by (auto simp: Let_def split: if_splits)
  have "\<exists>hdr pl. parse_tail (flen_at src - 12) (hlen_at src) (drop 16 src) = Ok (hdr, pl, rest)"
    unfolding parse_tail_eq [OF hl len] rest by auto
  then have "\<exists>f. parse src = Ok (f, rest)"
    using fl len by (subst parse_fixed) auto
  then show ?thesis
    using fl maxl rest by (simp add: MIN_FRAME_LENGTH_def add.commute)
qed

definition empty_frame_bytes :: bytes where
  "empty_frame_bytes = [0, 0, 0, 16, 23, 0, 1, 0, 0, 0, 0, 1, 1, 0, 0, 0, 0, 0, 0, 0]"

theorem check_then_parse_witness:
  "check sum_hasher (empty_frame_bytes @ [42]) = Ok [42] \<and>
   (\<exists>f. parse (empty_frame_bytes @ [42]) = Ok (f, [42]))"
proof -
  have "check sum_hasher (empty_frame_bytes @ [42]) = Ok [42]"
    by (simp add: check_fixed empty_frame_bytes_def flen_at_def hlen_at_def be_val_def
        frame_consts check_payload_eq)
  with check_then_parse [OF this] show ?thesis by simp
qed

end
