(* ===== verification/Rpc.thy ===== *)
theory Rpc
  imports Metadata
begin

text \<open>
  Codes, statuses and requests of the RPC layer: the error codes of
  \<open>src/components/protocol/fbs/rpc.fbs\<close> that the modelled code uses (the generated type wraps a
  16-bit integer), \<open>Status\<close>, \<open>EsError\<close>, the fetch request and the result of an append, from
  \<open>src/components/model/src/\<close>.
\<close>

type_synonym error_code = int

definition ERROR_CODE_UNSPECIFIED :: error_code where "ERROR_CODE_UNSPECIFIED = 0"
definition DECODE :: error_code where "DECODE = 2"
definition UNEXPECTED :: error_code where "UNEXPECTED = 3"
definition OK :: error_code where "OK = 1200"
definition NO_NEW_RECORD :: error_code where "NO_NEW_RECORD = 1204"
definition BAD_REQUEST :: error_code where "BAD_REQUEST = 1400"
definition RANGE_ALREADY_SEALED :: error_code where "RANGE_ALREADY_SEALED = 1460"
definition RANGE_NOT_FOUND :: error_code where "RANGE_NOT_FOUND = 1462"
definition OFFSET_OUT_OF_RANGE_BOUNDS :: error_code where "OFFSET_OUT_OF_RANGE_BOUNDS = 1463"
definition APPEND_TO_COMMITTED_OFFSET :: error_code where "APPEND_TO_COMMITTED_OFFSET = 1464"
definition APPEND_TO_PENDING_OFFSET :: error_code where "APPEND_TO_PENDING_OFFSET = 1465"
definition APPEND_TO_OVERTAKEN_OFFSET :: error_code where "APPEND_TO_OVERTAKEN_OFFSET = 1466"
definition OBJECT_NOT_FOUND :: error_code where "OBJECT_NOT_FOUND = 1472"
definition NO_MATCH_RECORDS_IN_OBJECT :: error_code where "NO_MATCH_RECORDS_IN_OBJECT = 1473"
definition OBJECT_PARSE_ERROR :: error_code where "OBJECT_PARSE_ERROR = 1475"
definition RECORDS_BLOCKS_NOT_CONTINUOUS :: error_code where "RECORDS_BLOCKS_NOT_CONTINUOUS = 1477"
definition STREAM_ALREADY_CLOSED :: error_code where "STREAM_ALREADY_CLOSED = 1478"
definition REPLICA_NOT_ENOUGH :: error_code where "REPLICA_NOT_ENOUGH = 1479"
definition ALL_REPLICAS_FETCH_FAILED :: error_code where "ALL_REPLICAS_FETCH_FAILED = 1481"
definition RPC_TIMEOUT :: error_code where "RPC_TIMEOUT = 1482"
definition UNSUPPORTED_OPERATION :: error_code where "UNSUPPORTED_OPERATION = 1498"
definition PD_INTERNAL_SERVER_ERROR :: error_code where "PD_INTERNAL_SERVER_ERROR = 1500"
definition PD_NOT_LEADER :: error_code where "PD_NOT_LEADER = 1503"
definition RS_INTERNAL_SERVER_ERROR :: error_code where "RS_INTERNAL_SERVER_ERROR = 2500"
definition RS_DATA_CORRUPTED :: error_code where "RS_DATA_CORRUPTED = 2502"
definition RS_CREATE_RANGE :: error_code where "RS_CREATE_RANGE = 2503"
definition RS_SEAL_RANGE :: error_code where "RS_SEAL_RANGE = 2504"

lemmas error_codes = ERROR_CODE_UNSPECIFIED_def DECODE_def UNEXPECTED_def OK_def NO_NEW_RECORD_def BAD_REQUEST_def RANGE_ALREADY_SEALED_def RANGE_NOT_FOUND_def OFFSET_OUT_OF_RANGE_BOUNDS_def APPEND_TO_COMMITTED_OFFSET_def APPEND_TO_PENDING_OFFSET_def APPEND_TO_OVERTAKEN_OFFSET_def OBJECT_NOT_FOUND_def NO_MATCH_RECORDS_IN_OBJECT_def OBJECT_PARSE_ERROR_def RECORDS_BLOCKS_NOT_CONTINUOUS_def STREAM_ALREADY_CLOSED_def REPLICA_NOT_ENOUGH_def ALL_REPLICAS_FETCH_FAILED_def RPC_TIMEOUT_def UNSUPPORTED_OPERATION_def PD_INTERNAL_SERVER_ERROR_def PD_NOT_LEADER_def RS_INTERNAL_SERVER_ERROR_def RS_DATA_CORRUPTED_def RS_CREATE_RANGE_def RS_SEAL_RANGE_def

record status_t =
  stt_code :: error_code
  stt_message :: "string option"
  stt_detail :: "bytes option"

definition status_t_default :: status_t where
  "status_t_default = \<lparr>stt_code = ERROR_CODE_UNSPECIFIED, stt_message = None, stt_detail = None\<rparr>"

record status =
  status_code :: error_code
  status_message :: string
  status_details :: "bytes option"

definition status_of_t :: "status_t \<Rightarrow> status" where
  "status_of_t t = \<lparr>status_code = stt_code t, status_message = or_default [] (stt_message t), status_details = stt_detail t\<rparr>"

definition status_ok :: status where
  "status_ok = \<lparr>status_code = OK, status_message = ''OK'', status_details = None\<rparr>"

definition status_unspecified :: status where
  "status_unspecified =
     \<lparr>status_code = ERROR_CODE_UNSPECIFIED, status_message = ''Bad response, missing status'', status_details = None\<rparr>"

definition status_decode :: status where
  "status_decode = \<lparr>status_code = DECODE, status_message = ''Decoding frame header failure'', status_details = None\<rparr>"

definition status_pd_internal :: "string \<Rightarrow> status" where
  "status_pd_internal msg = \<lparr>status_code = PD_INTERNAL_SERVER_ERROR, status_message = msg, status_details = None\<rparr>"

definition status_dn_internal :: "string \<Rightarrow> status" where
  "status_dn_internal msg = \<lparr>status_code = RS_INTERNAL_SERVER_ERROR, status_message = msg, status_details = None\<rparr>"

definition status_bad_request :: "string \<Rightarrow> status" where
  "status_bad_request msg = \<lparr>status_code = BAD_REQUEST, status_message = msg, status_details = None\<rparr>"

text \<open>The source of an \<open>EsError\<close> only feeds its display.\<close>

record es_error =
  es_code :: error_code
  es_message :: string

definition es_new :: "error_code \<Rightarrow> string \<Rightarrow> es_error" where
  "es_new code msg = \<lparr>es_code = code, es_message = msg\<rparr>"

definition es_unexpected :: "string \<Rightarrow> es_error" where
  "es_unexpected msg = \<lparr>es_code = UNEXPECTED, es_message = msg\<rparr>"

record append_result_entry_t =
  aret_status :: status_t
  aret_timestamp_ms :: int

text \<open>
  The time of an entry: seconds and nanoseconds since the epoch. \<open>%\<close> rounds towards zero, so a
  negative time that is not a whole second has no valid nanoseconds and \<open>expect\<close> fails.
\<close>

record append_result_entry =
  are_status :: status
  are_seconds :: int
  are_nanos :: nat

definition entry_of_append_t :: "append_result_entry_t \<Rightarrow> ('e, append_result_entry) outcome" where
  "entry_of_append_t t =
     (let ms = aret_timestamp_ms t;
          secs = (if ms \<ge> 0 then ms div 1000 else - ((- ms) div 1000));
          nanos = int_as_u32 ((ms - 1000 * secs) * 1000000)
      in if nanos < 2000000000
         then Ok \<lparr>are_status = status_of_t (aret_status t), are_seconds = secs, are_nanos = nanos\<rparr>
         else Panic)"

record fetch_request =
  fr_max_wait :: u64
  fr_range :: range_metadata
  fr_offset :: u64
  fr_limit :: u64
  fr_min_bytes :: "usize option"
  fr_max_bytes :: "usize option"

record fetch_request_t =
  frt_max_wait_ms :: int
  frt_range :: range_t
  frt_offset :: int
  frt_limit :: int
  frt_min_bytes :: int
  frt_max_bytes :: int

definition fetch_request_to_t :: "fetch_request \<Rightarrow> fetch_request_t" where
  "fetch_request_to_t r =
     \<lparr>frt_max_wait_ms = as_i32 (fr_max_wait r),
      frt_range = range_t_default\<lparr>rt_stream_id := as_i64 (rm_stream_id (fr_range r)), rt_index := rm_index (fr_range r),
        rt_start := as_i64 (rm_start (fr_range r)),
        rt_end := (case rm_end (fr_range r) of Some e \<Rightarrow> as_i64 e | None \<Rightarrow> -1)\<rparr>,
      frt_offset = as_i64 (fr_offset r), frt_limit = as_i64 (fr_limit r),
      frt_min_bytes = (case fr_min_bytes r of Some n \<Rightarrow> as_i32 n | None \<Rightarrow> -1),
      frt_max_bytes = (case fr_max_bytes r of Some n \<Rightarrow> as_i32 n | None \<Rightarrow> -1)\<rparr>"

record placement_driver_node =
  pd_name :: string
  pd_advertise_addr :: string
  pd_leader :: bool

record placement_driver_node_t =
  pdt_name :: string
  pdt_advertise_addr :: string
  pdt_is_leader :: bool

definition pd_node_of_t :: "placement_driver_node_t \<Rightarrow> placement_driver_node" where
  "pd_node_of_t t = \<lparr>pd_name = pdt_name t, pd_advertise_addr = pdt_advertise_addr t, pd_leader = pdt_is_leader t\<rparr>"

end
