(* ===== verification/Range_Handlers.thy ===== *)
theory Range_Handlers
  imports Range_Manager Record_Batch Frame_Codec Rpc
begin

text \<open>
  The request handlers of a range server, \<open>src/range-server/src/handler/\<close>: a frame becomes a
  command, the command works on the range manager and fills the response frame. The generated
  FlatBuffers tables are read and packed through the parameter \<open>rpc_codec\<close>; what the object
  storage and the store answer to a fetch are arguments. An append works in two steps: the part up
  to the first wait, which checks the barrier of every request and starts it in the store, and the
  part after all results are there. Trace messages and metrics are left out.
\<close>

section \<open>Model\<close>

subsection \<open>Responses\<close>

record append_response =
  aresp_entries :: "append_result_entry_t list"
  aresp_status :: status_t

record fetch_response =
  fresp_status :: status_t
  fresp_objects :: "object_metadata_t list"

record range_response =
  rresp_status :: status_t
  rresp_range :: "range_t option"

record heartbeat_request =
  hb_client_id :: "string option"
  hb_client_role :: int

record rpc_codec =
  root_fetch :: "bytes \<Rightarrow> fetch_request_t option"
  root_create_range :: "bytes \<Rightarrow> range_t option"
  root_seal_range :: "bytes \<Rightarrow> range_t option"
  root_heartbeat :: "bytes \<Rightarrow> heartbeat_request option"
  pack_system_error :: "status_t \<Rightarrow> bytes"
  pack_append :: "append_response \<Rightarrow> bytes"
  pack_fetch :: "fetch_response \<Rightarrow> bytes"
  pack_create_range :: "range_response \<Rightarrow> bytes"
  pack_seal_range :: "range_response \<Rightarrow> bytes"
  pack_heartbeat :: "heartbeat_request \<Rightarrow> status_t \<Rightarrow> bytes"

definition status_with :: "error_code \<Rightarrow> string option \<Rightarrow> status_t" where
  "status_with code msg = \<lparr>stt_code = code, stt_message = msg, stt_detail = None\<rparr>"

definition set_header :: "bytes \<Rightarrow> frame \<Rightarrow> frame" where
  "set_header h f = f\<lparr>header := Some h\<rparr>"

definition system_error_frame_bytes :: "rpc_codec \<Rightarrow> error_code \<Rightarrow> string \<Rightarrow> bytes" where
  "system_error_frame_bytes cd code msg = pack_system_error cd (status_with code (Some msg))"

subsection \<open>Create and seal\<close>

definition parse_create_range :: "rpc_codec \<Rightarrow> frame \<Rightarrow> (error_code, range_t) outcome" where
  "parse_create_range cd f =
     (case header f of
        None \<Rightarrow> Err BAD_REQUEST
      | Some buf \<Rightarrow> (case root_create_range cd buf of None \<Rightarrow> Err BAD_REQUEST | Some r \<Rightarrow> Ok r))"

definition apply_create_range :: "rpc_codec \<Rightarrow> range_t \<Rightarrow> manager \<Rightarrow> frame \<Rightarrow> manager \<times> frame" where
  "apply_create_range cd rng m response =
     (case mgr_create_range (rm_of_t rng) m of
        (m', Ok _) \<Rightarrow>
          (m', set_header (pack_create_range cd \<lparr>rresp_status = status_with OK None, rresp_range = Some rng\<rparr>) response)
      | (m', _) \<Rightarrow>
          (m', set_header (pack_create_range cd
                 \<lparr>rresp_status = status_with RS_CREATE_RANGE (Some ''Failed to create range''), rresp_range = None\<rparr>) response))"

definition parse_seal_range :: "rpc_codec \<Rightarrow> frame \<Rightarrow> (error_code, range_t) outcome" where
  "parse_seal_range cd f =
     (case header f of
        None \<Rightarrow> Err BAD_REQUEST
      | Some buf \<Rightarrow> (case root_seal_range cd buf of None \<Rightarrow> Err BAD_REQUEST | Some r \<Rightarrow> Ok r))"

fun seal_error_code :: "service_error \<Rightarrow> error_code" where
  "seal_error_code (ResourceNotFound _) = RANGE_NOT_FOUND"
| "seal_error_code AlreadySealed = RANGE_ALREADY_SEALED"
| "seal_error_code Seal = RS_SEAL_RANGE"
| "seal_error_code _ = RS_INTERNAL_SERVER_ERROR"

definition apply_seal_range :: "rpc_codec \<Rightarrow> range_t \<Rightarrow> manager \<Rightarrow> frame \<Rightarrow> manager \<times> frame" where
  "apply_seal_range cd rng m response =
     (case mgr_seal (rm_of_t rng) m of
        (m', md, Err e) \<Rightarrow>
          (m', set_header (pack_seal_range cd
                 \<lparr>rresp_status = status_with (seal_error_code e) (Some ''Failed to seal''), rresp_range = None\<rparr>) response)
      | (m', md, _) \<Rightarrow>
          (m', set_header (pack_seal_range cd
                 \<lparr>rresp_status = status_with OK (Some ''OK''), rresp_range = Some (rm_to_t md)\<rparr>) response))"

subsection \<open>Fetch\<close>

definition parse_fetch :: "rpc_codec \<Rightarrow> frame \<Rightarrow> (error_code, fetch_request_t) outcome" where
  "parse_fetch cd f =
     (case header f of
        None \<Rightarrow> Err BAD_REQUEST
      | Some buf \<Rightarrow> (case root_fetch cd buf of None \<Rightarrow> Err BAD_REQUEST | Some r \<Rightarrow> Ok r))"

definition build_read_opt :: "fetch_request_t \<Rightarrow> manager \<Rightarrow> (fetch_error, read_options) outcome" where
  "build_read_opt r m =
     (let stream_id = int_as_u64 (rt_stream_id (frt_range r)); range_index = rt_index (frt_range r) in
      if frt_offset r < 0 then Err FetchBadRequest
      else if mgr_has_range stream_id (int_as_u32 range_index) m
      then Ok \<lparr>ro_stream_id = stream_id, ro_range = int_as_u32 range_index, ro_offset = nat (frt_offset r),
               ro_max_offset = int_as_u64 (frt_limit r), ro_max_wait_ms = frt_max_wait_ms r,
               ro_max_bytes = frt_max_bytes r\<rparr>
      else Err FetchRangeNotFound)"

fun fetch_error_code :: "fetch_error \<Rightarrow> error_code" where
  "fetch_error_code FetchSubmissionQueue = RS_INTERNAL_SERVER_ERROR"
| "fetch_error_code FetchChannelRecv = RS_INTERNAL_SERVER_ERROR"
| "fetch_error_code TranslateIndex = RS_INTERNAL_SERVER_ERROR"
| "fetch_error_code NoRecord = NO_NEW_RECORD"
| "fetch_error_code FetchRangeNotFound = RANGE_NOT_FOUND"
| "fetch_error_code FetchBadRequest = BAD_REQUEST"
| "fetch_error_code FetchDataCorrupted = RS_DATA_CORRUPTED"

definition handle_fetch_error :: "rpc_codec \<Rightarrow> fetch_error \<Rightarrow> frame \<Rightarrow> frame" where
  "handle_fetch_error cd e response =
     set_header (pack_fetch cd
       \<lparr>fresp_status = status_with (fetch_error_code e) (Some ''fetch error''), fresp_objects = []\<rparr>) response"

text \<open>
  The default build leaves the read options alone when objects cover the request. \<open>objects\<close> and
  \<open>store\<close> are the answers of the object storage and of the store.
\<close>

definition apply_fetch :: "rpc_codec \<Rightarrow> (read_options \<Rightarrow> object_metadata list) \<Rightarrow>
    (read_options \<Rightarrow> (fetch_error, bytes list list) outcome) \<Rightarrow> fetch_request_t \<Rightarrow> manager \<Rightarrow> frame \<Rightarrow> frame" where
  "apply_fetch cd objects store r m response =
     (case build_read_opt r m of
        Err e \<Rightarrow> handle_fetch_error cd e response
      | Panic \<Rightarrow> response
      | Ok opt \<Rightarrow>
          let ok = (\<lambda>pl. set_header (pack_fetch cd
                 \<lparr>fresp_status = status_with OK None, fresp_objects = map metadata_t_of_om (objects opt)\<rparr>)
               (response\<lparr>payload := pl\<rparr>)) in
          if ro_offset opt \<ge> ro_max_offset opt \<or> ro_max_bytes opt = 0 then ok None
          else (case store opt of
                  Ok results \<Rightarrow> if results = [] then handle_fetch_error cd NoRecord response else ok (Some (concat results))
                | Err e \<Rightarrow> handle_fetch_error cd e response
                | Panic \<Rightarrow> response))"

subsection \<open>Append\<close>

definition parse_append :: "frame \<Rightarrow> (error_code, bytes) outcome" where
  "parse_append f = (case payload f of Some [buf] \<Rightarrow> Ok buf | _ \<Rightarrow> Err BAD_REQUEST)"

definition replicated :: "fb_meta \<Rightarrow> bytes \<Rightarrow> (error_code, bool) outcome" where
  "replicated fb pl =
     (case parse_append_entry fb pl of
        Ok (Some e, _) \<Rightarrow> Ok (ae_offset e \<noteq> None)
      | Ok (None, _) \<Rightarrow> Panic
      | Err _ \<Rightarrow> Err BAD_REQUEST
      | Panic \<Rightarrow> Panic)"

function build_store_requests :: "fb_meta \<Rightarrow> bytes \<Rightarrow> (error_code, append_request list) outcome" where
  "build_store_requests fb pl =
     (case parse_append_entry fb pl of
        Ok (Some e, n) \<Rightarrow>
          (case ae_offset e of
             None \<Rightarrow> Err BAD_REQUEST
           | Some offset \<Rightarrow>
               fmap_ok (\<lambda>rs. \<lparr>req_stream_id = ae_stream_id e, req_range_index = as_i32 (ae_index e), req_offset = offset,
                              req_len = ae_len e, req_buffer = take n pl\<rparr> # rs)
                 (build_store_requests fb (drop n pl)))
      | Ok (None, _) \<Rightarrow> Ok []
      | Err _ \<Rightarrow> Err BAD_REQUEST
      | Panic \<Rightarrow> Panic)"
  by auto

termination
  by (relation "measure (\<lambda>(fb, p). length p)") (auto dest!: parse_append_entry_progress)

declare build_store_requests.simps [simp del]

datatype started = NotStarted append_error | Started append_start

text \<open>The futures are polled in the order of the requests; sender \<open>tx + i\<close> belongs to the i-th.\<close>

fun append_begin :: "nat \<Rightarrow> append_request list \<Rightarrow> manager \<Rightarrow> manager \<times> started list" where
  "append_begin tx [] m = (m, [])"
| "append_begin tx (q # qs) m =
     (let (m1, s) = (case mgr_check_barrier (req_stream_id q) (req_range_index q) (req_offset q) (req_len q) m of
                       (m1, Ok _) \<Rightarrow> (case mgr_append tx q m1 of (m2, st) \<Rightarrow> (m2, Started st))
                     | (m1, Err e) \<Rightarrow> (m1, NotStarted e)
                     | (m1, Panic) \<Rightarrow> (m1, NotStarted AppendInternal));
          (m2, ss) = append_begin (Suc tx) qs m1
      in (m2, s # ss))"

fun append_error_code :: "append_error \<Rightarrow> error_code" where
  "append_error_code RangeNotFound = RANGE_NOT_FOUND"
| "append_error_code RangeSealed = RANGE_ALREADY_SEALED"
| "append_error_code BadRequest = BAD_REQUEST"
| "append_error_code Committed = APPEND_TO_COMMITTED_OFFSET"
| "append_error_code Inflight = APPEND_TO_PENDING_OFFSET"
| "append_error_code OutOfOrder = APPEND_TO_OVERTAKEN_OFFSET"
| "append_error_code _ = RS_INTERNAL_SERVER_ERROR"

definition error_entry :: "error_code \<Rightarrow> append_result_entry_t" where
  "error_entry code = \<lparr>aret_status = status_with code (Some ''append error''), aret_timestamp_ms = 0\<rparr>"

definition commit_error_code :: "service_error \<Rightarrow> error_code" where
  "commit_error_code e = (case e of AlreadySealed \<Rightarrow> RANGE_ALREADY_SEALED | _ \<Rightarrow> RS_INTERNAL_SERVER_ERROR)"

text \<open>\<open>now\<close> is \<open>Utc::now().timestamp()\<close>, a number of seconds.\<close>

fun append_finish :: "int \<Rightarrow> (append_error, append_result) outcome list \<Rightarrow> manager \<Rightarrow> manager \<times> append_result_entry_t list" where
  "append_finish now [] m = (m, [])"
| "append_finish now (r # rs) m =
     (let (m1, e) = (case r of
                       Ok a \<Rightarrow>
                         (case mgr_commit (ar_stream_id a) (as_i32 (ar_range_index a)) (ar_offset a) (ar_last_offset_delta a) m of
                            (m1, Err err) \<Rightarrow> (m1, error_entry (commit_error_code err))
                          | (m1, _) \<Rightarrow> (m1, \<lparr>aret_status = status_with OK None, aret_timestamp_ms = now\<rparr>))
                     | Err err \<Rightarrow> (m, error_entry (append_error_code err))
                     | Panic \<Rightarrow> (m, error_entry RS_INTERNAL_SERVER_ERROR));
          (m2, es) = append_finish now rs m1
      in (m2, e # es))"

text \<open>What an append request starts: nothing (the response is final), or a list of futures.\<close>

datatype append_stage = AppendDone frame | AppendStarted "started list" | AppendPanic

definition apply_append_begin :: "rpc_codec \<Rightarrow> fb_meta \<Rightarrow> nat \<Rightarrow> bytes \<Rightarrow> manager \<Rightarrow> frame \<Rightarrow> manager \<times> append_stage" where
  "apply_append_begin cd fb tx pl m response =
     (case replicated fb pl of
        Err e \<Rightarrow> (m, AppendDone (set_header (system_error_frame_bytes cd e ''Bad Request'') (flag_system_err response)))
      | Panic \<Rightarrow> (m, AppendPanic)
      | Ok False \<Rightarrow> (m, AppendDone response)
      | Ok True \<Rightarrow>
          (case build_store_requests fb pl of
             Err e \<Rightarrow> (m, AppendDone (set_header (system_error_frame_bytes cd e ''Invalid request'') (flag_system_err response)))
           | Panic \<Rightarrow> (m, AppendPanic)
           | Ok qs \<Rightarrow> (case append_begin tx qs m of (m', ss) \<Rightarrow> (m', AppendStarted ss))))"

definition apply_append_finish :: "rpc_codec \<Rightarrow> int \<Rightarrow> (append_error, append_result) outcome list \<Rightarrow> manager \<Rightarrow> frame
    \<Rightarrow> manager \<times> frame" where
  "apply_append_finish cd now results m response =
     (case append_finish now results m of (m', es) \<Rightarrow>
        (m', set_header (pack_append cd \<lparr>aresp_entries = es, aresp_status = status_with OK None\<rparr>) response))"

subsection \<open>Commands\<close>

datatype command =
    CmdAppend bytes
  | CmdFetch fetch_request_t
  | CmdCreateRange range_t
  | CmdSealRange range_t
  | CmdPing frame
  | CmdHeartbeat heartbeat_request

definition parse_heartbeat :: "rpc_codec \<Rightarrow> frame \<Rightarrow> (error_code, heartbeat_request) outcome" where
  "parse_heartbeat cd f =
     (case header f of
        None \<Rightarrow> Err BAD_REQUEST
      | Some buf \<Rightarrow> (case root_heartbeat cd buf of None \<Rightarrow> Err BAD_REQUEST | Some r \<Rightarrow> Ok r))"

definition from_frame :: "rpc_codec \<Rightarrow> frame \<Rightarrow> (error_code, command) outcome" where
  "from_frame cd f =
     (let op = unat (operation_code f) in
      if op = 0x0001 then Ok (CmdPing f)
      else if op = 0x0003 then fmap_ok CmdHeartbeat (parse_heartbeat cd f)
      else if op = 0x1001 then fmap_ok CmdAppend (parse_append f)
      else if op = 0x1002 then fmap_ok CmdFetch (parse_fetch cd f)
      else if op = 0x2004 then fmap_ok CmdCreateRange (parse_create_range cd f)
      else if op = 0x2002 then fmap_ok CmdSealRange (parse_seal_range cd f)
      else Err UNSUPPORTED_OPERATION)"

definition apply_ping :: "frame \<Rightarrow> frame \<Rightarrow> frame" where
  "apply_ping request response = response\<lparr>header := header request, payload := payload request\<rparr>"

definition apply_heartbeat :: "rpc_codec \<Rightarrow> heartbeat_request \<Rightarrow> frame \<Rightarrow> frame" where
  "apply_heartbeat cd r response = set_header (pack_heartbeat cd r (status_with OK (Some ''OK''))) response"

text \<open>The response frame a call starts from, and the one for a frame that is no command.\<close>

definition call_response :: "u32 \<Rightarrow> frame \<Rightarrow> (frame_error, frame) outcome" where
  "call_response counter request =
     bind_outcome (frame_new counter (operation_code request)) (\<lambda>(response, _).
       Ok (flag_end_of_response_stream (response\<lparr>stream_id := stream_id request\<rparr>)))"

definition call_rejected :: "rpc_codec \<Rightarrow> error_code \<Rightarrow> frame \<Rightarrow> frame" where
  "call_rejected cd e response = set_header (pack_system_error cd (status_with e None)) (flag_system_err response)"

section \<open>Requests of encoded batches\<close>

definition request_of :: "fb_meta \<Rightarrow> record_batch \<Rightarrow> append_request" where
  "request_of fb b =
     (let e = entry_of_meta (rb_metadata b) in
      \<lparr>req_stream_id = ae_stream_id e, req_range_index = as_i32 (ae_index e), req_offset = nat (m_base_offset (rb_metadata b)),
       req_len = ae_len e, req_buffer = encode_batch fb b\<rparr>)"

definition batches_ok :: "fb_meta \<Rightarrow> record_batch list \<Rightarrow> bool" where
  "batches_ok fb bs \<longleftrightarrow>
     fb_meta_ok fb (rb_metadata ` set bs) \<and> (\<forall>b \<in> set bs. batch_fits fb b \<and> 0 \<le> m_base_offset (rb_metadata b))"

definition encode_batches :: "fb_meta \<Rightarrow> record_batch list \<Rightarrow> bytes" where
  "encode_batches fb bs = concat (map (encode_batch fb) bs)"

lemma parse_append_entry_batch:
  assumes "fb_root fb (fb_pack fb (rb_metadata b)) = Some (rb_metadata b)" "batch_fits fb b"
  shows "parse_append_entry fb (encode_batch fb b @ rest) =
    Ok (Some (entry_of_meta (rb_metadata b)), length (encode_batch fb b))"
  using parse_append_entry_bytes [OF batch_fits_flat [OF assms(2)], of fb "rb_metadata b"] assms(1)
  by (simp add: encode_batch_flat init_from_struct_def)

lemma build_store_requests_batches:
  "batches_ok fb bs \<Longrightarrow> build_store_requests fb (encode_batches fb bs) = Ok (map (request_of fb) bs)"
proof (induction bs)
  case Nil
  show ?case by (simp add: encode_batches_def build_store_requests.simps parse_append_entry_def)
next
  case (Cons b bs)
  have b: "fb_root fb (fb_pack fb (rb_metadata b)) = Some (rb_metadata b)" "batch_fits fb b" "0 \<le> m_base_offset (rb_metadata b)"
    and bs: "batches_ok fb bs"
    using Cons.prems by (simp_all add: batches_ok_def fb_meta_ok_def)
  have "encode_batches fb (b # bs) = encode_batch fb b @ encode_batches fb bs" by (simp add: encode_batches_def)
  then show ?case
    using parse_append_entry_batch [OF b(1,2), of "encode_batches fb bs"] Cons.IH [OF bs] b(3)
    by (simp add: build_store_requests.simps [of fb "encode_batch fb b @ encode_batches fb bs"]
        request_of_def entry_of_meta_def Let_def)
qed

section \<open>An append from frame to commit\<close>

text \<open>A range that takes the append at an offset next, in the window and in the store's buffer.\<close>

definition ready :: "u64 \<Rightarrow> int \<Rightarrow> u64 \<Rightarrow> srv_range \<Rightarrow> manager \<Rightarrow> bool" where
  "ready sid idx n r m \<longleftrightarrow>
     mgr_ok m \<and> mgr_get_range_mut sid idx m = Some r \<and>
     (\<exists>w. rg_window r = Some w \<and> win_next w = n \<and> win_committed w \<le> n) \<and>
     range_buffer_of sid (int_as_u32 idx) (buffer m) = Some \<lparr>rbuf_next = n, rbuf_buffered = []\<rparr>"

definition same_books :: "srv_range \<Rightarrow> srv_range \<Rightarrow> bool" where
  "same_books r r' \<longleftrightarrow> rg_metadata r' = rg_metadata r \<and> rg_committed r' = rg_committed r \<and>
     map_option win_committed (rg_window r') = map_option win_committed (rg_window r)"

lemma mgr_set_range_buffer [simp]: "buffer (mgr_set_range sid i r m) = buffer m"
  by (simp add: mgr_set_range_def split: option.split)

lemma mgr_get_range_mut_buffer [simp]: "mgr_get_range_mut sid i (m\<lparr>buffer := b\<rparr>) = mgr_get_range_mut sid i m"
  by (simp add: mgr_get_range_mut_def)

lemma mgr_ok_buffer [simp]: "mgr_ok (m\<lparr>buffer := b\<rparr>) = mgr_ok m"
  by (simp add: mgr_ok_def)

lemma bs_append_next:
  assumes "range_buffer_of (req_stream_id q) (int_as_u32 (req_range_index q)) b = Some \<lparr>rbuf_next = req_offset q, rbuf_buffered = []\<rparr>"
  shows "\<exists>b'. bs_append tx q b = (b', Forward [q] []) \<and>
     range_buffer_of (req_stream_id q) (int_as_u32 (req_range_index q)) b' =
       Some \<lparr>rbuf_next = req_offset q + req_len q, rbuf_buffered = []\<rparr>"
proof -
  have peek: "heap_peek [] = None" by (simp add: heap_peek_def)
  show ?thesis using assms
    by (auto simp: range_buffer_of_def bs_append_def stbuf_fast_forward_def stream_buffer_of_def sbuf_fast_forward_def
        rbuf_fast_forward_def sbuf_put_def stbuf_drain_def sbuf_drain_def rbuf_drain_def peek Let_def split: option.splits)
qed

lemma append_begin_one:
  assumes "ready sid idx n r m" and "req_stream_id q = sid" "req_range_index q = idx" "req_offset q = n"
  shows "\<exists>m1 m2 r'. mgr_check_barrier sid idx n (req_len q) m = (m1, Ok ()) \<and>
     mgr_append tx q m1 = (m2, Forward [q] []) \<and> ready sid idx (n + req_len q) r' m2 \<and> same_books r r'"
proof -
  from assms(1) obtain w where ok: "mgr_ok m" and r: "mgr_get_range_mut sid idx m = Some r"
    and w: "rg_window r = Some w" "win_next w = n" "win_committed w \<le> n"
    and buf: "range_buffer_of sid (int_as_u32 idx) (buffer m) = Some \<lparr>rbuf_next = n, rbuf_buffered = []\<rparr>"
    by (auto simp: ready_def)
  let ?r' = "r\<lparr>rg_window := Some (w\<lparr>win_next := n + req_len q\<rparr>)\<rparr>"
  let ?m1 = "mgr_set_range sid idx ?r' m"
  have check: "mgr_check_barrier sid idx n (req_len q) m = (?m1, Ok ())"
    using r w by (simp add: mgr_check_barrier_def win_check_barrier_def)
  have "rg_index ?r' = idx" using mgr_get_range_mut_index [OF r] by (simp add: rg_index_def)
  note l = mgr_set_range_lookup [OF ok r this]
  obtain b' where b': "bs_append tx q (buffer m) = (b', Forward [q] [])"
    "range_buffer_of sid (int_as_u32 idx) b' = Some \<lparr>rbuf_next = n + req_len q, rbuf_buffered = []\<rparr>"
    using bs_append_next [of q "buffer m" tx] buf assms(2-4) by auto
  have "ready sid idx (n + req_len q) ?r' (?m1\<lparr>buffer := b'\<rparr>)"
    using l w b' by (auto simp: ready_def)
  moreover have "same_books r ?r'" using w by (simp add: same_books_def)
  moreover have "mgr_append tx q ?m1 = (?m1\<lparr>buffer := b'\<rparr>, Forward [q] [])" using b' by (simp add: mgr_append_def)
  ultimately show ?thesis using check by blast
qed

lemma append_begin_ready:
  assumes "ready sid idx n r m" and "chained n qs" "same_range sid idx qs"
  shows "\<exists>m' r'. append_begin tx qs m = (m', map (\<lambda>q. Started (Forward [q] [])) qs) \<and>
     ready sid idx (end_of n qs) r' m' \<and> same_books r r'"
  using assms
proof (induction qs arbitrary: n r m tx)
  case (Cons q qs)
  have q: "req_stream_id q = sid" "req_range_index q = idx" "req_offset q = n" "same_range sid idx qs"
    using Cons.prems(2,3) by (simp_all add: same_range_def)
  from append_begin_one [OF Cons.prems(1) q(1-3)] obtain m1 m2 r2 where
    one: "mgr_check_barrier sid idx n (req_len q) m = (m1, Ok ())" "mgr_append tx q m1 = (m2, Forward [q] [])"
      "ready sid idx (n + req_len q) r2 m2" "same_books r r2" by blast
  from Cons.IH [OF one(3), of "Suc tx"] Cons.prems(2) q(4) obtain m' r' where
    rest: "append_begin (Suc tx) qs m2 = (m', map (\<lambda>q. Started (Forward [q] [])) qs)"
      "ready sid idx (end_of (n + req_len q) qs) r' m'" "same_books r2 r'" by auto
  have "same_books r r'" using one(4) rest(3) by (simp add: same_books_def)
  with one rest q show ?case by auto
qed (auto simp: same_books_def)

text \<open>The store's answer to a request it wrote at a position of the log.\<close>

definition stored :: "(append_request \<Rightarrow> u64) \<Rightarrow> append_request \<Rightarrow> (append_error, append_result) outcome" where
  "stored pos q = Ok \<lparr>ar_stream_id = req_stream_id q, ar_range_index = int_as_u32 (req_range_index q), ar_offset = req_offset q,
     ar_last_offset_delta = req_len q, ar_wal_offset = pos q, ar_bytes_len = length (req_buffer q)\<rparr>"

definition ok_entry :: "int \<Rightarrow> append_result_entry_t" where
  "ok_entry now = \<lparr>aret_status = status_with OK None, aret_timestamp_ms = now\<rparr>"

definition within :: "u64 \<Rightarrow> srv_range \<Rightarrow> bool" where
  "within n r \<longleftrightarrow> rm_start (rg_metadata r) \<le> n \<and> (\<forall>c. rg_committed r = Some c \<longrightarrow> c \<le> n) \<and>
     (\<exists>w. rg_window r = Some w \<and> win_committed w \<le> n)"

lemma append_finish_stored:
  assumes "mgr_ok m" "mgr_get_range_mut sid idx m = Some r" "within n r"
    and "chained n qs" "same_range sid idx qs" "fits_signed 32 idx"
  shows "\<exists>m' r'. append_finish now (map (stored pos) qs) m = (m', map (\<lambda>_. ok_entry now) qs) \<and>
     mgr_get_range_mut sid idx m' = Some r' \<and> (qs \<noteq> [] \<longrightarrow> rg_committed r' = Some (end_of n qs))"
  using assms(1-5)
proof (induction qs arbitrary: m r n)
  case (Cons q qs)
  have q: "req_stream_id q = sid" "req_range_index q = idx" "req_offset q = n" "same_range sid idx qs"
    using Cons.prems(4,5) by (simp_all add: same_range_def)
  have idx: "as_i32 (int_as_u32 idx) = idx" using assms(6) by (simp add: to_signed_to_unsigned)
  obtain r1 res where c: "rg_commit (n + req_len q) r = (r1, res)" by fastforce
  have r1: "res = Ok () \<and> rg_committed r1 = Some (n + req_len q) \<and> within (n + req_len q) r1"
    using c Cons.prems(3) by (auto simp: within_def rg_commit_def win_commit_def Let_def split: option.splits if_splits)
  obtain m1 res' where m1: "mgr_commit sid idx n (req_len q) m = (m1, res')" by fastforce
  have l: "mgr_ok m1" "mgr_get_range_mut sid idx m1 = Some r1" "res' = Ok ()"
    using mgr_commit_lookup [OF Cons.prems(1) m1] Cons.prems(2) c m1 r1 by (auto simp: mgr_commit_def)
  from Cons.IH [OF l(1,2), of "n + req_len q"] r1 Cons.prems(4) q(4) obtain m' r' where
    rest: "append_finish now (map (stored pos) qs) m1 = (m', map (\<lambda>_. ok_entry now) qs)" "mgr_get_range_mut sid idx m' = Some r'"
      "qs \<noteq> [] \<longrightarrow> rg_committed r' = Some (end_of (n + req_len q) qs)" by auto
  have "append_finish now (map (stored pos) (q # qs)) m = (m', map (\<lambda>_. ok_entry now) (q # qs))"
    using m1 l(3) q idx rest(1) by (simp add: stored_def ok_entry_def)
  moreover have "rg_committed r' = Some (end_of n (q # qs))"
    using rest l(2) r1 by (cases "qs = []") auto
  ultimately show ?case using rest(2) by blast
qed auto

section \<open>Properties\<close>

text \<open>
  C4. An append request goes through. For a range that expects offset \<open>n\<close> next, a payload of encoded
  record batches that continue from \<open>n\<close> is taken apart into its batches, all pass the barrier and
  reach the store in order with their own bytes; when the store has written them, every entry of
  the response is OK and the committed offset of the range is the end of the last batch.
\<close>

theorem append_frame_commits:
  assumes "batches_ok fb bs" "bs \<noteq> []" and "chained n (map (request_of fb) bs)" "same_range sid idx (map (request_of fb) bs)"
    and "fits_signed 32 idx" and "ready sid idx n r m" "within n r"
  shows "\<exists>m1 m2 r2. apply_append_begin cd fb tx (encode_batches fb bs) m response =
             (m1, AppendStarted (map (\<lambda>b. Started (Forward [request_of fb b] [])) bs)) \<and>
           append_finish now (map (stored pos \<circ> request_of fb) bs) m1 = (m2, map (\<lambda>_. ok_entry now) bs) \<and>
           mgr_get_range_mut sid idx m2 = Some r2 \<and> rg_committed r2 = Some (end_of n (map (request_of fb) bs))"
proof -
  obtain b bs' where b: "bs = b # bs'" using assms(2) by (cases bs) auto
  have "fb_root fb (fb_pack fb (rb_metadata b)) = Some (rb_metadata b)" "batch_fits fb b" "0 \<le> m_base_offset (rb_metadata b)"
    using assms(1) by (simp_all add: b batches_ok_def fb_meta_ok_def)
  then have rep: "replicated fb (encode_batches fb bs) = Ok True"
    using parse_append_entry_batch [of fb b "encode_batches fb bs'"]
    by (simp add: b replicated_def encode_batches_def entry_of_meta_def)
  obtain m1 r1 where beg: "append_begin tx (map (request_of fb) bs) m =
      (m1, map (\<lambda>q. Started (Forward [q] [])) (map (request_of fb) bs))"
    "ready sid idx (end_of n (map (request_of fb) bs)) r1 m1" "same_books r r1"
    using append_begin_ready [OF assms(6,3,4)] by blast
  have "within n r1" using assms(7) beg(3) by (auto simp: within_def same_books_def)
  with append_finish_stored [of m1 sid idx r1 n "map (request_of fb) bs" now pos] beg(2) assms(2-5) obtain m2 r2 where
    "append_finish now (map (stored pos) (map (request_of fb) bs)) m1 = (m2, map (\<lambda>_. ok_entry now) (map (request_of fb) bs))"
    "mgr_get_range_mut sid idx m2 = Some r2" "rg_committed r2 = Some (end_of n (map (request_of fb) bs))"
    by (auto simp: ready_def)
  with rep build_store_requests_batches [OF assms(1)] beg(1) show ?thesis
    by (simp add: apply_append_begin_def comp_def)
qed

definition sample_codec :: rpc_codec where
  "sample_codec = \<lparr>root_fetch = \<lambda>_. None, root_create_range = \<lambda>_. None, root_seal_range = \<lambda>_. None,
     root_heartbeat = \<lambda>_. None, pack_system_error = \<lambda>_. [], pack_append = \<lambda>_. [], pack_fetch = \<lambda>_. [],
     pack_create_range = \<lambda>_. [], pack_seal_range = \<lambda>_. [], pack_heartbeat = \<lambda>_ _. []\<rparr>"

definition ready_manager :: manager where
  "ready_manager = (fst (mgr_create_range open_range mgr_new))\<lparr>buffer := bs_create_range open_range Map.empty\<rparr>"

theorem append_frame_commits_witness:
  "\<exists>m1 m2 r2. apply_append_begin sample_codec sample_fb 0 (encode_batches sample_fb [sample_batch]) ready_manager sample_frame =
       (m1, AppendStarted [Started (Forward [request_of sample_fb sample_batch] [])]) \<and>
     append_finish 5 [stored (\<lambda>_. 0) (request_of sample_fb sample_batch)] m1 = (m2, [ok_entry 5]) \<and>
     mgr_get_range_mut 1 0 m2 = Some r2 \<and> rg_committed r2 = Some 12"
proof -
  have meta: "rb_metadata sample_batch = sample_meta" by (simp add: sample_batch_def)
  have bs: "batches_ok sample_fb [sample_batch]"
    using sample_fb_ok sample_batch_fits by (simp add: batches_ok_def meta) (simp add: sample_meta_def)
  have req: "req_stream_id (request_of sample_fb sample_batch) = 1" "req_range_index (request_of sample_fb sample_batch) = 0"
    "req_offset (request_of sample_fb sample_batch) = 10" "req_len (request_of sample_fb sample_batch) = 2"
    by (simp_all add: request_of_def meta entry_of_meta_def sample_meta_def to_signed_def)
  have "\<exists>r. ready 1 0 10 r ready_manager \<and> within 10 r"
    by (simp add: ready_def within_def ready_manager_def mgr_eval mgr_ok_def indexed_def range_buffer_of_def bs_create_range_def
        stbuf_create_range_def sbuf_create_range_def stream_buffer_of_def sbuf_new_def sbuf_put_def rbuf_new_def)
  then obtain r where r: "ready 1 0 10 r ready_manager" "within 10 r" by blast
  from append_frame_commits [OF bs _ _ _ _ r, of sample_codec 0 sample_frame 5 "\<lambda>_. 0"] req show ?thesis
    by (simp add: same_range_def fits_signed_def end_of_def)
qed

end
