(* ===== verification/Object_Manager.thy ===== *)
theory Object_Manager
  imports Metadata BTree_Map "HOL-Library.Product_Lexorder"
begin

text \<open>
  The object manager of a range server, \<open>src/components/object-storage/src/object_manager.rs\<close>: it
  keeps the metadata of the objects of every range, follows the resource events of the placement
  driver and answers which objects cover a range of offsets. A loop that may not end is a
  \<open>partial_function\<close> whose value \<open>None\<close> stands for running on. Offsets lie below \<open>2 ^ 63\<close>.
  What is sent to the registered listeners is the result of the operation that sends it.
\<close>

section \<open>Model\<close>

text \<open>\<open>ObjectKey\<close>: the derived order compares the epoch first, then the start offset.\<close>

type_synonym object_key = "u16 \<times> u64"

record object =
  ob_end_offset_delta :: u32
  ob_data_len :: u32
  ob_sparse_index :: bytes

type_synonym objects = "(object_key, object) btree"

definition object_key_of :: "object_metadata \<Rightarrow> object_key" where
  "object_key_of m = (om_epoch m, om_start_offset m)"

definition object_of :: "object_metadata \<Rightarrow> object" where
  "object_of m = \<lparr>ob_end_offset_delta = om_end_offset_delta m, ob_data_len = om_data_len m, ob_sparse_index = om_sparse_index m\<rparr>"

definition gen_object_metadata :: "object_key \<Rightarrow> object \<Rightarrow> object_metadata" where
  "gen_object_metadata k ob =
     \<lparr>om_stream_id = 0, om_range_index = 0, om_epoch = fst k, om_start_offset = snd k,
      om_end_offset_delta = ob_end_offset_delta ob, om_data_len = ob_data_len ob,
      om_sparse_index = ob_sparse_index ob, om_key = None\<rparr>"

subsection \<open>Continuous objects\<close>

definition epoch_min :: "objects \<Rightarrow> u16" where
  "epoch_min objs = (case bt_first objs of Some (k, _) \<Rightarrow> fst k | None \<Rightarrow> 65535)"

definition epoch_max :: "objects \<Rightarrow> u16" where
  "epoch_max objs = (case bt_last objs of Some (k, _) \<Rightarrow> fst k | None \<Rightarrow> 0)"

text \<open>\<open>range(lo..=hi).last()\<close>: the last object of an epoch that starts at or before an offset.\<close>

definition last_before :: "objects \<Rightarrow> u16 \<Rightarrow> u64 \<Rightarrow> (object_key \<times> object) option" where
  "last_before objs epoch offset =
     bt_last (filter (\<lambda>e. (epoch, 0) \<le> fst e \<and> fst e \<le> (epoch, offset)) objs)"

definition covering :: "objects \<Rightarrow> u16 \<Rightarrow> u64 \<Rightarrow> (object_key \<times> object) option" where
  "covering objs epoch offset =
     (case last_before objs epoch offset of
        Some (k, ob) \<Rightarrow> if snd k \<le> offset \<and> offset < snd k + ob_end_offset_delta ob then Some (k, ob) else None
      | None \<Rightarrow> None)"

text \<open>The first loop: the epochs are tried upwards; the counter is a 16-bit integer.\<close>

function find_first :: "objects \<Rightarrow> u16 \<Rightarrow> u16 \<Rightarrow> u64 \<Rightarrow> ('e, u16 \<times> (object_key \<times> object) option) outcome" where
  "find_first objs emax epoch offset =
     (if epoch \<le> emax then
        (case covering objs epoch offset of
           Some e \<Rightarrow> Ok (epoch, Some e)
         | None \<Rightarrow> if epoch = 65535 then Panic else find_first objs emax (epoch + 1) offset)
      else Ok (epoch, None))"
  by auto
termination by (relation "measure (\<lambda>(_, emax, epoch, _). Suc emax - epoch)") auto

declare find_first.simps [simp del]

text \<open>The second loop: the size is a 32-bit sum.\<close>

partial_function (option) continue_loop :: "objects \<Rightarrow> u16 \<Rightarrow> u64 \<Rightarrow> u32 \<Rightarrow> u16 \<Rightarrow> u64 \<Rightarrow> u32 \<Rightarrow> object_metadata list
    \<Rightarrow> ('e, object_metadata list \<times> u64 \<times> u32) outcome option" where
  "continue_loop objs emax end_offset size_hint epoch offset sz acc =
     (if epoch \<le> emax \<and> offset < end_offset \<and> sz < size_hint then
        (case bt_get (epoch, offset) objs of
           Some ob \<Rightarrow>
             if sz + ob_data_len ob \<ge> 2 ^ 32 then Some Panic
             else continue_loop objs emax end_offset size_hint epoch (offset + ob_end_offset_delta ob)
                    (sz + ob_data_len ob) (acc @ [gen_object_metadata (epoch, offset) ob])
         | None \<Rightarrow>
             if epoch = 65535 then Some Panic
             else continue_loop objs emax end_offset size_hint (epoch + 1) offset sz acc)
      else Some (Ok (acc, offset, sz)))"

definition get_continuous_objects :: "objects \<Rightarrow> u64 \<Rightarrow> u64 option \<Rightarrow> u32 option
    \<Rightarrow> ('e, object_metadata list \<times> bool) outcome option" where
  "get_continuous_objects objs start_offset end_offset size_hint =
     (let e = or_default (2 ^ 64 - 1) end_offset; h = or_default (2 ^ 32 - 1) size_hint; emax = epoch_max objs in
      case find_first objs emax (epoch_min objs) start_offset of
        Panic \<Rightarrow> Some Panic
      | Err x \<Rightarrow> Some (Err x)
      | Ok (epoch, found) \<Rightarrow>
          let offset = (case found of Some (k, ob) \<Rightarrow> snd k + ob_end_offset_delta ob | None \<Rightarrow> start_offset);
              acc = (case found of Some (k, ob) \<Rightarrow> [gen_object_metadata k ob] | None \<Rightarrow> [])
          in map_option (fmap_ok (\<lambda>(os, offset, sz). (os, e \<le> offset \<or> h \<le> sz)))
               (continue_loop objs emax e h epoch offset 0 acc))"

subsection \<open>Ranges\<close>

type_synonym range_key = "u64 \<times> u32"

record owner =
  ow_start_offset :: u64
  ow_epoch :: u16

record managed_objects =
  mo_objects :: objects
  mo_owner :: bool
  mo_epoch :: u16
  mo_start_offset :: u64
  mo_offloaded :: bool

definition managed_default :: managed_objects where
  "managed_default = \<lparr>mo_objects = bt_empty, mo_owner = False, mo_epoch = 0, mo_start_offset = 0, mo_offloaded = False\<rparr>"

definition offload_offset :: "managed_objects \<Rightarrow> ('e, u64) outcome option" where
  "offload_offset mo =
     map_option (fmap_ok (\<lambda>(os, _). if os = [] then mo_start_offset mo else om_end_offset (last os)))
       (get_continuous_objects (mo_objects mo) (mo_start_offset mo) None None)"

definition mo_current_owner :: "managed_objects \<Rightarrow> ('e, owner option) outcome option" where
  "mo_current_owner mo =
     (if mo_owner mo
      then map_option (fmap_ok (\<lambda>off. Some \<lparr>ow_start_offset = off, ow_epoch = mo_epoch mo\<rparr>)) (offload_offset mo)
      else Some (Ok None))"

record obj_meta =
  managed :: "range_key \<rightharpoonup> managed_objects"
  other :: "range_key \<rightharpoonup> objects"

definition obj_meta_default :: obj_meta where
  "obj_meta_default = \<lparr>managed = Map.empty, other = Map.empty\<rparr>"

definition add_object :: "object_metadata \<Rightarrow> obj_meta \<Rightarrow> obj_meta \<times> ('e, u64 option) outcome option" where
  "add_object om md =
     (let key = (om_stream_id om, om_range_index om) in
      case managed md key of
        Some mo \<Rightarrow>
          let mo' = mo\<lparr>mo_objects := bt_insert (object_key_of om) (object_of om) (mo_objects mo)\<rparr>
          in (md\<lparr>managed := (managed md)(key \<mapsto> mo')\<rparr>, map_option (fmap_ok Some) (offload_offset mo'))
      | None \<Rightarrow>
          (md\<lparr>other := (other md)(key \<mapsto> bt_insert (object_key_of om) (object_of om) (or_default bt_empty (other md key)))\<rparr>,
           Some (Ok None)))"

definition meta_get_objects :: "range_key \<Rightarrow> u64 \<Rightarrow> u64 \<Rightarrow> u32 \<Rightarrow> obj_meta \<Rightarrow> ('e, object_metadata list \<times> bool) outcome option" where
  "meta_get_objects key start_offset end_offset size_hint md =
     (case (case managed md key of Some mo \<Rightarrow> Some (mo_objects mo) | None \<Rightarrow> other md key) of
        None \<Rightarrow> Some (Ok ([], False))
      | Some objs \<Rightarrow>
          map_option (fmap_ok (\<lambda>(os, cover). (map (\<lambda>om. om\<lparr>om_stream_id := fst key, om_range_index := snd key\<rparr>) os, cover)))
            (get_continuous_objects objs start_offset (Some end_offset) (Some size_hint)))"

definition meta_reset :: "obj_meta \<Rightarrow> obj_meta" where
  "meta_reset md = md\<lparr>managed := Map.empty, other := Map.empty\<rparr>"

text \<open>What the event handlers send: a change of owner, or the progress of a range.\<close>

datatype notice = NoNotice | OwnerNotice range_key "owner option" | ProgressNotice range_key u64

definition handle_added_resource :: "int \<Rightarrow> resource \<Rightarrow> obj_meta \<Rightarrow> obj_meta \<times> ('e, notice) outcome option" where
  "handle_added_resource server_id res md =
     (case res of
        ResourceRange rng \<Rightarrow>
          let key = (rm_stream_id rng, int_as_u32 (rm_index rng)) in
          if held_by rng server_id then
            (case rm_offload_owner rng of
               Some ow \<Rightarrow>
                 let mo = (or_default managed_default (managed md key))
                            \<lparr>mo_owner := (oo_server_id ow = server_id), mo_epoch := int_as_u16 (oo_epoch ow),
                             mo_start_offset := rm_start rng\<rparr>
                 in (md\<lparr>managed := (managed md)(key \<mapsto> mo)\<rparr>,
                     map_option (fmap_ok (OwnerNotice key)) (mo_current_owner mo))
             | None \<Rightarrow> (md, Some (Ok NoNotice)))
          else (md\<lparr>other := (other md)(key \<mapsto> or_default bt_empty (other md key))\<rparr>, Some (Ok NoNotice))
      | ResourceObject om \<Rightarrow>
          (case add_object om md of (md', r) \<Rightarrow>
             (md', map_option (fmap_ok (\<lambda>x. case x of
                Some off \<Rightarrow> ProgressNotice (om_stream_id om, om_range_index om) off | None \<Rightarrow> NoNotice)) r))
      | _ \<Rightarrow> (md, Some (Ok NoNotice)))"

definition on_event :: "int \<Rightarrow> resource_event \<Rightarrow> obj_meta \<Rightarrow> obj_meta \<times> ('e, notice) outcome option" where
  "on_event server_id event md =
     (case ev_type event of
        Listed \<Rightarrow> handle_added_resource server_id (ev_resource event) md
      | Added \<Rightarrow> handle_added_resource server_id (ev_resource event) md
      | Reset \<Rightarrow> (meta_reset md, Some (Ok NoNotice))
      | _ \<Rightarrow> (md, Some (Ok NoNotice)))"

fun list_and_watch :: "int \<Rightarrow> resource_event list \<Rightarrow> obj_meta \<Rightarrow> ('e, obj_meta \<times> notice list) outcome option" where
  "list_and_watch server_id [] md = Some (Ok (md, []))"
| "list_and_watch server_id (ev # evs) md =
     (case on_event server_id ev md of
        (md', Some (Ok n)) \<Rightarrow> map_option (fmap_ok (\<lambda>(md'', ns). (md'', n # ns))) (list_and_watch server_id evs md')
      | (_, Some (Err x)) \<Rightarrow> Some (Err x)
      | (_, Some Panic) \<Rightarrow> Some Panic
      | (_, None) \<Rightarrow> None)"

definition om_get_objects :: "string \<Rightarrow> u64 \<Rightarrow> u32 \<Rightarrow> u64 \<Rightarrow> u64 \<Rightarrow> u32 \<Rightarrow> obj_meta \<Rightarrow> ('e, object_metadata list \<times> bool) outcome option" where
  "om_get_objects cluster stream_id range_index start_offset end_offset size_hint md =
     map_option (fmap_ok (\<lambda>(os, cover). (map (om_gen_object_key cluster) os, cover)))
       (meta_get_objects (stream_id, range_index) start_offset end_offset size_hint md)"

definition get_offloading_range :: "obj_meta \<Rightarrow> range_key set" where
  "get_offloading_range md = {k. case managed md k of Some mo \<Rightarrow> \<not> mo_offloaded mo | None \<Rightarrow> False}"

section \<open>Continuous objects\<close>

text \<open>Each object starts where the one before it ends.\<close>

fun continuous :: "object_metadata list \<Rightarrow> bool" where
  "continuous (a # b # os) \<longleftrightarrow> om_end_offset a = om_start_offset b \<and> continuous (b # os)"
| "continuous _ \<longleftrightarrow> True"

text \<open>An object of the map, as the manager hands it out.\<close>

definition held_object :: "objects \<Rightarrow> object_metadata \<Rightarrow> bool" where
  "held_object objs om \<longleftrightarrow>
     (\<exists>k ob. (k, ob) \<in> set objs \<and> om = gen_object_metadata k ob)"

definition data_size :: "object_metadata list \<Rightarrow> nat" where
  "data_size os = sum_list (map om_data_len os)"

lemma held_objectI [intro]: "(k, ob) \<in> set objs \<Longrightarrow> held_object objs (gen_object_metadata k ob)"
  unfolding held_object_def by blast

lemma continuous_snoc:
  "continuous (os @ [x]) \<longleftrightarrow> continuous os \<and> (os \<noteq> [] \<longrightarrow> om_end_offset (last os) = om_start_offset x)"
  by (induction os rule: continuous.induct) auto

lemma gen_end_offset [simp]: "om_end_offset (gen_object_metadata k ob) = snd k + ob_end_offset_delta ob"
  and gen_start_offset [simp]: "om_start_offset (gen_object_metadata k ob) = snd k"
  and gen_epoch [simp]: "om_epoch (gen_object_metadata k ob) = fst k"
  and gen_data_len [simp]: "om_data_len (gen_object_metadata k ob) = ob_data_len ob"
  by (simp_all add: gen_object_metadata_def om_end_offset_def)

lemma data_size_append [simp]: "data_size (xs @ ys) = data_size xs + data_size ys"
  and data_size_Nil [simp]: "data_size [] = 0"
  and data_size_Cons [simp]: "data_size (x # ys) = om_data_len x + data_size ys"
  by (simp_all add: data_size_def)

lemma epoch_le_max: "bt_wf objs \<Longrightarrow> (k, ob) \<in> set objs \<Longrightarrow> fst k \<le> epoch_max objs"
  by (cases "bt_last objs")
     (auto simp: epoch_max_def bt_last_def less_eq_prod_def dest!: bt_last_greatest [where x = "(k, ob)"] split: if_splits)

lemma covering_Some:
  "covering objs epoch off = Some (k, ob) \<Longrightarrow>
     (k, ob) \<in> set objs \<and> fst k = epoch \<and> snd k \<le> off \<and> off < snd k + ob_end_offset_delta ob"
  by (auto simp: covering_def last_before_def less_eq_prod_def dest!: bt_last_Some split: option.splits if_splits)

lemma find_first_Ok:
  "find_first objs emax epoch off = Ok (epoch', found) \<Longrightarrow>
     (if found = None then emax < epoch' else covering objs epoch' off = found \<and> epoch' \<le> emax)"
proof (induction objs emax epoch off rule: find_first.induct)
  case (1 objs emax epoch off)
  note f = 1(2) [unfolded find_first.simps [of objs emax epoch off]]
  show ?case
  proof (cases "covering objs epoch off")
    case None
    then show ?thesis using f 1(1) by (auto split: if_splits)
  next
    case (Some e)
    then have "if epoch \<le> emax then epoch' = epoch \<and> found = Some e else epoch' = epoch \<and> found = None"
      using f by (simp split: if_splits)
    then show ?thesis using Some by (auto split: if_splits)
  qed
qed

text \<open>What the second loop keeps: the objects gathered so far, and that no epoch passed over had an object at the offset.\<close>

definition loop_inv :: "objects \<Rightarrow> u16 \<Rightarrow> u16 \<Rightarrow> u64 \<Rightarrow> u32 \<Rightarrow> object_metadata list \<Rightarrow> bool" where
  "loop_inv objs emax epoch offset sz acc \<longleftrightarrow>
     (if acc = [] then emax < epoch \<and> sz = 0
      else continuous acc \<and> list_all (held_object objs) acc \<and> om_end_offset (last acc) = offset
         \<and> sz = data_size (tl acc) \<and> om_epoch (last acc) \<le> epoch
         \<and> (\<forall>ep. om_epoch (last acc) \<le> ep \<longrightarrow> ep < epoch \<longrightarrow> bt_get (ep, offset) objs = None))"

lemma loop_inv_hit:
  assumes wf: "bt_wf objs" and i: "loop_inv objs emax epoch offset sz acc" and le: "epoch \<le> emax"
    and g: "bt_get (epoch, offset) objs = Some ob"
  shows "loop_inv objs emax epoch (offset + ob_end_offset_delta ob) (sz + ob_data_len ob)
           (acc @ [gen_object_metadata (epoch, offset) ob])"
proof -
  have "held_object objs (gen_object_metadata (epoch, offset) ob)"
    using g wf by (auto simp: bt_get_Some_iff)
  moreover have "acc \<noteq> []" using i le by (auto simp: loop_inv_def split: if_splits)
  ultimately show ?thesis using i by (simp add: loop_inv_def continuous_snoc)
qed

lemma loop_inv_miss:
  "loop_inv objs emax epoch offset sz acc \<Longrightarrow> bt_get (epoch, offset) objs = None
     \<Longrightarrow> loop_inv objs emax (Suc epoch) offset sz acc"
  by (auto simp: loop_inv_def less_Suc_eq split: if_splits)

lemma continue_loop_inv:
  assumes "continue_loop objs emax e h epoch offset sz acc = Some r" and "bt_wf objs"
    and "loop_inv objs emax epoch offset sz acc" and "r = Ok (os, offset', sz')"
  shows "(\<exists>new. os = acc @ new) \<and> (\<exists>epoch'. loop_inv objs emax epoch' offset' sz' os
           \<and> (emax < epoch' \<or> e \<le> offset' \<or> h \<le> sz'))"
  using assms
proof (induction rule: continue_loop.raw_induct [rotated 1, consumes 1, case_names step])
  case (step f objs emax e h epoch offset sz acc r)
  show ?case
  proof (cases "epoch \<le> emax \<and> offset < e \<and> sz < h")
    case False
    then have "r = Ok (acc, offset, sz)" using step.hyps by auto
    then show ?thesis using step.prems False by auto
  next
    case True
    then show ?thesis
      using step.hyps step.prems
      by (auto split: option.splits if_splits dest!: step.IH intro: loop_inv_miss loop_inv_hit)
  qed
qed

lemma get_continuous_objects_cases:
  assumes g: "get_continuous_objects objs s eo ho = Some (Ok (os, cover) :: ('e, _) outcome)"
    and e: "e = or_default (2 ^ 64 - 1) eo" and h: "h = or_default (2 ^ 32 - 1) ho"
  shows "\<exists>epoch off acc offset sz. loop_inv objs (epoch_max objs) epoch off 0 acc
     \<and> (acc = [] \<and> off = s \<or> (\<exists>x. acc = [x] \<and> om_start_offset x \<le> s \<and> s < om_end_offset x))
     \<and> continue_loop objs (epoch_max objs) e h epoch off 0 acc = Some (Ok (os, offset, sz) :: ('e, _) outcome)
     \<and> cover = (e \<le> offset \<or> h \<le> sz)"
proof (cases "find_first objs (epoch_max objs) (epoch_min objs) s :: ('e, _) outcome")
  case (Ok p)
  obtain epoch found where p: "p = (epoch, found)" by fastforce
  note f = find_first_Ok [OF Ok [unfolded p]]
  show ?thesis
  proof (cases found)
    case None
    then have "loop_inv objs (epoch_max objs) epoch s 0 []" using f by (simp add: loop_inv_def)
    moreover have "\<exists>offset sz. continue_loop objs (epoch_max objs) e h epoch s 0 []
         = Some (Ok (os, offset, sz) :: ('e, _) outcome) \<and> cover = (e \<le> offset \<or> h \<le> sz)"
      using g Ok p None by (auto simp: get_continuous_objects_def Let_def e h outcome_simps)
    ultimately show ?thesis by blast
  next
    case (Some ko)
    obtain k ob where ko: "ko = (k, ob)" by fastforce
    have c: "(k, ob) \<in> set objs \<and> fst k = epoch \<and> snd k \<le> s \<and> s < snd k + ob_end_offset_delta ob"
      using f Some ko by (intro covering_Some) auto
    have "loop_inv objs (epoch_max objs) epoch (snd k + ob_end_offset_delta ob) 0 [gen_object_metadata k ob]"
      using c by (auto simp: loop_inv_def)
    moreover have "\<exists>offset sz. continue_loop objs (epoch_max objs) e h epoch (snd k + ob_end_offset_delta ob) 0 [gen_object_metadata k ob]
         = Some (Ok (os, offset, sz) :: ('e, _) outcome) \<and> cover = (e \<le> offset \<or> h \<le> sz)"
      using g f Ok p Some ko
      by (auto simp: get_continuous_objects_def Let_def e h outcome_simps)
    ultimately show ?thesis using c by fastforce
  qed
qed (use g in \<open>auto simp: get_continuous_objects_def Let_def\<close>)


section \<open>Termination\<close>

lemma sum_filter_drop:
  fixes f :: "'a \<Rightarrow> nat"
  assumes "x \<in> set xs" and "P x" and "\<not> Q x" and QP: "\<And>y. Q y \<Longrightarrow> P y"
  shows "f x + sum_list (map f (filter Q xs)) \<le> sum_list (map f (filter P xs))"
proof -
  have le: "sum_list (map f (filter Q ys)) \<le> sum_list (map f (filter P ys))" for ys
    by (induction ys) (auto dest: QP intro: le_SucI)
  show ?thesis using assms(1-3)
  proof (induction xs)
    case (Cons y ys)
    then show ?case using le [of ys] by (cases "x = y") (auto dest: QP)
  qed simp
qed

text \<open>The objects that a loop standing at an offset can still reach.\<close>

definition ahead :: "u64 \<Rightarrow> objects \<Rightarrow> (object_key \<times> object) list" where
  "ahead offset objs = filter (\<lambda>e. offset \<le> snd (fst e)) objs"

definition stored :: "objects \<Rightarrow> nat" where
  "stored objs = sum_list (map (\<lambda>e. ob_data_len (snd e)) objs)"

lemma ahead_step:
  assumes "((epoch, offset), ob) \<in> set objs" and "0 < ob_end_offset_delta ob"
  shows "length (ahead (offset + ob_end_offset_delta ob) objs) < length (ahead offset objs)"
    and "ob_data_len ob + stored (ahead (offset + ob_end_offset_delta ob) objs) \<le> stored (ahead offset objs)"
  using sum_filter_drop [OF assms(1), of "\<lambda>e. offset \<le> snd (fst e)" "\<lambda>e. offset + ob_end_offset_delta ob \<le> snd (fst e)" "\<lambda>_. 1"]
    sum_filter_drop [OF assms(1), of "\<lambda>e. offset \<le> snd (fst e)" "\<lambda>e. offset + ob_end_offset_delta ob \<le> snd (fst e)"
      "\<lambda>e. ob_data_len (snd e)"] assms(2)
  by (simp_all add: ahead_def stored_def sum_list_triv)

lemma continue_loop_returns:
  assumes wf: "bt_wf objs" and pos: "\<And>k ob. (k, ob) \<in> set objs \<Longrightarrow> 0 < ob_end_offset_delta ob" and em: "emax < 65535"
  shows "sz + stored (ahead offset objs) < 2 ^ 32 \<Longrightarrow>
    \<exists>r. continue_loop objs emax e h epoch offset sz acc = Some (Ok r :: ('e, _) outcome)"
proof (induction "Suc emax - epoch + length (ahead offset objs)" arbitrary: epoch offset sz acc rule: less_induct)
  case less
  show ?case
  proof (cases "epoch \<le> emax \<and> offset < e \<and> sz < h")
    case True
    show ?thesis
    proof (cases "bt_get (epoch, offset) objs")
      case None
      have "\<exists>r. continue_loop objs emax e h (Suc epoch) offset sz acc = Some (Ok r :: ('e, _) outcome)"
        using True less.prems by (intro less.hyps) auto
      then show ?thesis
        using True em None by (simp add: continue_loop.simps [of objs emax e h epoch])
    next
      case (Some ob)
      then have m: "((epoch, offset), ob) \<in> set objs" using wf by (simp add: bt_get_Some_iff)
      note st = ahead_step [OF m pos [OF m]]
      have "\<exists>r. continue_loop objs emax e h epoch (offset + ob_end_offset_delta ob) (sz + ob_data_len ob)
              (acc @ [gen_object_metadata (epoch, offset) ob]) = Some (Ok r :: ('e, _) outcome)"
        using True st less.prems by (intro less.hyps) auto
      then show ?thesis
        using True Some st(2) less.prems by (simp add: continue_loop.simps [of objs emax e h epoch])
    qed
  qed (subst continue_loop.simps, auto)
qed

lemma find_first_returns: "emax < 65535 \<Longrightarrow> \<exists>r. find_first objs emax epoch off = Ok r"
proof (induction objs emax epoch off rule: find_first.induct)
  case (1 objs emax epoch off)
  then show ?case
    by (cases "covering objs epoch off") (auto simp: find_first.simps [of objs emax epoch off])
qed

lemma stored_ahead_le: "stored (ahead offset objs) \<le> stored objs"
  unfolding stored_def ahead_def by (induction objs) (auto intro: le_SucI trans_le_add2)


section \<open>The size counter\<close>

text \<open>Objects of one epoch, each starting where the one before it ends.\<close>

fun linked :: "objects \<Rightarrow> u16 \<Rightarrow> u64 \<Rightarrow> object list \<Rightarrow> bool" where
  "linked objs ep off [] \<longleftrightarrow> True"
| "linked objs ep off (ob # obs) \<longleftrightarrow> bt_get (ep, off) objs = Some ob \<and> linked objs ep (off + ob_end_offset_delta ob) obs"

lemma bt_last_eqI:
  "bt_wf m \<Longrightarrow> (k, v) \<in> set m \<Longrightarrow> (\<And>e. e \<in> set m \<Longrightarrow> fst e \<le> k) \<Longrightarrow> bt_last m = Some (k, v)"
proof -
  assume a: "bt_wf m" "(k, v) \<in> set m" "\<And>e. e \<in> set m \<Longrightarrow> fst e \<le> k"
  have "m \<noteq> []" using a(2) by auto
  then obtain e where e: "bt_last m = Some e" by (simp add: bt_last_def)
  then have "fst e = k" using a(3) [OF bt_last_Some [OF e]] bt_last_greatest [OF a(1) e a(2)] by simp
  then have "e = (k, v)"
    using bt_last_Some [OF e] a(2) eq_key_imp_eq_value [OF bt_wf_distinct [OF a(1)]] by (cases e) auto
  then show ?thesis using e by simp
qed

lemma covering_at:
  assumes "bt_wf objs" and "bt_get (ep, off) objs = Some ob" and "0 < ob_end_offset_delta ob"
  shows "covering objs ep off = Some ((ep, off), ob)"
proof -
  have "last_before objs ep off = Some ((ep, off), ob)"
    unfolding last_before_def using assms
    by (intro bt_last_eqI) (auto simp: bt_wf_filter bt_get_Some_iff less_eq_prod_def)
  then show ?thesis using assms(3) by (simp add: covering_def)
qed

lemma continue_loop_linked:
  assumes "linked objs ep off (obs @ [x])" and "ep \<le> emax"
    and "off + sum_list (map ob_end_offset_delta obs) < e"
    and "sz + sum_list (map ob_data_len obs) < h" and "h < 2 ^ 32"
    and "2 ^ 32 \<le> sz + sum_list (map ob_data_len obs) + ob_data_len x"
  shows "continue_loop objs emax e h ep off sz acc = Some (Panic :: ('e, _) outcome)"
  using assms
proof (induction obs arbitrary: off sz acc)
  case Nil
  then show ?case by (simp add: continue_loop.simps)
next
  case (Cons ob obs)
  have "continue_loop objs emax e h ep (off + ob_end_offset_delta ob) (sz + ob_data_len ob)
          (acc @ [gen_object_metadata (ep, off) ob]) = Some (Panic :: ('e, _) outcome)"
    using Cons.prems by (intro Cons.IH) (auto simp: add.assoc)
  then show ?case using Cons.prems by (simp add: continue_loop.simps [of objs emax e h ep off])
qed

text \<open>
  The offload offset of a range is computed with no size limit, and the sum of the object
  sizes it keeps is a 32-bit integer: once the continuous objects after the first one of a range
  hold 4 GiB or more (and do not hit the largest 32-bit integer exactly), computing the offload
  offset overflows, which aborts the process.
\<close>

theorem offload_offset_overflows:
  assumes wf: "bt_wf (mo_objects mo)" and ep: "ep = epoch_min (mo_objects mo)"
    and l: "linked (mo_objects mo) ep (mo_start_offset mo) (first # obs @ [x])" and pos: "0 < ob_end_offset_delta first"
    and off: "mo_start_offset mo + sum_list (map ob_end_offset_delta (first # obs)) < 2 ^ 64 - 1"
    and below: "sum_list (map ob_data_len obs) < 2 ^ 32 - 1"
    and above: "2 ^ 32 \<le> sum_list (map ob_data_len obs) + ob_data_len x"
  shows "offload_offset mo = Some (Panic :: ('e, u64) outcome)"
proof -
  let ?objs = "mo_objects mo" and ?s = "mo_start_offset mo"
  have g: "bt_get (ep, ?s) ?objs = Some first" using l by simp
  then have le: "ep \<le> epoch_max ?objs" using wf epoch_le_max [OF wf, of "(ep, ?s)" first] by (simp add: bt_get_Some_iff)
  have ff: "find_first ?objs (epoch_max ?objs) (epoch_min ?objs) ?s = (Ok (ep, Some ((ep, ?s), first)) :: ('e, _) outcome)"
    using le covering_at [OF wf g pos] by (simp add: find_first.simps ep)
  have "continue_loop ?objs (epoch_max ?objs) (2 ^ 64 - 1) (2 ^ 32 - 1) ep (?s + ob_end_offset_delta first) 0
      [gen_object_metadata (ep, ?s) first] = Some (Panic :: ('e, _) outcome)"
    using l off below above le by (intro continue_loop_linked [of _ _ _ obs x]) (auto simp: add.assoc)
  then show ?thesis
    by (simp add: offload_offset_def get_continuous_objects_def Let_def ff or_default_def)
qed

section \<open>Events\<close>

text \<open>Every map of the manager is well formed, and every object that is held has its key and contents from the metadata.\<close>

definition meta_wf :: "obj_meta \<Rightarrow> bool" where
  "meta_wf md \<longleftrightarrow> (\<forall>mo \<in> ran (managed md). bt_wf (mo_objects mo)) \<and> (\<forall>objs \<in> ran (other md). bt_wf objs)"

lemma bt_wf_empty [simp]: "bt_wf bt_empty"
  by (simp add: bt_empty_def)

lemma ran_updD: "x \<in> ran (m(k \<mapsto> v)) \<Longrightarrow> x = v \<or> x \<in> ran m"
  by (auto simp: ran_def split: if_splits)

lemma meta_wf_managed: "meta_wf md \<Longrightarrow> managed md k = Some mo \<Longrightarrow> bt_wf (mo_objects mo)"
  by (simp add: meta_wf_def ranI)

lemma meta_wf_other: "meta_wf md \<Longrightarrow> bt_wf (or_default bt_empty (other md k))"
  by (cases "other md k") (auto simp: meta_wf_def or_default_def dest: ranI)

lemma meta_wf_set_managed: "meta_wf md \<Longrightarrow> bt_wf (mo_objects mo) \<Longrightarrow> meta_wf (md\<lparr>managed := (managed md)(k \<mapsto> mo)\<rparr>)"
  by (auto simp: meta_wf_def dest!: ran_updD)

lemma meta_wf_set_other: "meta_wf md \<Longrightarrow> bt_wf objs \<Longrightarrow> meta_wf (md\<lparr>other := (other md)(k \<mapsto> objs)\<rparr>)"
  by (auto simp: meta_wf_def dest!: ran_updD)

lemma meta_wf_default [simp]: "meta_wf obj_meta_default"
  by (simp add: meta_wf_def obj_meta_default_def)

lemma meta_wf_add_object: "meta_wf md \<Longrightarrow> meta_wf (fst (add_object om md))"
  by (cases "managed md (om_stream_id om, om_range_index om)")
     (simp_all add: add_object_def Let_def meta_wf_set_other meta_wf_set_managed meta_wf_other meta_wf_managed bt_wf_insert)

lemma meta_wf_added: "meta_wf md \<Longrightarrow> meta_wf (fst (handle_added_resource server_id res md))"
proof (cases res)
  case (ResourceRange rng)
  assume wf: "meta_wf md"
  let ?k = "(rm_stream_id rng, int_as_u32 (rm_index rng))"
  have "bt_wf (mo_objects (or_default managed_default (managed md ?k)))"
    using meta_wf_managed [OF wf, of ?k] by (cases "managed md ?k") (auto simp: or_default_def managed_default_def)
  then show ?thesis
    using wf ResourceRange meta_wf_other [OF wf]
    by (cases "rm_offload_owner rng") (simp_all add: handle_added_resource_def Let_def meta_wf_set_managed meta_wf_set_other)
next
  case (ResourceObject om)
  assume "meta_wf md"
  then show ?thesis
    using meta_wf_add_object [of md om] ResourceObject by (simp add: handle_added_resource_def case_prod_beta)
qed (simp_all add: handle_added_resource_def)

lemma meta_wf_on_event: "meta_wf md \<Longrightarrow> meta_wf (fst (on_event server_id event md))"
  by (cases "ev_type event")
     (simp_all add: on_event_def meta_wf_added, simp_all add: meta_reset_def meta_wf_def)

text \<open>The objects of a managed range change only by the object events of that range, until a reset.\<close>

definition object_event :: "resource_event \<Rightarrow> object_metadata option" where
  "object_event event =
     (case ev_resource event of
        ResourceObject om \<Rightarrow> if ev_type event \<in> {Listed, Added} then Some om else None
      | _ \<Rightarrow> None)"

definition learn :: "range_key \<Rightarrow> resource_event \<Rightarrow> objects \<Rightarrow> objects" where
  "learn k event objs =
     (case object_event event of
        Some om \<Rightarrow> if (om_stream_id om, om_range_index om) = k then bt_insert (object_key_of om) (object_of om) objs else objs
      | None \<Rightarrow> objs)"

lemma managed_on_event:
  assumes m: "managed md k = Some mo" and nr: "ev_type event \<noteq> Reset"
  shows "\<exists>mo'. managed (fst (on_event server_id event md :: _ \<times> ('e, _) outcome option)) k = Some mo' \<and> mo_objects mo' = learn k event (mo_objects mo)"
proof (cases "ev_type event \<in> {Listed, Added}")
  case True
  then have ev: "(on_event server_id event md :: _ \<times> ('e, _) outcome option) = handle_added_resource server_id (ev_resource event) md"
    by (auto simp: on_event_def)
  show ?thesis
  proof (cases "ev_resource event")
    case (ResourceRange rng)
    have "object_event event = None" using ResourceRange by (simp add: object_event_def)
    then show ?thesis
      unfolding ev using m ResourceRange
      by (cases "rm_offload_owner rng") (auto simp: handle_added_resource_def Let_def learn_def or_default_def)
  next
    case (ResourceObject om)
    then have "object_event event = Some om" using True by (simp add: object_event_def)
    then show ?thesis
      unfolding ev using m ResourceObject
      by (cases "managed md (om_stream_id om, om_range_index om)")
         (auto simp: handle_added_resource_def case_prod_beta add_object_def Let_def learn_def)
  qed (use m in \<open>simp_all add: ev handle_added_resource_def learn_def object_event_def\<close>)
next
  case False
  then have "object_event event = None" by (auto simp: object_event_def split: resource.splits)
  moreover have "fst (on_event server_id event md :: _ \<times> ('e, _) outcome option) = md"
    using False nr by (cases "ev_type event") (simp_all add: on_event_def)
  ultimately show ?thesis using m by (simp add: learn_def)
qed

lemma list_and_watch_Cons:
  "list_and_watch server_id (ev # evs) md = Some (Ok (md', ns) :: ('e, _) outcome) \<Longrightarrow>
     \<exists>n ns'. snd (on_event server_id ev md :: _ \<times> ('e, _) outcome option) = Some (Ok n) \<and> ns = n # ns'
       \<and> list_and_watch server_id evs (fst (on_event server_id ev md :: _ \<times> ('e, _) outcome option)) = Some (Ok (md', ns') :: ('e, _) outcome)"
  by (auto split: prod.splits option.splits outcome.splits simp: outcome_simps)

text \<open>
  C18. The manager's view of a range it holds is exactly the object events received since: through
  any sequence of events without a reset, in any order and with other ranges and streams in
  between, the objects of the range are those it had, with every object listed or added for
  the range entered under its epoch and start offset, and nothing else.
\<close>

theorem managed_objects_follow_events:
  assumes "list_and_watch server_id evs md = Some (Ok (md', ns))"
    and "managed md k = Some mo" and "\<forall>ev \<in> set evs. ev_type ev \<noteq> Reset"
  shows "\<exists>mo'. managed md' k = Some mo' \<and> mo_objects mo' = fold (learn k) evs (mo_objects mo)"
  using assms
proof (induction evs arbitrary: md mo ns)
  case (Cons ev evs)
  from list_and_watch_Cons [OF Cons.prems(1)] obtain ns' where
    r: "list_and_watch server_id evs (fst (on_event server_id ev md :: _ \<times> ('a, _) outcome option)) = Some (Ok (md', ns') :: ('a, _) outcome)"
    by blast
  from managed_on_event [OF Cons.prems(2)] Cons.prems(3) obtain mo1 where
    "managed (fst (on_event server_id ev md :: _ \<times> ('a, _) outcome option)) k = Some mo1"
    "mo_objects mo1 = learn k ev (mo_objects mo)" by (metis list.set_intros(1))
  then show ?case using Cons.IH [OF r] Cons.prems(3) by simp
qed simp

section \<open>Examples\<close>

definition sample_objects :: objects where
  "sample_objects =
     [((0, 0), \<lparr>ob_end_offset_delta = 10, ob_data_len = 100, ob_sparse_index = []\<rparr>),
      ((0, 10), \<lparr>ob_end_offset_delta = 10, ob_data_len = 200, ob_sparse_index = []\<rparr>),
      ((1, 20), \<lparr>ob_end_offset_delta = 10, ob_data_len = 300, ob_sparse_index = []\<rparr>)]"

definition big_objects :: objects where
  "big_objects =
     [((0, 0), \<lparr>ob_end_offset_delta = 10, ob_data_len = 100, ob_sparse_index = []\<rparr>),
      ((0, 10), \<lparr>ob_end_offset_delta = 10, ob_data_len = 2 ^ 31, ob_sparse_index = []\<rparr>),
      ((0, 20), \<lparr>ob_end_offset_delta = 10, ob_data_len = 2 ^ 31, ob_sparse_index = []\<rparr>)]"

lemma sample_continuous:
  "get_continuous_objects sample_objects 5 (Some 25) (Some 1000)
     = Some (Ok (map (\<lambda>(k, ob). gen_object_metadata k ob) sample_objects, True))"
  by (simp add: get_continuous_objects_def sample_objects_def epoch_max_def epoch_min_def bt_first_def bt_last_def
      or_default_def find_first.simps covering_def last_before_def continue_loop.simps bt_get_def less_eq_prod_def Let_def)

lemma sample_objects_wf: "bt_wf sample_objects" "bt_wf big_objects"
  by (simp_all add: sample_objects_def big_objects_def bt_wf_def less_prod_def)



theorem offload_offset_overflows_witness:
  "offload_offset (managed_default\<lparr>mo_objects := big_objects\<rparr>) = Some Panic"
  by (rule offload_offset_overflows [of _ 0 "snd (big_objects ! 0)" "[snd (big_objects ! 1)]" "snd (big_objects ! 2)"])
     (simp_all add: sample_objects_wf, simp_all add: big_objects_def epoch_min_def bt_first_def managed_default_def bt_get_def)

definition sample_object_event :: resource_event where
  "sample_object_event = \<lparr>ev_type = Added, ev_resource = ResourceObject
     ((om_new 1 0 0 0)\<lparr>om_end_offset_delta := 10, om_data_len := 100\<rparr>)\<rparr>"

definition sample_meta :: "objects \<Rightarrow> obj_meta" where
  "sample_meta objs = obj_meta_default\<lparr>managed := [(1, 0) \<mapsto> managed_default\<lparr>mo_objects := objs\<rparr>]\<rparr>"

lemma sample_events_run:
  "list_and_watch 7 [sample_object_event] (sample_meta []) = Some (Ok (sample_meta [hd sample_objects], [ProgressNotice (1, 0) 10]))"
  by (simp add: sample_object_event_def on_event_def handle_added_resource_def add_object_def obj_meta_default_def sample_meta_def
      sample_objects_def managed_default_def om_new_def object_key_of_def object_of_def offload_offset_def
      get_continuous_objects_def epoch_max_def epoch_min_def bt_first_def bt_last_def
      or_default_def find_first.simps covering_def last_before_def continue_loop.simps bt_get_def Let_def)

theorem managed_objects_follow_events_witness:
  "\<exists>mo'. managed (sample_meta [hd sample_objects]) (1, 0) = Some mo'
     \<and> mo_objects mo' = fold (learn (1, 0)) [sample_object_event] []"
  using managed_objects_follow_events [OF sample_events_run, of "(1, 0)" "managed_default\<lparr>mo_objects := []\<rparr>"]
  by (simp add: sample_object_event_def sample_meta_def)

end
