(* ===== verification/Range_Offload.thy ===== *)
theory Range_Offload
  imports Record_Batch Object_Manager
begin

text \<open>
  Writing the records of a range to objects, \<open>src/components/object-storage/src/range_offload.rs\<close>:
  the sparse index, the layout of an object, objects written in one piece and objects written in
  parts. An object in parts is written by a task of its own that takes the events of its channel
  in order; the model runs that task over the events when the object is closed. Writing to
  the object store and committing to the placement driver are retried without end by the code,
  and taken to succeed.
\<close>

section \<open>Model\<close>

definition SPARSE_SIZE :: u32 where
  "SPARSE_SIZE = 16 * 1024 * 1024"

subsection \<open>Sparse index\<close>

definition meta_end_offset :: "record_batch_meta \<Rightarrow> ('e, u64) outcome" where
  "meta_end_offset m =
     (let e = int_as_u64 (m_base_offset m) + int_as_u64 (m_last_offset_delta m) in
      if e \<ge> 2 ^ 64 then Panic else Ok e)"

record index_state =
  ix_cursor :: bytes
  ix_bytes :: bytes
  ix_pass :: u32
  ix_pos :: u32
  ix_last :: u32

definition index_entry :: "fb_meta \<Rightarrow> u64 \<Rightarrow> bytes \<Rightarrow> u32 \<Rightarrow> (decode_error, bytes) outcome" where
  "index_entry fb start_offset metadata_slice record_position =
     (case fb_root fb metadata_slice of
        None \<Rightarrow> Err Flatbuffer
      | Some m \<Rightarrow>
          bind_outcome (meta_end_offset m) (\<lambda>e.
          bind_outcome (sub_or_panic e start_offset) (\<lambda>d.
          Ok (be_bytes 4 (d mod 2 ^ 32) @ be_bytes 4 record_position))))"

text \<open>The magic code and the length of the metadata.\<close>

definition index_head :: "bytes \<Rightarrow> (decode_error, usize \<times> bytes) outcome" where
  "index_head cur =
     (if length cur < 9 then Err DataLengthMismatch
      else
        bind_outcome (get_be 1 cur) (\<lambda>(magic_code, cur).
        if magic_code \<noteq> Magic0 then Err InvalidMagic
        else
          bind_outcome (get_be 4 cur) (\<lambda>(ml, cur).
          let metadata_len = i32_as_usize ml in
          if length cur < metadata_len then Err DataLengthMismatch else Ok (metadata_len, cur))))"

definition skip_payload :: "bytes \<Rightarrow> (decode_error, usize \<times> bytes) outcome" where
  "skip_payload cur =
     bind_outcome (get_be 4 cur) (\<lambda>(pl, cur).
     let payload_len = i32_as_usize pl in
     if length cur < payload_len then Err DataLengthMismatch
     else bind_outcome (adv payload_len cur) (\<lambda>cur. Ok (payload_len, cur)))"

text \<open>One round of the loop: one record batch.\<close>

definition index_step :: "fb_meta \<Rightarrow> u64 \<Rightarrow> u32 \<Rightarrow> index_state \<Rightarrow> (decode_error, index_state) outcome" where
  "index_step fb start_offset sparse_size st =
     bind_outcome (index_head (ix_cursor st)) (\<lambda>(metadata_len, cur).
     if ix_pos st + ix_last st \<ge> 2 ^ 32 then Panic
     else
       let record_position = ix_pos st + ix_last st;
           record_sparse_index = (sparse_size \<le> ix_pass st)
       in bind_outcome
            (if record_sparse_index then index_entry fb start_offset (take metadata_len cur) record_position else Ok [])
            (\<lambda>entry.
               bind_outcome (adv metadata_len cur) (\<lambda>cur.
               bind_outcome (skip_payload cur) (\<lambda>(payload_len, cur).
               let last_record_size = (9 + metadata_len + payload_len) mod 2 ^ 32 in
               if \<not> record_sparse_index \<and> ix_pass st + last_record_size \<ge> 2 ^ 32 then Panic
               else Ok \<lparr>ix_cursor = cur, ix_bytes = ix_bytes st @ entry,
                        ix_pass = (if record_sparse_index then 0 else ix_pass st + last_record_size),
                        ix_pos = record_position, ix_last = last_record_size\<rparr>))))"

lemma index_head_Ok: "index_head c = Ok (n, c') \<Longrightarrow> length c = 5 + length c' \<and> n \<le> length c'"
  by (auto simp: index_head_def reader_simps Let_def split: if_splits)

lemma skip_payload_Ok: "skip_payload c = Ok (n, c') \<Longrightarrow> length c = 4 + n + length c'"
  by (auto simp: skip_payload_def reader_simps Let_def split: if_splits)

lemma index_step_shorter:
  assumes "index_step fb start_offset sparse_size st = Ok st'"
  shows "length (ix_cursor st') < length (ix_cursor st)"
proof -
  obtain n c pl c' where "index_head (ix_cursor st) = Ok (n, c)" and "skip_payload (drop n c) = Ok (pl, c')" and "ix_cursor st' = c'"
    using assms by (auto simp: index_step_def outcome_simps Let_def adv_def split: if_split_asm)
  then show ?thesis by (auto dest!: index_head_Ok skip_payload_Ok)
qed

function index_loop :: "fb_meta \<Rightarrow> u64 \<Rightarrow> u32 \<Rightarrow> index_state \<Rightarrow> (decode_error, index_state) outcome" where
  "index_loop fb start_offset sparse_size st =
     (if ix_cursor st = [] then Ok st
      else
        case index_step fb start_offset sparse_size st of
          Ok st' \<Rightarrow> index_loop fb start_offset sparse_size st'
        | Err e \<Rightarrow> Err e
        | Panic \<Rightarrow> Panic)"
  by auto
termination
  by (relation "measure (\<lambda>(_, _, _, st). length (ix_cursor st))") (auto dest: index_step_shorter)

declare index_loop.simps [simp del]

definition last_end_offset :: "fb_meta \<Rightarrow> bytes \<Rightarrow> u32 \<Rightarrow> (decode_error, u64) outcome" where
  "last_end_offset fb payload record_position =
     (if record_position + 1 \<ge> 2 ^ 32 then Panic
      else
        bind_outcome (adv (record_position + 1) payload) (\<lambda>cur.
        bind_outcome (get_be 4 cur) (\<lambda>(ml, cur).
        bind_outcome (take_bytes (i32_as_usize ml) cur) (\<lambda>(metadata_slice, _).
        case fb_root fb metadata_slice of None \<Rightarrow> Err Flatbuffer | Some m \<Rightarrow> meta_end_offset m))))"

definition gen_sparse_index :: "fb_meta \<Rightarrow> u64 \<Rightarrow> bytes list \<Rightarrow> u32 \<Rightarrow> u32 \<Rightarrow> (decode_error, bytes \<times> u64 \<times> u32) outcome" where
  "gen_sparse_index fb start_offset payload init_pass_through_size sparse_size =
     (let payload = concat payload in
      if sparse_size = 0 then Panic
      else
        bind_outcome
          (index_loop fb start_offset sparse_size
             \<lparr>ix_cursor = payload, ix_bytes = [], ix_pass = init_pass_through_size, ix_pos = 0, ix_last = 0\<rparr>)
          (\<lambda>st. bind_outcome (last_end_offset fb payload (ix_pos st)) (\<lambda>end_offset.
             Ok (ix_bytes st, end_offset, ix_pass st))))"

subsection \<open>An object in one piece\<close>

definition object_tail :: "u32 \<Rightarrow> bytes \<Rightarrow> ('e, bytes) outcome" where
  "object_tail data_len sparse_index =
     bind_outcome (gen_footer data_len (length sparse_index mod 2 ^ 32)) (\<lambda>footer.
       Ok ([BLOCK_DELIMITER] @ sparse_index @ footer))"

text \<open>The end offset, the bytes of the object and its metadata; a payload that does not parse panics.\<close>

definition or_panic :: "('e, 'a) outcome \<Rightarrow> ('f, 'a) outcome" where
  "or_panic r = (case r of Ok a \<Rightarrow> Ok a | _ \<Rightarrow> Panic)"

definition write0 :: "fb_meta \<Rightarrow> bytes list \<Rightarrow> object_metadata \<Rightarrow> u32 \<Rightarrow> ('e, u64 \<times> bytes \<times> object_metadata) outcome" where
  "write0 fb payload om sparse_size =
     bind_outcome (or_panic (gen_sparse_index fb (om_start_offset om) payload 0 sparse_size)) (\<lambda>(sparse_index, end_offset, _).
     bind_outcome (sub_or_panic end_offset (om_start_offset om)) (\<lambda>delta.
     let data_len = length (concat payload) mod 2 ^ 32 in
     bind_outcome (object_tail data_len sparse_index) (\<lambda>tail.
     Ok (end_offset, concat payload @ tail,
         om\<lparr>om_end_offset_delta := delta mod 2 ^ 32, om_data_len := data_len\<rparr>))))"

subsection \<open>An object in parts\<close>

record mp_event =
  mpe_data :: "bytes list"
  mpe_index :: bytes
  mpe_end_offset :: u64

record multi_part_object =
  mp_start_offset :: u64
  mp_object_size :: u32
  mp_size :: u32
  mp_last_pass_through_size :: u32
  mp_events :: "mp_event list"
  mp_metadata :: object_metadata
  mp_key :: string

definition mp_new :: "object_metadata \<Rightarrow> string \<Rightarrow> u32 \<Rightarrow> multi_part_object" where
  "mp_new om key object_size =
     \<lparr>mp_start_offset = om_start_offset om, mp_object_size = object_size, mp_size = 0,
      mp_last_pass_through_size = 0, mp_events = [], mp_metadata = om, mp_key = key\<rparr>"

definition mp_write :: "fb_meta \<Rightarrow> bytes list \<Rightarrow> multi_part_object \<Rightarrow> ('e, (bool \<times> u64) \<times> multi_part_object) outcome" where
  "mp_write fb part mp =
     (let sz = mp_size mp + length (concat part) mod 2 ^ 32 in
      if sz \<ge> 2 ^ 32 then Panic
      else
        bind_outcome (or_panic (gen_sparse_index fb (mp_start_offset mp) part (mp_last_pass_through_size mp) SPARSE_SIZE))
          (\<lambda>(index, new_end_offset, remain).
             Ok ((mp_object_size mp \<le> sz, new_end_offset),
                 mp\<lparr>mp_size := sz, mp_last_pass_through_size := remain,
                    mp_events := mp_events mp @ [\<lparr>mpe_data = part, mpe_index = index, mpe_end_offset = new_end_offset\<rparr>]\<rparr>)))"

definition mp_close :: "multi_part_object \<Rightarrow> multi_part_object" where
  "mp_close mp = mp\<lparr>mp_events := mp_events mp @ [\<lparr>mpe_data = [], mpe_index = [], mpe_end_offset = 0\<rparr>]\<rparr>"

text \<open>The task: \<open>None\<close> when it still waits for an event; otherwise the whole object and its metadata.\<close>

fun write_loop :: "object_metadata \<Rightarrow> usize \<Rightarrow> u64 \<Rightarrow> bytes \<Rightarrow> bytes \<Rightarrow> mp_event list
    \<Rightarrow> ('e, (bytes \<times> object_metadata) option) outcome" where
  "write_loop om data_len end_offset sparse_index written [] = Ok None"
| "write_loop om data_len end_offset sparse_index written (ev # evs) =
     (let sparse_index = sparse_index @ mpe_index ev;
          end_offset = max end_offset (mpe_end_offset ev);
          part = concat (mpe_data ev);
          data_len = data_len + length part
      in if part = [] then
           bind_outcome (object_tail (data_len mod 2 ^ 32) sparse_index) (\<lambda>left_part.
           bind_outcome (sub_or_panic end_offset (om_start_offset om)) (\<lambda>delta.
           Ok (Some (written @ left_part,
                     om\<lparr>om_end_offset_delta := delta mod 2 ^ 32, om_data_len := data_len mod 2 ^ 32\<rparr>))))
         else write_loop om data_len end_offset sparse_index (written @ part) evs)"

definition mp_run :: "multi_part_object \<Rightarrow> ('e, (bytes \<times> object_metadata) option) outcome" where
  "mp_run mp = write_loop (mp_metadata mp) 0 (om_start_offset (mp_metadata mp)) [] [] (mp_events mp)"

subsection \<open>A range\<close>

text \<open>\<open>ro_done\<close> holds the objects written and committed: their keys, bytes and metadata.\<close>

record range_offload =
  ro_stream_id :: u64
  ro_range_index :: u32
  ro_epoch :: u16
  ro_cluster :: string
  ro_object_size :: u32
  ro_multi_part_object :: "multi_part_object option"
  ro_done :: "(string \<times> bytes \<times> object_metadata) list"

definition ro_new :: "u64 \<Rightarrow> u32 \<Rightarrow> u16 \<Rightarrow> string \<Rightarrow> u32 \<Rightarrow> range_offload" where
  "ro_new stream_id range_index epoch cluster object_size =
     \<lparr>ro_stream_id = stream_id, ro_range_index = range_index, ro_epoch = epoch, ro_cluster = cluster,
      ro_object_size = object_size, ro_multi_part_object = None, ro_done = []\<rparr>"

definition ro_complete :: "multi_part_object \<Rightarrow> range_offload \<Rightarrow> ('e, range_offload) outcome" where
  "ro_complete mp ro =
     fmap_ok (\<lambda>r. ro\<lparr>ro_multi_part_object := None,
                     ro_done := ro_done ro @ (case r of Some (bs, om) \<Rightarrow> [(mp_key mp, bs, om)] | None \<Rightarrow> [])\<rparr>)
       (mp_run (mp_close mp))"

definition trigger_flush :: "range_offload \<Rightarrow> ('e, range_offload) outcome" where
  "trigger_flush ro =
     (case ro_multi_part_object ro of
        Some mp \<Rightarrow> ro_complete mp ro
      | None \<Rightarrow> Ok ro)"

definition ro_write :: "fb_meta \<Rightarrow> u64 \<Rightarrow> bytes list \<Rightarrow> range_offload \<Rightarrow> ('e, u64 \<times> range_offload) outcome" where
  "ro_write fb start_offset payload ro =
     (let payload_length = length (concat payload) mod 2 ^ 32;
          key = gen_object_key (ro_cluster ro) (ro_stream_id ro) (ro_range_index ro) (ro_epoch ro) start_offset;
          om = om_new (ro_stream_id ro) (ro_range_index ro) (ro_epoch ro) start_offset
      in case ro_multi_part_object ro of
           Some mp \<Rightarrow>
             bind_outcome (mp_write fb payload mp) (\<lambda>((object_full, end_offset), mp).
             if object_full then fmap_ok (\<lambda>ro. (end_offset, ro)) (ro_complete mp ro)
             else Ok (end_offset, ro\<lparr>ro_multi_part_object := Some mp\<rparr>))
         | None \<Rightarrow>
             if ro_object_size ro \<le> payload_length then
               bind_outcome (write0 fb payload om SPARSE_SIZE) (\<lambda>(end_offset, bs, om).
               Ok (end_offset, ro\<lparr>ro_done := ro_done ro @ [(key, bs, om)]\<rparr>))
             else
               bind_outcome (mp_write fb payload (mp_new om key (ro_object_size ro))) (\<lambda>((_, end_offset), mp).
               Ok (end_offset, ro\<lparr>ro_multi_part_object := Some mp\<rparr>)))"

section \<open>The sparse index of a run of batches\<close>

text \<open>
  The reference: every batch with its start position and end offset; an entry is made for the
  batch at which the bytes passed since the last entry reach the sparse size.
\<close>

definition batch_end :: "fb_meta \<Rightarrow> flat_record_batch \<Rightarrow> u64" where
  "batch_end fb f =
     (case fb_root fb (f_metadata f) of
        Some m \<Rightarrow> int_as_u64 (m_base_offset m) + int_as_u64 (m_last_offset_delta m)
      | None \<Rightarrow> 0)"

fun sparse_entries :: "fb_meta \<Rightarrow> u64 \<Rightarrow> u32 \<Rightarrow> u32 \<Rightarrow> u32 \<Rightarrow> flat_record_batch list \<Rightarrow> (u32 \<times> u32) list \<times> u32" where
  "sparse_entries fb start sparse pass pos [] = ([], pass)"
| "sparse_entries fb start sparse pass pos (f # fs) =
     (let n = length (flat_bytes f) in
      if sparse \<le> pass
      then (case sparse_entries fb start sparse 0 (pos + n) fs of (es, p) \<Rightarrow> ((batch_end fb f - start, pos) # es, p))
      else sparse_entries fb start sparse (pass + n) (pos + n) fs)"

text \<open>A batch that is well formed and whose end offset lies within 32 bits of the object's start.\<close>

definition indexable :: "fb_meta \<Rightarrow> u64 \<Rightarrow> flat_record_batch \<Rightarrow> bool" where
  "indexable fb start f \<longleftrightarrow>
     flat_ok f \<and> fb_root fb (f_metadata f) \<noteq> None \<and> start \<le> batch_end fb f \<and> batch_end fb f < start + 2 ^ 32
     \<and> batch_end fb f < 2 ^ 64"

lemma index_head_flat:
  assumes "flat_ok f"
  shows "index_head (flat_bytes f @ rest) =
    Ok (length (f_metadata f), f_metadata f @ be_bytes 4 (length (f_payload f)) @ f_payload f @ rest)"
proof -
  have len: "length (f_metadata f) < 2 ^ 31" using assms by (simp add: flat_ok_def)
  have m: "be_val (be_bytes 1 Magic0) = Magic0" by (simp add: be_val_be_bytes Magic0_def)
  have l: "be_val (be_bytes 4 (length (f_metadata f))) = length (f_metadata f)" using len by (simp add: be_val_be_bytes)
  note [simp del] = be_bytes.simps One_nat_def
  show ?thesis
    using len m l by (simp add: index_head_def flat_bytes_eq [OF assms] reader_ok Let_def i32_as_usize_small)
qed

lemma skip_payload_flat:
  assumes "flat_ok f"
  shows "skip_payload (be_bytes 4 (length (f_payload f)) @ f_payload f @ rest) = Ok (length (f_payload f), rest)"
proof -
  have len: "length (f_payload f) < 2 ^ 31" using assms by (simp add: flat_ok_def)
  have l: "be_val (be_bytes 4 (length (f_payload f))) = length (f_payload f)" using len by (simp add: be_val_be_bytes)
  note [simp del] = be_bytes.simps
  show ?thesis using len l by (simp add: skip_payload_def reader_ok Let_def i32_as_usize_small)
qed

lemma length_flat_bytes: "flat_ok f \<Longrightarrow> length (flat_bytes f) = 9 + length (f_metadata f) + length (f_payload f)"
  by (simp add: flat_bytes_eq del: be_bytes.simps)

lemma index_entry_flat:
  "indexable fb start f \<Longrightarrow> index_entry fb start (f_metadata f) pos = Ok (be_bytes 4 (batch_end fb f - start) @ be_bytes 4 pos)"
  by (auto simp: index_entry_def indexable_def batch_end_def meta_end_offset_def sub_or_panic_def Let_def
      simp del: be_bytes.simps)

lemma index_step_flat:
  assumes ok: "indexable fb start f" and b: "pos + lst < 2 ^ 32" and pb: "pass + length (flat_bytes f) < 2 ^ 32"
  shows "index_step fb start sparse \<lparr>ix_cursor = flat_bytes f @ rest, ix_bytes = idx, ix_pass = pass, ix_pos = pos, ix_last = lst\<rparr>
    = Ok \<lparr>ix_cursor = rest,
          ix_bytes = idx @ (if sparse \<le> pass then be_bytes 4 (batch_end fb f - start) @ be_bytes 4 (pos + lst) else []),
          ix_pass = (if sparse \<le> pass then 0 else pass + length (flat_bytes f)), ix_pos = pos + lst,
          ix_last = length (flat_bytes f)\<rparr>"
proof -
  have f: "flat_ok f" using ok by (simp add: indexable_def)
  have n: "(9 + length (f_metadata f) + length (f_payload f)) mod 2 ^ 32 = length (flat_bytes f)"
    using pb by (simp add: length_flat_bytes [OF f])
  show ?thesis
    using b pb n
    by (simp add: index_step_def index_head_flat [OF f] adv_def skip_payload_flat [OF f] Let_def index_entry_flat [OF ok]
        del: be_bytes.simps)
qed

lemma index_bytes_of_append: "index_bytes_of (xs @ ys) = index_bytes_of xs @ index_bytes_of ys"
  by (induction xs) auto

lemma index_loop_flats:
  assumes "\<forall>f \<in> set fs. indexable fb start f"
    and "pos + lst + length (concat (map flat_bytes fs)) < 2 ^ 32" and "pass + length (concat (map flat_bytes fs)) < 2 ^ 32"
  shows "\<exists>st. index_loop fb start sparse
      \<lparr>ix_cursor = concat (map flat_bytes fs), ix_bytes = idx, ix_pass = pass, ix_pos = pos, ix_last = lst\<rparr> = Ok st
    \<and> ix_bytes st = idx @ index_bytes_of (fst (sparse_entries fb start sparse pass (pos + lst) fs))
    \<and> ix_pass st = snd (sparse_entries fb start sparse pass (pos + lst) fs)
    \<and> ix_pos st = (if fs = [] then pos else pos + lst + length (concat (map flat_bytes (butlast fs))))"
  using assms
proof (induction fs arbitrary: idx pass pos lst)
  case Nil
  show ?case by (simp add: index_loop.simps)
next
  case (Cons f fs)
  have ne: "flat_bytes f @ concat (map flat_bytes fs) \<noteq> []"
    using Cons.prems(1) length_flat_bytes [of f] by (auto simp: indexable_def)
  have s: "index_step fb start sparse
      \<lparr>ix_cursor = concat (map flat_bytes (f # fs)), ix_bytes = idx, ix_pass = pass, ix_pos = pos, ix_last = lst\<rparr>
    = Ok \<lparr>ix_cursor = concat (map flat_bytes fs),
          ix_bytes = idx @ (if sparse \<le> pass then be_bytes 4 (batch_end fb f - start) @ be_bytes 4 (pos + lst) else []),
          ix_pass = (if sparse \<le> pass then 0 else pass + length (flat_bytes f)), ix_pos = pos + lst,
          ix_last = length (flat_bytes f)\<rparr>"
    using Cons.prems by (simp add: index_step_flat del: be_bytes.simps)
  note ih = Cons.IH [of "pos + lst" "length (flat_bytes f)" "if sparse \<le> pass then 0 else pass + length (flat_bytes f)"
      "idx @ (if sparse \<le> pass then be_bytes 4 (batch_end fb f - start) @ be_bytes 4 (pos + lst) else [])"]
  show ?case
    unfolding index_loop.simps [of fb start sparse "\<lparr>ix_cursor = concat (map flat_bytes (f # fs)), ix_bytes = idx, ix_pass = pass, ix_pos = pos, ix_last = lst\<rparr>"]
      s outcome.case
    using ih Cons.prems ne by (auto simp: Let_def case_prod_beta add.assoc simp del: be_bytes.simps split: if_splits)
qed

lemma last_end_offset_flat:
  assumes "indexable fb start f" and "pos = length pre" and "pos + 1 < 2 ^ 32"
  shows "last_end_offset fb (pre @ flat_bytes f) pos = Ok (batch_end fb f)"
proof -
  have f: "flat_ok f" using assms(1) by (simp add: indexable_def)
  obtain m where m: "fb_root fb (f_metadata f) = Some m" using assms(1) by (auto simp: indexable_def)
  have len: "length (f_metadata f) < 2 ^ 31" using f by (simp add: flat_ok_def)
  then have l: "be_val (be_bytes 4 (length (f_metadata f))) = length (f_metadata f)" by (simp add: be_val_be_bytes)
  have d: "drop (pos + 1) (pre @ flat_bytes f) = be_bytes 4 (length (f_metadata f)) @ f_metadata f @
     be_bytes 4 (length (f_payload f)) @ f_payload f"
    using assms(2) by (simp add: flat_bytes_eq [OF f])
  have bd: "pos + 1 \<le> length (pre @ flat_bytes f)" using assms(2) length_flat_bytes [OF f] by simp
  show ?thesis
    using assms(1,3) bd l len m unfolding last_end_offset_def bind_adv_ok [OF bd] d
    by (simp add: reader_ok i32_as_usize_small meta_end_offset_def batch_end_def indexable_def Let_def del: be_bytes.simps)
qed

text \<open>
  C15. For a payload that is a run of well-formed batches, however it is cut into chunks, the index
  is the reference index in bytes, the end offset is that of the last batch and the bytes passed
  since the last entry are carried over.
\<close>

theorem gen_sparse_index_spec:
  assumes "concat payload = concat (map flat_bytes fs)" and "fs \<noteq> []" and "\<forall>f \<in> set fs. indexable fb start f"
    and "pass + length (concat payload) < 2 ^ 32" and "0 < sparse"
  shows "gen_sparse_index fb start payload pass sparse =
    Ok (index_bytes_of (fst (sparse_entries fb start sparse pass 0 fs)), batch_end fb (last fs),
        snd (sparse_entries fb start sparse pass 0 fs))"
proof -
  let ?n = "length (concat (map flat_bytes (butlast fs)))"
  have split: "concat (map flat_bytes fs) = concat (map flat_bytes (butlast fs)) @ flat_bytes (last fs)"
    using assms(2) by (cases fs rule: rev_cases) auto
  have l: "indexable fb start (last fs)" using assms(2,3) by simp
  then have "9 \<le> length (flat_bytes (last fs))" by (simp add: indexable_def length_flat_bytes)
  then have "?n + 1 < 2 ^ 32" using assms(4) unfolding assms(1) split length_append by linarith
  then have e: "last_end_offset fb (concat (map flat_bytes fs)) ?n = Ok (batch_end fb (last fs))"
    unfolding split by (intro last_end_offset_flat [OF l]) auto
  from index_loop_flats [of fs fb start 0 0 pass sparse "[]"] assms
  show ?thesis by (auto simp: gen_sparse_index_def Let_def e)
qed

text \<open>Every entry carries the end offset of a batch and the position at which that batch starts.\<close>

lemma sparse_entries_points:
  "(d, p) \<in> set (fst (sparse_entries fb start sparse pass pos fs)) \<Longrightarrow>
     \<exists>i < length fs. d = batch_end fb (fs ! i) - start \<and> p = pos + length (concat (map flat_bytes (take i fs)))"
proof (induction fs arbitrary: pass pos)
  case (Cons f fs)
  have shift: ?case if "(d, p) \<in> set (fst (sparse_entries fb start sparse pass' (pos + length (flat_bytes f)) fs))" for pass'
  proof -
    from Cons.IH [OF that] obtain i where "i < length fs" "d = batch_end fb (fs ! i) - start"
      "p = pos + length (flat_bytes f) + length (concat (map flat_bytes (take i fs)))" by blast
    then show ?thesis by (intro exI [of _ "Suc i"]) simp
  qed
  show ?case
    using Cons.prems shift by (auto simp: Let_def case_prod_beta split: if_splits)
qed simp

lemma sparse_entries_ge: "e \<in> set (fst (sparse_entries fb start sparse pass pos fs)) \<Longrightarrow> pos \<le> snd e"
  using sparse_entries_points [of "fst e" "snd e" fb start sparse pass pos fs] by auto

lemma sparse_entries_sorted: "sorted (map snd (fst (sparse_entries fb start sparse pass pos fs)))"
proof (induction fs arbitrary: pass pos)
  case (Cons f fs)
  then show ?case by (auto simp: Let_def case_prod_beta dest: sparse_entries_ge intro: order_trans [OF le_add1])
qed simp

lemma sparse_entries_bounded:
  assumes "\<forall>f \<in> set fs. indexable fb start f" and "pos + length (concat (map flat_bytes fs)) < 2 ^ 32"
  shows "u32_pairs (fst (sparse_entries fb start sparse pass pos fs))"
proof -
  have "d < 2 ^ 32 \<and> p < 2 ^ 32" if "(d, p) \<in> set (fst (sparse_entries fb start sparse pass pos fs))" for d p
  proof -
    from sparse_entries_points [OF that] obtain i where i: "i < length fs" "d = batch_end fb (fs ! i) - start"
      "p = pos + length (concat (map flat_bytes (take i fs)))" by blast
    have "length (concat (map flat_bytes fs)) = length (concat (map flat_bytes (take i fs))) + length (concat (map flat_bytes (drop i fs)))"
      by (metis append_take_drop_id concat_append length_append map_append)
    moreover have "indexable fb start (fs ! i)" using assms(1) i(1) by simp
    ultimately show ?thesis using i assms(2) by (auto simp: indexable_def)
  qed
  then show ?thesis by (auto simp: u32_pairs_def)
qed

text \<open>
  The index and its reader disagree: an entry pairs the end offset of a batch with the position
  where the batch starts, and the search for an upper bound stops at the position of the first
  entry that reaches the wanted end. A read up to the end of an indexed batch therefore gets a
  range of bytes that ends before that batch begins.
\<close>

theorem find_bound_cuts_indexed_batch:
  assumes fs: "fs \<noteq> []" "\<forall>f \<in> set fs. indexable fb start f" "length (concat (map flat_bytes fs)) < 2 ^ 32" "0 < sparse"
    and g: "gen_sparse_index fb start (map flat_bytes fs) 0 sparse = Ok (idx, e, rest)"
    and m: "om_sparse_index om = idx" "om_start_offset om = start"
    and ent: "(batch_end fb (fs ! i) - start, length (concat (map flat_bytes (take i fs)))) \<in> set (fst (sparse_entries fb start sparse 0 0 fs))"
    and i: "i < length fs"
    and b: "find_bound om s (Some (batch_end fb (fs ! i))) hint None = (Ok (Some (p, q)) :: ('e, _) outcome)"
  shows "q \<le> length (concat (map flat_bytes (take i fs)))"
proof -
  have idx: "idx = index_bytes_of (fst (sparse_entries fb start sparse 0 0 fs))"
    using g gen_sparse_index_spec [of "map flat_bytes fs" fs fb start 0 sparse] fs by simp
  have le: "batch_end fb (fs ! i) \<le> start + (batch_end fb (fs ! i) - start)" by simp
  obtain h where "find_end start (Some (batch_end fb (fs ! i))) p h (om_data_len om) idx = (Ok q :: ('e, _) outcome)"
    using b m by (auto simp: find_bound_def outcome_simps split: if_splits)
  then show ?thesis
    using find_end_position [OF sparse_entries_bounded sparse_entries_sorted ent le] fs idx by simp
qed

section \<open>Offloading a run of batches\<close>

text \<open>Batches that follow one another without a gap, each holding at least one record.\<close>

fun batch_run :: "fb_meta \<Rightarrow> u64 \<Rightarrow> flat_record_batch list \<Rightarrow> bool" where
  "batch_run fb nxt [] \<longleftrightarrow> True"
| "batch_run fb nxt (f # fs) \<longleftrightarrow>
     flat_ok f \<and> nxt < 2 ^ 63
     \<and> (case fb_root fb (f_metadata f) of
          Some m \<Rightarrow> m_base_offset m = int nxt \<and> 0 < m_last_offset_delta m \<and> m_last_offset_delta m < 2 ^ 31
        | None \<Rightarrow> False)
     \<and> batch_run fb (batch_end fb f) fs"

definition run_end :: "fb_meta \<Rightarrow> u64 \<Rightarrow> flat_record_batch list \<Rightarrow> u64" where
  "run_end fb nxt fs = (if fs = [] then nxt else batch_end fb (last fs))"

definition run_bytes :: "flat_record_batch list \<Rightarrow> bytes" where
  "run_bytes fs = concat (map flat_bytes fs)"

lemma run_end_Nil [simp]: "run_end fb nxt [] = nxt"
  and run_end_Cons: "run_end fb nxt (f # fs) = run_end fb (batch_end fb f) fs"
  and run_end_append: "run_end fb nxt (fs @ gs) = run_end fb (run_end fb nxt fs) gs"
  and run_bytes_append [simp]: "run_bytes (fs @ gs) = run_bytes fs @ run_bytes gs"
  and run_bytes_Nil [simp]: "run_bytes [] = []"
  by (simp_all add: run_end_def run_bytes_def)

lemma batch_run_append: "batch_run fb nxt (fs @ gs) \<longleftrightarrow> batch_run fb nxt fs \<and> batch_run fb (run_end fb nxt fs) gs"
  by (induction fs arbitrary: nxt) (auto simp: run_end_Cons)

lemma int_as_u64_nat: "0 \<le> i \<Longrightarrow> i < 2 ^ 64 \<Longrightarrow> int_as_u64 i = nat i"
  by (simp add: to_unsigned_def)

lemma batch_run_step:
  assumes "batch_run fb nxt (f # fs)"
  shows "nxt < batch_end fb f" "batch_end fb f < 2 ^ 64" "flat_ok f" "fb_root fb (f_metadata f) \<noteq> None"
    "batch_run fb (batch_end fb f) fs"
  using assms by (auto simp: batch_end_def int_as_u64_nat split: option.splits)

lemma batch_run_le: "batch_run fb nxt fs \<Longrightarrow> nxt \<le> run_end fb nxt fs"
proof (induction fs arbitrary: nxt)
  case (Cons f fs)
  show ?case
    using batch_run_step(1) [OF Cons.prems] Cons.IH [OF batch_run_step(5) [OF Cons.prems]] by (simp add: run_end_Cons)
qed simp

lemma batch_run_less: "batch_run fb nxt fs \<Longrightarrow> fs \<noteq> [] \<Longrightarrow> nxt < run_end fb nxt fs"
proof (induction fs)
  case (Cons f fs)
  show ?case
    using batch_run_step(1) [OF Cons.prems(1)] batch_run_le [OF batch_run_step(5) [OF Cons.prems(1)]]
    by (simp add: run_end_Cons)
qed simp

lemma batch_run_indexable:
  assumes "batch_run fb nxt fs" and "start \<le> nxt" and "run_end fb nxt fs < start + 2 ^ 32"
  shows "\<forall>f \<in> set fs. indexable fb start f"
  using assms
proof (induction fs arbitrary: nxt)
  case (Cons f fs)
  note st = batch_run_step [OF Cons.prems(1)]
  have "batch_end fb f \<le> run_end fb nxt (f # fs)" using batch_run_le [OF st(5)] by (simp add: run_end_Cons)
  then have "indexable fb start f" using st Cons.prems(2,3) by (simp add: indexable_def)
  then show ?case using Cons.IH [OF st(5)] Cons.prems(2,3) st(1) by (simp add: run_end_Cons)
qed simp

lemma run_bytes_nonempty: "batch_run fb nxt fs \<Longrightarrow> fs \<noteq> [] \<Longrightarrow> run_bytes fs \<noteq> []"
  by (cases fs) (auto simp: run_bytes_def dest!: length_flat_bytes)

lemma sparse_entries_pass: "snd (sparse_entries fb start sparse pass pos fs) \<le> pass + length (run_bytes fs)"
proof (induction fs arbitrary: pass pos)
  case (Cons f fs)
  show ?case
    using Cons.IH [of 0 "pos + length (flat_bytes f)"] Cons.IH [of "pass + length (flat_bytes f)" "pos + length (flat_bytes f)"]
    by (auto simp: Let_def case_prod_beta run_bytes_def)
qed simp

text \<open>The index made while writing a run.\<close>

lemma gen_sparse_index_run:
  assumes "batch_run fb nxt fs" and "fs \<noteq> []" and "concat payload = run_bytes fs"
    and "start \<le> nxt" and "run_end fb nxt fs < start + 2 ^ 32" and "pass + length (run_bytes fs) < 2 ^ 32"
  shows "\<exists>idx remain. gen_sparse_index fb start payload pass SPARSE_SIZE = Ok (idx, run_end fb nxt fs, remain)
    \<and> remain \<le> pass + length (run_bytes fs)"
  using gen_sparse_index_spec [of payload fs fb start pass SPARSE_SIZE] batch_run_indexable [OF assms(1,4,5)] assms
    sparse_entries_pass [of fb start SPARSE_SIZE pass 0 fs]
  by (simp add: run_bytes_def run_end_def SPARSE_SIZE_def)

subsection \<open>An object in parts\<close>

definition mp_data :: "mp_event list \<Rightarrow> bytes" where
  "mp_data evs = concat (map (\<lambda>ev. concat (mpe_data ev)) evs)"

definition mp_end :: "u64 \<Rightarrow> mp_event list \<Rightarrow> u64" where
  "mp_end start evs = foldl (\<lambda>e ev. max e (mpe_end_offset ev)) start evs"

lemma write_loop_append:
  "\<forall>ev \<in> set evs. concat (mpe_data ev) \<noteq> [] \<Longrightarrow>
     write_loop om dl e idx w (evs @ evs2) =
     write_loop om (dl + length (mp_data evs)) (mp_end e evs) (idx @ concat (map mpe_index evs)) (w @ mp_data evs) evs2"
  by (induction evs arbitrary: dl e idx w) (auto simp: Let_def mp_data_def mp_end_def add.assoc)

definition mp_inv :: "fb_meta \<Rightarrow> flat_record_batch list \<Rightarrow> multi_part_object \<Rightarrow> bool" where
  "mp_inv fb fs mp \<longleftrightarrow>
     batch_run fb (mp_start_offset mp) fs \<and> (\<forall>ev \<in> set (mp_events mp). concat (mpe_data ev) \<noteq> [])
     \<and> mp_data (mp_events mp) = run_bytes fs \<and> mp_end (mp_start_offset mp) (mp_events mp) = run_end fb (mp_start_offset mp) fs
     \<and> om_start_offset (mp_metadata mp) = mp_start_offset mp
     \<and> mp_size mp = length (run_bytes fs) \<and> mp_last_pass_through_size mp \<le> mp_size mp"

lemma mp_inv_new: "mp_inv fb [] (mp_new om key object_size)"
  by (simp add: mp_inv_def mp_new_def mp_data_def mp_end_def)

lemma mp_write_run:
  assumes inv: "mp_inv fb fs mp" and run: "batch_run fb (run_end fb (mp_start_offset mp) fs) gs" "gs \<noteq> []"
    and p: "concat part = run_bytes gs" and b: "length (run_bytes (fs @ gs)) < 2 ^ 32"
    and e: "run_end fb (mp_start_offset mp) (fs @ gs) < mp_start_offset mp + 2 ^ 32"
  shows "\<exists>mp'. mp_write fb part mp = Ok ((mp_object_size mp \<le> length (run_bytes (fs @ gs)),
        run_end fb (mp_start_offset mp) (fs @ gs)), mp') \<and> mp_inv fb (fs @ gs) mp' \<and> mp_start_offset mp' = mp_start_offset mp
      \<and> mp_metadata mp' = mp_metadata mp \<and> mp_object_size mp' = mp_object_size mp \<and> mp_key mp' = mp_key mp"
proof -
  let ?s = "mp_start_offset mp"
  have le: "?s \<le> run_end fb ?s fs" using inv by (auto simp: mp_inv_def dest: batch_run_le)
  have "mp_last_pass_through_size mp + length (run_bytes gs) < 2 ^ 32"
    using inv b by (simp add: mp_inv_def)
  from gen_sparse_index_run [OF run p le _ this] e obtain idx remain where
    g: "gen_sparse_index fb ?s part (mp_last_pass_through_size mp) SPARSE_SIZE = Ok (idx, run_end fb ?s (fs @ gs), remain)"
    and r: "remain \<le> mp_last_pass_through_size mp + length (run_bytes gs)" by (auto simp: run_end_append)
  have ne: "run_bytes gs \<noteq> []" by (rule run_bytes_nonempty [OF run])
  have "run_end fb ?s fs \<le> run_end fb ?s (fs @ gs)" using batch_run_le [OF run(1)] by (simp add: run_end_append)
  then show ?thesis
    using inv b g r ne p run(1)
    by (auto simp: mp_write_def or_panic_def Let_def mp_inv_def mp_data_def mp_end_def batch_run_append
        simp del: concat_eq_Nil_conv)
qed

lemma mp_run_close:
  assumes inv: "mp_inv fb fs mp" and b: "length (run_bytes fs) + 1 < 2 ^ 32"
    and e: "run_end fb (mp_start_offset mp) fs < mp_start_offset mp + 2 ^ 32"
  shows "\<exists>tail. mp_run (mp_close mp) = Ok (Some (run_bytes fs @ tail, (mp_metadata mp)
     \<lparr>om_end_offset_delta := run_end fb (mp_start_offset mp) fs - mp_start_offset mp, om_data_len := length (run_bytes fs)\<rparr>))"
proof -
  have "mp_start_offset mp \<le> run_end fb (mp_start_offset mp) fs" using inv by (auto simp: mp_inv_def dest: batch_run_le)
  then show ?thesis
    using inv b e
    by (auto simp: mp_run_def mp_close_def write_loop_append mp_inv_def Let_def object_tail_def gen_footer_def
        sub_or_panic_def simp del: be_bytes.simps)
qed

lemma write0_run:
  assumes run: "batch_run fb (om_start_offset om) fs" "fs \<noteq> []" and p: "concat payload = run_bytes fs"
    and b: "length (run_bytes fs) + 1 < 2 ^ 32" and e: "run_end fb (om_start_offset om) fs < om_start_offset om + 2 ^ 32"
  shows "\<exists>tail. write0 fb payload om SPARSE_SIZE = Ok (run_end fb (om_start_offset om) fs, run_bytes fs @ tail,
     om\<lparr>om_end_offset_delta := run_end fb (om_start_offset om) fs - om_start_offset om, om_data_len := length (run_bytes fs)\<rparr>)"
proof -
  have "om_start_offset om \<le> run_end fb (om_start_offset om) fs" by (rule batch_run_le [OF run(1)])
  moreover obtain idx remain where
    "gen_sparse_index fb (om_start_offset om) payload 0 SPARSE_SIZE = Ok (idx, run_end fb (om_start_offset om) fs, remain)"
    using gen_sparse_index_run [OF run p order_refl e, of 0] b by auto
  ultimately show ?thesis
    using b e p
    by (auto simp: write0_def or_panic_def sub_or_panic_def Let_def object_tail_def gen_footer_def simp del: be_bytes.simps)
qed

subsection \<open>A range\<close>

text \<open>
  Objects that hold groups of batches, one after the other from an offset on: each with the
  range and epoch of the offload, the offsets and the size of its group, and the group's bytes first.
\<close>

definition om_id :: "object_metadata \<Rightarrow> u64 \<times> u32 \<times> u16" where
  "om_id om = (om_stream_id om, om_range_index om, om_epoch om)"

definition ro_id :: "range_offload \<Rightarrow> u64 \<times> u32 \<times> u16" where
  "ro_id ro = (ro_stream_id ro, ro_range_index ro, ro_epoch ro)"

fun stored_as :: "fb_meta \<Rightarrow> u64 \<times> u32 \<times> u16 \<Rightarrow> u64 \<Rightarrow> (string \<times> bytes \<times> object_metadata) list \<Rightarrow> flat_record_batch list list \<Rightarrow> bool" where
  "stored_as fb rid s ((key, bs, om) # ds) (g # gs) \<longleftrightarrow>
     g \<noteq> [] \<and> om_start_offset om = s \<and> om_end_offset om = run_end fb s g \<and> s < om_end_offset om
     \<and> om_data_len om = length (run_bytes g) \<and> take (om_data_len om) bs = run_bytes g \<and> om_id om = rid
     \<and> stored_as fb rid (run_end fb s g) ds gs"
| "stored_as fb rid s [] [] \<longleftrightarrow> True"
| "stored_as fb rid s _ _ \<longleftrightarrow> False"

lemma stored_as_snoc:
  "stored_as fb rid s ds gs \<Longrightarrow> stored_as fb rid (run_end fb s (concat gs)) [d] [g] \<Longrightarrow> stored_as fb rid s (ds @ [d]) (gs @ [g])"
  by (induction fb rid s ds gs rule: stored_as.induct) (auto simp: run_end_append)

definition ro_inv :: "fb_meta \<Rightarrow> u64 \<Rightarrow> flat_record_batch list \<Rightarrow> range_offload \<Rightarrow> bool" where
  "ro_inv fb s fs ro \<longleftrightarrow>
     batch_run fb s fs
     \<and> (\<exists>gs pend. fs = concat gs @ pend \<and> stored_as fb (ro_id ro) s (ro_done ro) gs
          \<and> (case ro_multi_part_object ro of
               None \<Rightarrow> pend = []
             | Some mp \<Rightarrow> pend \<noteq> [] \<and> mp_inv fb pend mp \<and> mp_start_offset mp = run_end fb s (concat gs)
                 \<and> om_id (mp_metadata mp) = ro_id ro))"

lemma ro_id_upd [simp]:
  "ro_id (ro\<lparr>ro_multi_part_object := x\<rparr>) = ro_id ro" "ro_id (ro\<lparr>ro_done := d\<rparr>) = ro_id ro"
  by (simp_all add: ro_id_def)

lemma om_id_upd [simp]:
  "om_id (om\<lparr>om_end_offset_delta := x\<rparr>) = om_id om" "om_id (om\<lparr>om_data_len := n\<rparr>) = om_id om"
  by (simp_all add: om_id_def)

lemma om_end_offset_upd [simp]: "om_end_offset (om\<lparr>om_end_offset_delta := x, om_data_len := n\<rparr>) = om_start_offset om + x"
  by (simp add: om_end_offset_def)

lemma om_new_id: "om_id (om_new (ro_stream_id ro) (ro_range_index ro) (ro_epoch ro) s) = ro_id ro"
  and om_new_start [simp]: "om_start_offset (om_new sid ri ep s) = s"
  by (simp_all add: om_id_def om_new_def ro_id_def)

lemma ro_inv_new: "ro_inv fb s [] (ro_new sid ri ep cl os)"
  by (auto simp: ro_inv_def ro_new_def intro!: exI [of _ "[]"])

lemma run_end_bound: "batch_run fb s (fs @ gs) \<Longrightarrow> run_end fb s (fs @ gs) < s + 2 ^ 32 \<Longrightarrow> run_end fb (run_end fb s fs) gs < run_end fb s fs + 2 ^ 32"
  using batch_run_le [of fb s fs] by (simp add: batch_run_append run_end_append)

lemma ro_complete_run:
  assumes mp: "mp_inv fb pend mp" "pend \<noteq> []" "om_id (mp_metadata mp) = ro_id ro" "mp_start_offset mp = run_end fb s (concat gs)"
    and st: "stored_as fb (ro_id ro) s (ro_done ro) gs" and run: "batch_run fb s (concat gs @ pend)"
    and b: "length (run_bytes pend) + 1 < 2 ^ 32" and e: "run_end fb s (concat gs @ pend) < s + 2 ^ 32"
  shows "\<exists>ro'. ro_complete mp ro = (Ok ro' :: ('e, _) outcome) \<and> ro_inv fb s (concat gs @ pend) ro' \<and> ro_multi_part_object ro' = None \<and> ro_id ro' = ro_id ro"
proof -
  let ?om = "(mp_metadata mp)\<lparr>om_end_offset_delta := run_end fb (mp_start_offset mp) pend - mp_start_offset mp,
    om_data_len := length (run_bytes pend)\<rparr>"
  have e': "run_end fb (mp_start_offset mp) pend < mp_start_offset mp + 2 ^ 32"
    using run_end_bound [OF run e] mp(4) by simp
  from mp_run_close [OF mp(1) b e'] obtain tail where t: "mp_run (mp_close mp) = (Ok (Some (run_bytes pend @ tail, ?om)) :: ('e, _) outcome)"
    by blast
  have lt: "mp_start_offset mp < run_end fb (mp_start_offset mp) pend"
    using run mp(2,4) by (intro batch_run_less) (simp_all add: batch_run_append)
  have "stored_as fb (ro_id ro) (run_end fb s (concat gs)) [(mp_key mp, run_bytes pend @ tail, ?om)] [pend]"
    using mp lt by (auto simp: mp_inv_def)
  from stored_as_snoc [OF st this] run
  have "ro_inv fb s (concat gs @ pend)
     (ro\<lparr>ro_multi_part_object := None, ro_done := ro_done ro @ [(mp_key mp, run_bytes pend @ tail, ?om)]\<rparr>)"
    unfolding ro_inv_def by (intro conjI exI [of _ "gs @ [pend]"] exI [of _ "[]"]) auto
  then show ?thesis using t by (simp add: ro_complete_def)
qed

lemma trigger_flush_run:
  assumes inv: "ro_inv fb s fs ro" and b: "length (run_bytes fs) + 1 < 2 ^ 32" and e: "run_end fb s fs < s + 2 ^ 32"
  shows "\<exists>ro'. trigger_flush ro = (Ok ro' :: ('e, _) outcome) \<and> ro_inv fb s fs ro' \<and> ro_multi_part_object ro' = None \<and> ro_id ro' = ro_id ro"
proof (cases "ro_multi_part_object ro")
  case (Some mp)
  then obtain gs pend where "fs = concat gs @ pend" "stored_as fb (ro_id ro) s (ro_done ro) gs" "pend \<noteq> []" "mp_inv fb pend mp"
    "mp_start_offset mp = run_end fb s (concat gs)" "om_id (mp_metadata mp) = ro_id ro" "batch_run fb s fs"
    using inv by (auto simp: ro_inv_def)
  then show ?thesis using ro_complete_run [of fb pend mp ro s gs] b e Some by (simp add: trigger_flush_def)
qed (use inv in \<open>simp add: trigger_flush_def\<close>)

text \<open>A write to the open object, one that goes into an object of its own, and one that opens an object.\<close>

lemma ro_write_open:
  assumes mpo: "ro_multi_part_object ro = Some mp" "pend \<noteq> []" "mp_inv fb pend mp" "mp_start_offset mp = run_end fb s (concat gs)"
      "om_id (mp_metadata mp) = ro_id ro"
    and st: "stored_as fb (ro_id ro) s (ro_done ro) gs" and br: "batch_run fb s (concat gs @ pend @ hs)" and hs: "hs \<noteq> []"
    and p: "concat payload = run_bytes hs"
    and b: "length (run_bytes (pend @ hs)) + 1 < 2 ^ 32" and e: "run_end fb s (concat gs @ pend @ hs) < s + 2 ^ 32"
  shows "\<exists>ro'. ro_write fb nxt payload ro = (Ok (run_end fb s (concat gs @ pend @ hs), ro') :: ('e, _) outcome)
    \<and> ro_inv fb s (concat gs @ pend @ hs) ro' \<and> ro_id ro' = ro_id ro"
proof -
  let ?s = "run_end fb s (concat gs)" and ?e = "run_end fb s (concat gs @ pend @ hs)"
  have e2: "run_end fb ?s (pend @ hs) < ?s + 2 ^ 32" using run_end_bound [OF br e] .
  have "\<exists>mp'. mp_write fb payload mp = (Ok ((mp_object_size mp \<le> length (run_bytes (pend @ hs)), ?e), mp') :: ('e, _) outcome)
     \<and> mp_inv fb (pend @ hs) mp' \<and> mp_start_offset mp' = ?s \<and> mp_metadata mp' = mp_metadata mp"
    using mp_write_run [OF mpo(3) _ hs p] br b e2 mpo(4) by (auto simp: run_end_append batch_run_append)
  then obtain mp' where w: "mp_write fb payload mp = (Ok ((mp_object_size mp \<le> length (run_bytes (pend @ hs)), ?e), mp') :: ('e, _) outcome)"
    and mp': "mp_inv fb (pend @ hs) mp'" "mp_start_offset mp' = ?s" "mp_metadata mp' = mp_metadata mp" by blast
  have "ro_inv fb s (concat gs @ pend @ hs) (ro\<lparr>ro_multi_part_object := Some mp'\<rparr>)"
    using br st mpo mp' unfolding ro_inv_def by (intro conjI exI [of _ gs] exI [of _ "pend @ hs"]) auto
  moreover have "\<exists>ro'. ro_complete mp' ro = (Ok ro' :: ('e, _) outcome) \<and> ro_inv fb s (concat gs @ pend @ hs) ro' \<and> ro_id ro' = ro_id ro"
    using ro_complete_run [of fb "pend @ hs" mp' ro s gs] mpo mp' st br b e by auto
  ultimately show ?thesis using w mpo(1) by (auto simp: ro_write_def Let_def)
qed

lemma ro_write_direct:
  assumes mpo: "ro_multi_part_object ro = None" and big: "ro_object_size ro \<le> length (run_bytes hs)"
    and st: "stored_as fb (ro_id ro) s (ro_done ro) gs" and br: "batch_run fb s (concat gs @ hs)" and hs: "hs \<noteq> []"
    and p: "concat payload = run_bytes hs"
    and b: "length (run_bytes hs) + 1 < 2 ^ 32" and e: "run_end fb s (concat gs @ hs) < s + 2 ^ 32"
  shows "\<exists>ro'. ro_write fb (run_end fb s (concat gs)) payload ro = (Ok (run_end fb s (concat gs @ hs), ro') :: ('e, _) outcome)
    \<and> ro_inv fb s (concat gs @ hs) ro' \<and> ro_id ro' = ro_id ro"
proof -
  let ?s = "run_end fb s (concat gs)"
  let ?om = "om_new (ro_stream_id ro) (ro_range_index ro) (ro_epoch ro) ?s"
  let ?om' = "?om\<lparr>om_end_offset_delta := run_end fb ?s hs - ?s, om_data_len := length (run_bytes hs)\<rparr>"
  let ?key = "gen_object_key (ro_cluster ro) (ro_stream_id ro) (ro_range_index ro) (ro_epoch ro) ?s"
  have run: "batch_run fb ?s hs" using br by (simp add: batch_run_append)
  have eh: "run_end fb ?s hs < ?s + 2 ^ 32" by (rule run_end_bound [OF br e])
  obtain tail where w: "write0 fb payload ?om SPARSE_SIZE = (Ok (run_end fb ?s hs, run_bytes hs @ tail, ?om') :: ('e, _) outcome)"
    using write0_run [of fb ?om hs payload] run hs p b eh by (simp only: om_new_start) blast
  have "stored_as fb (ro_id ro) ?s [(?key, run_bytes hs @ tail, ?om')] [hs]"
    using batch_run_less [OF run hs] hs by (simp add: om_new_id)
  from stored_as_snoc [OF st this] br mpo
  have "ro_inv fb s (concat gs @ hs) (ro\<lparr>ro_done := ro_done ro @ [(?key, run_bytes hs @ tail, ?om')]\<rparr>)"
    unfolding ro_inv_def by (intro conjI exI [of _ "gs @ [hs]"] exI [of _ "[]"]) auto
  then show ?thesis using w mpo big p b by (simp add: ro_write_def Let_def run_end_append)
qed

lemma ro_write_first:
  assumes mpo: "ro_multi_part_object ro = None" and small: "length (run_bytes hs) < ro_object_size ro"
    and st: "stored_as fb (ro_id ro) s (ro_done ro) gs" and br: "batch_run fb s (concat gs @ hs)" and hs: "hs \<noteq> []"
    and p: "concat payload = run_bytes hs"
    and b: "length (run_bytes hs) + 1 < 2 ^ 32" and e: "run_end fb s (concat gs @ hs) < s + 2 ^ 32"
  shows "\<exists>ro'. ro_write fb (run_end fb s (concat gs)) payload ro = (Ok (run_end fb s (concat gs @ hs), ro') :: ('e, _) outcome)
    \<and> ro_inv fb s (concat gs @ hs) ro' \<and> ro_id ro' = ro_id ro"
proof -
  let ?s = "run_end fb s (concat gs)"
  let ?om = "om_new (ro_stream_id ro) (ro_range_index ro) (ro_epoch ro) ?s"
  let ?key = "gen_object_key (ro_cluster ro) (ro_stream_id ro) (ro_range_index ro) (ro_epoch ro) ?s"
  let ?mp = "mp_new ?om ?key (ro_object_size ro)"
  have new: "mp_start_offset ?mp = ?s" "mp_metadata ?mp = ?om" by (simp_all add: mp_new_def)
  have "\<exists>mp'. mp_write fb payload ?mp = (Ok ((mp_object_size ?mp \<le> length (run_bytes hs), run_end fb ?s hs), mp') :: ('e, _) outcome)
     \<and> mp_inv fb hs mp' \<and> mp_start_offset mp' = ?s \<and> mp_metadata mp' = ?om"
    using mp_write_run [OF mp_inv_new [of fb ?om ?key "ro_object_size ro"] _ hs p] br b run_end_bound [OF br e] new
    by (auto simp: batch_run_append)
  then obtain mp' where w: "mp_write fb payload ?mp = (Ok ((mp_object_size ?mp \<le> length (run_bytes hs), run_end fb ?s hs), mp') :: ('e, _) outcome)"
     and mp': "mp_inv fb hs mp'" "mp_start_offset mp' = ?s" "mp_metadata mp' = ?om" by blast
  have "ro_inv fb s (concat gs @ hs) (ro\<lparr>ro_multi_part_object := Some mp'\<rparr>)"
    using br st hs mp' om_new_id unfolding ro_inv_def by (intro conjI exI [of _ gs] exI [of _ hs]) auto
  then show ?thesis using w mpo small p b by (simp add: ro_write_def Let_def run_end_append)
qed

text \<open>One write of the next batches: nothing is lost, and the next offset is returned.\<close>

lemma ro_write_run:
  assumes inv: "ro_inv fb s fs ro" and run: "batch_run fb (run_end fb s fs) hs" "hs \<noteq> []" and p: "concat payload = run_bytes hs"
    and b: "length (run_bytes (fs @ hs)) + 1 < 2 ^ 32" and e: "run_end fb s (fs @ hs) < s + 2 ^ 32"
  shows "\<exists>ro'. ro_write fb (run_end fb s fs) payload ro = (Ok (run_end fb s (fs @ hs), ro') :: ('e, _) outcome)
    \<and> ro_inv fb s (fs @ hs) ro' \<and> ro_id ro' = ro_id ro"
proof -
  have br: "batch_run fb s (fs @ hs)" using inv run by (simp add: ro_inv_def batch_run_append)
  from inv obtain gs pend where fs: "fs = concat gs @ pend" and st: "stored_as fb (ro_id ro) s (ro_done ro) gs"
    and mpo: "case ro_multi_part_object ro of None \<Rightarrow> pend = []
       | Some mp \<Rightarrow> pend \<noteq> [] \<and> mp_inv fb pend mp \<and> mp_start_offset mp = run_end fb s (concat gs) \<and> om_id (mp_metadata mp) = ro_id ro"
    unfolding ro_inv_def by blast
  have b2: "length (run_bytes (pend @ hs)) + 1 < 2 ^ 32" using b fs by simp
  show ?thesis
  proof (cases "ro_multi_part_object ro")
    case (Some mp)
    then show ?thesis using ro_write_open [of ro mp pend fb s gs hs payload] mpo st br run(2) p b2 e fs by simp
  next
    case None
    then have "fs = concat gs" "pend = []" using mpo fs by auto
    then show ?thesis
      using ro_write_direct [OF None _ st, of hs payload] ro_write_first [OF None _ st, of hs payload] br run(2) p b2 e
      by (cases "ro_object_size ro \<le> length (run_bytes hs)") (simp_all add: not_le)
  qed
qed

text \<open>What is stored is continuous, runs from the first offset to the last, and holds every byte in order.\<close>

definition commits :: "range_offload \<Rightarrow> object_metadata list" where
  "commits ro = map (\<lambda>(_, _, om). om) (ro_done ro)"

definition data_blocks :: "range_offload \<Rightarrow> bytes" where
  "data_blocks ro = concat (map (\<lambda>(_, bs, om). take (om_data_len om) bs) (ro_done ro))"

lemma stored_as_facts:
  assumes "stored_as fb rid s ds gs"
  shows "continuous (map (\<lambda>(_, _, om). om) ds)"
    "ds \<noteq> [] \<Longrightarrow> om_start_offset (hd (map (\<lambda>(_, _, om). om) ds)) = s"
    "run_end fb s (concat gs) = (if ds = [] then s else om_end_offset (last (map (\<lambda>(_, _, om). om) ds)))"
    "concat (map (\<lambda>(_, bs, om). take (om_data_len om) bs) ds) = run_bytes (concat gs)"
    "\<forall>(_, _, om) \<in> set ds. om_id om = rid \<and> om_start_offset om < om_end_offset om"
    "data_size (map (\<lambda>(_, _, om). om) ds) = length (run_bytes (concat gs))"
  using assms
proof (induction fb rid s ds gs rule: stored_as.induct)
  case (1 fb rid s key bs om ds g gs)
  {
    case 1
    then show ?case using "1.IH"(1,2) by (cases ds) auto
  next
    case 2
    then show ?case by simp
  next
    case 3
    then show ?case using "1.IH"(3) by (simp add: run_end_append)
  next
    case 4
    then show ?case using "1.IH"(4) by auto
  next
    case 5
    then show ?case using "1.IH"(5) by simp
  next
    case 6
    then show ?case using "1.IH"(6) by simp
  }
qed simp_all

lemma ro_inv_flushed:
  assumes "ro_inv fb s fs ro" and "ro_multi_part_object ro = None"
  shows "continuous (commits ro)" "commits ro \<noteq> [] \<Longrightarrow> om_start_offset (hd (commits ro)) = s"
    "run_end fb s fs = (if commits ro = [] then s else om_end_offset (last (commits ro)))"
    "data_blocks ro = run_bytes fs"
    "\<forall>om \<in> set (commits ro). om_id om = ro_id ro \<and> om_start_offset om < om_end_offset om"
    "data_size (commits ro) = length (run_bytes fs)"
proof -
  obtain gs where "fs = concat gs" "stored_as fb (ro_id ro) s (ro_done ro) gs" using assms by (auto simp: ro_inv_def)
  note f = stored_as_facts [OF this(2)] and this(1)
  then show "continuous (commits ro)" "commits ro \<noteq> [] \<Longrightarrow> om_start_offset (hd (commits ro)) = s"
    "run_end fb s fs = (if commits ro = [] then s else om_end_offset (last (commits ro)))"
    "data_blocks ro = run_bytes fs"
    "\<forall>om \<in> set (commits ro). om_id om = ro_id ro \<and> om_start_offset om < om_end_offset om"
    "data_size (commits ro) = length (run_bytes fs)"
    by (auto simp: commits_def data_blocks_def)
qed

section \<open>Examples\<close>

text \<open>Batches of ten records whose metadata is one byte, the number of the batch.\<close>

definition tiny_meta :: "byte \<Rightarrow> record_batch_meta" where
  "tiny_meta b = \<lparr>m_stream_id = 1, m_range_index = 0, m_flags = 0, m_base_offset = 10 * uint b, m_last_offset_delta = 10,
     m_base_timestamp = 0, m_properties = None\<rparr>"

definition tiny_fb :: fb_meta where
  "tiny_fb = \<lparr>fb_pack = (\<lambda>m. [word_of_int (m_base_offset m div 10)]), fb_root = (\<lambda>bs. if length bs = 1 then Some (tiny_meta (hd bs)) else None)\<rparr>"

definition tiny_flat :: "byte \<Rightarrow> flat_record_batch" where
  "tiny_flat b = \<lparr>f_magic = Some Magic0, f_metadata = [b], f_payload = [b, b]\<rparr>"

lemma tiny_flat_ok [simp]: "flat_ok (tiny_flat b)"
  by (simp add: flat_ok_def tiny_flat_def)

lemma tiny_flat_length [simp]: "length (flat_bytes (tiny_flat b)) = 12"
  by (simp add: length_flat_bytes) (simp add: tiny_flat_def)

lemma tiny_batch_end [simp]: "batch_end tiny_fb (tiny_flat b) = nat (10 * uint b) + 10"
proof -
  have "uint b < 2 ^ 8" using uint_lt2p [of b] by simp
  then show ?thesis by (simp add: batch_end_def tiny_fb_def tiny_flat_def tiny_meta_def to_unsigned_def)
qed

lemma tiny_root [simp]: "fb_root tiny_fb (f_metadata (tiny_flat b)) = Some (tiny_meta b)"
  by (simp add: tiny_fb_def tiny_flat_def)

lemma tiny_indexable: "indexable tiny_fb 0 (tiny_flat b)"
proof -
  have "uint b < 2 ^ 8" using uint_lt2p [of b] by simp
  then have "nat (10 * uint b) < 2560" by (simp add: nat_less_iff)
  then show ?thesis by (simp add: indexable_def)
qed

lemma tiny_run: "batch_run tiny_fb 0 [tiny_flat 0, tiny_flat 1, tiny_flat 2]"
  by (simp add: tiny_meta_def)

lemma tiny_index:
  "gen_sparse_index tiny_fb 0 (map flat_bytes [tiny_flat 0, tiny_flat 1, tiny_flat 2]) 0 12 = Ok (index_bytes_of [(20, 12)], 30, 12)"
  by (subst gen_sparse_index_spec [of _ "[tiny_flat 0, tiny_flat 1, tiny_flat 2]"])
     (simp_all add: tiny_indexable Let_def del: index_bytes_of.simps)

theorem gen_sparse_index_spec_witness:
  "gen_sparse_index tiny_fb 0 [flat_bytes (tiny_flat 0) @ flat_bytes (tiny_flat 1)] 5 100 = Ok (index_bytes_of [], 20, 29)"
  by (subst gen_sparse_index_spec [of _ "[tiny_flat 0, tiny_flat 1]"]) (simp_all add: tiny_indexable Let_def)

theorem find_bound_cuts_indexed_batch_witness:
  "find_bound ((om_new 1 0 0 0)\<lparr>om_end_offset_delta := 30, om_data_len := 36, om_sparse_index := index_bytes_of [(20, 12)]\<rparr>)
      10 (Some 20) 1000 None = Ok (Some (0, 12)) \<and> 12 \<le> length (flat_bytes (tiny_flat 0))"
proof -
  let ?om = "(om_new 1 0 0 0)\<lparr>om_end_offset_delta := 30, om_data_len := 36, om_sparse_index := index_bytes_of [(20, 12)]\<rparr>"
  have b: "find_bound ?om 10 (Some 20) 1000 None = Ok (Some (0, 12))"
    by (simp add: find_start_Cons find_end_Cons find_bound_def om_new_def om_end_offset_def del: index_bytes_of.simps(2))
  show ?thesis
    using find_bound_cuts_indexed_batch [of "[tiny_flat 0, tiny_flat 1, tiny_flat 2]" tiny_fb 0 12 _ _ _ ?om 1 10 1000 0 12] tiny_index b
    by (auto simp: tiny_indexable Let_def om_new_def simp del: index_bytes_of.simps)
qed

end
