(* ===== verification/Range_Accumulator.thy ===== *)
theory Range_Accumulator
  imports Range_Offload
begin

text \<open>
  The accumulator of a range, \<open>src/components/object-storage/src/range_accumulator.rs\<close>: it counts
  the committed bytes, decides when to offload and runs a task that fetches the records and hands
  them to the range's offload. The channel between the two holds at most 16 events. Time is a
  number of milliseconds given to the operations. What the fetcher
  (\<open>src/components/object-storage/src/range_fetcher.rs\<close>) answers is a list of results.
\<close>

section \<open>Model\<close>

datatype event_kind = ObjectFull | PartFull | TimeExpired | CloseEvent

record accumulator =
  ac_size :: u32
  ac_queue :: "event_kind list"
  ac_object_size :: u32
  ac_part_size :: u32
  ac_timestamp :: nat

definition ac_new :: "nat \<Rightarrow> u32 \<Rightarrow> u32 \<Rightarrow> accumulator" where
  "ac_new now object_size part_size =
     \<lparr>ac_size = 0, ac_queue = [], ac_object_size = object_size, ac_part_size = part_size, ac_timestamp = now\<rparr>"

definition try_send :: "event_kind \<Rightarrow> accumulator \<Rightarrow> accumulator" where
  "try_send ev ac = (if length (ac_queue ac) < 16 then ac\<lparr>ac_queue := ac_queue ac @ [ev]\<rparr> else ac)"

text \<open>\<open>-(n as i32)\<close>, checked.\<close>

definition neg_i32 :: "u32 \<Rightarrow> ('e, int) outcome" where
  "neg_i32 n = (if as_i32 n = - (2 ^ 31) then Panic else Ok (- as_i32 n))"

definition accumulate :: "nat \<Rightarrow> u32 \<Rightarrow> accumulator \<Rightarrow> ('e, (int \<times> bool) \<times> accumulator) outcome" where
  "accumulate now records_size ac =
     (if ac_size ac + records_size \<ge> 2 ^ 32 then Panic
      else if ac_object_size ac \<le> ac_size ac + records_size then
        fmap_ok (\<lambda>change. ((change, False), try_send ObjectFull (ac\<lparr>ac_size := 0, ac_timestamp := now\<rparr>)))
          (neg_i32 (ac_size ac))
      else
        let sz = ac_size ac + records_size
        in Ok ((as_i32 records_size, ac_part_size ac \<le> sz), ac\<lparr>ac_size := sz\<rparr>))"

definition try_flush :: "nat \<Rightarrow> nat \<Rightarrow> accumulator \<Rightarrow> ('e, int \<times> accumulator) outcome" where
  "try_flush now max_duration ac =
     (if ac_size ac \<noteq> 0 \<and> max_duration < now - ac_timestamp ac then
        fmap_ok (\<lambda>change. (change, try_send TimeExpired (ac\<lparr>ac_timestamp := now, ac_size := 0\<rparr>)))
          (neg_i32 (ac_size ac))
      else Ok (0, ac))"

definition try_offload_part :: "accumulator \<Rightarrow> ('e, int \<times> accumulator) outcome" where
  "try_offload_part ac =
     (if ac_part_size ac \<le> ac_size ac then
        fmap_ok (\<lambda>change. (change, try_send PartFull (ac\<lparr>ac_size := 0\<rparr>))) (neg_i32 (ac_size ac))
      else Ok (0, ac))"

subsection \<open>The reading task\<close>

datatype fetch_reply = Records "bytes list" | NoRecord | FetchFails

text \<open>The inner loop; \<open>None\<close> while it waits for the next reply.\<close>

fun fetch_loop :: "fb_meta \<Rightarrow> u64 \<Rightarrow> range_offload \<Rightarrow> fetch_reply list \<Rightarrow> ('e, u64 \<times> range_offload) outcome option" where
  "fetch_loop fb next_offset ro [] = None"
| "fetch_loop fb next_offset ro (Records payload # rs) =
     (if payload = [] then Some (Ok (next_offset, ro))
      else case ro_write fb next_offset payload ro of
             Ok (next_offset, ro) \<Rightarrow> fetch_loop fb next_offset ro rs
           | Err e \<Rightarrow> Some (Err e)
           | Panic \<Rightarrow> Some Panic)"
| "fetch_loop fb next_offset ro (NoRecord # rs) = Some (Ok (next_offset, ro))"
| "fetch_loop fb next_offset ro (FetchFails # rs) = fetch_loop fb next_offset ro rs"

text \<open>One event: the new state and whether the task goes on. The fetch size is a checked 32-bit product.\<close>

definition read_loop_event :: "fb_meta \<Rightarrow> u32 \<Rightarrow> fetch_reply list \<Rightarrow> event_kind \<Rightarrow> u64 \<times> range_offload
    \<Rightarrow> ('e, (u64 \<times> range_offload) \<times> bool) outcome option" where
  "read_loop_event fb object_size replies ev st =
     (case st of (next_offset, ro) \<Rightarrow>
      if ev = CloseEvent then Some (fmap_ok (\<lambda>ro. ((next_offset, ro), False)) (trigger_flush ro))
      else if object_size * 3 \<ge> 2 ^ 32 then Some Panic
      else
        map_option
          (\<lambda>r. bind_outcome r (\<lambda>(next_offset, ro).
             if ev = TimeExpired then fmap_ok (\<lambda>ro. ((next_offset, ro), True)) (trigger_flush ro)
             else Ok ((next_offset, ro), True)))
          (fetch_loop fb next_offset ro replies))"

section \<open>Properties\<close>

subsection \<open>Counting\<close>

definition ac_wf :: "accumulator \<Rightarrow> bool" where
  "ac_wf ac \<longleftrightarrow> ac_object_size ac \<le> 2 ^ 31 \<and> (ac_size ac = 0 \<or> ac_size ac < ac_object_size ac)"

lemma as_i32_small: "n < 2 ^ 31 \<Longrightarrow> as_i32 n = int n"
  by (simp add: to_signed_def)

lemma neg_i32_small: "n < 2 ^ 31 \<Longrightarrow> neg_i32 n = Ok (- int n)"
  by (simp add: neg_i32_def as_i32_small del: of_nat_power)

lemma ac_wf_small: "ac_wf ac \<Longrightarrow> ac_size ac < 2 ^ 31"
  by (auto simp: ac_wf_def)

lemma ac_try_send [simp]:
  "ac_size (try_send ev ac) = ac_size ac" "ac_object_size (try_send ev ac) = ac_object_size ac"
  by (simp_all add: try_send_def)

text \<open>What each operation reports is exactly how its size changed, and the size stays below that of an object.\<close>

lemma accumulate_change:
  assumes "ac_wf ac" and "accumulate now n ac = Ok ((change, full), ac')"
  shows "int (ac_size ac') = int (ac_size ac) + change \<and> ac_wf ac'"
proof (cases "ac_object_size ac \<le> ac_size ac + n")
  case True
  then show ?thesis
    using assms ac_wf_small [OF assms(1)]
    by (auto simp: accumulate_def neg_i32_small ac_wf_def split: if_splits)
next
  case False
  then have "n < 2 ^ 31" using assms(1) by (auto simp: ac_wf_def)
  then show ?thesis
    using assms False as_i32_small [of n] by (auto simp: accumulate_def Let_def ac_wf_def split: if_splits)
qed

lemma try_flush_change:
  assumes "ac_wf ac" and "try_flush now d ac = Ok (change, ac')"
  shows "int (ac_size ac') = int (ac_size ac) + change \<and> ac_wf ac'"
  using assms ac_wf_small [OF assms(1)]
  by (auto simp: try_flush_def neg_i32_small ac_wf_def split: if_splits)

lemma try_offload_part_change:
  assumes "ac_wf ac" and "try_offload_part ac = Ok (change, ac')"
  shows "int (ac_size ac') = int (ac_size ac) + change \<and> ac_wf ac'"
  using assms ac_wf_small [OF assms(1)]
  by (auto simp: try_offload_part_def neg_i32_small ac_wf_def split: if_splits)

subsection \<open>Offloading\<close>

lemma fetch_loop_run:
  assumes "ro_inv fb s fs ro" and "batch_run fb (run_end fb s fs) (concat hss)" and "\<forall>hs \<in> set hss. hs \<noteq> []"
    and "length (run_bytes (fs @ concat hss)) + 1 < 2 ^ 32" and "run_end fb s (fs @ concat hss) < s + 2 ^ 32"
  shows "\<exists>ro'. fetch_loop fb (run_end fb s fs) ro (map (\<lambda>hs. Records (map flat_bytes hs)) hss @ [NoRecord])
      = Some (Ok (run_end fb s (fs @ concat hss), ro') :: ('e, _) outcome) \<and> ro_inv fb s (fs @ concat hss) ro' \<and> ro_id ro' = ro_id ro"
  using assms
proof (induction hss arbitrary: fs ro)
  case (Cons hs hss)
  have e: "run_end fb s (fs @ hs) \<le> run_end fb s (fs @ concat (hs # hss))"
    using Cons.prems(2) batch_run_le by (simp add: run_end_append batch_run_append)
  obtain ro1 where w: "ro_write fb (run_end fb s fs) (map flat_bytes hs) ro = (Ok (run_end fb s (fs @ hs), ro1) :: ('e, _) outcome)"
    and i: "ro_inv fb s (fs @ hs) ro1" "ro_id ro1 = ro_id ro"
    using ro_write_run [OF Cons.prems(1), of hs "map flat_bytes hs"] Cons.prems e
    by (auto simp: batch_run_append run_bytes_def)
  have "\<exists>ro'. fetch_loop fb (run_end fb s (fs @ hs)) ro1 (map (\<lambda>hs. Records (map flat_bytes hs)) hss @ [NoRecord])
      = Some (Ok (run_end fb s ((fs @ hs) @ concat hss), ro') :: ('e, _) outcome) \<and> ro_inv fb s ((fs @ hs) @ concat hss) ro' \<and> ro_id ro' = ro_id ro1"
    using Cons.prems i by (intro Cons.IH) (simp_all add: run_end_append batch_run_append)
  then show ?case using w i Cons.prems(3) by simp
qed simp

lemma flush_round:
  assumes run: "batch_run fb s (concat hss)" "\<forall>hs \<in> set hss. hs \<noteq> []"
    and b: "length (run_bytes (concat hss)) + 1 < 2 ^ 32" and e: "run_end fb s (concat hss) < s + 2 ^ 32"
    and sz: "object_size * 3 < 2 ^ 32"
  shows "\<exists>ro. read_loop_event fb object_size (map (\<lambda>hs. Records (map flat_bytes hs)) hss @ [NoRecord]) TimeExpired
        (s, ro_new sid ri ep cl object_size) = Some (Ok ((run_end fb s (concat hss), ro), True) :: ('e, _) outcome)
    \<and> continuous (commits ro) \<and> data_blocks ro = run_bytes (concat hss)
    \<and> (commits ro \<noteq> [] \<longrightarrow> om_start_offset (hd (commits ro)) = s)
    \<and> (if commits ro = [] then s else om_end_offset (last (commits ro))) = run_end fb s (concat hss)
    \<and> (\<forall>om \<in> set (commits ro). om_id om = (sid, ri, ep) \<and> om_start_offset om < om_end_offset om)
    \<and> data_size (commits ro) = length (run_bytes (concat hss))"
proof -
  obtain ro1 where f: "fetch_loop fb s (ro_new sid ri ep cl object_size) (map (\<lambda>hs. Records (map flat_bytes hs)) hss @ [NoRecord])
      = Some (Ok (run_end fb s (concat hss), ro1) :: ('e, _) outcome)" and i1: "ro_inv fb s (concat hss) ro1"
      and id1: "ro_id ro1 = (sid, ri, ep)"
    using fetch_loop_run [OF ro_inv_new, of fb s hss sid ri ep cl object_size] run b e by (auto simp: ro_id_def ro_new_def)
  obtain ro where t: "trigger_flush ro1 = (Ok ro :: ('e, _) outcome)" "ro_inv fb s (concat hss) ro" "ro_multi_part_object ro = None"
     "ro_id ro = ro_id ro1"
    using trigger_flush_run [OF i1 b e] by blast
  have "read_loop_event fb object_size (map (\<lambda>hs. Records (map flat_bytes hs)) hss @ [NoRecord]) TimeExpired
        (s, ro_new sid ri ep cl object_size) = Some (Ok ((run_end fb s (concat hss), ro), True) :: ('e, _) outcome)"
    using sz f t(1) by (simp add: read_loop_event_def)
  then show ?thesis using ro_inv_flushed [OF t(2,3)] t(4) id1 by auto
qed

text \<open>
  C19. A flush offloads a range completely. When the reading task of a new range handles an expired
  timer and the fetcher returns a run of batches from the start offset on, in any number of
  replies, the task ends the round at the end of the run, and the objects committed are
  continuous, start at the start offset, end at the end of the run, all lie in the range and
  epoch of the offload, and their data blocks are together exactly the bytes of the run.
\<close>

theorem flush_offloads_everything:
  assumes run: "batch_run fb s (concat hss)" "\<forall>hs \<in> set hss. hs \<noteq> []"
    and b: "length (run_bytes (concat hss)) + 1 < 2 ^ 32" and e: "run_end fb s (concat hss) < s + 2 ^ 32"
    and sz: "object_size * 3 < 2 ^ 32"
  shows "\<exists>ro. read_loop_event fb object_size (map (\<lambda>hs. Records (map flat_bytes hs)) hss @ [NoRecord]) TimeExpired
        (s, ro_new sid ri ep cl object_size) = Some (Ok ((run_end fb s (concat hss), ro), True) :: ('e, _) outcome)
    \<and> continuous (commits ro) \<and> data_blocks ro = run_bytes (concat hss)
    \<and> (commits ro \<noteq> [] \<longrightarrow> om_start_offset (hd (commits ro)) = s)
    \<and> (if commits ro = [] then s else om_end_offset (last (commits ro))) = run_end fb s (concat hss)
    \<and> (\<forall>om \<in> set (commits ro). om_id om = (sid, ri, ep) \<and> om_start_offset om < om_end_offset om)"
  using flush_round [OF run b e sz, of sid ri ep cl] by blast

theorem flush_offloads_everything_witness:
  "\<exists>ro. read_loop_event tiny_fb 100 [Records [flat_bytes (tiny_flat 0), flat_bytes (tiny_flat 1)], Records [flat_bytes (tiny_flat 2)], NoRecord]
       TimeExpired (0, ro_new 1 0 0 ''c'' 100) = Some (Ok ((30, ro), True))
    \<and> continuous (commits ro) \<and> length (data_blocks ro) = 36"
  using flush_offloads_everything [of tiny_fb 0 "[[tiny_flat 0, tiny_flat 1], [tiny_flat 2]]" 100 1 0 0 "''c''"] tiny_run
  by (auto simp: run_end_def run_bytes_def)

end
