(* ===== verification/Object_Storage.thy ===== *)
theory Object_Storage
  imports Range_Accumulator
begin

text \<open>
  The object storage of a range server, \<open>src/components/object-storage/src/object_storage.rs\<close>: the
  accumulators of the ranges this server offloads and the bytes they hold together, the commits
  that fill them, the owner events that add and remove ranges and the periodic flush. A hash set
  is visited in an order that the parameter \<open>visit\<close> gives. The total is far below the bounds of
  its 64-bit type.
\<close>

section \<open>Model\<close>

record storage_config =
  sc_endpoint :: string
  sc_cluster :: string
  sc_object_size :: u32
  sc_part_size :: u32
  sc_max_cache_size :: u64
  sc_cache_low_watermark :: u64
  sc_force_flush_secs :: u64

text \<open>\<open>os_op\<close>: whether there is a store to write to; \<open>os_open\<close>: not shut down.\<close>

record object_storage =
  os_config :: storage_config
  os_ranges :: "range_key \<rightharpoonup> accumulator"
  os_part_full_ranges :: "range_key set"
  os_cache_size :: int
  os_op :: bool
  os_open :: bool

definition os_new :: "storage_config \<Rightarrow> object_storage" where
  "os_new config =
     \<lparr>os_config = config, os_ranges = Map.empty, os_part_full_ranges = {}, os_cache_size = 0,
      os_op = (sc_endpoint config \<noteq> []), os_open = True\<rparr>"

definition os_add_range :: "nat \<Rightarrow> range_key \<Rightarrow> owner \<Rightarrow> object_storage \<Rightarrow> object_storage" where
  "os_add_range now range_key ow st =
     (if \<not> os_op st then st
      else if \<not> os_open st then st
      else st\<lparr>os_ranges := (os_ranges st)(range_key \<mapsto>
             ac_new now (sc_object_size (os_config st)) (sc_part_size (os_config st)))\<rparr>)"

definition os_remove_range :: "range_key \<Rightarrow> object_storage \<Rightarrow> object_storage" where
  "os_remove_range range_key st =
     (if \<not> os_op st then st else st\<lparr>os_ranges := (os_ranges st)(range_key := None)\<rparr>)"

definition handle_owner_event :: "nat \<Rightarrow> range_key \<Rightarrow> owner option \<Rightarrow> object_storage \<Rightarrow> object_storage" where
  "handle_owner_event now range_key ow st =
     (case ow of
        Some ow \<Rightarrow> os_add_range now range_key ow st
      | None \<Rightarrow> os_remove_range range_key st)"

text \<open>The loop over the ranges with a full part; it returns the keys it handled.\<close>

fun offload_parts :: "u64 \<Rightarrow> range_key list \<Rightarrow> (range_key \<rightharpoonup> accumulator) \<times> int
    \<Rightarrow> ('e, ((range_key \<rightharpoonup> accumulator) \<times> int) \<times> range_key list) outcome" where
  "offload_parts low [] (ranges, cache) = Ok ((ranges, cache), [])"
| "offload_parts low (k # ks) (ranges, cache) =
     (case ranges k of
        None \<Rightarrow> offload_parts low ks (ranges, cache)
      | Some ac \<Rightarrow>
          bind_outcome (try_offload_part ac) (\<lambda>(change, ac).
          let ranges = ranges(k \<mapsto> ac); cache = cache + change in
          if cache < as_i64 low then Ok ((ranges, cache), [k])
          else fmap_ok (\<lambda>(st, removed). (st, k # removed)) (offload_parts low ks (ranges, cache))))"

definition new_commit :: "(range_key set \<Rightarrow> range_key list) \<Rightarrow> nat \<Rightarrow> range_key \<Rightarrow> u32 \<Rightarrow> object_storage
    \<Rightarrow> ('e, object_storage) outcome" where
  "new_commit visit now range_key record_size st =
     (if \<not> os_op st then Ok st
      else case os_ranges st range_key of
        None \<Rightarrow> Ok st
      | Some ac \<Rightarrow>
          bind_outcome (accumulate now record_size ac) (\<lambda>((size_change, is_part_full), ac).
          let cache = os_cache_size st + size_change;
              st = st\<lparr>os_ranges := (os_ranges st)(range_key \<mapsto> ac), os_cache_size := cache\<rparr>
          in if int_as_u64 cache < sc_max_cache_size (os_config st) then
               Ok (if is_part_full then st\<lparr>os_part_full_ranges := insert range_key (os_part_full_ranges st)\<rparr> else st)
             else
               bind_outcome (if is_part_full then try_offload_part ac else Ok (0, ac)) (\<lambda>(change, ac).
               let ranges = (os_ranges st)(range_key \<mapsto> ac) in
               bind_outcome
                 (offload_parts (sc_cache_low_watermark (os_config st)) (visit (os_part_full_ranges st)) (ranges, cache + change))
                 (\<lambda>((ranges, cache), removed).
                    Ok (st\<lparr>os_ranges := ranges, os_cache_size := cache,
                           os_part_full_ranges := os_part_full_ranges st - set removed\<rparr>)))))"

text \<open>One tick of the flush task: the sizes its calls report are not used.\<close>

fun flush_ranges :: "nat \<Rightarrow> nat \<Rightarrow> range_key list \<Rightarrow> (range_key \<rightharpoonup> accumulator) \<Rightarrow> ('e, range_key \<rightharpoonup> accumulator) outcome" where
  "flush_ranges now max_duration [] ranges = Ok ranges"
| "flush_ranges now max_duration (k # ks) ranges =
     (case ranges k of
        None \<Rightarrow> flush_ranges now max_duration ks ranges
      | Some ac \<Rightarrow>
          bind_outcome (try_flush now max_duration ac) (\<lambda>(_, ac).
          flush_ranges now max_duration ks (ranges(k \<mapsto> ac))))"

definition force_flush_tick :: "(range_key set \<Rightarrow> range_key list) \<Rightarrow> nat \<Rightarrow> object_storage \<Rightarrow> ('e, object_storage) outcome" where
  "force_flush_tick visit now st =
     fmap_ok (\<lambda>ranges. st\<lparr>os_ranges := ranges\<rparr>)
       (flush_ranges now (1000 * sc_force_flush_secs (os_config st)) (visit (dom (os_ranges st))) (os_ranges st))"

definition os_close :: "object_storage \<Rightarrow> object_storage" where
  "os_close st = st\<lparr>os_open := False\<rparr>"

section \<open>The cache size\<close>

definition held_bytes :: "(range_key \<rightharpoonup> accumulator) \<Rightarrow> nat" where
  "held_bytes ranges = (\<Sum>k \<in> dom ranges. ac_size (the (ranges k)))"

definition ranges_wf :: "(range_key \<rightharpoonup> accumulator) \<Rightarrow> bool" where
  "ranges_wf ranges \<longleftrightarrow> finite (dom ranges) \<and> (\<forall>ac \<in> ran ranges. ac_wf ac)"

definition cache_exact :: "object_storage \<Rightarrow> bool" where
  "cache_exact st \<longleftrightarrow> ranges_wf (os_ranges st) \<and> os_cache_size st = int (held_bytes (os_ranges st))"

lemma ranges_wf_get: "ranges_wf ranges \<Longrightarrow> ranges k = Some ac \<Longrightarrow> ac_wf ac"
  by (auto simp: ranges_wf_def intro: ranI)

lemma ranges_wf_upd: "ranges_wf ranges \<Longrightarrow> ac_wf ac \<Longrightarrow> ranges_wf (ranges(k \<mapsto> ac))"
  by (auto simp: ranges_wf_def dest!: ran_updD)

lemma held_bytes_upd:
  assumes "ranges_wf ranges" and "ranges k = Some ac"
  shows "held_bytes (ranges(k \<mapsto> ac')) + ac_size ac = held_bytes ranges + ac_size ac'"
proof -
  have fin: "finite (dom ranges)" and k: "k \<in> dom ranges" using assms by (auto simp: ranges_wf_def)
  have "held_bytes (ranges(k \<mapsto> ac')) = ac_size ac' + (\<Sum>x \<in> dom ranges - {k}. ac_size (the ((ranges(k \<mapsto> ac')) x)))"
    using fin by (simp add: held_bytes_def sum.insert_remove)
  also have "(\<Sum>x \<in> dom ranges - {k}. ac_size (the ((ranges(k \<mapsto> ac')) x))) = (\<Sum>x \<in> dom ranges - {k}. ac_size (the (ranges x)))"
    by (intro sum.cong) auto
  moreover have "held_bytes ranges = ac_size ac + (\<Sum>x \<in> dom ranges - {k}. ac_size (the (ranges x)))"
    using fin k assms(2) by (simp add: held_bytes_def sum.remove)
  ultimately show ?thesis by (simp del: fun_upd_apply)
qed

lemma held_bytes_change:
  "ranges_wf ranges \<Longrightarrow> ranges k = Some ac \<Longrightarrow> int (ac_size ac') = int (ac_size ac) + d
     \<Longrightarrow> int (held_bytes (ranges(k \<mapsto> ac'))) = int (held_bytes ranges) + d"
  using held_bytes_upd [of ranges k ac ac'] by simp

lemma offload_parts_exact:
  assumes "offload_parts low ks (ranges, cache) = (Ok ((ranges', cache'), removed) :: ('e, _) outcome)" and "ranges_wf ranges"
  shows "ranges_wf ranges' \<and> cache' - int (held_bytes ranges') = cache - int (held_bytes ranges)"
  using assms
proof (induction ks arbitrary: ranges cache removed)
  case (Cons k ks)
  show ?case
  proof (cases "ranges k")
    case (Some ac)
    from Cons.prems(1) Some obtain change ac1 where t: "try_offload_part ac = (Ok (change, ac1) :: ('e, _) outcome)"
      and r: "(if cache + change < as_i64 low then Ok ((ranges(k \<mapsto> ac1), cache + change), [k])
          else fmap_ok (\<lambda>(st, removed). (st, k # removed)) (offload_parts low ks (ranges(k \<mapsto> ac1), cache + change)))
          = (Ok ((ranges', cache'), removed) :: ('e, _) outcome)"
      by (auto simp: outcome_simps Let_def)
    note ch = try_offload_part_change [OF ranges_wf_get [OF Cons.prems(2) Some] t]
    have wf: "ranges_wf (ranges(k \<mapsto> ac1))" using Cons.prems(2) ch by (intro ranges_wf_upd) auto
    have h: "int (held_bytes (ranges(k \<mapsto> ac1))) = int (held_bytes ranges) + change"
      using held_bytes_change [OF Cons.prems(2) Some] ch by blast
    from r show ?thesis
    proof (cases "cache + change < as_i64 low")
      case True
      then show ?thesis using r wf h by auto
    next
      case False
      then obtain rem where "offload_parts low ks (ranges(k \<mapsto> ac1), cache + change) = (Ok ((ranges', cache'), rem) :: ('e, _) outcome)"
        using r by (auto simp: outcome_simps simp del: fun_upd_apply)
      from Cons.IH [OF this wf] show ?thesis using h by (simp del: fun_upd_apply)
    qed
  qed (use Cons in auto)
qed simp

text \<open>
  The commit path accounts exactly: as long as the configured object size is at most 2 GiB,
  every commit keeps the cache size equal to the bytes the accumulators hold together, whatever
  the range, the size and the ranges it decides to offload, in whatever order it visits them.
\<close>

theorem new_commit_accounts:
  assumes c: "cache_exact st" and r: "new_commit visit now k n st = (Ok st' :: ('e, _) outcome)"
  shows "cache_exact st'"
proof (cases "os_op st \<and> os_ranges st k \<noteq> None")
  case True
  then obtain ac where op: "os_op st" and k: "os_ranges st k = Some ac" by auto
  have wf: "ranges_wf (os_ranges st)" and sz: "os_cache_size st = int (held_bytes (os_ranges st))"
    using c by (simp_all add: cache_exact_def)
  from r op k obtain d full ac1 where a: "accumulate now n ac = (Ok ((d, full), ac1) :: ('e, _) outcome)"
    by (auto simp: new_commit_def outcome_simps)
  note ch = accumulate_change [OF ranges_wf_get [OF wf k] a]
  let ?r1 = "(os_ranges st)(k \<mapsto> ac1)"
  have wf1: "ranges_wf ?r1" and h1: "int (held_bytes ?r1) = int (held_bytes (os_ranges st)) + d"
    using ranges_wf_upd [OF wf] held_bytes_change [OF wf k] ch by auto
  show ?thesis
  proof (cases "int_as_u64 (os_cache_size st + d) < sc_max_cache_size (os_config st)")
    case True
    then show ?thesis using r op k a wf1 h1 sz by (auto simp: new_commit_def Let_def cache_exact_def split: if_splits)
  next
    case False
    with r op k a obtain d2 ac2 r3 c3 rem where
      t: "(if full then try_offload_part ac1 else Ok (0, ac1)) = (Ok (d2, ac2) :: ('e, _) outcome)"
      and o3: "offload_parts (sc_cache_low_watermark (os_config st)) (visit (os_part_full_ranges st))
          (?r1(k \<mapsto> ac2), os_cache_size st + d + d2) = (Ok ((r3, c3), rem) :: ('e, _) outcome)"
      and st': "st' = st\<lparr>os_ranges := r3, os_cache_size := c3, os_part_full_ranges := os_part_full_ranges st - set rem\<rparr>"
      by (auto simp: new_commit_def Let_def outcome_simps simp del: fun_upd_upd)
    have "int (ac_size ac2) = int (ac_size ac1) + d2 \<and> ac_wf ac2"
      using t ch try_offload_part_change [of ac1 d2 ac2] by (auto split: if_splits)
    then have "ranges_wf (?r1(k \<mapsto> ac2))" "int (held_bytes (?r1(k \<mapsto> ac2))) = int (held_bytes ?r1) + d2"
      using ranges_wf_upd [OF wf1, of ac2 k] held_bytes_change [OF wf1, of k ac1 ac2 d2] by simp_all
    with offload_parts_exact [OF o3] show ?thesis using sz h1 by (simp add: st' cache_exact_def)
  qed
next
  case False
  then show ?thesis using r c by (cases "os_op st") (simp_all add: new_commit_def)
qed

lemma flush_ranges_le:
  assumes "flush_ranges now d ks ranges = (Ok ranges' :: ('e, _) outcome)" and "ranges_wf ranges"
  shows "ranges_wf ranges' \<and> held_bytes ranges' \<le> held_bytes ranges"
  using assms
proof (induction ks arbitrary: ranges)
  case (Cons k ks)
  show ?case
  proof (cases "ranges k")
    case (Some ac)
    from Cons.prems(1) Some obtain ch ac1 where t: "try_flush now d ac = (Ok (ch, ac1) :: ('e, _) outcome)"
      and r: "flush_ranges now d ks (ranges(k \<mapsto> ac1)) = (Ok ranges' :: ('e, _) outcome)"
      by (auto simp: outcome_simps simp del: fun_upd_apply)
    note c = try_flush_change [OF ranges_wf_get [OF Cons.prems(2) Some] t]
    have wf: "ranges_wf (ranges(k \<mapsto> ac1))" using Cons.prems(2) c by (intro ranges_wf_upd) auto
    have "ac_size ac1 \<le> ac_size ac" using t by (auto simp: try_flush_def outcome_simps split: if_splits)
    with held_bytes_upd [OF Cons.prems(2) Some, of ac1] Cons.IH [OF r wf] show ?thesis by linarith
  qed (use Cons in auto)
qed simp

text \<open>The visited range is flushed: it holds nothing afterwards.\<close>

lemma flush_ranges_expired:
  assumes "flush_ranges now d ks ranges = (Ok ranges' :: ('e, _) outcome)" and "ranges_wf ranges"
    and "k \<in> set ks" and "ranges k = Some ac" and "ac_size ac \<noteq> 0" and "d < now - ac_timestamp ac"
  shows "held_bytes ranges' < held_bytes ranges"
  using assms
proof (induction ks arbitrary: ranges)
  case (Cons j ks)
  show ?case
  proof (cases "ranges j")
    case None
    then show ?thesis using Cons by (cases "j = k") auto
  next
    case (Some aj)
    from Cons.prems(1) Some obtain ch a1 where t: "try_flush now d aj = (Ok (ch, a1) :: ('e, _) outcome)"
      and r: "flush_ranges now d ks (ranges(j \<mapsto> a1)) = (Ok ranges' :: ('e, _) outcome)"
      by (auto simp: outcome_simps simp del: fun_upd_apply)
    note c = try_flush_change [OF ranges_wf_get [OF Cons.prems(2) Some] t]
    have wf: "ranges_wf (ranges(j \<mapsto> a1))" using Cons.prems(2) c by (intro ranges_wf_upd) auto
    have le: "ac_size a1 \<le> ac_size aj" using t by (auto simp: try_flush_def outcome_simps split: if_splits)
    note h = held_bytes_upd [OF Cons.prems(2) Some, of a1]
    show ?thesis
    proof (cases "j = k")
      case True
      then have "ac_size a1 = 0" using t Some Cons.prems(4-6) by (auto simp: try_flush_def outcome_simps)
      then show ?thesis using h flush_ranges_le [OF r wf] True Some Cons.prems(4,5) by auto
    next
      case False
      then have "held_bytes ranges' < held_bytes (ranges(j \<mapsto> a1))" using Cons.prems by (intro Cons.IH [OF r wf]) auto
      then show ?thesis using h le by linarith
    qed
  qed
qed simp

text \<open>
  The periodic flush breaks the accounting: when it flushes a range whose timer has expired,
  the bytes the accumulators hold go down and the cache size does not. From then on the storage
  counts bytes that no accumulator holds any more.
\<close>

theorem force_flush_loses_accounting:
  assumes c: "cache_exact st" and v: "set (visit (dom (os_ranges st))) = dom (os_ranges st)"
    and k: "os_ranges st k = Some ac" "ac_size ac \<noteq> 0" "1000 * sc_force_flush_secs (os_config st) < now - ac_timestamp ac"
    and r: "force_flush_tick visit now st = (Ok st' :: ('e, _) outcome)"
  shows "os_cache_size st' = os_cache_size st \<and> int (held_bytes (os_ranges st')) < os_cache_size st'"
proof -
  obtain rs where f: "flush_ranges now (1000 * sc_force_flush_secs (os_config st)) (visit (dom (os_ranges st))) (os_ranges st)
      = (Ok rs :: ('e, _) outcome)" and st': "st' = st\<lparr>os_ranges := rs\<rparr>"
    using r by (auto simp: force_flush_tick_def outcome_simps)
  have "k \<in> set (visit (dom (os_ranges st)))" using v k(1) by auto
  from flush_ranges_expired [OF f _ this k(1) k(2,3)] c show ?thesis by (simp add: st' cache_exact_def)
qed

section \<open>From the offload to the manager\<close>

text \<open>The objects map after the manager has learned of the committed objects.\<close>

definition enter :: "object_metadata list \<Rightarrow> objects \<Rightarrow> objects" where
  "enter oms objs = fold (\<lambda>om. bt_insert (object_key_of om) (object_of om)) oms objs"

lemma enter_wf: "bt_wf objs \<Longrightarrow> bt_wf (enter oms objs)"
  by (induction oms arbitrary: objs) (simp_all add: enter_def bt_wf_insert)

lemma enter_keys: "fst ` set (enter oms objs) = object_key_of ` set oms \<union> fst ` set objs"
  by (induction oms arbitrary: objs) (auto simp: enter_def set_fst_bt_insert)

lemma enter_other: "bt_wf objs \<Longrightarrow> k \<notin> object_key_of ` set oms \<Longrightarrow> bt_get k (enter oms objs) = bt_get k objs"
proof (induction oms arbitrary: objs)
  case (Cons om oms)
  have "bt_get k (enter oms (bt_insert (object_key_of om) (object_of om) objs)) = bt_get k (bt_insert (object_key_of om) (object_of om) objs)"
    using Cons.prems by (intro Cons.IH) (auto simp: bt_wf_insert)
  then show ?case using Cons.prems by (simp add: enter_def bt_get_insert)
qed (simp add: enter_def)

lemma enter_get:
  "bt_wf objs \<Longrightarrow> distinct (map object_key_of oms) \<Longrightarrow> om \<in> set oms \<Longrightarrow> bt_get (object_key_of om) (enter oms objs) = Some (object_of om)"
proof (induction oms arbitrary: objs)
  case (Cons o1 oms)
  have e: "enter (o1 # oms) objs = enter oms (bt_insert (object_key_of o1) (object_of o1) objs)" by (simp add: enter_def)
  have wf: "bt_wf (bt_insert (object_key_of o1) (object_of o1) objs)" using Cons.prems(1) by (rule bt_wf_insert)
  show ?case
  proof (cases "om \<in> set oms")
    case True
    then show ?thesis using Cons.IH [OF wf] Cons.prems(2) e by simp
  next
    case False
    then have "om = o1" "object_key_of o1 \<notin> object_key_of ` set oms" using Cons.prems by auto
    then show ?thesis using enter_other [OF wf] Cons.prems(1) e by (simp add: bt_get_insert)
  qed
qed simp

text \<open>Continuous objects that hold records, all of one epoch.\<close>

definition offloaded_run :: "u16 \<Rightarrow> object_metadata list \<Rightarrow> bool" where
  "offloaded_run ep oms \<longleftrightarrow> continuous oms \<and> (\<forall>om \<in> set oms. om_epoch om = ep \<and> om_start_offset om < om_end_offset om)"

lemma offloaded_run_Cons:
  "offloaded_run ep (om # oms) \<longleftrightarrow> om_epoch om = ep \<and> om_start_offset om < om_end_offset om \<and> offloaded_run ep oms
     \<and> (oms \<noteq> [] \<longrightarrow> om_end_offset om = om_start_offset (hd oms))"
  by (cases oms) (auto simp: offloaded_run_def)

lemma offloaded_run_later: "offloaded_run ep (om # oms) \<Longrightarrow> x \<in> set oms \<Longrightarrow> om_end_offset om \<le> om_start_offset x"
proof (induction oms arbitrary: om)
  case (Cons o1 oms)
  have tl: "offloaded_run ep (o1 # oms)" and st: "om_end_offset om = om_start_offset o1" "om_start_offset o1 < om_end_offset o1"
    using Cons.prems(1) by (simp_all add: offloaded_run_Cons)
  show ?case using Cons.IH [OF tl] Cons.prems(2) st by (cases "x = o1") auto
qed simp

lemma offloaded_run_distinct: "offloaded_run ep oms \<Longrightarrow> distinct (map object_key_of oms)"
proof (induction oms)
  case (Cons om oms)
  have "object_key_of om \<noteq> object_key_of x" if "x \<in> set oms" for x
    using offloaded_run_later [OF Cons.prems that] Cons.prems by (auto simp: object_key_of_def offloaded_run_Cons)
  then show ?case using Cons by (auto simp: offloaded_run_Cons)
qed simp

lemma offloaded_run_last: "offloaded_run ep oms \<Longrightarrow> x \<in> set oms \<Longrightarrow> om_start_offset x < om_end_offset (last oms)"
proof (induction oms arbitrary: x)
  case (Cons om oms)
  show ?case
  proof (cases "oms = []")
    case False
    then have "om_start_offset om < om_end_offset (last oms)"
      using Cons.IH [of "hd oms"] Cons.prems(1) by (simp add: offloaded_run_Cons)
    then show ?thesis using Cons False by (auto simp: offloaded_run_Cons)
  qed (use Cons.prems in \<open>auto simp: offloaded_run_Cons\<close>)
qed simp

text \<open>The loop of the manager runs through such objects and stops after the last one.\<close>

lemma continue_loop_follows:
  assumes "offloaded_run ep oms" and "\<forall>om \<in> set oms. bt_get (object_key_of om) objs = Some (object_of om)"
    and "oms \<noteq> [] \<longrightarrow> om_start_offset (hd oms) = off"
    and "ep \<le> emax" and "off' = (if oms = [] then off else om_end_offset (last oms))" and "off' < e" and "sz + data_size oms < h"
    and "h \<le> 2 ^ 32"
  shows "\<exists>acc'. continue_loop objs emax e h ep off sz acc =
      (continue_loop objs emax e h ep off' (sz + data_size oms) (acc @ acc') :: ('e, _) outcome option)
    \<and> map om_end_offset acc' = map om_end_offset oms"
  using assms
proof (induction oms arbitrary: off sz acc)
  case (Cons om oms)
  have lt: "om_start_offset om < off'" using offloaded_run_last [OF Cons.prems(1), of om] Cons.prems(5) by simp
  have off: "off = om_start_offset om" and ep: "om_epoch om = ep" using Cons.prems(1,3) by (simp_all add: offloaded_run_Cons)
  have k: "bt_get (ep, off) objs = Some (object_of om)" using Cons.prems(2) ep off by (simp add: object_key_of_def)
  have en: "off + ob_end_offset_delta (object_of om) = om_end_offset om" by (simp add: off object_of_def om_end_offset_def)
  let ?acc = "acc @ [gen_object_metadata (ep, off) (object_of om)]"
  have "\<exists>acc'. continue_loop objs emax e h ep (om_end_offset om) (sz + om_data_len om) ?acc =
      (continue_loop objs emax e h ep off' (sz + om_data_len om + data_size oms) (?acc @ acc') :: ('e, _) outcome option)
    \<and> map om_end_offset acc' = map om_end_offset oms"
    using Cons.prems by (intro Cons.IH) (auto simp: offloaded_run_Cons)
  then obtain acc' where a: "continue_loop objs emax e h ep (om_end_offset om) (sz + om_data_len om) ?acc =
      (continue_loop objs emax e h ep off' (sz + om_data_len om + data_size oms) (?acc @ acc') :: ('e, _) outcome option)"
    "map om_end_offset acc' = map om_end_offset oms" by blast
  have "continue_loop objs emax e h ep off sz acc =
      (continue_loop objs emax e h ep (om_end_offset om) (sz + om_data_len om) ?acc :: ('e, _) outcome option)"
    using Cons.prems(4,6,7,8) lt off k
    by (subst continue_loop.simps) (simp add: object_of_def om_end_offset_def)
  then show ?case
    using a en by (intro exI [of _ "gen_object_metadata (ep, off) (object_of om) # acc'"]) (simp add: add.assoc)
qed simp

lemma epoch_bounds:
  assumes "\<And>k ob. (k, ob) \<in> set objs \<Longrightarrow> fst k = ep" and "objs \<noteq> []"
  shows "epoch_min objs = ep" "epoch_max objs = ep"
proof -
  have "fst (fst (hd objs)) = ep" "fst (fst (last objs)) = ep" using assms(1) [of "fst (hd objs)" "snd (hd objs)"]
      assms(1) [of "fst (last objs)" "snd (last objs)"] assms(2) by simp_all
  then show "epoch_min objs = ep" "epoch_max objs = ep"
    using assms(2) by (cases objs, simp_all add: epoch_min_def epoch_max_def bt_first_def bt_last_def case_prod_beta)
qed

lemma enter_key:
  assumes "offloaded_run ep oms" and "(k, ob) \<in> set (enter oms bt_empty)"
  shows "fst k = ep \<and> snd k < om_end_offset (last oms)"
proof -
  have "k \<in> fst ` set (enter oms bt_empty)" using assms(2) by force
  then have "k \<in> object_key_of ` set oms" by (simp add: enter_keys bt_empty_def)
  then show ?thesis using assms(1) offloaded_run_last [OF assms(1)] by (auto simp: object_key_of_def offloaded_run_def)
qed

lemma offload_progress:
  assumes run: "offloaded_run ep oms" "oms \<noteq> []" and s: "om_start_offset (hd oms) = s"
    and b: "data_size (tl oms) < 2 ^ 32 - 1" "om_end_offset (last oms) < 2 ^ 64 - 1" and ep: "ep < 65535"
  shows "offload_offset (managed_default\<lparr>mo_objects := enter oms bt_empty, mo_start_offset := s\<rparr>)
    = Some (Ok (om_end_offset (last oms)) :: ('e, _) outcome)"
proof -
  let ?objs = "enter oms bt_empty" and ?eo = "om_end_offset (last oms)"
  obtain o1 os where oms: "oms = o1 # os" using run(2) by (cases oms) auto
  have wf: "bt_wf ?objs" by (simp add: enter_wf)
  have get: "\<forall>om \<in> set oms. bt_get (object_key_of om) ?objs = Some (object_of om)"
    using enter_get [OF bt_wf_empty offloaded_run_distinct [OF run(1)]] by blast
  have o1: "om_epoch o1 = ep" "om_start_offset o1 = s" "offloaded_run ep os" "s < om_end_offset o1"
    "os \<noteq> [] \<longrightarrow> om_start_offset (hd os) = om_end_offset o1"
    using run(1) s by (auto simp: oms offloaded_run_Cons)
  have g1: "bt_get (ep, s) ?objs = Some (object_of o1)" using get o1 by (simp add: oms object_key_of_def)
  then have ne: "?objs \<noteq> []" by (auto simp: bt_get_def)
  note eb = epoch_bounds [OF conjunct1 [OF enter_key [OF run(1)]] ne]
  have en: "s + ob_end_offset_delta (object_of o1) = om_end_offset o1" by (simp add: object_of_def o1(2) [symmetric] om_end_offset_def)
  have ff: "find_first ?objs ep ep s = (Ok (ep, Some ((ep, s), object_of o1)) :: ('e, _) outcome)"
    using covering_at [OF wf g1] o1(4) en by (simp add: find_first.simps)
  have "\<exists>acc'. continue_loop ?objs ep (2 ^ 64 - 1) (2 ^ 32 - 1) ep (om_end_offset o1) 0 [gen_object_metadata (ep, s) (object_of o1)]
      = (continue_loop ?objs ep (2 ^ 64 - 1) (2 ^ 32 - 1) ep ?eo (0 + data_size os)
           ([gen_object_metadata (ep, s) (object_of o1)] @ acc') :: ('e, _) outcome option)
    \<and> map om_end_offset acc' = map om_end_offset os"
    using o1 get b by (intro continue_loop_follows) (auto simp: oms)
  then obtain acc' where cl: "continue_loop ?objs ep (2 ^ 64 - 1) (2 ^ 32 - 1) ep (om_end_offset o1) 0 [gen_object_metadata (ep, s) (object_of o1)]
      = (continue_loop ?objs ep (2 ^ 64 - 1) (2 ^ 32 - 1) ep ?eo (data_size os)
           (gen_object_metadata (ep, s) (object_of o1) # acc') :: ('e, _) outcome option)"
    and acc: "map om_end_offset acc' = map om_end_offset os" by auto
  have "bt_get (ep, ?eo) ?objs = None" using enter_key [OF run(1)] by (force simp: bt_get_None_iff)
  then have "continue_loop ?objs ep (2 ^ 64 - 1) (2 ^ 32 - 1) ep ?eo (data_size os) (gen_object_metadata (ep, s) (object_of o1) # acc')
      = Some (Ok (gen_object_metadata (ep, s) (object_of o1) # acc', ?eo, data_size os) :: ('e, _) outcome)"
    using ep b by (simp add: continue_loop.simps [of _ _ _ _ ep] continue_loop.simps [of _ _ _ _ "Suc ep"] oms)
  moreover have "om_end_offset (last (gen_object_metadata (ep, s) (object_of o1) # acc')) = ?eo"
  proof -
    have "map om_end_offset (gen_object_metadata (ep, s) (object_of o1) # acc') = map om_end_offset oms"
      using acc en by (simp add: oms)
    from arg_cong [OF this, of last] show ?thesis using run(2) by (simp only: last_map list.distinct not_False_eq_True simp_thms)
  qed
  ultimately show ?thesis
    using cl ff en by (simp add: offload_offset_def get_continuous_objects_def eb or_default_def Let_def)
qed

text \<open>
  C6. From the records of a range to the manager's progress: after a round of the reading task that
  an expired timer started and that fetched a run of batches from the start of a new range, the
  manager that has learned of the committed objects computes as offload offset of the range
  exactly the end of the run.
\<close>

theorem flushed_range_progress:
  assumes run: "batch_run fb s (concat hss)" "\<forall>hs \<in> set hss. hs \<noteq> []" "hss \<noteq> []"
    and b: "length (run_bytes (concat hss)) + 1 < 2 ^ 32" and e: "run_end fb s (concat hss) < s + 2 ^ 32"
    and sz: "object_size * 3 < 2 ^ 32" and ep: "ep < 65535" and e64: "run_end fb s (concat hss) < 2 ^ 64 - 1"
  shows "\<exists>ro. read_loop_event fb object_size (map (\<lambda>hs. Records (map flat_bytes hs)) hss @ [NoRecord]) TimeExpired
        (s, ro_new sid ri ep cl object_size) = Some (Ok ((run_end fb s (concat hss), ro), True) :: ('e, _) outcome)
    \<and> offload_offset (managed_default\<lparr>mo_objects := enter (commits ro) bt_empty, mo_start_offset := s\<rparr>)
        = Some (Ok (run_end fb s (concat hss)) :: ('f, _) outcome)"
proof -
  from flush_round [OF run(1,2) b e sz, of sid ri ep cl] obtain ro where
    r: "read_loop_event fb object_size (map (\<lambda>hs. Records (map flat_bytes hs)) hss @ [NoRecord]) TimeExpired
        (s, ro_new sid ri ep cl object_size) = Some (Ok ((run_end fb s (concat hss), ro), True) :: ('e, _) outcome)"
    and c: "continuous (commits ro)" "commits ro \<noteq> [] \<longrightarrow> om_start_offset (hd (commits ro)) = s"
      "(if commits ro = [] then s else om_end_offset (last (commits ro))) = run_end fb s (concat hss)"
      "\<forall>om \<in> set (commits ro). om_id om = (sid, ri, ep) \<and> om_start_offset om < om_end_offset om"
      "data_size (commits ro) = length (run_bytes (concat hss))" by blast
  have "concat hss \<noteq> []" using run(2,3) by (cases hss) auto
  then have ne: "commits ro \<noteq> []" using batch_run_less [OF run(1)] c(3) by auto
  have "offloaded_run ep (commits ro)" using c(1,4) by (auto simp: offloaded_run_def om_id_def)
  moreover have "data_size (tl (commits ro)) < 2 ^ 32 - 1" using c(5) b ne by (cases "commits ro") auto
  ultimately have "offload_offset (managed_default\<lparr>mo_objects := enter (commits ro) bt_empty, mo_start_offset := s\<rparr>)
        = Some (Ok (om_end_offset (last (commits ro))) :: ('f, _) outcome)"
    using ne c(2,3) e64 ep by (intro offload_progress) auto
  then show ?thesis using r c(3) ne by auto
qed

section \<open>Examples\<close>

theorem flushed_range_progress_witness:
  "\<exists>ro. read_loop_event tiny_fb 100 [Records [flat_bytes (tiny_flat 0), flat_bytes (tiny_flat 1)], Records [flat_bytes (tiny_flat 2)], NoRecord]
       TimeExpired (0, ro_new 1 0 0 ''c'' 100) = Some (Ok ((30, ro), True))
    \<and> offload_offset (managed_default\<lparr>mo_objects := enter (commits ro) bt_empty, mo_start_offset := 0\<rparr>) = Some (Ok 30)"
  using flushed_range_progress [of tiny_fb 0 "[[tiny_flat 0, tiny_flat 1], [tiny_flat 2]]" 100 0 1 0 "''c''"] tiny_run
  by (auto simp: run_end_def run_bytes_def)

definition sample_storage :: object_storage where
  "sample_storage = (os_new \<lparr>sc_endpoint = ''fs://'', sc_cluster = ''c'', sc_object_size = 100, sc_part_size = 50,
     sc_max_cache_size = 1000, sc_cache_low_watermark = 500, sc_force_flush_secs = 1\<rparr>)
     \<lparr>os_ranges := [(1, 0) \<mapsto> (ac_new 0 100 50)\<lparr>ac_size := 30\<rparr>], os_cache_size := 30\<rparr>"

lemma sample_storage_exact: "cache_exact sample_storage"
  by (simp add: cache_exact_def ranges_wf_def held_bytes_def sample_storage_def os_new_def ac_new_def ac_wf_def)

theorem new_commit_accounts_witness:
  "cache_exact (sample_storage\<lparr>os_ranges := [(1, 0) \<mapsto> (ac_new 0 100 50)\<lparr>ac_size := 70\<rparr>], os_cache_size := 70,
     os_part_full_ranges := {(1, 0)}\<rparr>)"
proof -
  have "new_commit (\<lambda>_. []) 5 (1, 0) 40 sample_storage
    = (Ok (sample_storage\<lparr>os_ranges := [(1, 0) \<mapsto> (ac_new 0 100 50)\<lparr>ac_size := 70\<rparr>], os_cache_size := 70,
     os_part_full_ranges := {(1, 0)}\<rparr>) :: (unit, _) outcome)"
    by (simp add: new_commit_def sample_storage_def os_new_def ac_new_def accumulate_def to_signed_def to_unsigned_def Let_def)
  from new_commit_accounts [OF sample_storage_exact this] show ?thesis .
qed

theorem force_flush_loses_accounting_witness:
  "force_flush_tick (\<lambda>_. [(1, 0)]) 5000 sample_storage
     = Ok (sample_storage\<lparr>os_ranges := [(1, 0) \<mapsto> try_send TimeExpired ((ac_new 5000 100 50)\<lparr>ac_size := 0\<rparr>)]\<rparr>)
   \<and> int (held_bytes [(1, 0) \<mapsto> try_send TimeExpired ((ac_new 5000 100 50)\<lparr>ac_size := 0\<rparr>)]) < 30"
proof -
  have t: "force_flush_tick (\<lambda>_. [(1, 0)]) 5000 sample_storage
     = Ok (sample_storage\<lparr>os_ranges := [(1, 0) \<mapsto> try_send TimeExpired ((ac_new 5000 100 50)\<lparr>ac_size := 0\<rparr>)]\<rparr>)"
    by (simp add: force_flush_tick_def sample_storage_def os_new_def ac_new_def try_flush_def neg_i32_def to_signed_def)
  have "int (held_bytes (os_ranges (sample_storage\<lparr>os_ranges := [(1, 0) \<mapsto> try_send TimeExpired ((ac_new 5000 100 50)\<lparr>ac_size := 0\<rparr>)]\<rparr>))) < 30"
    using force_flush_loses_accounting [OF sample_storage_exact _ _ _ _ t, of "(1, 0)" "(ac_new 0 100 50)\<lparr>ac_size := 30\<rparr>"]
    by (simp add: sample_storage_def os_new_def ac_new_def)
  then show ?thesis using t by simp
qed

end
