(* ===== verification/Records_Block.thy ===== *)
theory Records_Block
  imports Range_Offload
begin

text \<open>
  Blocks of records as the replication client caches and returns them,
  \<open>src/components/replication/src/stream/records_block.rs\<close>. A record here is one flat record
  batch. Sums of record sizes are not bounded by 32 bits in the model: a block of 4 GiB does not
  arise.
\<close>

section \<open>Model\<close>

record block_record =
  br_start_offset :: u64
  br_end_offset_delta :: u32
  br_data :: "bytes list"

definition br_size :: "block_record \<Rightarrow> u32" where
  "br_size r = length (concat (br_data r)) mod 2 ^ 32"

definition br_end_offset :: "block_record \<Rightarrow> u64" where
  "br_end_offset r = br_start_offset r + br_end_offset_delta r"

record records_block =
  blk_records :: "block_record list"
  blk_empty_offset :: "u64 option"

definition empty_block :: "u64 \<Rightarrow> records_block" where
  "empty_block offset = \<lparr>blk_records = [], blk_empty_offset = Some offset\<rparr>"

definition blk_new :: "block_record list \<Rightarrow> records_block" where
  "blk_new records = \<lparr>blk_records = records, blk_empty_offset = None\<rparr>"

definition blk_trim :: "u64 \<Rightarrow> u64 option \<Rightarrow> records_block \<Rightarrow> records_block" where
  "blk_trim start_offset end_offset b =
     b\<lparr>blk_records := filter (\<lambda>r. start_offset < br_end_offset r
          \<and> (case end_offset of Some e \<Rightarrow> br_start_offset r < e | None \<Rightarrow> True)) (blk_records b)\<rparr>"

fun take_records :: "u64 \<Rightarrow> u64 \<Rightarrow> u32 \<Rightarrow> block_record list \<Rightarrow> block_record list" where
  "take_records start_offset end_offset size_hint [] = []"
| "take_records start_offset end_offset size_hint (r # rs) =
     (if br_end_offset r \<le> start_offset then take_records start_offset end_offset size_hint rs
      else if end_offset \<le> br_start_offset r \<or> size_hint = 0 then []
      else r # take_records start_offset end_offset (size_hint - min (br_size r) size_hint) rs)"

definition get_records :: "u64 \<Rightarrow> u64 \<Rightarrow> u32 \<Rightarrow> records_block \<Rightarrow> block_record list" where
  "get_records start_offset end_offset size_hint b = take_records start_offset end_offset size_hint (blk_records b)"

definition blk_size :: "records_block \<Rightarrow> nat" where
  "blk_size b = sum_list (map br_size (blk_records b))"

definition blk_start_offset :: "records_block \<Rightarrow> u64" where
  "blk_start_offset b =
     (case blk_empty_offset b of
        Some off \<Rightarrow> off
      | None \<Rightarrow> if blk_records b = [] then 0 else br_start_offset (hd (blk_records b)))"

definition blk_end_offset :: "records_block \<Rightarrow> u64" where
  "blk_end_offset b =
     (case blk_empty_offset b of
        Some off \<Rightarrow> off
      | None \<Rightarrow> if blk_records b = [] then 0 else br_end_offset (last (blk_records b)))"

definition blk_is_empty :: "records_block \<Rightarrow> bool" where
  "blk_is_empty b \<longleftrightarrow> blk_records b = []"

subsection \<open>Parsing\<close>

record parse_state =
  ps_cursor :: bytes
  ps_blocks :: "records_block list"
  ps_block :: "block_record list"
  ps_length :: u32

definition roll_block :: "u32 \<Rightarrow> parse_state \<Rightarrow> parse_state" where
  "roll_block block_size st =
     (if block_size \<le> ps_length st
      then st\<lparr>ps_blocks := ps_blocks st @ [blk_new (ps_block st)], ps_block := [], ps_length := 0\<rparr>
      else st)"

definition finish_blocks :: "parse_state \<Rightarrow> records_block list" where
  "finish_blocks st = ps_blocks st @ (if ps_block st = [] then [] else [blk_new (ps_block st)])"

text \<open>The head of a record: \<open>None\<close> when its metadata is not complete.\<close>

definition parse_head :: "bytes \<Rightarrow> (decode_error, (usize \<times> bytes) option) outcome" where
  "parse_head cur =
     bind_outcome (get_be 1 cur) (\<lambda>(magic_code, cur).
     if magic_code \<noteq> Magic0 then Err InvalidMagic
     else
       bind_outcome (get_be 4 cur) (\<lambda>(ml, cur).
       let metadata_len = i32_as_usize ml in
       if length cur < metadata_len then Ok None else Ok (Some (metadata_len, cur))))"

text \<open>Its payload. The length is read without a check that it is there.\<close>

definition parse_payload :: "bytes \<Rightarrow> (decode_error, (usize \<times> bytes) option) outcome" where
  "parse_payload cur =
     bind_outcome (get_be 4 cur) (\<lambda>(pl, cur).
     let payload_len = i32_as_usize pl in
     if length cur < payload_len then Ok None else Ok (Some (payload_len, drop payload_len cur)))"

text \<open>One round after the block has been rolled: \<open>None\<close> when the rest is not a whole record.\<close>

definition parse_record :: "fb_meta \<Rightarrow> parse_state \<Rightarrow> (decode_error, parse_state option) outcome" where
  "parse_record fb st =
     bind_outcome (parse_head (ps_cursor st)) (\<lambda>h.
     case h of
       None \<Rightarrow> Ok None
     | Some (metadata_len, cur) \<Rightarrow>
         (case fb_root fb (take metadata_len cur) of
            None \<Rightarrow> Err Flatbuffer
          | Some m \<Rightarrow>
              bind_outcome (parse_payload (drop metadata_len cur)) (\<lambda>p.
              case p of
                None \<Rightarrow> Ok None
              | Some (payload_len, cur) \<Rightarrow>
                  let record_len = 1 + 4 + metadata_len + 4 + payload_len in
                  if ps_length st + record_len mod 2 ^ 32 \<ge> 2 ^ 32 then Panic
                  else Ok (Some (st\<lparr>ps_cursor := cur,
                        ps_block := ps_block st @
                          [\<lparr>br_start_offset = int_as_u64 (m_base_offset m),
                            br_end_offset_delta = int_as_u32 (m_last_offset_delta m),
                            br_data = [take record_len (ps_cursor st)]\<rparr>],
                        ps_length := ps_length st + record_len mod 2 ^ 32\<rparr>)))))"

lemma parse_head_Some: "parse_head c = Ok (Some (n, c')) \<Longrightarrow> length c = 5 + length c' \<and> n \<le> length c'"
  by (auto simp: parse_head_def reader_simps Let_def split: if_splits)

lemma parse_payload_Some: "parse_payload c = Ok (Some (n, c')) \<Longrightarrow> length c = 4 + n + length c'"
  by (auto simp: parse_payload_def reader_simps Let_def split: if_splits)

lemma parse_record_shorter:
  assumes "parse_record fb st = Ok (Some st')"
  shows "length (ps_cursor st') < length (ps_cursor st)"
proof -
  from assms obtain h where h: "parse_head (ps_cursor st) = Ok h" by (auto simp: parse_record_def outcome_simps)
  with assms obtain n c m where hs: "h = Some (n, c)" "fb_root fb (take n c) = Some m"
    by (auto simp: parse_record_def split: option.split_asm)
  with assms h obtain p where p: "parse_payload (drop n c) = Ok p" by (auto simp: parse_record_def outcome_simps)
  with assms h hs obtain pl c' where "p = Some (pl, c')" "ps_cursor st' = c'"
    by (auto simp: parse_record_def Let_def split: option.split_asm if_split_asm)
  then show ?thesis using h hs p by (auto dest!: parse_head_Some parse_payload_Some)
qed

function parse_loop :: "fb_meta \<Rightarrow> u32 \<Rightarrow> parse_state \<Rightarrow> (decode_error, records_block list) outcome" where
  "parse_loop fb block_size st0 =
     (let st = roll_block block_size st0 in
      if length (ps_cursor st) < 9 then Ok (finish_blocks st)
      else
        case parse_record fb st of
          Ok (Some st') \<Rightarrow> parse_loop fb block_size st'
        | Ok None \<Rightarrow> Ok (finish_blocks (roll_block block_size st))
        | Err e \<Rightarrow> Err e
        | Panic \<Rightarrow> Panic)"
  by auto
termination
  by (relation "measure (\<lambda>(_, _, st). length (ps_cursor st))") (auto dest!: parse_record_shorter simp: roll_block_def split: if_splits)

declare parse_loop.simps [simp del]

definition parse_blocks :: "fb_meta \<Rightarrow> bytes \<Rightarrow> u32 \<Rightarrow> (decode_error, records_block list) outcome" where
  "parse_blocks fb bytes block_size =
     parse_loop fb block_size \<lparr>ps_cursor = bytes, ps_blocks = [], ps_block = [], ps_length = 0\<rparr>"

section \<open>Parsing a run of batches\<close>

definition record_of :: "fb_meta \<Rightarrow> flat_record_batch \<Rightarrow> block_record" where
  "record_of fb f =
     (case fb_root fb (f_metadata f) of
        Some m \<Rightarrow> \<lparr>br_start_offset = int_as_u64 (m_base_offset m), br_end_offset_delta = int_as_u32 (m_last_offset_delta m),
                   br_data = [flat_bytes f]\<rparr>
      | None \<Rightarrow> \<lparr>br_start_offset = 0, br_end_offset_delta = 0, br_data = []\<rparr>)"

definition parseable :: "fb_meta \<Rightarrow> flat_record_batch \<Rightarrow> bool" where
  "parseable fb f \<longleftrightarrow> flat_ok f \<and> fb_root fb (f_metadata f) \<noteq> None \<and> length (flat_bytes f) < 2 ^ 31"

definition push_record :: "fb_meta \<Rightarrow> u32 \<Rightarrow> flat_record_batch \<Rightarrow> parse_state \<Rightarrow> parse_state" where
  "push_record fb block_size f st0 =
     (let st = roll_block block_size st0
      in st\<lparr>ps_block := ps_block st @ [record_of fb f], ps_length := ps_length st + length (flat_bytes f)\<rparr>)"

lemma parse_head_flat:
  assumes "flat_ok f"
  shows "parse_head (flat_bytes f @ rest) =
    Ok (Some (length (f_metadata f), f_metadata f @ be_bytes 4 (length (f_payload f)) @ f_payload f @ rest))"
proof -
  have len: "length (f_metadata f) < 2 ^ 31" using assms by (simp add: flat_ok_def)
  have m: "be_val (be_bytes 1 Magic0) = Magic0" by (simp add: be_val_be_bytes Magic0_def)
  have l: "be_val (be_bytes 4 (length (f_metadata f))) = length (f_metadata f)" using len by (simp add: be_val_be_bytes)
  note [simp del] = be_bytes.simps One_nat_def
  show ?thesis
    using len m l by (simp add: parse_head_def flat_bytes_eq [OF assms] reader_ok Let_def i32_as_usize_small)
qed

lemma parse_payload_flat:
  assumes "flat_ok f"
  shows "parse_payload (be_bytes 4 (length (f_payload f)) @ f_payload f @ rest) = Ok (Some (length (f_payload f), rest))"
proof -
  have len: "length (f_payload f) < 2 ^ 31" using assms by (simp add: flat_ok_def)
  have l: "be_val (be_bytes 4 (length (f_payload f))) = length (f_payload f)" using len by (simp add: be_val_be_bytes)
  note [simp del] = be_bytes.simps
  show ?thesis using len l by (simp add: parse_payload_def reader_ok Let_def i32_as_usize_small)
qed

lemma parse_record_flat:
  assumes p: "parseable fb f" and c: "ps_cursor st = flat_bytes f @ rest" and b: "ps_length st + length (flat_bytes f) < 2 ^ 32"
  shows "parse_record fb st = Ok (Some (st\<lparr>ps_cursor := rest, ps_block := ps_block st @ [record_of fb f],
     ps_length := ps_length st + length (flat_bytes f)\<rparr>))"
proof -
  have f: "flat_ok f" and l: "length (flat_bytes f) < 2 ^ 31" using p by (simp_all add: parseable_def)
  obtain m where m: "fb_root fb (f_metadata f) = Some m" using p by (auto simp: parseable_def)
  have n: "1 + 4 + length (f_metadata f) + 4 + length (f_payload f) = length (flat_bytes f)" by (simp add: length_flat_bytes [OF f])
  have r: "record_of fb f = \<lparr>br_start_offset = int_as_u64 (m_base_offset m), br_end_offset_delta = int_as_u32 (m_last_offset_delta m),
     br_data = [flat_bytes f]\<rparr>" by (simp add: record_of_def m)
  have d: "drop (length (f_metadata f)) (f_metadata f @ be_bytes 4 (length (f_payload f)) @ f_payload f @ rest)
     = be_bytes 4 (length (f_payload f)) @ f_payload f @ rest" by simp
  have t: "take (length (f_metadata f)) (f_metadata f @ be_bytes 4 (length (f_payload f)) @ f_payload f @ rest) = f_metadata f" by simp
  show ?thesis
    unfolding parse_record_def c parse_head_flat [OF f] bind_outcome.simps option.case prod.case t m d parse_payload_flat [OF f] Let_def n r
    using b l by (simp add: c)
qed

lemma roll_cursor [simp]: "roll_block bs (st\<lparr>ps_cursor := c\<rparr>) = (roll_block bs st)\<lparr>ps_cursor := c\<rparr>" "ps_cursor (roll_block bs st) = ps_cursor st"
  by (simp_all add: roll_block_def)

lemma push_cursor [simp]: "push_record fb bs f (st\<lparr>ps_cursor := c\<rparr>) = (push_record fb bs f st)\<lparr>ps_cursor := c\<rparr>"
  by (simp add: push_record_def Let_def)

lemma finish_cursor [simp]: "finish_blocks (st\<lparr>ps_cursor := c\<rparr>) = finish_blocks st"
  by (simp add: finish_blocks_def)

lemma fold_push_cursor: "fold (push_record fb bs) fs (st\<lparr>ps_cursor := c\<rparr>) = (fold (push_record fb bs) fs st)\<lparr>ps_cursor := c\<rparr>"
  by (induction fs arbitrary: st) simp_all

lemma roll_length: "ps_length (roll_block bs st) \<le> ps_length st"
  by (simp add: roll_block_def)

lemma roll_idem: "0 < bs \<Longrightarrow> roll_block bs (roll_block bs st) = roll_block bs st"
  by (simp add: roll_block_def)

lemma parse_loop_flats:
  assumes "\<forall>f \<in> set fs. parseable fb f" and "ps_cursor st = concat (map flat_bytes fs) @ tail"
    and "ps_length st + length (concat (map flat_bytes fs)) < 2 ^ 32"
  shows "parse_loop fb bs st = parse_loop fb bs ((fold (push_record fb bs) fs st)\<lparr>ps_cursor := tail\<rparr>)"
  using assms
proof (induction fs arbitrary: st)
  case Nil
  then have "st\<lparr>ps_cursor := tail\<rparr> = st" by simp
  then show ?case by simp
next
  case (Cons f fs)
  let ?rest = "concat (map flat_bytes fs) @ tail"
  have p: "parseable fb f" using Cons.prems(1) by simp
  then have l: "9 \<le> length (flat_bytes f)" by (simp add: parseable_def length_flat_bytes)
  have c: "ps_cursor (roll_block bs st) = flat_bytes f @ ?rest" using Cons.prems(2) by simp
  have b: "ps_length (roll_block bs st) + length (flat_bytes f) < 2 ^ 32" using Cons.prems(3) roll_length [of bs st] by simp
  have "(roll_block bs st)\<lparr>ps_cursor := ?rest, ps_block := ps_block (roll_block bs st) @ [record_of fb f],
      ps_length := ps_length (roll_block bs st) + length (flat_bytes f)\<rparr> = (push_record fb bs f st)\<lparr>ps_cursor := ?rest\<rparr>"
    by (cases "roll_block bs st") (simp add: push_record_def)
  then have "parse_loop fb bs st = parse_loop fb bs ((push_record fb bs f st)\<lparr>ps_cursor := ?rest\<rparr>)"
    unfolding parse_loop.simps [of fb bs st] Let_def parse_record_flat [OF p c b]
    using l Cons.prems(2) by simp
  also have "\<dots> = parse_loop fb bs ((fold (push_record fb bs) fs ((push_record fb bs f st)\<lparr>ps_cursor := ?rest\<rparr>))\<lparr>ps_cursor := tail\<rparr>)"
    using Cons.prems b by (intro Cons.IH) (simp_all add: push_record_def Let_def roll_block_def)
  finally show ?case by (simp add: fold_push_cursor)
qed

lemma parse_loop_done: "length (ps_cursor st) < 9 \<Longrightarrow> parse_loop fb bs st = Ok (finish_blocks (roll_block bs st))"
  by (simp add: parse_loop.simps [of fb bs st] Let_def)

text \<open>What is left of a record that was cut off.\<close>

lemma parse_record_cut:
  assumes p: "parseable fb f" and c: "ps_cursor st = take n (flat_bytes f)" and n: "9 \<le> n" "n < length (flat_bytes f)"
  shows "parse_record fb st = (if 5 + length (f_metadata f) \<le> n \<and> n < 9 + length (f_metadata f) then Panic else Ok None)"
proof -
  have f: "flat_ok f" using p by (simp add: parseable_def)
  define md pl where "md = f_metadata f" and "pl = f_payload f"
  have len: "length md < 2 ^ 31" "length pl < 2 ^ 31" using f by (auto simp: flat_ok_def md_def pl_def)
  obtain m where m: "fb_root fb md = Some m" using p by (auto simp: parseable_def md_def)
  note [simp del] = be_bytes.simps One_nat_def
  define t where "t = take (n - 5) (md @ be_bytes 4 (length pl) @ pl)"
  have fb: "flat_bytes f = be_bytes 1 Magic0 @ be_bytes 4 (length md) @ md @ be_bytes 4 (length pl) @ pl"
    using flat_bytes_eq [OF f] by (simp add: md_def pl_def)
  have cur: "ps_cursor st = be_bytes 1 Magic0 @ be_bytes 4 (length md) @ t"
    using c n(1) unfolding fb t_def by (simp add: take_append)
  have v: "be_val (be_bytes 1 Magic0) = Magic0" "be_val (be_bytes 4 (length md)) = length md" "be_val (be_bytes 4 (length pl)) = length pl"
    using len by (simp_all add: be_val_be_bytes Magic0_def)
  have lt: "length t = n - 5" using n(2) by (simp add: t_def fb)
  have head: "parse_head (ps_cursor st) = Ok (if n - 5 < length md then None else Some (length md, t))"
    using len v lt by (simp add: parse_head_def cur reader_ok Let_def i32_as_usize_small)
  consider "n - 5 < length md" | "5 + length md \<le> n" "n < 9 + length md" | "9 + length md \<le> n" using n(1) by linarith
  then show ?thesis
  proof cases
    case 1
    then have "\<not> 5 + length md \<le> n" using n(1) by linarith
    then show ?thesis using 1 head by (simp add: parse_record_def md_def)
  next
    case 2
    then have t: "take (length md) t = md" "length (drop (length md) t) < 4" using lt by (simp_all add: t_def)
    then have "parse_payload (drop (length md) t) = Panic" by (simp add: parse_payload_def get_be_def)
    then show ?thesis using head 2 t(1) m by (simp add: parse_record_def md_def [symmetric] less_diff_conv2 n(1))
  next
    case 3
    then have t: "take (length md) t = md" "drop (length md) t = be_bytes 4 (length pl) @ take (n - 9 - length md) pl"
      by (simp_all add: t_def take_append)
    have "n - 9 - length md < length pl" using n(2) 3 by (simp add: fb)
    then have "parse_payload (drop (length md) t) = Ok None"
      using t(2) v len by (simp add: parse_payload_def reader_ok Let_def i32_as_usize_small)
    then show ?thesis using head 3 t(1) m by (simp add: parse_record_def md_def [symmetric])
  qed
qed

lemma parse_loop_cut:
  assumes p: "parseable fb f" and c: "ps_cursor st = take n (flat_bytes f)" and n: "n < length (flat_bytes f)" and bs: "0 < bs"
  shows "parse_loop fb bs st =
    (if 9 \<le> n \<and> 5 + length (f_metadata f) \<le> n \<and> n < 9 + length (f_metadata f) then Panic
     else Ok (finish_blocks (roll_block bs st)))"
proof (cases "n < 9")
  case True
  then show ?thesis using c by (simp add: parse_loop_done)
next
  case False
  then show ?thesis
    using parse_record_cut [OF p, of "roll_block bs st" n] c n bs
    by (simp add: parse_loop.simps [of fb bs st] Let_def roll_idem)
qed

section \<open>Properties\<close>

lemma push_inv:
  assumes "parseable fb f" and "0 < bs" and "ps_length st = sum_list (map br_size (ps_block st))"
    and "\<forall>b \<in> set (ps_blocks st). bs \<le> blk_size b"
  shows "ps_length (push_record fb bs f st) = sum_list (map br_size (ps_block (push_record fb bs f st)))"
    and "\<forall>b \<in> set (ps_blocks (push_record fb bs f st)). bs \<le> blk_size b"
    and "concat (map blk_records (ps_blocks (push_record fb bs f st))) @ ps_block (push_record fb bs f st)
       = (concat (map blk_records (ps_blocks st)) @ ps_block st) @ [record_of fb f]"
proof -
  have "br_size (record_of fb f) = length (flat_bytes f)"
    using assms(1) by (auto simp: br_size_def record_of_def parseable_def)
  then show "ps_length (push_record fb bs f st) = sum_list (map br_size (ps_block (push_record fb bs f st)))"
    "\<forall>b \<in> set (ps_blocks (push_record fb bs f st)). bs \<le> blk_size b"
    "concat (map blk_records (ps_blocks (push_record fb bs f st))) @ ps_block (push_record fb bs f st)
       = (concat (map blk_records (ps_blocks st)) @ ps_block st) @ [record_of fb f]"
    using assms(3,4) by (auto simp: push_record_def Let_def roll_block_def blk_size_def blk_new_def)
qed

definition blocks_hold :: "u32 \<Rightarrow> records_block list \<Rightarrow> block_record list \<Rightarrow> bool" where
  "blocks_hold bs blocks recs \<longleftrightarrow>
     concat (map blk_records blocks) = recs \<and> (\<forall>b \<in> set blocks. blk_records b \<noteq> [])
     \<and> (\<forall>b \<in> set (butlast blocks). bs \<le> blk_size b)"

lemma fold_push_inv:
  assumes "\<forall>f \<in> set fs. parseable fb f" and "0 < bs" and "ps_length st = sum_list (map br_size (ps_block st))"
    and "\<forall>b \<in> set (ps_blocks st). bs \<le> blk_size b"
  shows "ps_length (fold (push_record fb bs) fs st) = sum_list (map br_size (ps_block (fold (push_record fb bs) fs st)))
    \<and> (\<forall>b \<in> set (ps_blocks (fold (push_record fb bs) fs st)). bs \<le> blk_size b)
    \<and> concat (map blk_records (ps_blocks (fold (push_record fb bs) fs st))) @ ps_block (fold (push_record fb bs) fs st)
       = (concat (map blk_records (ps_blocks st)) @ ps_block st) @ map (record_of fb) fs"
  using assms
proof (induction fs arbitrary: st)
  case (Cons f fs)
  note pi = push_inv [of fb f bs st]
  show ?case using Cons.IH [of "push_record fb bs f st"] Cons.prems pi by simp
qed simp

lemma finish_roll_blocks:
  assumes "0 < bs" and "ps_length st = sum_list (map br_size (ps_block st))" and "\<forall>b \<in> set (ps_blocks st). bs \<le> blk_size b"
  shows "blocks_hold bs (finish_blocks (roll_block bs st)) (concat (map blk_records (ps_blocks st)) @ ps_block st)"
proof -
  have "blk_records b \<noteq> []" if "bs \<le> blk_size b" for b using that assms(1) by (auto simp: blk_size_def)
  then show ?thesis
    using assms
    by (auto simp: blocks_hold_def finish_blocks_def roll_block_def blk_new_def blk_size_def butlast_append split: if_splits
        dest!: in_set_butlastD)
qed

text \<open>
  Parsing what a range server or an object returns: a run of whole batches, possibly followed
  by a batch that was cut off, gives one record per whole batch, in order and with its exact
  bytes, in non-empty blocks that all reach the block size except the last. What is left of the
  batch that was cut off is ignored, unless the cut falls into the four bytes of its payload
  length (and leaves nine bytes or more): then the read of that length panics.
\<close>

theorem parse_blocks_truncated:
  assumes fs: "\<forall>f \<in> set fs. parseable fb f" and f: "parseable fb f" and n: "n < length (flat_bytes f)"
    and b: "length (concat (map flat_bytes fs)) < 2 ^ 32" and bs: "0 < bs"
  shows "if 9 \<le> n \<and> 5 + length (f_metadata f) \<le> n \<and> n < 9 + length (f_metadata f)
     then parse_blocks fb (concat (map flat_bytes fs) @ take n (flat_bytes f)) bs = Panic
     else \<exists>blocks. parse_blocks fb (concat (map flat_bytes fs) @ take n (flat_bytes f)) bs = Ok blocks
        \<and> blocks_hold bs blocks (map (record_of fb) fs)"
proof -
  define st0 where "st0 = \<lparr>ps_cursor = concat (map flat_bytes fs) @ take n (flat_bytes f), ps_blocks = [], ps_block = [], ps_length = 0\<rparr>"
  have st0: "ps_blocks st0 = []" "ps_block st0 = []" "ps_length st0 = 0" by (simp_all add: st0_def)
  define F where "F = fold (push_record fb bs) fs st0"
  define st where "st = F\<lparr>ps_cursor := take n (flat_bytes f)\<rparr>"
  have "parse_loop fb bs st0 = parse_loop fb bs st"
    unfolding st_def F_def using fs b by (intro parse_loop_flats) (simp_all add: st0_def)
  then have r: "parse_blocks fb (concat (map flat_bytes fs) @ take n (flat_bytes f)) bs = parse_loop fb bs st"
    by (simp add: parse_blocks_def st0_def)
  have "blocks_hold bs (finish_blocks (roll_block bs st)) (map (record_of fb) fs)"
  proof -
    have i: "ps_length F = sum_list (map br_size (ps_block F))" "\<forall>b \<in> set (ps_blocks F). bs \<le> blk_size b"
      "concat (map blk_records (ps_blocks F)) @ ps_block F = map (record_of fb) fs"
      using fold_push_inv [OF fs bs, of st0] by (simp_all only: F_def [symmetric] st0) simp_all
    from finish_roll_blocks [OF bs i(1,2)] show ?thesis by (simp add: i(3) st_def)
  qed
  then show ?thesis unfolding r using parse_loop_cut [OF f _ n bs, of st] by (simp add: st_def)
qed

theorem parse_blocks_truncated_witness:
  "parse_blocks tiny_fb (flat_bytes (tiny_flat 0) @ take 9 (flat_bytes (tiny_flat 1))) 1000 = Panic"
  using parse_blocks_truncated [of "[tiny_flat 0]" tiny_fb "tiny_flat 1" 9 1000]
  by (simp add: parseable_def) (simp add: tiny_flat_def)

end
