(* ===== verification/Hot_Cache.thy ===== *)
theory Hot_Cache
  imports Records_Block "HOL-Library.Product_Lexorder"
begin

text \<open>
  The cache of recently appended records of the replication client, \<open>HotCache\<close> of
  \<open>src/components/replication/src/stream/cache.rs\<close>. The hash map is a map sorted by key: no
  operation iterates over it. The loop that collects a run of records is a
  \<open>partial_function (option)\<close>, since a record without offsets and without bytes would keep it
  running for ever.
\<close>

section \<open>Model\<close>

type_synonym cache_key = "u64 \<times> u64"

record hot_cache =
  hc_max_cache_size :: u64
  hc_occupied_size :: u64
  hc_map :: "(cache_key, block_record) btree"
  hc_fifo_deque :: "cache_key list"

definition hc_new :: "u64 \<Rightarrow> (unit, hot_cache) outcome" where
  "hc_new max_cache_size =
     (if max_cache_size < 4 * 1024 then Panic
      else Ok \<lparr>hc_max_cache_size = max_cache_size, hc_occupied_size = 0, hc_map = bt_empty, hc_fifo_deque = []\<rparr>)"

fun hc_evict :: "u64 \<Rightarrow> cache_key list \<Rightarrow> u64 \<Rightarrow> (cache_key, block_record) btree
    \<Rightarrow> (unit, u64 \<times> cache_key list \<times> (cache_key, block_record) btree) outcome" where
  "hc_evict limit [] occupied mp = Ok (occupied, [], mp)"
| "hc_evict limit (k # ks) occupied mp =
     (if occupied \<ge> limit
      then (case bt_get k mp of
              None \<Rightarrow> hc_evict limit ks occupied mp
            | Some v \<Rightarrow> bind_outcome (sub_or_panic occupied (br_size v)) (\<lambda>occupied. hc_evict limit ks occupied (bt_remove k mp)))
      else Ok (occupied, k # ks, mp))"

definition hc_insert :: "u64 \<Rightarrow> u64 \<Rightarrow> u32 \<Rightarrow> bytes list \<Rightarrow> hot_cache \<Rightarrow> (unit, hot_cache) outcome" where
  "hc_insert stream_id start_offset end_offset_delta data c =
     bind_outcome (hc_evict (hc_max_cache_size c) (hc_fifo_deque c) (hc_occupied_size c) (hc_map c))
       (\<lambda>(occupied, fifo, mp).
          let k = (stream_id, start_offset);
              v = \<lparr>br_start_offset = start_offset, br_end_offset_delta = end_offset_delta, br_data = data\<rparr>
          in Ok (c\<lparr>hc_occupied_size := occupied + br_size v, hc_fifo_deque := fifo @ [k], hc_map := bt_insert k v mp\<rparr>))"

partial_function (option) hc_collect :: "(cache_key, block_record) btree \<Rightarrow> u64 \<Rightarrow> u64 \<Rightarrow> u32 \<Rightarrow> u64
    \<Rightarrow> block_record list \<Rightarrow> (block_record list \<times> u64) option" where
  "hc_collect mp stream_id end_offset size_hint start_offset records =
     (if start_offset \<ge> end_offset \<or> size_hint = 0 then Some (records, start_offset)
      else (case bt_get (stream_id, start_offset) mp of
              None \<Rightarrow> Some (records, start_offset)
            | Some r \<Rightarrow> hc_collect mp stream_id end_offset (size_hint - min (br_size r) size_hint) (br_end_offset r) (records @ [r])))"

definition hc_get_block :: "u64 \<Rightarrow> u64 \<Rightarrow> u64 \<Rightarrow> u32 \<Rightarrow> hot_cache \<Rightarrow> records_block option" where
  "hc_get_block stream_id start_offset end_offset size_hint c =
     (case hc_collect (hc_map c) stream_id end_offset size_hint start_offset [] of
        None \<Rightarrow> None
      | Some (rs, off) \<Rightarrow> Some (if rs = [] then empty_block off else blk_new rs))"

section \<open>Totals over a sorted map\<close>

definition bt_total :: "('v \<Rightarrow> nat) \<Rightarrow> ('k, 'v) btree \<Rightarrow> nat" where
  "bt_total f m = sum_list (map (\<lambda>e. f (snd e)) m)"

definition bt_at :: "('v \<Rightarrow> nat) \<Rightarrow> 'k \<Rightarrow> ('k, 'v) btree \<Rightarrow> nat" where
  "bt_at f k m = (case bt_get k m of None \<Rightarrow> 0 | Some v \<Rightarrow> f v)"

lemma bt_total_simps [simp]: "bt_total f [] = 0" "bt_total f (e # m) = f (snd e) + bt_total f m"
  by (simp_all add: bt_total_def)

lemma bt_total_insert: "bt_wf m \<Longrightarrow> bt_total f (bt_insert k v m) + bt_at f k m = bt_total f m + f v"
proof (induction k v m rule: bt_insert.induct)
  case (2 k v k' v' m)
  then show ?case by (force simp: bt_at_def bt_get_def bt_wf_Cons dest: map_of_SomeD split: option.splits)
qed (simp add: bt_at_def bt_get_def)

lemma bt_total_remove: "bt_wf m \<Longrightarrow> bt_total f (bt_remove k m) + bt_at f k m = bt_total f m"
proof (induction m)
  case (Cons e m)
  have "filter (\<lambda>e. fst e \<noteq> k) m = m" if "\<forall>x \<in> set m. k < fst x"
    using that by (intro filter_True) auto
  with Cons show ?case by (cases e) (auto simp: bt_remove_def bt_at_def bt_get_def bt_wf_Cons)
qed (simp add: bt_remove_def bt_at_def bt_get_def)

lemma bt_at_le_total: "bt_at f k m \<le> bt_total f m"
  by (induction m) (auto simp: bt_at_def bt_get_def)

lemma bt_at_mono:
  assumes "bt_wf m" and "bt_wf m'" and "set m \<subseteq> set m'"
  shows "bt_at f k m \<le> bt_at f k m'"
proof (cases "bt_get k m")
  case (Some v)
  with assms have "bt_get k m' = Some v" by (auto simp: bt_get_Some_iff)
  with Some show ?thesis by (simp add: bt_at_def)
qed (simp add: bt_at_def)

section \<open>Accounting\<close>

definition hc_held :: "hot_cache \<Rightarrow> nat" where
  "hc_held c = bt_total br_size (hc_map c)"

definition hc_inv :: "hot_cache \<Rightarrow> bool" where
  "hc_inv c \<longleftrightarrow> bt_wf (hc_map c) \<and> hc_held c \<le> hc_occupied_size c \<and> fst ` set (hc_map c) \<subseteq> set (hc_fifo_deque c)"

text \<open>Bytes counted as occupied that no cached record holds.\<close>

definition hc_leak :: "hot_cache \<Rightarrow> nat" where
  "hc_leak c = hc_occupied_size c - hc_held c"

lemma hc_evict_ok:
  assumes "bt_wf mp" and "bt_total br_size mp \<le> occ" and "fst ` set mp \<subseteq> set ks"
  shows "\<exists>occ' ks' mp'. hc_evict limit ks occ mp = Ok (occ', ks', mp') \<and> bt_wf mp'
    \<and> occ' + bt_total br_size mp = occ + bt_total br_size mp'
    \<and> fst ` set mp' \<subseteq> set ks' \<and> set mp' \<subseteq> set mp \<and> (occ' < limit \<or> mp' = [] \<and> ks' = [])"
  using assms
proof (induction limit ks occ mp rule: hc_evict.induct)
  case (2 limit k ks occ mp)
  show ?case
  proof (cases "occ \<ge> limit")
    case False
    with 2(3-5) show ?thesis by (intro exI [of _ occ] exI [of _ "k # ks"] exI [of _ mp]) simp
  next
    case big: True
    show ?thesis
    proof (cases "bt_get k mp")
      case None
      with 2(5) have "fst ` set mp \<subseteq> set ks" by (auto simp: bt_get_None_iff)
      with 2(1) [OF big None 2(3,4)] big None show ?thesis by simp
    next
      case (Some v)
      have tot: "bt_total br_size (bt_remove k mp) + br_size v = bt_total br_size mp"
        using bt_total_remove [OF 2(3), of br_size k] Some by (simp add: bt_at_def)
      have rem: "bt_wf (bt_remove k mp)" "fst ` set (bt_remove k mp) \<subseteq> set ks" "set (bt_remove k mp) \<subseteq> set mp"
        using 2(3,5) by (simp_all add: bt.inv_remove) (auto simp: bt_remove_def)
      have ih: "\<exists>occ' ks' mp'. hc_evict limit ks (occ - br_size v) (bt_remove k mp) = Ok (occ', ks', mp') \<and> bt_wf mp'
          \<and> occ' + bt_total br_size (bt_remove k mp) = occ - br_size v + bt_total br_size mp'
          \<and> fst ` set mp' \<subseteq> set ks' \<and> set mp' \<subseteq> set (bt_remove k mp) \<and> (occ' < limit \<or> mp' = [] \<and> ks' = [])"
        by (rule 2(2) [OF big Some rem(1) _ rem(2)]) (use tot 2(4) in simp)
      from ih obtain occ' ks' mp' where e: "hc_evict limit ks (occ - br_size v) (bt_remove k mp) = Ok (occ', ks', mp')"
        and w: "bt_wf mp'" and s: "occ' + bt_total br_size (bt_remove k mp) = occ - br_size v + bt_total br_size mp'"
        and f: "fst ` set mp' \<subseteq> set ks'" "set mp' \<subseteq> set (bt_remove k mp)" "occ' < limit \<or> mp' = [] \<and> ks' = []" by blast
      have sub: "br_size v \<le> occ" using tot 2(4) by simp
      have "hc_evict limit (k # ks) occ mp = Ok (occ', ks', mp')" using big Some e sub by (simp add: sub_or_panic_def)
      moreover have "occ' + bt_total br_size mp = occ + bt_total br_size mp'" using s tot sub by simp
      ultimately show ?thesis using w f rem(3) by (intro exI [of _ occ'] exI [of _ ks'] exI [of _ mp']) (auto simp del: hc_evict.simps)
    qed
  qed
qed simp

lemma hc_held_le: "hc_inv c \<Longrightarrow> hc_occupied_size c = hc_held c + hc_leak c"
  by (simp add: hc_inv_def hc_leak_def)

lemma hc_insert_spec:
  assumes inv: "hc_inv c"
  shows "\<exists>c' old. hc_insert sid off delta data c = Ok c' \<and> hc_inv c'
    \<and> bt_get (sid, off) (hc_map c') = Some \<lparr>br_start_offset = off, br_end_offset_delta = delta, br_data = data\<rparr>
    \<and> (hc_occupied_size c' < hc_max_cache_size c + length (concat data) \<or> length (hc_map c') = 1)
    \<and> old \<le> bt_at br_size (sid, off) (hc_map c) \<and> hc_leak c' = hc_leak c + old
    \<and> (hc_occupied_size c < hc_max_cache_size c \<longrightarrow> old = bt_at br_size (sid, off) (hc_map c))
    \<and> (hc_leak c \<ge> hc_max_cache_size c \<longrightarrow> length (hc_map c') = 1)"
proof -
  let ?v = "\<lparr>br_start_offset = off, br_end_offset_delta = delta, br_data = data\<rparr>"
  from inv have w: "bt_wf (hc_map c)" "bt_total br_size (hc_map c) \<le> hc_occupied_size c" "fst ` set (hc_map c) \<subseteq> set (hc_fifo_deque c)"
    by (simp_all add: hc_inv_def hc_held_def)
  obtain occ ks mp where e: "hc_evict (hc_max_cache_size c) (hc_fifo_deque c) (hc_occupied_size c) (hc_map c) = Ok (occ, ks, mp)"
    and mp: "bt_wf mp" "occ + bt_total br_size (hc_map c) = hc_occupied_size c + bt_total br_size mp" "fst ` set mp \<subseteq> set ks"
      "set mp \<subseteq> set (hc_map c)" "occ < hc_max_cache_size c \<or> mp = [] \<and> ks = []"
    using hc_evict_ok [OF w] by blast
  let ?c = "c\<lparr>hc_occupied_size := occ + br_size ?v, hc_fifo_deque := ks @ [(sid, off)], hc_map := bt_insert (sid, off) ?v mp\<rparr>"
  let ?old = "bt_at br_size (sid, off) mp"
  have tot: "bt_total br_size (bt_insert (sid, off) ?v mp) + ?old = bt_total br_size mp + br_size ?v" by (rule bt_total_insert [OF mp(1)])
  have ok: "hc_insert sid off delta data c = Ok ?c" using e by (simp add: hc_insert_def Let_def)
  have i: "hc_inv ?c" using w mp tot by (auto simp: hc_inv_def hc_held_def bt_wf_insert set_fst_bt_insert)
  have le: "?old \<le> bt_at br_size (sid, off) (hc_map c)"
    by (rule bt_at_mono [OF mp(1) w(1) mp(4)])
  have lk: "hc_leak ?c = hc_leak c + ?old" using w(2) mp(2) tot bt_at_le_total [of br_size "(sid, off)" mp] by (simp add: hc_leak_def hc_held_def)
  have g: "bt_get (sid, off) (hc_map ?c) = Some ?v" using mp(1) by (simp add: bt_get_insert)
  have small: "hc_occupied_size ?c < hc_max_cache_size c + length (concat data) \<or> length (hc_map ?c) = 1"
    using mp(5) mod_less_eq_dividend [of "length (concat data)" "2 ^ 32"] by (auto simp: br_size_def)
  have keep: "mp = hc_map c" if "hc_occupied_size c < hc_max_cache_size c" using that e by (cases "hc_fifo_deque c") auto
  have starve: "length (hc_map ?c) = 1" if "hc_leak c \<ge> hc_max_cache_size c" using that mp(2,5) w(2) by (auto simp: hc_leak_def hc_held_def)
  show ?thesis using ok i g small le lk keep starve by (intro exI [of _ ?c] exI [of _ ?old]) blast
qed

lemma hc_insert_keeps: "hc_inv c \<Longrightarrow> \<exists>c'. hc_insert sid off delta data c = Ok c' \<and> hc_inv c'"
  using hc_insert_spec by blast

text \<open>
  C31. The accounting of the hot cache: an insertion never underflows and keeps the invariant that
  the occupied size covers the cached records; it caches the record under its stream and offset,
  and evicts so that without the new record the occupied size is below the limit or nothing else
  is cached. The occupied size is too high by the bytes of every record that was replaced under
  its key before it was evicted, and these bytes are never given back: once they reach the limit,
  an insertion leaves the new record as the only one.
\<close>

theorem hc_insert_accounts:
  assumes inv: "hc_inv c"
  shows "\<exists>c' old. hc_insert sid off delta data c = Ok c' \<and> hc_inv c'
    \<and> bt_get (sid, off) (hc_map c') = Some \<lparr>br_start_offset = off, br_end_offset_delta = delta, br_data = data\<rparr>
    \<and> (hc_occupied_size c' < hc_max_cache_size c + length (concat data) \<or> length (hc_map c') = 1)
    \<and> old \<le> bt_at br_size (sid, off) (hc_map c) \<and> hc_leak c' = hc_leak c + old
    \<and> (hc_occupied_size c < hc_max_cache_size c \<longrightarrow> old = bt_at br_size (sid, off) (hc_map c))
    \<and> (hc_leak c \<ge> hc_max_cache_size c \<longrightarrow> length (hc_map c') = 1)"
  by (rule hc_insert_spec [OF inv])

definition sample_hot :: hot_cache where
  "sample_hot = \<lparr>hc_max_cache_size = 4096, hc_occupied_size = 2,
     hc_map = [((1, 0), \<lparr>br_start_offset = 0, br_end_offset_delta = 3, br_data = [[1, 2]]\<rparr>)], hc_fifo_deque = [(1, 0)]\<rparr>"

lemma sample_hot_inv: "hc_inv sample_hot"
  by (simp add: sample_hot_def hc_inv_def hc_held_def br_size_def bt_wf_def)

theorem hc_insert_accounts_witness:
  "hc_inv sample_hot \<and> (\<exists>c'. hc_insert 1 0 3 [[1, 2]] sample_hot = Ok c' \<and> hc_leak c' = 2)"
proof -
  obtain c' old where "hc_insert 1 0 3 [[1, 2]] sample_hot = Ok c'" "hc_leak c' = hc_leak sample_hot + old"
    "hc_occupied_size sample_hot < hc_max_cache_size sample_hot \<longrightarrow> old = bt_at br_size (1, 0) (hc_map sample_hot)"
    using hc_insert_accounts [OF sample_hot_inv, of 1 0 3 "[[1, 2]]"] by blast
  then show ?thesis using sample_hot_inv by (simp add: sample_hot_def hc_leak_def hc_held_def bt_at_def bt_get_def br_size_def)
qed

section \<open>Runs of records\<close>

fun chained :: "u64 \<Rightarrow> block_record list \<Rightarrow> bool" where
  "chained off [] = True"
| "chained off (r # rs) = (br_start_offset r = off \<and> chained (br_end_offset r) rs)"

fun chain_end :: "u64 \<Rightarrow> block_record list \<Rightarrow> u64" where
  "chain_end off [] = off"
| "chain_end off (r # rs) = chain_end (br_end_offset r) rs"

lemma chained_append: "chained off (rs @ ss) \<longleftrightarrow> chained off rs \<and> chained (chain_end off rs) ss"
  by (induction rs arbitrary: off) auto

lemma chain_end_append [simp]: "chain_end off (rs @ ss) = chain_end (chain_end off rs) ss"
  by (induction rs arbitrary: off) auto

text \<open>Every entry is filed under the offset of its record and holds bytes.\<close>

definition hc_filed :: "hot_cache \<Rightarrow> bool" where
  "hc_filed c \<longleftrightarrow> (\<forall>e \<in> set (hc_map c). snd (fst e) = br_start_offset (snd e) \<and> 0 < br_size (snd e))"

lemma hc_collect_spec:
  assumes "\<forall>e \<in> set mp. snd (fst e) = br_start_offset (snd e) \<and> 0 < br_size (snd e)"
  shows "\<exists>rs. hc_collect mp sid e h s acc = Some (acc @ rs, chain_end s rs) \<and> chained s rs
    \<and> (\<forall>r \<in> set rs. bt_get (sid, br_start_offset r) mp = Some r)
    \<and> (chain_end s rs \<ge> e \<or> h \<le> sum_list (map br_size rs) \<or> bt_get (sid, chain_end s rs) mp = None)
    \<and> (rs \<noteq> [] \<longrightarrow> sum_list (map br_size (butlast rs)) < h)"
proof (induction h arbitrary: s acc rule: less_induct)
  case (less h)
  show ?case
  proof (cases "e \<le> s \<or> h = 0")
    case True
    then show ?thesis by (intro exI [of _ "[]"]) (auto simp: hc_collect.simps)
  next
    case False
    show ?thesis
    proof (cases "bt_get (sid, s) mp")
      case None
      with False show ?thesis by (intro exI [of _ "[]"]) (auto simp: hc_collect.simps)
    next
      case (Some r)
      then have r: "br_start_offset r = s" "0 < br_size r" using assms by (auto simp: bt_get_def dest!: map_of_SomeD)
      let ?h = "h - min (br_size r) h"
      have "?h < h" using r False by auto
      from less [OF this, of "br_end_offset r" "acc @ [r]"] obtain rs where
        rs: "hc_collect mp sid e ?h (br_end_offset r) (acc @ [r]) = Some ((acc @ [r]) @ rs, chain_end (br_end_offset r) rs)"
          "chained (br_end_offset r) rs" "\<forall>r \<in> set rs. bt_get (sid, br_start_offset r) mp = Some r"
          "chain_end (br_end_offset r) rs \<ge> e \<or> ?h \<le> sum_list (map br_size rs) \<or> bt_get (sid, chain_end (br_end_offset r) rs) mp = None"
          "rs \<noteq> [] \<longrightarrow> sum_list (map br_size (butlast rs)) < ?h" by blast
      have "hc_collect mp sid e h s acc = Some (acc @ r # rs, chain_end s (r # rs))"
        using False Some rs(1) by (subst hc_collect.simps) simp
      moreover have "rs \<noteq> [] \<longrightarrow> sum_list (map br_size (butlast (r # rs))) < h" using rs(5) by auto
      ultimately show ?thesis using rs r Some False by (intro exI [of _ "r # rs"]) auto
    qed
  qed
qed

lemma hc_get_block_spec:
  assumes "hc_filed c"
  shows "\<exists>b rs. hc_get_block sid s e h c = Some b \<and> blk_records b = rs \<and> chained s rs
    \<and> (\<forall>r \<in> set rs. bt_get (sid, br_start_offset r) (hc_map c) = Some r)
    \<and> (chain_end s rs \<ge> e \<or> h \<le> sum_list (map br_size rs) \<or> bt_get (sid, chain_end s rs) (hc_map c) = None)
    \<and> (rs \<noteq> [] \<longrightarrow> sum_list (map br_size (butlast rs)) < h)
    \<and> b = (if rs = [] then empty_block s else blk_new rs)"
proof -
  obtain rs where "hc_collect (hc_map c) sid e h s [] = Some ([] @ rs, chain_end s rs)" "chained s rs"
    "\<forall>r \<in> set rs. bt_get (sid, br_start_offset r) (hc_map c) = Some r"
    "chain_end s rs \<ge> e \<or> h \<le> sum_list (map br_size rs) \<or> bt_get (sid, chain_end s rs) (hc_map c) = None"
    "rs \<noteq> [] \<longrightarrow> sum_list (map br_size (butlast rs)) < h"
    using hc_collect_spec [of "hc_map c" sid e h s "[]"] assms by (auto simp: hc_filed_def)
  then show ?thesis
    by (intro exI [of _ "if rs = [] then empty_block s else blk_new rs"] exI [of _ rs])
      (auto simp: hc_get_block_def empty_block_def blk_new_def)
qed

text \<open>
  Reading from the hot cache ends and gives a run of cached records of the stream that starts
  at the requested offset without a gap. It stops only at the end offset, once the size hint is
  reached, or where the next record is not cached, and takes no record after the size hint is
  reached; when nothing is cached at the offset the block is empty there.
\<close>

theorem hc_get_block_run:
  assumes "hc_filed c"
  shows "\<exists>b rs. hc_get_block sid s e h c = Some b \<and> blk_records b = rs \<and> chained s rs
    \<and> (\<forall>r \<in> set rs. bt_get (sid, br_start_offset r) (hc_map c) = Some r)
    \<and> (chain_end s rs \<ge> e \<or> h \<le> sum_list (map br_size rs) \<or> bt_get (sid, chain_end s rs) (hc_map c) = None)
    \<and> (rs \<noteq> [] \<longrightarrow> sum_list (map br_size (butlast rs)) < h)
    \<and> b = (if rs = [] then empty_block s else blk_new rs)"
  using assms by (rule hc_get_block_spec)

lemma sample_hot_filed: "hc_filed sample_hot"
  by (simp add: sample_hot_def hc_filed_def br_size_def)

theorem hc_get_block_run_witness:
  "hc_filed sample_hot \<and> (\<exists>b. hc_get_block 1 0 3 10 sample_hot = Some b \<and> length (blk_records b) = 1)"
proof -
  obtain b where b: "hc_get_block 1 0 3 10 sample_hot = Some b" "chained 0 (blk_records b)"
     "chain_end 0 (blk_records b) \<ge> 3 \<or> 10 \<le> sum_list (map br_size (blk_records b))
        \<or> bt_get (1, chain_end 0 (blk_records b)) (hc_map sample_hot) = None"
     "\<forall>r \<in> set (blk_records b). bt_get (1, br_start_offset r) (hc_map sample_hot) = Some r"
    using hc_get_block_run [OF sample_hot_filed, of 1 0 3 10] by blast
  have one: "r = snd (hd (hc_map sample_hot))" if "r \<in> set (blk_records b)" for r
    using b(4) that by (auto simp: sample_hot_def bt_get_def split: if_splits)
  have "blk_records b \<noteq> []" using b(3) by (auto simp: sample_hot_def bt_get_def)
  then obtain r rs where r: "blk_records b = r # rs" by (cases "blk_records b") auto
  have "rs = []" using b(2) one [of r] one [of "hd rs"] r by (cases rs) (auto simp: sample_hot_def br_end_offset_def)
  with r b(1) sample_hot_filed show ?thesis by simp
qed

end
