(* ===== verification/Readahead_Cache.thy ===== *)
theory Readahead_Cache
  imports Hot_Cache
begin

text \<open>
  The cache of fetched blocks with readahead of the replication client, \<open>BlockCache\<close> of
  \<open>src/components/replication/src/stream/cache.rs\<close>. Times are milliseconds; \<open>now\<close> is the clock
  at the call. The \<open>lru\<close> crate is the parameter \<open>lru_api\<close>: \<open>lru_ok\<close> states that taking the
  least recently used entry removes one entry. The eviction loop ends because of that, so it is
  a \<open>partial_function (option)\<close>.
\<close>

section \<open>Model\<close>

record readahead =
  ra_start_offset :: u64
  ra_end_offset :: "u64 option"
  ra_size_hint :: u32
  ra_timestamp :: nat

definition BLOCK_SIZE :: u32 where "BLOCK_SIZE = 1024 * 1024"
definition READAHEAD_SIZE_INCREASE_ELAPSE_MS :: nat where "READAHEAD_SIZE_INCREASE_ELAPSE_MS = 100"
definition READAHEAD_SIZE_DECREASE_ELAPSE_MS :: nat where "READAHEAD_SIZE_DECREASE_ELAPSE_MS = 300"
definition MAX_READAHEAD_SIZE :: u32 where "MAX_READAHEAD_SIZE = 1024 * 1024 * 128"

type_synonym block_entry = "records_block \<times> readahead option"

record stream_cache =
  sc_cache_map :: "(u64, block_entry) btree"
  sc_evict_mark :: bool

definition sc_new :: stream_cache where
  "sc_new = \<lparr>sc_cache_map = bt_empty, sc_evict_mark = False\<rparr>"

type_synonym records_block_key = "u64 \<times> u64"

record 'l lru_api =
  lru_unbounded :: 'l
  lru_push :: "records_block_key \<Rightarrow> u32 \<Rightarrow> 'l \<Rightarrow> 'l"
  lru_pop :: "records_block_key \<Rightarrow> 'l \<Rightarrow> 'l"
  lru_pop_lru :: "'l \<Rightarrow> ((records_block_key \<times> u32) \<times> 'l) option"
  lru_len :: "'l \<Rightarrow> usize"

definition lru_ok :: "'l lru_api \<Rightarrow> bool" where
  "lru_ok api \<longleftrightarrow> (\<forall>l e l'. lru_pop_lru api l = Some (e, l') \<longrightarrow> lru_len api l = Suc (lru_len api l'))"

record 'l read_cache =
  rc_cache_map :: "(u64, stream_cache) btree"
  rc_reading_lru :: 'l
  rc_completed_lru :: 'l
  rc_max_cache_size :: u64
  rc_cache_size :: u64

definition rc_new :: "'l lru_api \<Rightarrow> u64 \<Rightarrow> 'l read_cache" where
  "rc_new api max_cache_size =
     \<lparr>rc_cache_map = bt_empty, rc_reading_lru = lru_unbounded api, rc_completed_lru = lru_unbounded api,
      rc_max_cache_size = max_cache_size, rc_cache_size = 0\<rparr>"

subsection \<open>Sizes of readaheads\<close>

definition block_size_align :: "u32 \<Rightarrow> u32" where
  "block_size_align n =
     (if n + (BLOCK_SIZE - 1) < 2 ^ 32 then (n + (BLOCK_SIZE - 1)) div BLOCK_SIZE * BLOCK_SIZE
      else (2 ^ 32 - 1) div BLOCK_SIZE * BLOCK_SIZE)"

definition re_gen_readahead :: "nat \<Rightarrow> readahead \<Rightarrow> (unit, readahead) outcome" where
  "re_gen_readahead now ra =
     (let size_hint = block_size_align (ra_size_hint ra);
          elapsed = now - ra_timestamp ra;
          ra' = (\<lambda>h. \<lparr>ra_start_offset = ra_start_offset ra, ra_end_offset = ra_end_offset ra, ra_size_hint = h, ra_timestamp = now\<rparr>)
      in if elapsed \<le> READAHEAD_SIZE_INCREASE_ELAPSE_MS
         then (if size_hint * 2 < 2 ^ 32 then Ok (ra' (min (size_hint * 2) MAX_READAHEAD_SIZE)) else Panic)
         else if elapsed \<ge> READAHEAD_SIZE_DECREASE_ELAPSE_MS then Ok (ra' (max (size_hint div 2) BLOCK_SIZE))
         else Ok (ra' size_hint))"

definition gen_readahead :: "nat \<Rightarrow> records_block list \<Rightarrow> stream_cache \<Rightarrow> readahead option \<times> stream_cache" where
  "gen_readahead now blocks sc =
     (if blocks = [] then (None, sc)
      else
        let blocks_size = sum_list (map blk_size blocks);
            readahead_size = block_size_align (if sc_evict_mark sc then blocks_size div 2 else blocks_size)
        in (Some \<lparr>ra_start_offset = blk_end_offset (last blocks), ra_end_offset = None, ra_size_hint = readahead_size, ra_timestamp = now\<rparr>,
            sc\<lparr>sc_evict_mark := False\<rparr>))"

subsection \<open>Eviction\<close>

definition evict_key :: "records_block_key \<Rightarrow> u64 \<Rightarrow> (u64, stream_cache) btree
    \<Rightarrow> (unit, u64 \<times> (u64, stream_cache) btree) outcome" where
  "evict_key k cache_size cache_map =
     (case bt_get (fst k) cache_map of
        None \<Rightarrow> Ok (cache_size, cache_map)
      | Some sc \<Rightarrow>
          let put = (\<lambda>sc. if sc_cache_map sc = [] then bt_remove (fst k) cache_map else bt_insert (fst k) sc cache_map) in
          (case bt_get (snd k) (sc_cache_map sc) of
             None \<Rightarrow> Ok (cache_size, put sc)
           | Some (block, _) \<Rightarrow>
               bind_outcome (sub_or_panic cache_size (blk_size block))
                 (\<lambda>cache_size. Ok (cache_size, put (sc\<lparr>sc_cache_map := bt_remove (snd k) (sc_cache_map sc), sc_evict_mark := True\<rparr>)))))"

text \<open>The flag of the result tells that the reserved size fits, on which \<open>evict\<close> returns.\<close>

partial_function (option) evict_loop :: "'l lru_api \<Rightarrow> u64 \<Rightarrow> u64 \<Rightarrow> 'l \<Rightarrow> u64 \<Rightarrow> (u64, stream_cache) btree
    \<Rightarrow> (unit, bool \<times> 'l \<times> u64 \<times> (u64, stream_cache) btree) outcome option" where
  "evict_loop api reserve_size limit lru cache_size cache_map =
     (if cache_size + reserve_size \<le> limit then Some (Ok (True, lru, cache_size, cache_map))
      else (case lru_pop_lru api lru of
              None \<Rightarrow> Some (Ok (False, lru, cache_size, cache_map))
            | Some ((k, _), lru) \<Rightarrow>
                (case evict_key k cache_size cache_map of
                   Ok (cache_size, cache_map) \<Rightarrow> evict_loop api reserve_size limit lru cache_size cache_map
                 | Err e \<Rightarrow> Some (Err e)
                 | Panic \<Rightarrow> Some Panic)))"

definition evict :: "'l lru_api \<Rightarrow> u64 \<Rightarrow> 'l read_cache \<Rightarrow> (unit, 'l read_cache) outcome option" where
  "evict api reserve_size c =
     (let reserve_size = min reserve_size (rc_max_cache_size c) in
      case evict_loop api reserve_size (rc_max_cache_size c) (rc_completed_lru c) (rc_cache_size c) (rc_cache_map c) of
        Some (Ok (fits, completed, cache_size, cache_map)) \<Rightarrow>
          let c = c\<lparr>rc_completed_lru := completed, rc_cache_size := cache_size, rc_cache_map := cache_map\<rparr> in
          if fits then Some (Ok c)
          else (case evict_loop api reserve_size (rc_max_cache_size c) (rc_reading_lru c) cache_size cache_map of
                  Some (Ok (_, reading, cache_size, cache_map)) \<Rightarrow>
                    Some (Ok (c\<lparr>rc_reading_lru := reading, rc_cache_size := cache_size, rc_cache_map := cache_map\<rparr>))
                | Some (Err e) \<Rightarrow> Some (Err e)
                | Some Panic \<Rightarrow> Some Panic
                | None \<Rightarrow> None)
      | Some (Err e) \<Rightarrow> Some (Err e)
      | Some Panic \<Rightarrow> Some Panic
      | None \<Rightarrow> None)"

subsection \<open>Insertion\<close>

text \<open>The entries a cursor visits that starts at the upper bound of \<open>k\<close>: none when it starts at the ghost entry.\<close>

definition bt_cursor :: "'k :: linorder \<Rightarrow> ('k, 'v) btree \<Rightarrow> ('k \<times> 'v) list" where
  "bt_cursor k m = (case bt_upper_bound k m of None \<Rightarrow> [] | Some e \<Rightarrow> filter (\<lambda>x. fst e \<le> fst x) m)"

fun kick_scan :: "u64 \<Rightarrow> u64 \<Rightarrow> (u64 \<times> block_entry) list \<Rightarrow> u64 list \<times> bool" where
  "kick_scan bs be [] = ([], False)"
| "kick_scan bs be ((cs, (cached, _)) # es) =
     (let ce = blk_end_offset cached in
      if bs \<le> cs \<and> ce \<le> be then (case kick_scan bs be es of (ks, covered) \<Rightarrow> (cs # ks, covered))
      else if cs \<le> bs \<and> be \<le> ce then ([], True)
      else if be < cs then ([], False)
      else kick_scan bs be es)"

fun kick_remove :: "u64 list \<Rightarrow> (u64, block_entry) btree \<Rightarrow> u64 \<times> (u64, block_entry) btree" where
  "kick_remove [] m = (0, m)"
| "kick_remove (k # ks) m =
     (case kick_remove ks (bt_remove k m) of
        (kicked, m') \<Rightarrow> ((case bt_get k m of Some (b, _) \<Rightarrow> blk_size b | None \<Rightarrow> 0) + kicked, m'))"

definition kick_out_covered_block :: "stream_cache \<Rightarrow> records_block \<Rightarrow> bool \<times> u64 \<times> stream_cache" where
  "kick_out_covered_block sc block =
     (case kick_scan (blk_start_offset block) (blk_end_offset block) (bt_cursor (blk_start_offset block) (sc_cache_map sc)) of
        (wait_remove, covered) \<Rightarrow>
          (case kick_remove wait_remove (sc_cache_map sc) of (kicked, m) \<Rightarrow> (covered, kicked, sc\<lparr>sc_cache_map := m\<rparr>)))"

fun keep_uncovered :: "records_block list \<Rightarrow> u64 \<Rightarrow> stream_cache \<Rightarrow> (unit, records_block list \<times> u64 \<times> stream_cache) outcome" where
  "keep_uncovered [] cache_size sc = Ok ([], cache_size, sc)"
| "keep_uncovered (b # bs) cache_size sc =
     (case kick_out_covered_block sc b of
        (covered, kicked, sc) \<Rightarrow>
          bind_outcome (sub_or_panic cache_size kicked) (\<lambda>cache_size.
            bind_outcome (keep_uncovered bs cache_size sc) (\<lambda>(kept, cache_size, sc).
              Ok (if covered then kept else b # kept, cache_size, sc))))"

fun insert_blocks :: "records_block list \<Rightarrow> readahead option \<Rightarrow> u64 \<Rightarrow> stream_cache \<Rightarrow> (unit, u64 \<times> stream_cache) outcome" where
  "insert_blocks [] ra cache_size sc = Ok (cache_size, sc)"
| "insert_blocks (b # bs) ra cache_size sc =
     (let sc' = sc\<lparr>sc_cache_map := bt_insert (blk_start_offset b) (b, ra) (sc_cache_map sc)\<rparr> in
      case bt_get (blk_start_offset b) (sc_cache_map sc) of
        Some (old, None) \<Rightarrow> bind_outcome (sub_or_panic cache_size (blk_size old)) (\<lambda>cache_size. insert_blocks bs None cache_size sc')
      | _ \<Rightarrow> insert_blocks bs None cache_size sc')"

definition insert_evicted :: "'l lru_api \<Rightarrow> nat \<Rightarrow> u64 \<Rightarrow> records_block list \<Rightarrow> 'l read_cache \<Rightarrow> (unit, 'l read_cache) outcome" where
  "insert_evicted api now stream_id blocks c =
     (let size0 = rc_cache_size c + sum_list (map blk_size blocks);
          sc = (case bt_get stream_id (rc_cache_map c) of Some sc \<Rightarrow> sc | None \<Rightarrow> sc_new)
      in case gen_readahead now blocks sc of
           (ra, sc) \<Rightarrow>
             bind_outcome (keep_uncovered blocks size0 sc) (\<lambda>(kept, size1, sc).
               let reading = fold (\<lambda>b. lru_push api (stream_id, blk_start_offset b) (blk_size b)) (rev kept) (rc_reading_lru c) in
               bind_outcome (insert_blocks kept ra size1 sc) (\<lambda>(size2, sc).
                 Ok (c\<lparr>rc_cache_map := bt_insert stream_id sc (rc_cache_map c), rc_reading_lru := reading, rc_cache_size := size2\<rparr>))))"

definition rc_insert :: "'l lru_api \<Rightarrow> nat \<Rightarrow> u64 \<Rightarrow> records_block list \<Rightarrow> 'l read_cache \<Rightarrow> (unit, 'l read_cache) outcome option" where
  "rc_insert api now stream_id blocks c =
     (let blocks = filter (\<lambda>b. \<not> blk_is_empty b) blocks;
          blocks_size = sum_list (map blk_size blocks)
      in if blocks = [] then Some (Ok c)
         else if blocks_size \<ge> 2 ^ 32 then Some Panic
         else (case evict api blocks_size c of
                 Some r \<Rightarrow> Some (bind_outcome r (insert_evicted api now stream_id blocks))
               | None \<Rightarrow> None))"

subsection \<open>Reading\<close>

record 'l read_state =
  rd_size_hint :: u32
  rd_start_offset :: u64
  rd_records :: "block_record list"
  rd_readahead :: "readahead option"
  rd_mark_erase :: "u64 option"
  rd_expect_next :: "u64 option"
  rd_reading :: 'l
  rd_completed :: 'l

definition note_readahead :: "nat \<Rightarrow> u64 \<Rightarrow> readahead option \<Rightarrow> 'l read_state \<Rightarrow> (unit, 'l read_state) outcome" where
  "note_readahead now bs ra st =
     (case (rd_readahead st, ra) of
        (None, Some ra) \<Rightarrow>
          bind_outcome (re_gen_readahead now ra) (\<lambda>ra. Ok (st\<lparr>rd_readahead := Some ra, rd_mark_erase := Some bs\<rparr>))
      | _ \<Rightarrow> Ok st)"

definition read_block :: "'l lru_api \<Rightarrow> u64 \<Rightarrow> u64 \<Rightarrow> records_block \<Rightarrow> 'l read_state \<Rightarrow> (unit, 'l read_state) outcome" where
  "read_block api stream_id end_offset block st =
     (let records = get_records (rd_start_offset st) end_offset (rd_size_hint st) block;
          k = (stream_id, blk_start_offset block)
      in if records = [] then Panic
         else
           let records_end = br_end_offset (last records);
               st = st\<lparr>rd_size_hint := rd_size_hint st - min (sum_list (map br_size records)) (rd_size_hint st),
                       rd_start_offset := records_end, rd_records := rd_records st @ records,
                       rd_expect_next := Some (blk_end_offset block)\<rparr>
           in Ok (if records_end = blk_end_offset block
                  then st\<lparr>rd_reading := lru_pop api k (rd_reading st), rd_completed := lru_push api k (blk_size block) (rd_completed st)\<rparr>
                  else st\<lparr>rd_reading := lru_push api k (blk_size block) (rd_reading st)\<rparr>))"

fun read_loop :: "'l lru_api \<Rightarrow> nat \<Rightarrow> u64 \<Rightarrow> u64 \<Rightarrow> (u64 \<times> block_entry) list \<Rightarrow> 'l read_state \<Rightarrow> (unit, 'l read_state) outcome" where
  "read_loop api now stream_id end_offset [] st = Ok st"
| "read_loop api now stream_id end_offset ((bs, (block, ra)) # es) st =
     (if rd_size_hint st = 0 \<or> rd_start_offset st \<ge> end_offset then Ok st
      else
        bind_outcome (note_readahead now bs ra st) (\<lambda>st.
          if blk_end_offset block \<le> rd_start_offset st \<or> blk_start_offset block > rd_start_offset st then Ok st
          else bind_outcome (read_block api stream_id end_offset block st) (read_loop api now stream_id end_offset es)))"

definition erase_readahead :: "u64 option \<Rightarrow> stream_cache \<Rightarrow> stream_cache" where
  "erase_readahead bs sc =
     (case bs of
        None \<Rightarrow> sc
      | Some bs \<Rightarrow>
          (case bt_get bs (sc_cache_map sc) of
             None \<Rightarrow> sc
           | Some (b, _) \<Rightarrow> sc\<lparr>sc_cache_map := bt_insert bs (b, None) (sc_cache_map sc)\<rparr>))"

definition next_readahead :: "nat \<Rightarrow> stream_cache \<Rightarrow> 'l read_state \<Rightarrow> readahead option" where
  "next_readahead now sc st =
     (case (rd_readahead st, rd_expect_next st) of
        (None, Some off) \<Rightarrow>
          if bt_get off (sc_cache_map sc) = None
          then Some \<lparr>ra_start_offset = off, ra_end_offset = None, ra_size_hint = BLOCK_SIZE, ra_timestamp = now\<rparr>
          else None
      | (ra, _) \<Rightarrow> ra)"

definition rc_get_block :: "'l lru_api \<Rightarrow> nat \<Rightarrow> u64 \<Rightarrow> u64 \<Rightarrow> u64 \<Rightarrow> u32 \<Rightarrow> 'l read_cache
    \<Rightarrow> (unit, (records_block \<times> readahead option) \<times> 'l read_cache) outcome" where
  "rc_get_block api now stream_id start_offset end_offset size_hint c =
     (case bt_get stream_id (rc_cache_map c) of
        None \<Rightarrow> Ok ((empty_block start_offset, None), c)
      | Some sc \<Rightarrow>
          bind_outcome
            (read_loop api now stream_id end_offset (bt_cursor start_offset (sc_cache_map sc))
               \<lparr>rd_size_hint = size_hint, rd_start_offset = start_offset, rd_records = [], rd_readahead = None,
                rd_mark_erase = None, rd_expect_next = None, rd_reading = rc_reading_lru c, rd_completed = rc_completed_lru c\<rparr>)
            (\<lambda>st.
               let sc = erase_readahead (rd_mark_erase st) sc;
                   c = c\<lparr>rc_cache_map := bt_insert stream_id sc (rc_cache_map c), rc_reading_lru := rd_reading st,
                         rc_completed_lru := rd_completed st\<rparr>
               in if rd_records st = [] then Ok ((empty_block (rd_start_offset st), None), c)
                  else Ok ((blk_new (rd_records st), next_readahead now sc st), c)))"

section \<open>Bounds of readaheads\<close>

lemma block_size_align_bounds:
  assumes "n < 2 ^ 32"
  shows "BLOCK_SIZE dvd block_size_align n" and "block_size_align n < 2 ^ 32"
    and "n \<le> 2 ^ 32 - BLOCK_SIZE \<Longrightarrow> n \<le> block_size_align n \<and> block_size_align n < n + BLOCK_SIZE"
proof -
  show "BLOCK_SIZE dvd block_size_align n" by (simp add: block_size_align_def)
  have d: "n + 1048575 = (n + 1048575) div 1048576 * 1048576 + (n + 1048575) mod 1048576" by (rule div_mult_mod_eq [symmetric])
  have l: "(n + 1048575) mod 1048576 < 1048576" by simp
  show "block_size_align n < 2 ^ 32" by (simp add: block_size_align_def BLOCK_SIZE_def div_less_iff_less_mult)
  show "n \<le> block_size_align n \<and> block_size_align n < n + BLOCK_SIZE" if "n \<le> 2 ^ 32 - BLOCK_SIZE"
  proof -
    have "block_size_align n = (n + 1048575) div 1048576 * 1048576" using that by (simp add: block_size_align_def BLOCK_SIZE_def)
    with d l show ?thesis unfolding BLOCK_SIZE_def by linarith
  qed
qed



section \<open>Accounting\<close>

definition sc_held :: "stream_cache \<Rightarrow> nat" where
  "sc_held sc = bt_total (\<lambda>e. blk_size (fst e)) (sc_cache_map sc)"

definition rc_held :: "'l read_cache \<Rightarrow> nat" where
  "rc_held c = bt_total sc_held (rc_cache_map c)"

definition maps_wf :: "(u64, stream_cache) btree \<Rightarrow> bool" where
  "maps_wf m \<longleftrightarrow> bt_wf m \<and> (\<forall>sid sc. bt_get sid m = Some sc \<longrightarrow> bt_wf (sc_cache_map sc))"

definition rc_inv :: "'l read_cache \<Rightarrow> bool" where
  "rc_inv c \<longleftrightarrow> maps_wf (rc_cache_map c) \<and> rc_held c \<le> rc_cache_size c"

lemma sc_held_remove: "bt_wf (sc_cache_map sc) \<Longrightarrow>
  sc_held (sc\<lparr>sc_cache_map := bt_remove k (sc_cache_map sc)\<rparr>) + bt_at (\<lambda>e. blk_size (fst e)) k (sc_cache_map sc) = sc_held sc"
  by (simp add: sc_held_def bt_total_remove)

lemma sc_held_mark [simp]: "sc_held (sc\<lparr>sc_evict_mark := b\<rparr>) = sc_held sc"
  by (simp add: sc_held_def)

lemma maps_wf_insert: "maps_wf m \<Longrightarrow> bt_wf (sc_cache_map sc) \<Longrightarrow> maps_wf (bt_insert sid sc m)"
  by (auto simp: maps_wf_def bt_wf_insert bt_get_insert split: if_splits)

lemma maps_wf_remove: "maps_wf m \<Longrightarrow> maps_wf (bt_remove sid m)"
  by (auto simp: maps_wf_def bt.inv_remove bt_get_remove split: if_splits)

lemma maps_wf_bt: "maps_wf m \<Longrightarrow> bt_wf m"
  by (simp add: maps_wf_def)

lemma maps_put:
  assumes "maps_wf m" and "bt_get sid m = Some sc" and "bt_wf (sc_cache_map sc')"
  defines "m' \<equiv> if sc_cache_map sc' = [] then bt_remove sid m else bt_insert sid sc' m"
  shows "maps_wf m' \<and> bt_total sc_held m' + sc_held sc = bt_total sc_held m + sc_held sc'"
proof (cases "sc_cache_map sc' = []")
  case True
  then have "sc_held sc' = 0" by (simp add: sc_held_def)
  with True assms(1,2) bt_total_remove [of m sc_held sid] show ?thesis
    by (simp add: m'_def maps_wf_remove maps_wf_bt bt_at_def)
next
  case False
  with assms(1-3) bt_total_insert [of m sc_held sid sc'] show ?thesis by (simp add: m'_def maps_wf_insert maps_wf_bt bt_at_def)
qed

lemma evict_key_ok:
  assumes "maps_wf m" and "bt_total sc_held m \<le> n"
  shows "\<exists>n' m'. evict_key k n m = Ok (n', m') \<and> maps_wf m' \<and> n' + bt_total sc_held m = n + bt_total sc_held m'"
proof (cases "bt_get (fst k) m")
  case (Some sc)
  have w: "bt_wf (sc_cache_map sc)" using assms(1) Some by (auto simp: maps_wf_def)
  have le: "sc_held sc \<le> bt_total sc_held m" using bt_at_le_total [of sc_held "fst k" m] Some by (simp add: bt_at_def)
  show ?thesis
  proof (cases "bt_get (snd k) (sc_cache_map sc)")
    case None
    with Some maps_put [OF assms(1) Some w] show ?thesis by (simp add: evict_key_def Let_def)
  next
    case (Some e)
    obtain b ra where e: "e = (b, ra)" by (cases e)
    let ?sc = "sc\<lparr>sc_cache_map := bt_remove (snd k) (sc_cache_map sc), sc_evict_mark := True\<rparr>"
    let ?m = "if sc_cache_map ?sc = [] then bt_remove (fst k) m else bt_insert (fst k) ?sc m"
    have h: "sc_held ?sc + blk_size b = sc_held sc" using sc_held_remove [OF w, of "snd k"] Some e by (simp add: bt_at_def sc_held_def)
    have p: "maps_wf ?m \<and> bt_total sc_held ?m + sc_held sc = bt_total sc_held m + sc_held ?sc"
      using maps_put [OF assms(1) \<open>bt_get (fst k) m = Some sc\<close>, of ?sc] w by (simp add: bt.inv_remove)
    have "evict_key k n m = Ok (n - blk_size b, ?m)"
      using Some e \<open>bt_get (fst k) m = Some sc\<close> h le assms(2) by (simp add: evict_key_def Let_def sub_or_panic_def)
    moreover have "n - blk_size b + bt_total sc_held m = n + bt_total sc_held ?m" using p h le assms(2) by linarith
    ultimately show ?thesis using p by blast
  qed
qed (use assms in \<open>simp add: evict_key_def\<close>)

lemma lru_ok_pop: "lru_ok api \<Longrightarrow> lru_pop_lru api l = Some (e, l') \<Longrightarrow> lru_len api l = Suc (lru_len api l')"
  unfolding lru_ok_def by blast

lemma evict_loop_ok:
  assumes "lru_ok api" and "maps_wf m" and "bt_total sc_held m \<le> n"
  shows "\<exists>f l' n' m'. evict_loop api r lim l n m = Some (Ok (f, l', n', m')) \<and> maps_wf m'
    \<and> n' + bt_total sc_held m = n + bt_total sc_held m' \<and> f = (n' + r \<le> lim)"
  using assms(2,3)
proof (induction "lru_len api l" arbitrary: l n m rule: less_induct)
  case less
  show ?case
  proof (cases "n + r \<le> lim")
    case False
    show ?thesis
    proof (cases "lru_pop_lru api l")
      case None
      with False less(2,3) show ?thesis by (subst evict_loop.simps) auto
    next
      case (Some p)
      obtain k v l' where p: "p = ((k, v), l')" by (metis surj_pair)
      have len: "lru_len api l' < lru_len api l" using lru_ok_pop [OF assms(1)] Some p by simp
      obtain n' m' where e: "evict_key k n m = Ok (n', m')" "maps_wf m'" "n' + bt_total sc_held m = n + bt_total sc_held m'"
        using evict_key_ok [OF less(2,3)] by blast
      have le: "bt_total sc_held m' \<le> n'" using e(3) less(3) by linarith
      obtain f l2 n2 m2 where r: "evict_loop api r lim l' n' m' = Some (Ok (f, l2, n2, m2))" "maps_wf m2"
        "n2 + bt_total sc_held m' = n' + bt_total sc_held m2" "f = (n2 + r \<le> lim)" using less(1) [OF len e(2) le] by blast
      have "evict_loop api r lim l n m = Some (Ok (f, l2, n2, m2))" using False Some p e(1) r(1) by (subst evict_loop.simps) simp
      moreover have "n2 + bt_total sc_held m = n + bt_total sc_held m2" using e(3) r(3) by linarith
      ultimately show ?thesis using r(2,4) by blast
    qed
  qed (use less in \<open>subst evict_loop.simps, auto\<close>)
qed

lemma evict_ok:
  assumes "lru_ok api" and "rc_inv c"
  shows "\<exists>c'. evict api r c = Some (Ok c') \<and> rc_inv c' \<and> rc_cache_size c' + rc_held c = rc_cache_size c + rc_held c'
    \<and> rc_max_cache_size c' = rc_max_cache_size c"
proof -
  let ?r = "min r (rc_max_cache_size c)"
  have i: "maps_wf (rc_cache_map c)" "bt_total sc_held (rc_cache_map c) \<le> rc_cache_size c" using assms(2) by (simp_all add: rc_inv_def rc_held_def)
  obtain f l n m where e: "evict_loop api ?r (rc_max_cache_size c) (rc_completed_lru c) (rc_cache_size c) (rc_cache_map c) = Some (Ok (f, l, n, m))"
    "maps_wf m" "n + bt_total sc_held (rc_cache_map c) = rc_cache_size c + bt_total sc_held m"
    using evict_loop_ok [OF assms(1) i] by blast
  then have le: "bt_total sc_held m \<le> n" using i(2) by linarith
  obtain g l2 n2 m2 where e2: "evict_loop api ?r (rc_max_cache_size c) (rc_reading_lru c) n m = Some (Ok (g, l2, n2, m2))"
    "maps_wf m2" "n2 + bt_total sc_held m = n + bt_total sc_held m2"
    using evict_loop_ok [OF assms(1) e(2) le] by blast
  show ?thesis
  proof (cases f)
    case True
    with e le show ?thesis by (simp add: evict_def Let_def rc_inv_def rc_held_def)
  next
    case False
    with e e2 le show ?thesis by (simp add: evict_def Let_def rc_inv_def rc_held_def)
  qed
qed

lemma kick_remove_ok: "bt_wf m \<Longrightarrow> bt_wf (snd (kick_remove ks m))
  \<and> fst (kick_remove ks m) + bt_total (\<lambda>e. blk_size (fst e)) (snd (kick_remove ks m)) = bt_total (\<lambda>e. blk_size (fst e)) m"
proof (induction ks m rule: kick_remove.induct)
  case (2 k ks m)
  have "(case bt_get k m of Some (b, _) \<Rightarrow> blk_size b | None \<Rightarrow> 0) = bt_at (\<lambda>e. blk_size (fst e)) k m"
    by (auto simp: bt_at_def split: option.split)
  then show ?case using 2 bt_total_remove [OF 2(2), of "\<lambda>e. blk_size (fst e)" k]
    by (cases "kick_remove ks (bt_remove k m)") (simp add: bt.inv_remove)
qed simp

lemma kick_out_ok:
  assumes "bt_wf (sc_cache_map sc)" and "kick_out_covered_block sc b = (covered, kicked, sc')"
  shows "bt_wf (sc_cache_map sc') \<and> kicked + sc_held sc' = sc_held sc \<and> sc_evict_mark sc' = sc_evict_mark sc"
  using assms kick_remove_ok [OF assms(1)] by (auto simp: kick_out_covered_block_def sc_held_def split: prod.splits)
    (metis fst_conv snd_conv)+

lemma keep_uncovered_ok:
  assumes "bt_wf (sc_cache_map sc)" and "sc_held sc \<le> n"
  shows "\<exists>kept n' sc'. keep_uncovered bs n sc = Ok (kept, n', sc') \<and> bt_wf (sc_cache_map sc')
    \<and> n' + sc_held sc = n + sc_held sc' \<and> set kept \<subseteq> set bs \<and> sum_list (map blk_size kept) \<le> sum_list (map blk_size bs)"
  using assms
proof (induction bs arbitrary: n sc)
  case (Cons b bs)
  obtain covered kicked sc1 where k: "kick_out_covered_block sc b = (covered, kicked, sc1)" by (metis surj_pair)
  note k1 = kick_out_ok [OF Cons(2) k]
  have "bt_wf (sc_cache_map sc1)" "sc_held sc1 \<le> n - kicked" using k1 Cons(3) by linarith+
  from Cons(1) [OF this] obtain kept n' sc' where r: "keep_uncovered bs (n - kicked) sc1 = Ok (kept, n', sc')" "bt_wf (sc_cache_map sc')"
    "n' + sc_held sc1 = n - kicked + sc_held sc'" "set kept \<subseteq> set bs" "sum_list (map blk_size kept) \<le> sum_list (map blk_size bs)" by blast
  have "keep_uncovered (b # bs) n sc = Ok (if covered then kept else b # kept, n', sc')"
    using k r(1) k1 Cons(3) by (simp add: sub_or_panic_def)
  moreover have "n' + sc_held sc = n + sc_held sc'" using r(3) k1 Cons(3) by linarith
  ultimately show ?case using r by auto
qed simp

lemma insert_blocks_ok:
  assumes "bt_wf (sc_cache_map sc)" and "sc_held sc + sum_list (map blk_size bs) \<le> n"
  shows "\<exists>n' sc'. insert_blocks bs ra n sc = Ok (n', sc') \<and> bt_wf (sc_cache_map sc')
    \<and> n + sc_held sc' \<le> n' + sc_held sc + sum_list (map blk_size bs)"
  using assms
proof (induction bs arbitrary: ra n sc)
  case (Cons b bs)
  let ?sc = "sc\<lparr>sc_cache_map := bt_insert (blk_start_offset b) (b, ra) (sc_cache_map sc)\<rparr>"
  let ?old = "bt_at (\<lambda>e. blk_size (fst e)) (blk_start_offset b) (sc_cache_map sc)"
  have w: "bt_wf (sc_cache_map ?sc)" using Cons(2) by (simp add: bt_wf_insert)
  have h: "sc_held ?sc + ?old = sc_held sc + blk_size b"
    using bt_total_insert [OF Cons(2), of "\<lambda>e. blk_size (fst e)" "blk_start_offset b" "(b, ra)"] by (simp add: sc_held_def)
  obtain d where d: "insert_blocks (b # bs) ra n sc = insert_blocks bs None (n - d) ?sc" "d \<le> ?old"
  proof (cases "bt_get (blk_start_offset b) (sc_cache_map sc)")
    case None
    then show ?thesis using that [of 0] by simp
  next
    case (Some e)
    have "?old \<le> sc_held sc" unfolding sc_held_def by (rule bt_at_le_total)
    then have "blk_size (fst e) \<le> n" using Some Cons(3) by (simp add: bt_at_def)
    then show ?thesis using Some that [of 0] that [of "blk_size (fst e)"]
      by (cases e; cases "snd e") (auto simp: bt_at_def sub_or_panic_def)
  qed
  have "sc_held ?sc + sum_list (map blk_size bs) \<le> n - d" using h d(2) Cons(3) by simp
  from Cons(1) [OF w this, of None] obtain n' sc' where "insert_blocks bs None (n - d) ?sc = Ok (n', sc')" "bt_wf (sc_cache_map sc')"
    "n - d + sc_held sc' \<le> n' + sc_held ?sc + sum_list (map blk_size bs)" by blast
  then show ?case using d h by (intro exI [of _ n'] exI [of _ sc']) simp
qed simp

subsection \<open>Cursors\<close>

lemma bt_split_at: "bt_wf m \<Longrightarrow> filter (\<lambda>e. fst e \<le> k) m @ filter (\<lambda>e. k < fst e) m = m"
proof (induction m)
  case (Cons e m)
  show ?case
  proof (cases "fst e \<le> k")
    case True
    with Cons show ?thesis by (cases e) (simp add: bt_wf_Cons)
  next
    case False
    then have "k < fst x" if "x \<in> set m" for x using Cons(2) that by (cases e) (force simp: bt_wf_Cons)
    then have "filter (\<lambda>e. fst e \<le> k) m = []" "filter (\<lambda>e. k < fst e) m = m" by (auto simp: filter_empty_conv filter_id_conv not_le)
    with False show ?thesis by auto
  qed
qed simp

lemma bt_cursor_Cons:
  assumes w: "bt_wf m" and u: "bt_upper_bound k m = Some e"
  shows "bt_cursor k m = e # filter (\<lambda>x. k < fst x) m"
proof -
  let ?lo = "filter (\<lambda>e. fst e \<le> k) m"
  have ne: "?lo \<noteq> []" "e = last ?lo" using u by (auto simp: bt_upper_bound_def bt_last_def split: if_splits)
  then have lo: "?lo = butlast ?lo @ [e]" by simp
  have ek: "fst e \<le> k" using ne by (metis (mono_tags, lifting) last_in_set mem_Collect_eq set_filter)
  have wlo: "bt_wf (butlast ?lo @ [e])" using lo bt_wf_filter [OF w] by metis
  have below: "x \<in> set (butlast ?lo) \<Longrightarrow> fst x < fst e" for x
    using wlo by (auto simp: bt_wf_def sorted_wrt_append)
  have "filter (\<lambda>x. fst e \<le> fst x) m = filter (\<lambda>x. fst e \<le> fst x) (butlast ?lo @ [e] @ filter (\<lambda>e. k < fst e) m)"
    using bt_split_at [OF w, of k] lo by (metis append_assoc)
  also have "\<dots> = e # filter (\<lambda>x. fst e \<le> fst x) (filter (\<lambda>e. k < fst e) m)" using below by (auto simp: filter_empty_conv not_le)
  also have "filter (\<lambda>x. fst e \<le> fst x) (filter (\<lambda>e. k < fst e) m) = filter (\<lambda>x. k < fst x) m" using ek by (auto intro!: filter_cong)
  finally show ?thesis using u by (simp add: bt_cursor_def)
qed

lemma bt_upper_bound_insert: "bt_wf m \<Longrightarrow> bt_upper_bound k (bt_insert k v m) = Some (k, v)"
proof (induction k v m rule: bt_insert.induct)
  case (2 k v k' v' m)
  then show ?case
    by (auto simp: bt_wf_Cons bt_upper_bound_def bt_last_def filter_empty_conv split: if_splits) (force simp: not_less)+
qed (simp add: bt_upper_bound_def bt_last_def)

lemma kick_scan_head:
  assumes w: "bt_wf m" and s: "kick_scan bs be (bt_cursor bs m) = (ks, True)"
  obtains cs cb ra where "ks = []" and "bt_upper_bound bs m = Some (cs, (cb, ra))" and "be \<le> blk_end_offset cb"
proof (cases "bt_upper_bound bs m")
  case None
  with s show ?thesis by (simp add: bt_cursor_def)
next
  case (Some e)
  obtain cs cb ra where e: "e = (cs, (cb, ra))" by (metis surj_pair)
  have later: "snd (kick_scan bs be es) = False" if "\<forall>x \<in> set es. bs < fst x" for es
    using that by (induction bs be es rule: kick_scan.induct) (auto simp: Let_def split: prod.splits)
  have "snd (kick_scan bs be (filter (\<lambda>x. bs < fst x) m)) = False" by (rule later) simp
  then have "ks = [] \<and> be \<le> blk_end_offset cb"
    using s bt_cursor_Cons [OF w Some] e by (auto simp: Let_def split: prod.splits if_splits)
  with that Some e show ?thesis by blast
qed

subsection \<open>Insertion\<close>

lemma insert_evicted_ok:
  assumes inv: "rc_inv c"
  shows "\<exists>c'. insert_evicted api now sid bs c = Ok c' \<and> rc_inv c' \<and> rc_cache_size c + rc_held c' \<le> rc_cache_size c' + rc_held c"
proof -
  let ?sc = "case bt_get sid (rc_cache_map c) of Some sc \<Rightarrow> sc | None \<Rightarrow> sc_new"
  obtain ra sc0 where g: "gen_readahead now bs ?sc = (ra, sc0)" by (metis surj_pair)
  have m: "maps_wf (rc_cache_map c)" and le: "rc_held c \<le> rc_cache_size c" using inv by (simp_all add: rc_inv_def)
  have at: "bt_at sc_held sid (rc_cache_map c) = sc_held ?sc"
    by (simp add: bt_at_def sc_new_def sc_held_def bt_empty_def split: option.split)
  have w: "bt_wf (sc_cache_map sc0)" "sc_held sc0 = sc_held ?sc"
    using g m by (auto simp: gen_readahead_def Let_def maps_wf_def sc_new_def bt_empty_def split: if_splits option.splits)
  have held: "sc_held sc0 \<le> rc_held c" using w(2) at bt_at_le_total [of sc_held sid "rc_cache_map c"] by (simp add: rc_held_def)
  let ?n = "rc_cache_size c + sum_list (map blk_size bs)"
  obtain kept n1 sc1 where k: "keep_uncovered bs ?n sc0 = Ok (kept, n1, sc1)" "bt_wf (sc_cache_map sc1)" "n1 + sc_held sc0 = ?n + sc_held sc1"
    "sum_list (map blk_size kept) \<le> sum_list (map blk_size bs)" using keep_uncovered_ok [OF w(1), of ?n bs] held le by auto
  obtain n2 sc2 where i: "insert_blocks kept ra n1 sc1 = Ok (n2, sc2)" "bt_wf (sc_cache_map sc2)"
    "n1 + sc_held sc2 \<le> n2 + sc_held sc1 + sum_list (map blk_size kept)" using insert_blocks_ok [OF k(2), of kept n1 ra] k(3,4) held le by force
  have tot: "bt_total sc_held (bt_insert sid sc2 (rc_cache_map c)) + sc_held sc0 = rc_held c + sc_held sc2"
    using bt_total_insert [OF maps_wf_bt [OF m], of sc_held sid sc2] at w(2) by (simp add: rc_held_def)
  let ?c = "c\<lparr>rc_cache_map := bt_insert sid sc2 (rc_cache_map c), rc_reading_lru := fold (\<lambda>b. lru_push api (sid, blk_start_offset b) (blk_size b)) (rev kept) (rc_reading_lru c), rc_cache_size := n2\<rparr>"
  have "insert_evicted api now sid bs c = Ok ?c" using g k(1) i(1) by (simp add: insert_evicted_def Let_def)
  moreover have "rc_cache_size c + rc_held ?c \<le> rc_cache_size ?c + rc_held c" using tot k(3,4) i(3) by (simp add: rc_held_def)
  moreover have "rc_inv ?c" using calculation(2) le maps_wf_insert [OF m i(2)] by (simp add: rc_inv_def)
  ultimately show ?thesis by blast
qed

lemma insert_blocks_one: "insert_blocks [b] ra n sc = Ok (n', sc') \<Longrightarrow>
  sc' = sc\<lparr>sc_cache_map := bt_insert (blk_start_offset b) (b, ra) (sc_cache_map sc)\<rparr>"
  by (auto simp: Let_def outcome_simps split: option.splits)

lemma insert_evicted_cached:
  assumes inv: "rc_inv c" and r: "insert_evicted api now sid [b] c = Ok c'"
  shows "\<exists>sc k cb ra. bt_get sid (rc_cache_map c') = Some sc \<and> bt_upper_bound (blk_start_offset b) (sc_cache_map sc) = Some (k, (cb, ra))
    \<and> blk_end_offset b \<le> blk_end_offset cb"
proof -
  let ?sc = "case bt_get sid (rc_cache_map c) of Some sc \<Rightarrow> sc | None \<Rightarrow> sc_new"
  obtain ra sc0 where g: "gen_readahead now [b] ?sc = (ra, sc0)" by (metis surj_pair)
  have m: "maps_wf (rc_cache_map c)" using inv by (simp add: rc_inv_def)
  have w: "bt_wf (sc_cache_map sc0)"
    using g m by (auto simp: gen_readahead_def Let_def maps_wf_def sc_new_def bt_empty_def split: if_splits option.splits)
  obtain ks covered where s: "kick_scan (blk_start_offset b) (blk_end_offset b) (bt_cursor (blk_start_offset b) (sc_cache_map sc0)) = (ks, covered)"
    by (metis surj_pair)
  obtain kicked mp where k: "kick_remove ks (sc_cache_map sc0) = (kicked, mp)" by (metis surj_pair)
  have wm: "bt_wf mp" using kick_remove_ok [OF w, of ks] k by simp
  show ?thesis
  proof (cases covered)
    case True
    from kick_scan_head [OF w] s True obtain cs cb ra' where "ks = []"
      "bt_upper_bound (blk_start_offset b) (sc_cache_map sc0) = Some (cs, (cb, ra'))" "blk_end_offset b \<le> blk_end_offset cb" by metis
    with r g s k True maps_wf_bt [OF m] show ?thesis
      by (auto simp: insert_evicted_def Let_def kick_out_covered_block_def bt_get_insert outcome_simps)
  next
    case False
    with r g s k obtain n n' sc' where i: "insert_blocks [b] ra n (sc0\<lparr>sc_cache_map := mp\<rparr>) = Ok (n', sc')"
      "rc_cache_map c' = bt_insert sid sc' (rc_cache_map c)"
      by (auto simp: insert_evicted_def Let_def kick_out_covered_block_def outcome_simps simp del: insert_blocks.simps)
    then show ?thesis using insert_blocks_one [OF i(1)] maps_wf_bt [OF m] bt_upper_bound_insert [OF wm] by (auto simp: bt_get_insert)
  qed
qed

lemma rc_insert_spec:
  assumes "lru_ok api" and "rc_inv c" and "\<not> blk_is_empty b" and "blk_size b < 2 ^ 32"
  shows "\<exists>c' sc k cb ra. rc_insert api now sid [b] c = Some (Ok c') \<and> rc_inv c'
    \<and> rc_cache_size c - rc_held c \<le> rc_cache_size c' - rc_held c'
    \<and> bt_get sid (rc_cache_map c') = Some sc \<and> bt_upper_bound (blk_start_offset b) (sc_cache_map sc) = Some (k, (cb, ra))
    \<and> blk_end_offset b \<le> blk_end_offset cb"
proof -
  obtain c1 where e: "evict api (blk_size b) c = Some (Ok c1)" "rc_inv c1" "rc_cache_size c1 + rc_held c = rc_cache_size c + rc_held c1"
    using evict_ok [OF assms(1,2)] by blast
  obtain c2 where i: "insert_evicted api now sid [b] c1 = Ok c2" "rc_inv c2" "rc_cache_size c1 + rc_held c2 \<le> rc_cache_size c2 + rc_held c1"
    using insert_evicted_ok [OF e(2)] by blast
  have "rc_insert api now sid [b] c = Some (Ok c2)" using assms(3,4) e(1) i(1) by (simp add: rc_insert_def)
  moreover have "rc_cache_size c - rc_held c \<le> rc_cache_size c2 - rc_held c2" using e(3) i(3) by linarith
  ultimately show ?thesis using i(2) insert_evicted_cached [OF e(2) i(1)] by blast
qed

text \<open>
  Inserting fetched blocks whose bytes are counted in 32 bits ends, never underflows the cache
  size and keeps the invariant that the cache size covers the cached blocks; the excess of the
  cache size over the cached bytes never shrinks. A block that is inserted alone is cached
  afterwards: the block found at its start offset reaches to its end or further.
\<close>

theorem rc_insert_caches:
  assumes "lru_ok api" and "rc_inv c" and "\<not> blk_is_empty b" and "blk_size b < 2 ^ 32"
  shows "\<exists>c' sc k cb ra. rc_insert api now sid [b] c = Some (Ok c') \<and> rc_inv c'
    \<and> rc_cache_size c - rc_held c \<le> rc_cache_size c' - rc_held c'
    \<and> bt_get sid (rc_cache_map c') = Some sc \<and> bt_upper_bound (blk_start_offset b) (sc_cache_map sc) = Some (k, (cb, ra))
    \<and> blk_end_offset b \<le> blk_end_offset cb"
  by (rule rc_insert_spec [OF assms])

definition list_lru :: "(records_block_key \<times> u32) list lru_api" where
  "list_lru = \<lparr>lru_unbounded = [], lru_push = (\<lambda>k v l. filter (\<lambda>e. fst e \<noteq> k) l @ [(k, v)]), lru_pop = (\<lambda>k. filter (\<lambda>e. fst e \<noteq> k)),
     lru_pop_lru = (\<lambda>l. case l of [] \<Rightarrow> None | e # l \<Rightarrow> Some (e, l)), lru_len = length\<rparr>"

lemma list_lru_ok: "lru_ok list_lru"
  by (auto simp: lru_ok_def list_lru_def split: list.splits)

definition small_record :: "u64 \<Rightarrow> block_record" where
  "small_record off = \<lparr>br_start_offset = off, br_end_offset_delta = 10, br_data = [[1, 2]]\<rparr>"

definition sample_read :: "(records_block_key \<times> u32) list read_cache" where
  "sample_read = (rc_new list_lru 4096)\<lparr>rc_cache_size := 4,
     rc_cache_map := [(1, \<lparr>sc_cache_map = [(0, (blk_new [small_record 0, small_record 10], None))], sc_evict_mark = False\<rparr>)]\<rparr>"

lemma sample_read_inv: "rc_inv sample_read"
  by (simp add: sample_read_def rc_new_def rc_inv_def maps_wf_def rc_held_def sc_held_def bt_wf_def bt_get_def blk_size_def
      blk_new_def small_record_def br_size_def)

theorem rc_insert_caches_witness:
  "rc_inv sample_read \<and> (\<exists>c' sc k cb ra. rc_insert list_lru 0 1 [blk_new [small_record 10]] sample_read = Some (Ok c')
     \<and> bt_get 1 (rc_cache_map c') = Some sc \<and> bt_upper_bound 10 (sc_cache_map sc) = Some (k, (cb, ra)) \<and> 20 \<le> blk_end_offset cb)"
proof -
  have b: "\<not> blk_is_empty (blk_new [small_record 10])" "blk_size (blk_new [small_record 10]) < 2 ^ 32"
    "blk_start_offset (blk_new [small_record 10]) = 10" "blk_end_offset (blk_new [small_record 10]) = 20"
    by (simp_all add: blk_is_empty_def blk_new_def blk_size_def small_record_def br_size_def blk_start_offset_def
        blk_end_offset_def br_end_offset_def)
  show ?thesis using rc_insert_caches [OF list_lru_ok sample_read_inv b(1,2), of 0 1] sample_read_inv b(3,4) by metis
qed

text \<open>
  A block that a longer cached block covers is dropped by an insertion, but its bytes stay in
  the cache size: each such insertion raises the cache size over the cached bytes by the size of
  the block.
\<close>

theorem covered_insert_leaks:
  assumes w: "maps_wf (rc_cache_map c)" and sc: "bt_get sid (rc_cache_map c) = Some sc"
    and u: "bt_upper_bound (blk_start_offset b) (sc_cache_map sc) = Some (k, (cb, ra))"
    and cov: "blk_end_offset b \<le> blk_end_offset cb" "k < blk_start_offset b \<or> blk_end_offset b < blk_end_offset cb"
    and b: "\<not> blk_is_empty b" "blk_size b < 2 ^ 32" and room: "rc_cache_size c + blk_size b \<le> rc_max_cache_size c"
  shows "\<exists>c'. rc_insert api now sid [b] c = Some (Ok c') \<and> rc_held c' = rc_held c \<and> rc_cache_size c' = rc_cache_size c + blk_size b"
proof -
  have ws: "bt_wf (sc_cache_map sc)" using w sc by (auto simp: maps_wf_def)
  have le: "k \<le> blk_start_offset b" using bt_upper_bound_Some(2) [OF ws u] by simp
  have ks: "kick_scan (blk_start_offset b) (blk_end_offset b) (bt_cursor (blk_start_offset b) (sc_cache_map sc)) = ([], True)"
    using bt_cursor_Cons [OF ws u] cov le by (auto simp: Let_def)
  have ev: "evict api (blk_size b) c = Some (Ok c)" using room by (simp add: evict_def Let_def evict_loop.simps)
  let ?c = "c\<lparr>rc_cache_map := bt_insert sid (sc\<lparr>sc_evict_mark := False\<rparr>) (rc_cache_map c), rc_cache_size := rc_cache_size c + blk_size b\<rparr>"
  have "insert_evicted api now sid [b] c = Ok ?c"
    using sc ks by (simp add: insert_evicted_def Let_def gen_readahead_def kick_out_covered_block_def sub_or_panic_def)
  then have "rc_insert api now sid [b] c = Some (Ok ?c)" using b ev by (simp add: rc_insert_def)
  moreover have "rc_held ?c = rc_held c"
    using bt_total_insert [OF maps_wf_bt [OF w], of sc_held sid "sc\<lparr>sc_evict_mark := False\<rparr>"] sc by (simp add: rc_held_def bt_at_def)
  ultimately show ?thesis by (intro exI [of _ ?c]) simp
qed

theorem covered_insert_leaks_witness:
  "\<exists>c'. rc_insert list_lru 0 1 [blk_new [small_record 10]] sample_read = Some (Ok c')
     \<and> rc_held c' = rc_held sample_read \<and> rc_cache_size c' = rc_cache_size sample_read + 2"
proof -
  let ?b = "blk_new [small_record 10]"
  have m: "maps_wf (rc_cache_map sample_read)" using sample_read_inv by (simp add: rc_inv_def)
  show ?thesis
    using covered_insert_leaks [OF m, of 1 "snd (hd (rc_cache_map sample_read))" ?b 0 "blk_new [small_record 0, small_record 10]" None list_lru 0]
    by (simp add: sample_read_def rc_new_def bt_get_def bt_upper_bound_def bt_last_def blk_is_empty_def blk_new_def blk_size_def
        small_record_def br_size_def blk_start_offset_def blk_end_offset_def br_end_offset_def)
qed

section \<open>Reading\<close>

definition blk_ok :: "records_block \<Rightarrow> bool" where
  "blk_ok b \<longleftrightarrow> blk_empty_offset b = None \<and> blk_records b \<noteq> [] \<and> chained (blk_start_offset b) (blk_records b)
     \<and> (\<forall>r \<in> set (blk_records b). 0 < br_end_offset_delta r)"

definition entry_ok :: "u64 \<times> block_entry \<Rightarrow> bool" where
  "entry_ok e \<longleftrightarrow> fst e = blk_start_offset (fst (snd e)) \<and> blk_ok (fst (snd e))
     \<and> (case snd (snd e) of None \<Rightarrow> True | Some ra \<Rightarrow> block_size_align (ra_size_hint ra) < 2 ^ 31)"

definition entry_records :: "(u64 \<times> block_entry) list \<Rightarrow> block_record set" where
  "entry_records es = (\<Union>e \<in> set es. set (blk_records (fst (snd e))))"

text \<open>An offset belongs to one record: records that overlap are the same.\<close>

definition consistent :: "block_record set \<Rightarrow> bool" where
  "consistent R \<longleftrightarrow> (\<forall>r \<in> R. \<forall>r' \<in> R. br_start_offset r < br_end_offset r' \<and> br_start_offset r' < br_end_offset r \<longrightarrow> r = r')"

text \<open>A run of records of \<open>R\<close> without a gap, whose first record holds the offset \<open>s\<close>.\<close>

definition run_at :: "block_record set \<Rightarrow> u64 \<Rightarrow> block_record list \<Rightarrow> bool" where
  "run_at R s rs \<longleftrightarrow> set rs \<subseteq> R \<and> (rs \<noteq> [] \<longrightarrow> chained (br_start_offset (hd rs)) rs
     \<and> br_start_offset (hd rs) \<le> s \<and> s < br_end_offset (hd rs))"

lemma chain_end_last: "rs \<noteq> [] \<Longrightarrow> chain_end s rs = br_end_offset (last rs)"
  by (induction s rs rule: chain_end.induct) auto

lemma chained_le: "chained s rs \<Longrightarrow> s \<le> chain_end s rs"
  by (induction s rs rule: chain_end.induct) (force simp: br_end_offset_def)+

lemma blk_end_chain: "blk_ok b \<Longrightarrow> blk_end_offset b = chain_end (blk_start_offset b) (blk_records b)"
  by (simp add: blk_ok_def blk_end_offset_def chain_end_last)

lemma take_records_prefix: "\<forall>r \<in> set rs. s < br_end_offset r \<Longrightarrow> \<exists>zs. rs = take_records s e h rs @ zs"
  by (induction rs arbitrary: h) auto

lemma chained_above: "chained s1 rs \<Longrightarrow> s < s1 \<Longrightarrow> \<forall>r \<in> set rs. s < br_end_offset r"
  by (induction rs arbitrary: s1) (force simp: br_end_offset_def)+

lemma take_records_run:
  assumes "chained s0 rs" and "s0 \<le> s" and "s < chain_end s0 rs" and "s < e" and "0 < h"
  shows "run_at (set rs) s (take_records s e h rs) \<and> take_records s e h rs \<noteq> []"
  using assms(1-3)
proof (induction rs arbitrary: s0)
  case (Cons r rs)
  show ?case
  proof (cases "br_end_offset r \<le> s")
    case True
    then show ?thesis using Cons(1) [of "br_end_offset r"] Cons(2-4) by (auto simp: run_at_def)
  next
    case False
    let ?ts = "take_records s e (h - min (br_size r) h) rs"
    have "\<forall>r \<in> set rs. s < br_end_offset r" using Cons(2) False chained_above [of "br_end_offset r" rs s] by auto
    then obtain zs where zs: "rs = ?ts @ zs" using take_records_prefix by blast
    have "take_records s e h (r # rs) = r # ?ts" using False Cons(2,3) assms(4,5) by auto
    moreover have "chained (br_end_offset r) ?ts" using Cons(2) zs chained_append by (metis chained.simps(2))
    moreover have "set ?ts \<subseteq> set rs" using zs by (metis Un_upper1 set_append)
    ultimately show ?thesis using Cons(2,3) False by (auto simp: run_at_def)
  qed
qed simp

lemma run_at_join:
  assumes R: "consistent R" "\<forall>r \<in> R. 0 < br_end_offset_delta r"
    and xs: "run_at R s xs" "xs \<noteq> []" and ys: "run_at R (br_end_offset (last xs)) ys"
  shows "run_at R s (xs @ ys)"
proof (cases "ys = []")
  case False
  let ?p = "last xs" and ?q = "hd ys"
  have q: "?p \<in> R" "?q \<in> R" "br_start_offset ?q \<le> br_end_offset ?p" "br_end_offset ?p < br_end_offset ?q"
    using xs ys False by (auto simp: run_at_def)
  have "br_start_offset ?q = br_end_offset ?p"
  proof (rule ccontr)
    assume "br_start_offset ?q \<noteq> br_end_offset ?p"
    then have "br_start_offset ?p < br_end_offset ?q \<and> br_start_offset ?q < br_end_offset ?p"
      using q R(2) by (auto simp: br_end_offset_def)
    then have "?p = ?q" using R(1) q(1,2) by (auto simp: consistent_def)
    then show False using q(4) by simp
  qed
  with xs ys False show ?thesis by (auto simp: run_at_def chained_append chain_end_last)
qed (use xs in simp)

lemma read_block_ok:
  assumes b: "blk_ok b" and s: "blk_start_offset b \<le> rd_start_offset st" "rd_start_offset st < blk_end_offset b"
    "rd_start_offset st < e" "rd_size_hint st \<noteq> 0"
  shows "\<exists>st' rs. read_block api sid e b st = Ok st' \<and> rd_records st' = rd_records st @ rs \<and> rs \<noteq> []
    \<and> run_at (set (blk_records b)) (rd_start_offset st) rs \<and> rd_start_offset st' = br_end_offset (last rs)"
proof -
  let ?rs = "get_records (rd_start_offset st) e (rd_size_hint st) b"
  have "run_at (set (blk_records b)) (rd_start_offset st) ?rs \<and> ?rs \<noteq> []"
    unfolding get_records_def by (rule take_records_run [of "blk_start_offset b"]) (use b s blk_end_chain [OF b] in \<open>simp_all add: blk_ok_def\<close>)
  then show ?thesis by (simp add: read_block_def Let_def)
qed

lemma note_readahead_ok:
  assumes "entry_ok (bs, (b, ra))"
  shows "\<exists>st'. note_readahead now bs ra st = Ok st' \<and> rd_records st' = rd_records st \<and> rd_start_offset st' = rd_start_offset st
    \<and> rd_size_hint st' = rd_size_hint st"
  using assms by (auto simp: note_readahead_def re_gen_readahead_def entry_ok_def Let_def split: option.splits)

lemma run_at_mono: "run_at R s rs \<Longrightarrow> R \<subseteq> S \<Longrightarrow> run_at S s rs"
  by (auto simp: run_at_def)

lemma read_loop_run:
  assumes "\<forall>e \<in> set es. entry_ok e" and "entry_records es \<subseteq> R" and R: "consistent R" "\<forall>r \<in> R. 0 < br_end_offset_delta r"
  shows "\<exists>st' rs. read_loop api now sid e es st = Ok st' \<and> rd_records st' = rd_records st @ rs \<and> run_at R (rd_start_offset st) rs
    \<and> (rs = [] \<longrightarrow> rd_start_offset st' = rd_start_offset st)"
  using assms(1,2)
proof (induction api now sid e es st rule: read_loop.induct)
  case (2 api now sid e bs b ra es st)
  show ?case
  proof (cases "rd_size_hint st = 0 \<or> rd_start_offset st \<ge> e")
    case True
    then show ?thesis by (auto simp: run_at_def)
  next
    case go: False
    have eo: "entry_ok (bs, (b, ra))" and bo: "blk_ok b" using 2(2) by (auto simp: entry_ok_def)
    obtain st1 where n: "note_readahead now bs ra st = Ok st1" "rd_records st1 = rd_records st" "rd_start_offset st1 = rd_start_offset st"
      "rd_size_hint st1 = rd_size_hint st" using note_readahead_ok [OF eo] by blast
    show ?thesis
    proof (cases "blk_end_offset b \<le> rd_start_offset st1 \<or> blk_start_offset b > rd_start_offset st1")
      case True
      then show ?thesis using go n by (auto simp: run_at_def)
    next
      case in_b: False
      obtain st2 xs where r: "read_block api sid e b st1 = Ok st2" "rd_records st2 = rd_records st1 @ xs" "xs \<noteq> []"
        "run_at (set (blk_records b)) (rd_start_offset st1) xs" "rd_start_offset st2 = br_end_offset (last xs)"
        using read_block_ok [OF bo, of st1 e api sid] in_b go n by auto
      have "\<exists>st' rs. read_loop api now sid e es st2 = Ok st' \<and> rd_records st' = rd_records st2 @ rs \<and> run_at R (rd_start_offset st2) rs
          \<and> (rs = [] \<longrightarrow> rd_start_offset st' = rd_start_offset st2)"
        by (rule 2(1) [OF go in_b]) (use 2(2,3) in \<open>auto simp: entry_records_def\<close>)
      then obtain st3 ys where l: "read_loop api now sid e es st2 = Ok st3" "rd_records st3 = rd_records st2 @ ys" "run_at R (br_end_offset (last xs)) ys"
        using r(5) by auto
      have "run_at R (rd_start_offset st) (xs @ ys)"
        using run_at_join [OF R _ r(3) l(3)] run_at_mono [OF r(4)] 2(3) n(3) by (auto simp: entry_records_def)
      then show ?thesis using go n r in_b l by (intro exI [of _ st3] exI [of _ "xs @ ys"]) simp
    qed
  qed
qed (simp add: run_at_def)

lemma read_loop_hit:
  assumes es: "\<forall>x \<in> set ((bs, (b, ra)) # es). entry_ok x" and R: "consistent (entry_records es)" "\<forall>r \<in> entry_records es. 0 < br_end_offset_delta r"
    and s: "bs \<le> rd_start_offset st" "rd_start_offset st < blk_end_offset b" "rd_start_offset st < e" "rd_size_hint st \<noteq> 0"
    and r: "read_loop api now sid e ((bs, (b, ra)) # es) st = Ok st'"
  shows "rd_records st' \<noteq> []"
proof -
  have eo: "entry_ok (bs, (b, ra))" and bo: "blk_ok b" and k: "bs = blk_start_offset b" using es by (auto simp: entry_ok_def)
  obtain st1 where n: "note_readahead now bs ra st = Ok st1" "rd_start_offset st1 = rd_start_offset st" "rd_size_hint st1 = rd_size_hint st"
    using note_readahead_ok [OF eo] by blast
  obtain st2 xs where b: "read_block api sid e b st1 = Ok st2" "rd_records st2 = rd_records st1 @ xs" "xs \<noteq> []"
    using read_block_ok [OF bo, of st1 e api sid] s k n by auto
  have "\<exists>st' rs. read_loop api now sid e es st2 = Ok st' \<and> rd_records st' = rd_records st2 @ rs \<and> run_at (entry_records es) (rd_start_offset st2) rs
      \<and> (rs = [] \<longrightarrow> rd_start_offset st' = rd_start_offset st2)"
    by (rule read_loop_run [OF _ _ R]) (use es in simp_all)
  then show ?thesis using r s k n b by auto
qed

lemma erase_readahead_held: "bt_wf (sc_cache_map sc) \<Longrightarrow> sc_held (erase_readahead k sc) = sc_held sc"
proof (cases k)
  case (Some bs)
  assume w: "bt_wf (sc_cache_map sc)"
  show ?thesis
  proof (cases "bt_get bs (sc_cache_map sc)")
    case e: (Some e)
    then show ?thesis using Some bt_total_insert [OF w, of "\<lambda>e. blk_size (fst e)" bs "(fst e, None)"]
      by (cases e) (simp add: erase_readahead_def sc_held_def bt_at_def)
  qed (simp add: Some erase_readahead_def)
qed (simp add: erase_readahead_def)

definition stream_ok :: "stream_cache \<Rightarrow> bool" where
  "stream_ok sc \<longleftrightarrow> bt_wf (sc_cache_map sc) \<and> (\<forall>e \<in> set (sc_cache_map sc). entry_ok e) \<and> consistent (entry_records (sc_cache_map sc))"

lemma rc_get_block_spec:
  assumes w: "maps_wf (rc_cache_map c)" and g: "bt_get sid (rc_cache_map c) = Some sc" and ok: "stream_ok sc"
  shows "\<exists>b ra c'. rc_get_block api now sid s e h c = Ok ((b, ra), c') \<and> rc_held c' = rc_held c \<and> rc_cache_size c' = rc_cache_size c
    \<and> run_at (entry_records (sc_cache_map sc)) s (blk_records b) \<and> b = (if blk_records b = [] then empty_block s else blk_new (blk_records b))
    \<and> (\<forall>k cb cra. bt_upper_bound s (sc_cache_map sc) = Some (k, (cb, cra)) \<and> s < blk_end_offset cb \<and> s < e \<and> 0 < h \<longrightarrow> blk_records b \<noteq> [])"
proof -
  let ?m = "sc_cache_map sc" and ?es = "bt_cursor s (sc_cache_map sc)"
  let ?st = "\<lparr>rd_size_hint = h, rd_start_offset = s, rd_records = [], rd_readahead = None, rd_mark_erase = None, rd_expect_next = None,
    rd_reading = rc_reading_lru c, rd_completed = rc_completed_lru c\<rparr>"
  have bw: "bt_wf ?m" and eo: "\<forall>e \<in> set ?m. entry_ok e" and con: "consistent (entry_records ?m)" using ok by (simp_all add: stream_ok_def)
  have pos: "\<forall>r \<in> entry_records ?m. 0 < br_end_offset_delta r" using eo by (auto simp: entry_records_def entry_ok_def blk_ok_def)
  have sub: "set ?es \<subseteq> set ?m" by (auto simp: bt_cursor_def split: option.splits)
  have rs: "entry_records ?es \<subseteq> entry_records ?m" using sub by (auto simp: entry_records_def)
  obtain st' rs where l: "read_loop api now sid e ?es ?st = Ok st'" "rd_records st' = rs" "run_at (entry_records ?m) s rs"
    "rs = [] \<longrightarrow> rd_start_offset st' = s" using read_loop_run [OF _ rs con pos, of api now sid e ?st] eo sub by auto
  let ?sc = "erase_readahead (rd_mark_erase st') sc"
  let ?c = "c\<lparr>rc_cache_map := bt_insert sid ?sc (rc_cache_map c), rc_reading_lru := rd_reading st', rc_completed_lru := rd_completed st'\<rparr>"
  let ?b = "if rs = [] then empty_block s else blk_new rs" and ?ra = "if rs = [] then None else next_readahead now ?sc st'"
  have r: "rc_get_block api now sid s e h c = Ok ((?b, ?ra), ?c)" using g l by (simp add: rc_get_block_def Let_def)
  have held: "rc_held ?c = rc_held c" using bt_total_insert [OF maps_wf_bt [OF w], of sc_held sid ?sc] g erase_readahead_held [OF bw]
    by (simp add: rc_held_def bt_at_def)
  have hit: "rs \<noteq> []" if u: "bt_upper_bound s ?m = Some (k, (cb, cra))" "s < blk_end_offset cb" "s < e" "0 < h" for k cb cra
  proof -
    let ?tl = "filter (\<lambda>x. s < fst x) ?m"
    have es: "?es = (k, (cb, cra)) # ?tl" by (rule bt_cursor_Cons [OF bw u(1)])
    have "k \<le> s" using bt_upper_bound_Some(2) [OF bw u(1)] by simp
    moreover have "consistent (entry_records ?tl)" "\<forall>r \<in> entry_records ?tl. 0 < br_end_offset_delta r"
      using con pos by (auto simp: consistent_def entry_records_def)
    ultimately show ?thesis using read_loop_hit [of k cb cra ?tl ?st e api now sid st'] es eo sub l(1,2) u by force
  qed
  show ?thesis using r held l(3) hit by (intro exI [of _ ?b] exI [of _ ?ra] exI [of _ ?c]) (auto simp: empty_block_def blk_new_def run_at_def)
qed

text \<open>
  Reading from a stream cache of whole blocks whose overlapping records agree never panics.
  The records are cached ones, follow each other without a gap or a repetition over the borders
  of blocks, and the first one holds the requested offset. Something is returned whenever the
  block found at the offset reaches beyond it, and otherwise the empty block of the offset. The
  cache size and the cached bytes stay the same.
\<close>

theorem rc_get_block_run:
  assumes w: "maps_wf (rc_cache_map c)" and g: "bt_get sid (rc_cache_map c) = Some sc" and ok: "stream_ok sc"
  shows "\<exists>b ra c'. rc_get_block api now sid s e h c = Ok ((b, ra), c') \<and> rc_held c' = rc_held c \<and> rc_cache_size c' = rc_cache_size c
    \<and> run_at (entry_records (sc_cache_map sc)) s (blk_records b) \<and> b = (if blk_records b = [] then empty_block s else blk_new (blk_records b))
    \<and> (\<forall>k cb cra. bt_upper_bound s (sc_cache_map sc) = Some (k, (cb, cra)) \<and> s < blk_end_offset cb \<and> s < e \<and> 0 < h \<longrightarrow> blk_records b \<noteq> [])"
  by (rule rc_get_block_spec [OF w g ok])

lemma sample_read_stream: "bt_get 1 (rc_cache_map sample_read) = Some (snd (hd (rc_cache_map sample_read)))"
    "stream_ok (snd (hd (rc_cache_map sample_read)))"
  by (auto simp: sample_read_def rc_new_def bt_get_def stream_ok_def bt_wf_def entry_ok_def blk_ok_def blk_new_def small_record_def
      blk_start_offset_def br_end_offset_def consistent_def entry_records_def)

theorem rc_get_block_run_witness:
  "\<exists>b ra c'. rc_get_block list_lru 0 1 5 30 10 sample_read = Ok ((b, ra), c') \<and> blk_records b \<noteq> []"
proof -
  have m: "maps_wf (rc_cache_map sample_read)" using sample_read_inv by (simp add: rc_inv_def)
  have u: "bt_upper_bound 5 (sc_cache_map (snd (hd (rc_cache_map sample_read)))) = Some (0, (blk_new [small_record 0, small_record 10], None))"
    "5 < blk_end_offset (blk_new [small_record 0, small_record 10])"
    by (simp_all add: sample_read_def bt_upper_bound_def bt_last_def blk_new_def blk_end_offset_def small_record_def br_end_offset_def)
  show ?thesis using rc_get_block_run [OF m sample_read_stream, of list_lru 0 5 30 10] u by auto
qed

end
