(* ===== verification/Replication_Replica.thy ===== *)
theory Replication_Replica
  imports Readahead_Cache Rpc
begin

text \<open>
  One replica of a range as the replication client sees it,
  \<open>src/components/replication/src/stream/replication_replica.rs\<close>. The replies of the range server
  are arguments; \<open>alive\<close> tells whether the client object still exists. An append runs in its own
  task, which other tasks interleave with at every request: \<open>append_gate\<close> is the head of its
  loop and \<open>append_reply\<close> the part after the reply. Where the task ends the range's
  acknowledgement callback is called as often as the number says.
\<close>

section \<open>Model\<close>

record replica =
  rp_metadata :: range_metadata
  rp_server :: range_server
  rp_confirm_offset :: u64
  rp_corrupted :: bool
  rp_writable :: bool

definition replica_new :: "range_metadata \<Rightarrow> range_server \<Rightarrow> replica" where
  "replica_new metadata server =
     \<lparr>rp_metadata = metadata, rp_server = server, rp_confirm_offset = rm_start metadata, rp_corrupted = False, rp_writable = True\<rparr>"

definition client_dropped :: es_error where
  "client_dropped = es_new UNEXPECTED ''client was dropped''"

subsection \<open>Appending\<close>

datatype append_task = Attempt nat | Ended nat

definition append_start :: "bool \<Rightarrow> replica \<Rightarrow> replica \<times> append_task" where
  "append_start alive rp = (if alive then (rp, Attempt 1) else (rp\<lparr>rp_corrupted := True\<rparr>, Ended 0))"

definition append_gate :: "nat \<Rightarrow> replica \<Rightarrow> replica \<times> append_task" where
  "append_gate attempts rp =
     (if \<not> rp_writable rp then (rp, Ended 1)
      else if rp_corrupted rp then (rp, Ended 2)
      else if attempts > 3 then (rp\<lparr>rp_corrupted := True\<rparr>, Ended 1)
      else (rp, Attempt attempts))"

definition append_reply :: "u64 \<Rightarrow> nat \<Rightarrow> (es_error, append_result_entry list) outcome \<Rightarrow> replica \<Rightarrow> replica \<times> append_task" where
  "append_reply last_offset attempts reply rp =
     (case reply of
        Ok [entry] \<Rightarrow>
          if status_code (are_status entry) \<noteq> OK then (rp, Attempt (attempts + 1))
          else (if rp_confirm_offset rp < last_offset then rp\<lparr>rp_confirm_offset := last_offset\<rparr> else rp, Ended 1)
      | _ \<Rightarrow> (rp, Attempt (attempts + 1)))"

text \<open>The task alone, with the replies it gets; no result when it still waits for a reply.\<close>

fun append_task_run :: "u64 \<Rightarrow> nat \<Rightarrow> (es_error, append_result_entry list) outcome list \<Rightarrow> replica \<Rightarrow> (replica \<times> nat) option" where
  "append_task_run last_offset attempts [] rp =
     (case append_gate attempts rp of (rp, Ended acks) \<Rightarrow> Some (rp, acks) | _ \<Rightarrow> None)"
| "append_task_run last_offset attempts (reply # replies) rp =
     (case append_gate attempts rp of
        (rp, Ended acks) \<Rightarrow> Some (rp, acks)
      | (rp, Attempt attempts) \<Rightarrow>
          (case append_reply last_offset attempts reply rp of
             (rp, Ended acks) \<Rightarrow> Some (rp, acks)
           | (rp, Attempt attempts) \<Rightarrow> append_task_run last_offset attempts replies rp))"

subsection \<open>Fetching and sealing\<close>

record fetch_result_set =
  fs_payload :: "bytes option"
  fs_object_metadata_list :: "object_metadata list option"

definition replica_fetch_request :: "u64 \<Rightarrow> u64 \<Rightarrow> u32 \<Rightarrow> replica \<Rightarrow> fetch_request" where
  "replica_fetch_request start_offset end_offset batch_max_bytes rp =
     \<lparr>fr_max_wait = 3000, fr_range = rp_metadata rp, fr_offset = start_offset, fr_limit = end_offset, fr_min_bytes = None,
      fr_max_bytes = (if batch_max_bytes > 0 then Some batch_max_bytes else None)\<rparr>"

definition replica_fetch :: "bool \<Rightarrow> (fetch_request \<Rightarrow> (es_error, fetch_result_set) outcome) \<Rightarrow> u64 \<Rightarrow> u64 \<Rightarrow> u32 \<Rightarrow> replica
    \<Rightarrow> (es_error, fetch_result_set) outcome" where
  "replica_fetch alive server start_offset end_offset batch_max_bytes rp =
     (if alive then server (replica_fetch_request start_offset end_offset batch_max_bytes rp) else Err client_dropped)"

definition replica_seal_request :: "u64 option \<Rightarrow> replica \<Rightarrow> range_metadata" where
  "replica_seal_request end_offset rp = (case end_offset of None \<Rightarrow> rp_metadata rp | Some e \<Rightarrow> set_end e (rp_metadata rp))"

definition replica_seal :: "bool \<Rightarrow> (range_metadata \<Rightarrow> (es_error, range_metadata) outcome) \<Rightarrow> u64 option \<Rightarrow> replica
    \<Rightarrow> replica \<times> (es_error, u64) outcome" where
  "replica_seal alive server end_offset rp =
     (let rp = rp\<lparr>rp_writable := False\<rparr> in
      if \<not> alive then (rp, Err client_dropped)
      else case server (replica_seal_request end_offset rp) of
             Ok metadata \<Rightarrow>
               (case rm_end metadata of
                  None \<Rightarrow> (rp, Err (es_new UNEXPECTED ''expect seal response contain end_offset''))
                | Some e \<Rightarrow> (rp\<lparr>rp_confirm_offset := e\<rparr>, Ok e))
           | Err e \<Rightarrow> (rp, Err e)
           | Panic \<Rightarrow> (rp, Panic))"

section \<open>The append task\<close>

definition positive :: "(es_error, append_result_entry list) outcome \<Rightarrow> bool" where
  "positive reply \<longleftrightarrow> (case reply of Ok [entry] \<Rightarrow> status_code (are_status entry) = OK | _ \<Rightarrow> False)"

lemma append_reply_positive:
  "append_reply last_offset n reply rp =
     (if positive reply then (rp\<lparr>rp_confirm_offset := max (rp_confirm_offset rp) last_offset\<rparr>, Ended 1) else (rp, Attempt (n + 1)))"
  by (auto simp: append_reply_def positive_def max_def split: outcome.split list.split)

lemma append_task_run_open:
  assumes "rp_writable rp" and "\<not> rp_corrupted rp" and "n \<le> 4" and "4 - n \<le> length replies"
  shows "append_task_run off n replies rp =
    Some (if list_ex positive (take (4 - n) replies) then (rp\<lparr>rp_confirm_offset := max (rp_confirm_offset rp) off\<rparr>, 1)
          else (rp\<lparr>rp_corrupted := True\<rparr>, 1))"
  using assms(3,4)
proof (induction replies arbitrary: n)
  case Nil
  then have "n = 4" by simp
  with assms show ?case by (simp add: append_gate_def)
next
  case (Cons r rs)
  show ?case
  proof (cases "n = 4")
    case True
    with assms show ?thesis by (simp add: append_gate_def)
  next
    case False
    with Cons(2) have n: "n \<le> 3" by simp
    then have "4 - n = Suc (4 - (n + 1))" by simp
    then have "take (4 - n) (r # rs) = r # take (4 - (n + 1)) rs" by (metis take_Suc_Cons)
    with Cons(1) [of "n + 1"] Cons(3) n assms(1,2) show ?thesis by (simp add: append_gate_def append_reply_positive)
  qed
qed

text \<open>
  C33. The append task of a writable replica that is not corrupted ends within three requests and
  acknowledges once. It raises the confirm offset to the end of the batch when one of the first
  three replies is a single entry with status OK, and marks the replica corrupted otherwise.
\<close>

theorem append_task_ends:
  assumes "rp_writable rp" and "\<not> rp_corrupted rp" and "3 \<le> length replies"
  shows "append_task_run off 1 replies rp =
    Some (if list_ex positive (take 3 replies) then (rp\<lparr>rp_confirm_offset := max (rp_confirm_offset rp) off\<rparr>, 1)
          else (rp\<lparr>rp_corrupted := True\<rparr>, 1))"
  using append_task_run_open [OF assms(1,2), of 1 replies off] assms(3) by simp

definition sample_range_meta :: range_metadata where
  "sample_range_meta = (rm_new_range 1 0 0 100 None 3 2)\<lparr>rm_replica := map (\<lambda>i. \<lparr>rs_server_id = i, rs_advertise_address = [], rs_state = StateReadWrite\<rparr>) [1, 2, 3]\<rparr>"

theorem append_task_ends_witness:
  "append_task_run 110 1 [Err client_dropped, Ok [\<lparr>are_status = status_ok, are_seconds = 0, are_nanos = 0\<rparr>], Ok []]
     (replica_new sample_range_meta (hd (rm_replica sample_range_meta)))
   = Some ((replica_new sample_range_meta (hd (rm_replica sample_range_meta)))\<lparr>rp_confirm_offset := 110\<rparr>, 1)"
  using append_task_ends [of "replica_new sample_range_meta (hd (rm_replica sample_range_meta))"
      "[Err client_dropped, Ok [\<lparr>are_status = status_ok, are_seconds = 0, are_nanos = 0\<rparr>], Ok []]" 110]
  by (simp add: replica_new_def sample_range_meta_def rm_new_range_def positive_def status_ok_def)

end
