(* ===== verification/Replication_Range.thy ===== *)
theory Replication_Range
  imports Replication_Replica "HOL-Library.Multiset" "HOL-Library.Word"
begin

text \<open>
  A range as the replication client writes, reads and seals it,
  \<open>src/components/replication/src/stream/replication_range.rs\<close>. The replies of the placement
  driver and of the range servers are arguments. Sealing awaits them, so it is split where it
  waits: \<open>seal_begin\<close>, \<open>seal_replicas\<close> and \<open>seal_pd\<close>; \<open>rr_waiting\<close> counts the callers that
  wait on the broadcast channel for a seal another caller runs.
\<close>

unbundle bit_operations_syntax

section \<open>Model\<close>

definition RECORDS_PARSE_ERROR :: error_code where "RECORDS_PARSE_ERROR = 1480"

definition CORRUPTED_FLAG :: "32 word" where "CORRUPTED_FLAG = push_bit 0 1"
definition SEALING_FLAG :: "32 word" where "SEALING_FLAG = push_bit 1 1"
definition SEALED_FLAG :: "32 word" where "SEALED_FLAG = push_bit 2 1"

record repl_range =
  rr_metadata :: range_metadata
  rr_replicas :: "replica list"
  rr_confirm_offset :: u64
  rr_next_offset :: u64
  rr_open_for_write :: bool
  rr_status :: "32 word"
  rr_sticky_read_index :: u64
  rr_waiting :: nat

definition rr_create :: "(range_metadata \<Rightarrow> (es_error, range_metadata) outcome) \<Rightarrow> u64 \<Rightarrow> u64 \<Rightarrow> u32 \<Rightarrow> u64 \<Rightarrow> (es_error, range_metadata) outcome" where
  "rr_create pd stream_id epoch index start_offset = pd (rm_new stream_id (as_i32 index) epoch start_offset None)"

definition rr_new :: "range_metadata \<Rightarrow> bool \<Rightarrow> repl_range" where
  "rr_new metadata open_for_write =
     (let confirm_offset = (case rm_end metadata of Some e \<Rightarrow> e | None \<Rightarrow> rm_start metadata) in
      \<lparr>rr_metadata = metadata, rr_replicas = map (replica_new metadata) (rm_replica metadata), rr_confirm_offset = confirm_offset,
       rr_next_offset = confirm_offset, rr_open_for_write = open_for_write,
       rr_status = (if rm_end metadata \<noteq> None then SEALED_FLAG else 0), rr_sticky_read_index = 0, rr_waiting = 0\<rparr>)"

subsection \<open>Status\<close>

definition rr_is_sealed :: "repl_range \<Rightarrow> bool" where
  "rr_is_sealed r \<longleftrightarrow> rr_status r AND SEALED_FLAG \<noteq> 0"

definition rr_is_sealing :: "repl_range \<Rightarrow> bool" where
  "rr_is_sealing r \<longleftrightarrow> rr_status r AND SEALING_FLAG \<noteq> 0"

definition rr_is_writable :: "repl_range \<Rightarrow> bool" where
  "rr_is_writable r \<longleftrightarrow> rr_status r = 0 \<and> rr_open_for_write r"

definition mark_sealing :: "repl_range \<Rightarrow> repl_range" where
  "mark_sealing r = r\<lparr>rr_status := rr_status r OR SEALING_FLAG\<rparr>"

definition erase_sealing :: "repl_range \<Rightarrow> repl_range" where
  "erase_sealing r = r\<lparr>rr_status := rr_status r AND NOT SEALING_FLAG\<rparr>"

definition mark_sealed :: "repl_range \<Rightarrow> repl_range" where
  "mark_sealed r = erase_sealing (r\<lparr>rr_status := rr_status r OR SEALED_FLAG\<rparr>)"

definition mark_corrupted :: "repl_range \<Rightarrow> repl_range" where
  "mark_corrupted r = r\<lparr>rr_status := rr_status r OR CORRUPTED_FLAG\<rparr>"

subsection \<open>Confirm offset\<close>

definition nth_opt :: "'a list \<Rightarrow> nat \<Rightarrow> 'a option" where
  "nth_opt xs n = (if n < length xs then Some (xs ! n) else None)"

definition calculate_confirm_offset0 :: "replica list \<Rightarrow> range_metadata \<Rightarrow> (es_error, u64) outcome" where
  "calculate_confirm_offset0 replicas metadata =
     (if replicas = [] then Err (es_new REPLICA_NOT_ENOUGH ''cal confirm offset fail, replicas is empty'')
      else bind_outcome (sub_or_panic (rm_ack_count metadata) 1) (\<lambda>index.
        case nth_opt (rev (sort (map rp_confirm_offset (filter (\<lambda>r. \<not> rp_corrupted r) replicas)))) index of
          Some off \<Rightarrow> Ok off
        | None \<Rightarrow> Err (es_new REPLICA_NOT_ENOUGH ''cal confirm offset fail, replicas is not enough'')))"

definition calculate_confirm_offset :: "repl_range \<Rightarrow> (es_error, u64) outcome" where
  "calculate_confirm_offset r = calculate_confirm_offset0 (rr_replicas r) (rr_metadata r)"

text \<open>The flag of the result tells that the callback of the stream is called.\<close>

definition rr_try_ack :: "repl_range \<Rightarrow> (unit, repl_range \<times> bool) outcome" where
  "rr_try_ack r =
     (if \<not> rr_is_writable r then Ok (r, False)
      else case calculate_confirm_offset r of
             Ok off \<Rightarrow> if off > rr_confirm_offset r then Ok (r\<lparr>rr_confirm_offset := off\<rparr>, True) else Ok (r, False)
           | Err e \<Rightarrow> Ok (mark_corrupted r, True)
           | Panic \<Rightarrow> Panic)"

subsection \<open>Appending\<close>

definition vec_bytes_to_bytes :: "bytes list \<Rightarrow> bytes" where
  "vec_bytes_to_bytes = concat"

definition record_batch_to_bytes :: "fb_meta \<Rightarrow> ((string \<rightharpoonup> string) \<Rightarrow> (string \<times> string) list) \<Rightarrow> int \<Rightarrow> record_batch \<Rightarrow> u64 \<Rightarrow> u64 \<Rightarrow> u32
    \<Rightarrow> (unit, bytes list) outcome" where
  "record_batch_to_bytes fb order now batch base_offset stream_id range_index =
     (let meta = rb_metadata batch;
          builder = with_payload (rb_payload batch) (with_base_timestamp (m_base_timestamp meta)
            (with_last_offset_delta (as_i32 (rb_last_offset_delta batch)) (with_base_offset (as_i64 base_offset)
              (with_flags (m_flags meta) (with_range_index (as_i32 range_index) (with_stream_id (as_i64 stream_id) new_builder))))));
          builder = (case m_properties meta of
                       None \<Rightarrow> builder
                     | Some kvs \<Rightarrow> fold (\<lambda>(k, v). with_property k v) kvs builder)
      in case build order now builder of
           Ok b \<Rightarrow> Ok (fst (flat_encode (init_from_struct fb b)))
         | _ \<Rightarrow> Panic)"

text \<open>Besides the caches, the result has the bytes that every replica's append task is started with.\<close>

definition rr_append :: "fb_meta \<Rightarrow> ((string \<rightharpoonup> string) \<Rightarrow> (string \<times> string) list) \<Rightarrow> int \<Rightarrow> record_batch \<Rightarrow> u64 \<Rightarrow> repl_range \<times> hot_cache
    \<Rightarrow> (unit, bytes list \<times> repl_range \<times> hot_cache) outcome" where
  "rr_append fb order now batch base_offset = (\<lambda>(r, hot).
     let delta = rb_last_offset_delta batch mod 2 ^ 32 in
     if rr_next_offset r \<noteq> base_offset \<or> base_offset + delta \<ge> 2 ^ 64 then Panic
     else
       bind_outcome (record_batch_to_bytes fb order now batch base_offset (rm_stream_id (rr_metadata r)) (int_as_u32 (rm_index (rr_metadata r))))
         (\<lambda>bytes.
            bind_outcome (hc_insert (rm_stream_id (rr_metadata r)) base_offset delta [vec_bytes_to_bytes bytes] hot)
              (\<lambda>hot. Ok (bytes, r\<lparr>rr_next_offset := base_offset + delta\<rparr>, hot))))"

subsection \<open>Fetching\<close>

datatype fetch_dataset =
    Partial "records_block list"
  | Full "records_block list"
  | Mixin "records_block list" "object_metadata list"
  | Overflow "records_block list"

definition dataset_of :: "fb_meta \<Rightarrow> u64 \<Rightarrow> fetch_result_set \<Rightarrow> (es_error, fetch_dataset) outcome" where
  "dataset_of fb end_offset fr =
     (let local_records = (case fs_payload fr of Some p \<Rightarrow> p | None \<Rightarrow> []);
          blocks = (if local_records \<noteq> []
                    then (case parse_blocks fb local_records (1024 * 1024) of
                            Ok bs \<Rightarrow> Ok bs
                          | Err _ \<Rightarrow> Err (es_new RECORDS_PARSE_ERROR ''parse records fail'')
                          | Panic \<Rightarrow> Panic)
                    else Ok [empty_block end_offset])
      in bind_outcome blocks (\<lambda>blocks.
           case fs_object_metadata_list fr of
             Some objects \<Rightarrow> Ok (Mixin blocks objects)
           | None \<Rightarrow> Ok (Full blocks)))"

text \<open>\<open>ask i\<close> is the reply of replica \<open>i\<close>; a fetch asks each replica at most once.\<close>

fun fetch_replicas :: "fb_meta \<Rightarrow> (nat \<Rightarrow> (es_error, fetch_result_set) outcome) \<Rightarrow> u64 \<Rightarrow> nat \<Rightarrow> nat \<Rightarrow> u64 \<Rightarrow> es_error option
    \<Rightarrow> u64 \<times> (es_error, fetch_dataset) outcome" where
  "fetch_replicas fb ask end_offset n 0 sticky last_read_err =
     (sticky, Err (case last_read_err of Some e \<Rightarrow> e | None \<Rightarrow> es_new ALL_REPLICAS_FETCH_FAILED ''all replicas fetch fail''))"
| "fetch_replicas fb ask end_offset n (Suc left) sticky last_read_err =
     (case ask (sticky mod n) of
        Err e \<Rightarrow> fetch_replicas fb ask end_offset n left (sticky + 1) (Some e)
      | Ok fr \<Rightarrow>
          (case dataset_of fb end_offset fr of
             Err e \<Rightarrow> (sticky + 1, Err e)
           | ds \<Rightarrow> (sticky, ds))
      | Panic \<Rightarrow> (sticky, Panic))"

definition rr_fetch :: "fb_meta \<Rightarrow> bool \<Rightarrow> (nat \<Rightarrow> fetch_request \<Rightarrow> (es_error, fetch_result_set) outcome) \<Rightarrow> u64 \<Rightarrow> u64 \<Rightarrow> u32 \<Rightarrow> repl_range
    \<Rightarrow> repl_range \<times> (es_error, fetch_dataset) outcome" where
  "rr_fetch fb alive servers start_offset end_offset batch_max_bytes r =
     (let n = length (rr_replicas r);
          ask = (\<lambda>i. replica_fetch alive (servers i) start_offset end_offset batch_max_bytes (rr_replicas r ! i))
      in case fetch_replicas fb ask end_offset n n (rr_sticky_read_index r) None of
           (sticky, ds) \<Rightarrow> (r\<lparr>rr_sticky_read_index := sticky\<rparr>, ds))"

subsection \<open>Sealing\<close>

definition replicas_seal0 :: "u64 list \<Rightarrow> u8 \<Rightarrow> u8 \<Rightarrow> (es_error, u64) outcome" where
  "replicas_seal0 end_offsets replica_count ack_count =
     bind_outcome (sub_or_panic replica_count ack_count) (\<lambda>index.
       case nth_opt (sort end_offsets) index of
         Some e \<Rightarrow> Ok e
       | None \<Rightarrow> Err (es_new REPLICA_NOT_ENOUGH ''seal fail, replica is not enough''))"

definition replicas_seal :: "bool \<Rightarrow> (nat \<Rightarrow> range_metadata \<Rightarrow> (es_error, range_metadata) outcome) \<Rightarrow> u8 \<Rightarrow> u8 \<Rightarrow> u64 option \<Rightarrow> replica list
    \<Rightarrow> replica list \<times> (es_error, u64) outcome" where
  "replicas_seal alive servers replica_count ack_count end_offset replicas =
     (let sealed = map (\<lambda>(i, rp). replica_seal alive (servers i) end_offset rp) (enumerate 0 replicas);
          end_offsets = concat (map (\<lambda>(_, res). case res of Ok e \<Rightarrow> [e] | _ \<Rightarrow> []) sealed)
      in (map fst sealed, replicas_seal0 end_offsets replica_count ack_count))"

datatype seal_next = SealDone "(es_error, u64) outcome" | SealWait | SealReplicas | SealPd u64

definition seal_begin :: "repl_range \<Rightarrow> repl_range \<times> seal_next" where
  "seal_begin r =
     (if rr_is_sealed r then (r, SealDone (Ok (rr_confirm_offset r)))
      else if rr_is_sealing r then (r\<lparr>rr_waiting := rr_waiting r + 1\<rparr>, SealWait)
      else (mark_sealing r, if rr_open_for_write r then SealPd (rr_confirm_offset r) else SealReplicas))"

definition seal_replicas :: "bool \<Rightarrow> (nat \<Rightarrow> range_metadata \<Rightarrow> (es_error, range_metadata) outcome) \<Rightarrow> repl_range \<Rightarrow> repl_range \<times> seal_next" where
  "seal_replicas alive servers r =
     (case replicas_seal alive servers (rm_replica_count (rr_metadata r)) (rm_ack_count (rr_metadata r)) None (rr_replicas r) of
        (rps, res) \<Rightarrow>
          let r = r\<lparr>rr_replicas := rps\<rparr> in
          (case res of
             Ok end_offset \<Rightarrow> (r, SealPd end_offset)
           | Err e \<Rightarrow> (erase_sealing r, SealDone (Err e))
           | Panic \<Rightarrow> (r, SealDone Panic)))"

definition placement_driver_seal :: "bool \<Rightarrow> (range_metadata \<Rightarrow> (es_error, range_metadata) outcome) \<Rightarrow> u64 \<Rightarrow> repl_range \<Rightarrow> (es_error, unit) outcome" where
  "placement_driver_seal alive pd end_offset r =
     (if alive then fmap_ok (\<lambda>_. ()) (pd (set_end end_offset (rr_metadata r)))
      else Err (es_new UNEXPECTED ''range get client fail, client is dropped''))"

text \<open>
  A success wakes every waiting caller with the end offset. The replicas of a range that was
  open for write are sealed with it by a task of their own, see \<open>seal_background\<close>.
\<close>

definition seal_pd :: "bool \<Rightarrow> (range_metadata \<Rightarrow> (es_error, range_metadata) outcome) \<Rightarrow> u64 \<Rightarrow> repl_range \<Rightarrow> repl_range \<times> (es_error, u64) outcome" where
  "seal_pd alive pd end_offset r =
     (case placement_driver_seal alive pd end_offset r of
        Ok _ \<Rightarrow>
          (let r = (mark_sealed r)\<lparr>rr_waiting := 0\<rparr> in
           (if rr_open_for_write r then r else r\<lparr>rr_confirm_offset := end_offset\<rparr>, Ok end_offset))
      | Err e \<Rightarrow> (erase_sealing r, Err e)
      | Panic \<Rightarrow> (r, Panic))"

definition seal_background :: "bool \<Rightarrow> (nat \<Rightarrow> range_metadata \<Rightarrow> (es_error, range_metadata) outcome) \<Rightarrow> u64 \<Rightarrow> repl_range \<Rightarrow> repl_range" where
  "seal_background alive servers end_offset r =
     r\<lparr>rr_replicas := fst (replicas_seal alive servers (rm_replica_count (rr_metadata r)) (rm_ack_count (rr_metadata r)) (Some end_offset) (rr_replicas r))\<rparr>"

text \<open>A seal that runs to its end; no result for a caller that waits.\<close>

definition rr_seal :: "bool \<Rightarrow> (range_metadata \<Rightarrow> (es_error, range_metadata) outcome) \<Rightarrow> (nat \<Rightarrow> range_metadata \<Rightarrow> (es_error, range_metadata) outcome)
    \<Rightarrow> repl_range \<Rightarrow> repl_range \<times> (es_error, u64) outcome option" where
  "rr_seal alive pd servers r =
     (case seal_begin r of
        (r, SealDone res) \<Rightarrow> (r, Some res)
      | (r, SealWait) \<Rightarrow> (r, None)
      | (r, SealPd e) \<Rightarrow> (case seal_pd alive pd e r of (r, res) \<Rightarrow> (r, Some res))
      | (r, SealReplicas) \<Rightarrow>
          (case seal_replicas alive servers r of
             (r, SealPd e) \<Rightarrow> (case seal_pd alive pd e r of (r, res) \<Rightarrow> (r, Some res))
           | (r, SealDone res) \<Rightarrow> (r, Some res)
           | (r, _) \<Rightarrow> (r, None)))"

section \<open>Order statistics\<close>

lemma length_filter_sort: "length (filter P (sort xs)) = length (filter P xs)"
  by (metis mset_filter mset_sort size_mset)

lemma sort_nth_ge:
  fixes xs :: "nat list"
  assumes k: "k < length xs" and few: "length (filter (\<lambda>x. x < c) xs) \<le> k"
  shows "c \<le> sort xs ! k"
proof (rule ccontr)
  assume "\<not> c \<le> sort xs ! k"
  then have "sort xs ! i < c" if "i \<le> k" for i
    using that k sorted_nth_mono [OF sorted_sort, of i k xs] by simp
  then have "\<forall>x \<in> set (take (Suc k) (sort xs)). x < c" using k by (auto simp: in_set_conv_nth)
  then have "filter (\<lambda>x. x < c) (take (Suc k) (sort xs)) = take (Suc k) (sort xs)" by (simp add: filter_id_conv)
  moreover have "length (filter (\<lambda>x. x < c) (take (Suc k) (sort xs))) \<le> length (filter (\<lambda>x. x < c) (sort xs))"
    by (metis append_take_drop_id filter_append le_add1 length_append)
  ultimately have "Suc k \<le> length (filter (\<lambda>x. x < c) (sort xs))" using k by simp
  with few show False by (simp add: length_filter_sort)
qed

lemma rev_sort_nth_count:
  fixes xs :: "nat list"
  assumes k: "k < length xs"
  shows "Suc k \<le> length (filter (\<lambda>x. rev (sort xs) ! k \<le> x) xs)"
proof -
  let ?i = "length xs - Suc k" and ?s = "sort xs"
  have nth: "rev ?s ! k = ?s ! ?i" using k by (simp add: rev_nth)
  have "\<forall>x \<in> set (drop ?i ?s). ?s ! ?i \<le> x"
    using sorted_nth_mono [OF sorted_sort, of ?i _ xs] by (auto simp: in_set_conv_nth)
  then have "filter (\<lambda>x. ?s ! ?i \<le> x) (drop ?i ?s) = drop ?i ?s" by (simp add: filter_id_conv)
  moreover have "length (filter (\<lambda>x. ?s ! ?i \<le> x) (drop ?i ?s)) \<le> length (filter (\<lambda>x. ?s ! ?i \<le> x) ?s)"
    by (metis append_take_drop_id filter_append le_add2 length_append)
  ultimately have "Suc k \<le> length (filter (\<lambda>x. ?s ! ?i \<le> x) ?s)" using k by simp
  then show ?thesis by (simp add: length_filter_sort nth)
qed

section \<open>Confirmed records survive a seal\<close>

text \<open>At least \<open>n\<close> of the servers store everything below \<open>c\<close>.\<close>

definition quorum_at :: "nat \<Rightarrow> u64 list \<Rightarrow> u64 \<Rightarrow> bool" where
  "quorum_at n ds c \<longleftrightarrow> n \<le> length (filter (\<lambda>d. c \<le> d) ds)"

text \<open>No replica of the client claims more than its server stores.\<close>

definition backed :: "replica list \<Rightarrow> u64 list \<Rightarrow> bool" where
  "backed = list_all2 (\<lambda>rp d. rp_confirm_offset rp \<le> d)"

lemma backed_length: "backed rps ds \<Longrightarrow> length rps = length ds"
  unfolding backed_def by (rule list_all2_lengthD)

lemma backed_nth: "backed rps ds \<Longrightarrow> i < length ds \<Longrightarrow> rp_confirm_offset (rps ! i) \<le> ds ! i"
  unfolding backed_def by (rule list_all2_nthD2)

lemma backed_set: "backed rps ds \<Longrightarrow> rp_confirm_offset rp \<le> ds ! i \<Longrightarrow> backed (rps[i := rp]) ds"
  unfolding backed_def using list_all2_update_cong [of "\<lambda>rp d. rp_confirm_offset rp \<le> d" rps ds rp "ds ! i" i] by simp

lemma backed_grow: "backed rps ds \<Longrightarrow> i < length ds \<Longrightarrow> ds ! i \<le> d \<Longrightarrow> backed rps (ds[i := d])"
  using backed_nth [of rps ds i] list_all2_update_cong [of "\<lambda>rp d. rp_confirm_offset rp \<le> d" rps ds "rps ! i" d i] by (simp add: backed_def)

lemma quorum_at_confirm:
  assumes "backed rps ds" and "0 < rm_ack_count m" and "calculate_confirm_offset0 rps m = Ok c"
  shows "quorum_at (rm_ack_count m) ds c"
proof -
  let ?xs = "map rp_confirm_offset (filter (\<lambda>r. \<not> rp_corrupted r) rps)" and ?k = "rm_ack_count m - 1"
  have k: "?k < length ?xs" "c = rev (sort ?xs) ! ?k"
    using assms(2,3) by (auto simp: calculate_confirm_offset0_def nth_opt_def sub_or_panic_def outcome_simps split: if_splits option.splits)
  have "length (filter (\<lambda>x. c \<le> x) ?xs) \<le> length (filter (\<lambda>d. c \<le> d) ds)"
    using assms(1) unfolding backed_def by (induction rule: list_all2_induct) auto
  then show ?thesis using rev_sort_nth_count [OF k(1)] k(2) assms(2) by (simp add: quorum_at_def)
qed

lemma seal_above_quorum:
  assumes q: "quorum_at a ds c" and sub: "\<And>P. length (filter P es) \<le> length (filter P ds)"
    and r: "replicas_seal0 es (length ds) a = Ok e"
  shows "c \<le> e \<and> e \<in> set es"
proof -
  have i: "a \<le> length ds" "length ds - a < length es" "e = sort es ! (length ds - a)"
    using r by (auto simp: replicas_seal0_def nth_opt_def sub_or_panic_def outcome_simps split: if_splits option.splits)
  have "length (filter (\<lambda>d. c \<le> d) ds) + length (filter (\<lambda>d. d < c) ds) = length ds"
    using sum_length_filter_compl [of "\<lambda>d. c \<le> d" ds] by (simp add: not_le)
  then have "length (filter (\<lambda>d. d < c) es) \<le> length ds - a" using q sub [of "\<lambda>d. d < c"] by (simp add: quorum_at_def)
  moreover have "e \<in> set es" using i(2,3) nth_mem [of "length ds - a" "sort es"] by simp
  ultimately show ?thesis using sort_nth_ge [OF i(2)] i(3) by simp
qed

text \<open>
  The steps of a range that this client writes, together with the offset up to which each range
  server stores the records of the range. A server may store more at any time; it answers an
  append with OK only when it stores the batch, and reports no end it has not stored.
\<close>

inductive write_step :: "repl_range \<times> u64 list \<Rightarrow> repl_range \<times> u64 list \<Rightarrow> bool" where
  stores: "i < length ds \<Longrightarrow> ds ! i \<le> d \<Longrightarrow> write_step (r, ds) (r, ds[i := d])"
| appends: "rr_append fb order now batch base (r, hot) = Ok (bs, r', hot') \<Longrightarrow> write_step (r, ds) (r', ds)"
| starts: "i < length ds \<Longrightarrow> append_start alive (rr_replicas r ! i) = (rp, t) \<Longrightarrow> write_step (r, ds) (r\<lparr>rr_replicas := (rr_replicas r)[i := rp]\<rparr>, ds)"
| gates: "i < length ds \<Longrightarrow> append_gate n (rr_replicas r ! i) = (rp, t) \<Longrightarrow> write_step (r, ds) (r\<lparr>rr_replicas := (rr_replicas r)[i := rp]\<rparr>, ds)"
| replies: "i < length ds \<Longrightarrow> (positive reply \<longrightarrow> off \<le> ds ! i) \<Longrightarrow> append_reply off n reply (rr_replicas r ! i) = (rp, t)
    \<Longrightarrow> write_step (r, ds) (r\<lparr>rr_replicas := (rr_replicas r)[i := rp]\<rparr>, ds)"
| acks: "rr_try_ack r = Ok (r', called) \<Longrightarrow> write_step (r, ds) (r', ds)"
| seal_begins: "seal_begin r = (r', nxt) \<Longrightarrow> write_step (r, ds) (r', ds)"
| pd_seals: "seal_pd alive pd e r = (r', res) \<Longrightarrow> write_step (r, ds) (r', ds)"
| replicas_sealed: "(\<forall>i < length ds. \<forall>req m x. servers i req = Ok m \<and> rm_end m = Some x \<longrightarrow> x \<le> ds ! i)
    \<Longrightarrow> write_step (r, ds) (seal_background alive servers e r, ds)"

definition write_inv :: "range_metadata \<Rightarrow> repl_range \<times> u64 list \<Rightarrow> bool" where
  "write_inv m = (\<lambda>(r, ds). rr_metadata r = m \<and> rr_open_for_write r \<and> backed (rr_replicas r) ds
     \<and> quorum_at (rm_ack_count m) ds (rr_confirm_offset r))"

lemma quorum_at_grow:
  assumes "quorum_at n ds c" and "i < length ds" and "ds ! i \<le> d"
  shows "quorum_at n (ds[i := d]) c"
proof -
  have "length (filter (\<lambda>d. c \<le> d) ds) \<le> length (filter (\<lambda>d. c \<le> d) (ds[i := d]))"
    using assms(2,3)
  proof (induction ds arbitrary: i)
    case (Cons x ds)
    then show ?case by (cases i) auto
  qed simp
  with assms(1) show ?thesis by (simp add: quorum_at_def)
qed

lemma flags_keep [simp]:
  "rr_metadata (mark_sealing r) = rr_metadata r" "rr_replicas (mark_sealing r) = rr_replicas r" "rr_confirm_offset (mark_sealing r) = rr_confirm_offset r"
  "rr_metadata (erase_sealing r) = rr_metadata r" "rr_replicas (erase_sealing r) = rr_replicas r" "rr_confirm_offset (erase_sealing r) = rr_confirm_offset r"
  "rr_metadata (mark_sealed r) = rr_metadata r" "rr_replicas (mark_sealed r) = rr_replicas r" "rr_confirm_offset (mark_sealed r) = rr_confirm_offset r"
  "rr_metadata (mark_corrupted r) = rr_metadata r" "rr_replicas (mark_corrupted r) = rr_replicas r" "rr_confirm_offset (mark_corrupted r) = rr_confirm_offset r"
  "rr_open_for_write (mark_sealing r) = rr_open_for_write r" "rr_open_for_write (erase_sealing r) = rr_open_for_write r"
  "rr_open_for_write (mark_sealed r) = rr_open_for_write r" "rr_open_for_write (mark_corrupted r) = rr_open_for_write r"
  by (simp_all add: mark_sealing_def erase_sealing_def mark_sealed_def mark_corrupted_def)

lemma replicas_seal_confirm:
  assumes "backed rps ds"
    and "\<forall>i < length ds. \<forall>req m x. servers i req = Ok m \<and> rm_end m = Some x \<longrightarrow> x \<le> ds ! i"
  shows "backed (fst (replicas_seal alive servers rc ac e rps)) ds"
  unfolding backed_def
proof (rule list_all2_all_nthI)
  show "length (fst (replicas_seal alive servers rc ac e rps)) = length ds"
    using assms(1) by (simp add: replicas_seal_def Let_def backed_length)
next
  fix i
  assume "i < length (fst (replicas_seal alive servers rc ac e rps))"
  then have i: "i < length rps" "i < length ds" using assms(1) by (simp_all add: replicas_seal_def Let_def backed_length)
  have old: "rp_confirm_offset (rps ! i) \<le> ds ! i" by (rule backed_nth [OF assms(1) i(2)])
  have "fst (replicas_seal alive servers rc ac e rps) ! i = fst (replica_seal alive (servers i) e (rps ! i))"
    using i by (simp add: replicas_seal_def Let_def nth_enumerate_eq)
  then show "rp_confirm_offset (fst (replicas_seal alive servers rc ac e rps) ! i) \<le> ds ! i"
    using old assms(2) i by (auto simp: replica_seal_def Let_def split: outcome.splits option.splits)
qed

lemma write_inv_set:
  assumes "write_inv m (r, ds)" and "i < length ds" and "rp_confirm_offset rp \<le> max (rp_confirm_offset (rr_replicas r ! i)) (ds ! i)"
  shows "write_inv m (r\<lparr>rr_replicas := (rr_replicas r)[i := rp]\<rparr>, ds)"
proof -
  have b: "backed (rr_replicas r) ds" using assms(1) by (simp add: write_inv_def)
  then have "rp_confirm_offset rp \<le> ds ! i" using backed_nth [OF b assms(2)] assms(3) by simp
  with assms(1) b show ?thesis by (simp add: write_inv_def backed_set)
qed

lemma write_step_inv:
  assumes "write_step s s'" and "write_inv m s" and "0 < rm_ack_count m"
  shows "write_inv m s'"
  using assms(1,2)
proof cases
  case (stores i ds d r)
  with assms(2) show ?thesis by (simp add: write_inv_def quorum_at_grow backed_grow)
next
  case (starts i ds alive r rp t)
  then show ?thesis using assms(2) by (auto simp: append_start_def intro!: write_inv_set split: if_splits)
next
  case (gates i ds n r rp t)
  then show ?thesis using assms(2) by (auto simp: append_gate_def intro!: write_inv_set split: if_splits)
next
  case (replies i ds reply off n r rp t)
  then show ?thesis using assms(2) by (auto simp: append_reply_positive intro!: write_inv_set split: if_splits)
next
  case (acks r r' called ds)
  with assms(2) have i: "backed (rr_replicas r) ds" "rr_metadata r = m" by (auto simp: write_inv_def)
  have "quorum_at (rm_ack_count m) ds off" if "calculate_confirm_offset r = Ok off" for off
    using quorum_at_confirm [OF i(1) assms(3)] that i(2) by (simp add: calculate_confirm_offset_def)
  with acks assms(2) show ?thesis by (auto simp: write_inv_def rr_try_ack_def split: if_splits outcome.splits)
next
  case (replicas_sealed ds servers r alive e)
  with assms(2) show ?thesis by (simp add: write_inv_def seal_background_def replicas_seal_confirm)
next
  case (pd_seals alive pd e r r' res ds)
  with assms(2) show ?thesis by (auto simp: write_inv_def seal_pd_def Let_def split: outcome.splits)
next
  case (appends fb order now batch base r hot bs r' hot' ds)
  with assms(2) show ?thesis by (auto simp: write_inv_def rr_append_def Let_def outcome_simps split: if_splits)
next
  case (seal_begins r r' nxt ds)
  with assms(2) show ?thesis by (auto simp: write_inv_def seal_begin_def split: if_splits)
qed

lemma write_steps_inv:
  assumes "write_step\<^sup>*\<^sup>* s s'" and "write_inv m s" and "0 < rm_ack_count m"
  shows "write_inv m s'"
  using assms(1,2) by (induction rule: rtranclp_induct) (use assms(3) write_step_inv in blast)+

lemma write_inv_new:
  assumes "rm_end m = None" and "length ds = length (rm_replica m)" and "\<forall>d \<in> set ds. rm_start m \<le> d" and "rm_ack_count m \<le> length ds"
  shows "write_inv m (rr_new m True, ds)"
proof -
  have "filter (\<lambda>d. rm_start m \<le> d) ds = ds" using assms(3) by (simp add: filter_id_conv)
  then show ?thesis using assms by (auto simp: write_inv_def rr_new_def Let_def quorum_at_def backed_def replica_new_def list_all2_conv_all_nth)
qed

lemma end_offsets_count:
  assumes "\<And>i rp e. i < k + length rps \<Longrightarrow> f i rp = Ok e \<Longrightarrow> e = ds ! i"
  shows "length (filter P (concat (map (\<lambda>(i, rp). case f i rp of Ok e \<Rightarrow> [e] | _ \<Rightarrow> []) (enumerate k rps))))
    \<le> length (filter P (map ((!) ds) [k..<k + length rps]))"
  using assms
proof (induction rps arbitrary: k)
  case (Cons rp rps)
  have "length (filter P (concat (map (\<lambda>(i, rp). case f i rp of Ok e \<Rightarrow> [e] | _ \<Rightarrow> []) (enumerate (Suc k) rps))))
      \<le> length (filter P (map ((!) ds) [Suc k..<Suc k + length rps]))"
    by (rule Cons(1)) (use Cons(2) in auto)
  moreover have "[k..<k + length (rp # rps)] = k # [Suc k..<Suc k + length rps]" by (simp add: upt_conv_Cons del: upt_Suc)
  ultimately show ?case using Cons(2) [of k rp] by (cases "f k rp") (simp_all add: le_SucI del: upt_Suc)
qed simp

lemma replicas_seal_answers:
  assumes n: "length rps = length ds" and srv: "\<forall>i < length ds. \<forall>req m. servers i req = Ok m \<longrightarrow> rm_end m = Some (ds ! i)"
    and r: "replicas_seal alive servers rc ac None rps = (rps', res)"
  obtains es where "res = replicas_seal0 es rc ac" and "\<And>P. length (filter P es) \<le> length (filter P ds)"
proof -
  let ?f = "\<lambda>i rp. snd (replica_seal alive (servers i) None rp)"
  let ?es = "concat (map (\<lambda>(i, rp). case ?f i rp of Ok e \<Rightarrow> [e] | _ \<Rightarrow> []) (enumerate 0 rps))"
  have "res = replicas_seal0 ?es rc ac"
    using r by (auto simp: replicas_seal_def Let_def comp_def case_prod_unfold)
  moreover have "length (filter P ?es) \<le> length (filter P ds)" for P
  proof -
    have "length (filter P ?es) \<le> length (filter P (map ((!) ds) [0..<0 + length rps]))"
      by (rule end_offsets_count) (use n srv in \<open>auto simp: replica_seal_def Let_def split: if_splits outcome.splits option.splits\<close>)
    then show ?thesis using n by (simp add: map_nth)
  qed
  ultimately show ?thesis using that by blast
qed

text \<open>
  C1. What a writer confirmed survives a seal by another client. Let a client open a range for
  write and take any steps with its range servers: appends, replies in any order, failures,
  acknowledgements and seals. When another client then seals the replicas and any servers answer
  with the offset they store, the end offset it computes is at least the confirm offset of the
  writer, and one of the servers stores everything up to it.
\<close>

theorem confirmed_survives_seal:
  assumes m: "rm_end m = None" "length (rm_replica m) = rm_replica_count m" "0 < rm_ack_count m" "rm_ack_count m \<le> rm_replica_count m"
    and ds0: "length ds0 = rm_replica_count m" "\<forall>d \<in> set ds0. rm_start m \<le> d"
    and run: "write_step\<^sup>*\<^sup>* (rr_new m True, ds0) (r, ds)"
    and seal: "length rps = rm_replica_count m" "\<forall>i < length ds. \<forall>req m'. servers i req = Ok m' \<longrightarrow> rm_end m' = Some (ds ! i)"
      "replicas_seal alive servers (rm_replica_count m) (rm_ack_count m) None rps = (rps', Ok e)"
  shows "rr_confirm_offset r \<le> e \<and> e \<in> set ds"
proof -
  have n: "length ds = length ds0" if "write_step\<^sup>*\<^sup>* (r0, ds0) (r, ds)" for r0
    using that by (induction "(r, ds)" arbitrary: r ds rule: rtranclp_induct) (auto elim: write_step.cases)
  have len: "length ds = rm_replica_count m" using n [OF run] ds0(1) by simp
  have inv: "write_inv m (r, ds)" by (rule write_steps_inv [OF run write_inv_new m(3)]) (use m ds0 in simp_all)
  then have q: "quorum_at (rm_ack_count m) ds (rr_confirm_offset r)" by (simp add: write_inv_def)
  obtain es where es: "Ok e = replicas_seal0 es (rm_replica_count m) (rm_ack_count m)" "\<And>P. length (filter P es) \<le> length (filter P ds)"
    using replicas_seal_answers [OF _ seal(2,3)] seal(1) len by metis
  have "rr_confirm_offset r \<le> e" "e \<in> set es" using seal_above_quorum [OF q es(2)] es(1) len by auto
  moreover have "set es \<subseteq> set ds" using es(2) [of "\<lambda>x. x \<notin> set ds"] by (auto simp: filter_empty_conv)
  ultimately show ?thesis by blast
qed

definition ok_reply :: "(es_error, append_result_entry list) outcome" where
  "ok_reply = Ok [\<lparr>are_status = status_ok, are_seconds = 0, are_nanos = 0\<rparr>]"

definition sample_written :: repl_range where
  "sample_written = rr_new sample_range_meta True"

text \<open>The sample range after two of its three replicas confirmed a batch that ends at 110.\<close>

definition sample_confirmed :: repl_range where
  "sample_confirmed = sample_written\<lparr>rr_replicas := (rr_replicas sample_written)[0 := (rr_replicas sample_written ! 0)\<lparr>rp_confirm_offset := 110\<rparr>,
     1 := (rr_replicas sample_written ! 1)\<lparr>rp_confirm_offset := 110\<rparr>], rr_confirm_offset := 110\<rparr>"

lemma sample_confirmed_run: "write_step\<^sup>*\<^sup>* (sample_written, [100, 100, 100]) (sample_confirmed, [110, 110, 100])"
proof -
  let ?r0 = sample_written
  let ?r1 = "?r0\<lparr>rr_replicas := (rr_replicas ?r0)[0 := (rr_replicas ?r0 ! 0)\<lparr>rp_confirm_offset := 110\<rparr>]\<rparr>"
  let ?r2 = "?r1\<lparr>rr_replicas := (rr_replicas ?r1)[1 := (rr_replicas ?r1 ! 1)\<lparr>rp_confirm_offset := 110\<rparr>]\<rparr>"
  have p: "positive ok_reply" by (simp add: positive_def ok_reply_def status_ok_def)
  have n: "rr_replicas ?r0 ! 1 = rr_replicas ?r1 ! 1" "length (rr_replicas ?r0) = 3"
    "rp_confirm_offset (rr_replicas ?r0 ! 0) = 100" "rp_confirm_offset (rr_replicas ?r0 ! 1) = 100"
    by (simp_all add: sample_written_def sample_range_meta_def rr_new_def replica_new_def rm_new_range_def)
  have s1: "write_step (?r0, [100, 100, 100]) (?r0, [100, 100, 100][0 := 110])" by (rule write_step.stores) simp_all
  have s2: "write_step (?r0, [100, 100, 100][0 := 110]) (?r0, [100, 100, 100][0 := 110, 1 := 110])" by (rule write_step.stores) simp_all
  have s3: "write_step (?r0, [100, 100, 100][0 := 110, 1 := 110]) (?r1, [100, 100, 100][0 := 110, 1 := 110])"
    by (rule write_step.replies [where reply = ok_reply and off = 110 and n = 1 and t = "Ended 1"])
      (use p n in \<open>simp_all add: append_reply_positive\<close>)
  have s4: "write_step (?r1, [100, 100, 100][0 := 110, 1 := 110]) (?r2, [100, 100, 100][0 := 110, 1 := 110])"
    by (rule write_step.replies [where reply = ok_reply and off = 110 and n = 1 and t = "Ended 1"])
      (use p n in \<open>simp_all add: append_reply_positive\<close>)
  have s5: "write_step (?r2, [100, 100, 100][0 := 110, 1 := 110]) (sample_confirmed, [100, 100, 100][0 := 110, 1 := 110])"
    by (rule write_step.acks [where called = True])
      (simp add: sample_confirmed_def sample_written_def sample_range_meta_def rr_new_def replica_new_def rm_new_range_def rr_try_ack_def
        rr_is_writable_def calculate_confirm_offset_def calculate_confirm_offset0_def sub_or_panic_def nth_opt_def)
  show ?thesis using rtranclp_trans [OF r_into_rtranclp [of write_step, OF s1] rtranclp_trans [OF r_into_rtranclp [of write_step, OF s2] rtranclp_trans [OF
    r_into_rtranclp [of write_step, OF s3] rtranclp_trans [OF r_into_rtranclp [of write_step, OF s4] r_into_rtranclp [of write_step, OF s5]]]]] by simp
qed

theorem confirmed_survives_seal_witness:
  "rr_confirm_offset sample_confirmed = 110 \<and> (\<exists>rps' e. replicas_seal True
     (\<lambda>i req. if i = 0 then Err client_dropped else Ok (set_end ([110, 110, 100] ! i) sample_range_meta)) 3 2 None (rr_replicas sample_written) = (rps', Ok e)
     \<and> 110 \<le> e)"
proof -
  let ?srv = "\<lambda>i req. if i = (0 :: nat) then Err client_dropped else Ok (set_end ([110, 110, 100] ! i) sample_range_meta)"
  obtain rps' where r: "replicas_seal True ?srv 3 2 None (rr_replicas sample_written) = (rps', Ok 110)"
    by (simp add: replicas_seal_def replicas_seal0_def nth_opt_def sub_or_panic_def replica_seal_def set_end_def sample_written_def sample_range_meta_def
        rr_new_def rm_new_range_def replica_new_def)
  have c: "rm_replica_count sample_range_meta = 3" "rm_ack_count sample_range_meta = 2" "rm_end sample_range_meta = None"
    "length (rm_replica sample_range_meta) = 3" "rm_start sample_range_meta = 100" "length (rr_replicas sample_written) = 3"
    by (simp_all add: sample_range_meta_def rm_new_range_def sample_written_def rr_new_def)
  have "rr_confirm_offset sample_confirmed \<le> 110"
    using confirmed_survives_seal [of sample_range_meta "[100, 100, 100]" sample_confirmed "[110, 110, 100]" "rr_replicas sample_written" ?srv True rps' 110]
      sample_confirmed_run [unfolded sample_written_def] r c by (simp add: set_end_def)
  with r show ?thesis by (auto simp: sample_confirmed_def)
qed

section \<open>Sealing\<close>

lemma flag_and:
  "w AND SEALED_FLAG = 0 \<longleftrightarrow> \<not> bit w 2" "w AND SEALING_FLAG = 0 \<longleftrightarrow> \<not> bit w 1" for w :: "32 word"
  unfolding SEALED_FLAG_def SEALING_FLAG_def push_bit_of_1 and_exp_eq_0_iff_not_bit by (rule refl)+

lemma flag_bits: "bit SEALED_FLAG n \<longleftrightarrow> n = 2" "bit SEALING_FLAG n \<longleftrightarrow> n = 1"
  unfolding SEALED_FLAG_def SEALING_FLAG_def push_bit_of_1 bit_exp_iff by auto

lemma flags_nonzero [simp]: "SEALED_FLAG \<noteq> 0" "SEALING_FLAG \<noteq> 0" "CORRUPTED_FLAG \<noteq> 0"
  by (simp_all add: SEALED_FLAG_def SEALING_FLAG_def CORRUPTED_FLAG_def)

lemmas flag_defs = rr_is_sealed_def rr_is_sealing_def mark_sealed_def mark_sealing_def erase_sealing_def flag_and flag_bits
  bit_or_iff bit_and_iff bit_not_iff

lemma sealed_flags [simp]:
  "rr_is_sealed (mark_sealed r)" "\<not> rr_is_sealing (mark_sealed r)"
  "rr_is_sealing (mark_sealing r)" "rr_is_sealed (mark_sealing r) = rr_is_sealed r"
  "\<not> rr_is_sealing (erase_sealing r)" "rr_is_sealed (erase_sealing r) = rr_is_sealed r"
  by (simp_all add: flag_defs)

lemma erase_mark_sealing: "\<not> rr_is_sealing r \<Longrightarrow> erase_sealing (mark_sealing r) = r"
proof -
  assume "\<not> rr_is_sealing r"
  then have "(rr_status r OR SEALING_FLAG) AND NOT SEALING_FLAG = rr_status r"
    by (intro bit_word_eqI) (auto simp: flag_defs)
  then show ?thesis by (simp add: mark_sealing_def erase_sealing_def)
qed

lemma seal_pd_ok:
  "seal_pd alive pd e r = (r', Ok e') \<Longrightarrow> e' = e \<and> rr_is_sealed r' \<and> rr_waiting r' = 0
     \<and> rr_confirm_offset r' = (if rr_open_for_write r then rr_confirm_offset r else e)"
  by (auto simp: seal_pd_def Let_def rr_is_sealed_def split: outcome.splits if_splits)
    (use sealed_flags(1) [of r, unfolded rr_is_sealed_def] in auto)

lemma sealed_not_writable: "rr_is_sealed r \<Longrightarrow> \<not> rr_is_writable r"
  by (auto simp: rr_is_sealed_def rr_is_writable_def)

lemma rr_seal_results:
  "rr_seal alive pd servers r = (r', Some (Ok e)) \<Longrightarrow>
     rr_is_sealed r' \<and> \<not> rr_is_writable r' \<and> rr_confirm_offset r' = e
     \<and> rr_seal alive' pd' servers' r' = (r', Some (Ok e)) \<and> rr_try_ack r' = Ok (r', False)"
  "rr_seal alive pd servers r = (r', Some (Err x)) \<Longrightarrow> rr_open_for_write r \<Longrightarrow> r' = r"
proof -
  assume s: "rr_seal alive pd servers r = (r', Some (Ok e))"
  have fin: "rr_is_sealed r' \<and> rr_confirm_offset r' = e"
  proof (cases "rr_is_sealed r \<or> rr_is_sealing r")
    case True
    with s show ?thesis by (auto simp: rr_seal_def seal_begin_def split: if_splits)
  next
    case False
    show ?thesis
    proof (cases "rr_open_for_write r")
      case True
      with False s have "seal_pd alive pd (rr_confirm_offset r) (mark_sealing r) = (r', Ok e)"
        by (auto simp: rr_seal_def seal_begin_def split: prod.splits)
      then show ?thesis using seal_pd_ok True by fastforce
    next
      case closed: False
      obtain r1 nx where n: "seal_replicas alive servers (mark_sealing r) = (r1, nx)" by (metis surj_pair)
      have "\<not> rr_open_for_write r1" using n closed
        by (auto simp: seal_replicas_def Let_def split: prod.splits outcome.splits)
      moreover have "nx \<noteq> SealDone (Ok x)" for x using n by (auto simp: seal_replicas_def Let_def split: prod.splits outcome.splits)
      ultimately show ?thesis using False closed s n seal_pd_ok
        by (fastforce simp: rr_seal_def seal_begin_def split: seal_next.splits prod.splits)
    qed
  qed
  then show "rr_is_sealed r' \<and> \<not> rr_is_writable r' \<and> rr_confirm_offset r' = e
     \<and> rr_seal alive' pd' servers' r' = (r', Some (Ok e)) \<and> rr_try_ack r' = Ok (r', False)"
    by (simp add: sealed_not_writable rr_seal_def seal_begin_def rr_try_ack_def)
next
  assume s: "rr_seal alive pd servers r = (r', Some (Err x))" "rr_open_for_write r"
  then show "r' = r"
    by (auto simp: rr_seal_def seal_begin_def seal_pd_def erase_mark_sealing Let_def split: if_splits prod.splits outcome.splits)
qed

text \<open>
  Sealing a range is final. A seal that succeeds leaves the range sealed, not writable, with
  its end as confirm offset, nobody waiting, and every later seal gives the same end without any
  request. A seal that fails before the replicas are asked leaves a range as it was, so that it
  can be sealed again.
\<close>

theorem rr_seal_final:
  assumes "rr_seal alive pd servers r = (r', Some res)"
  shows "case res of
      Ok e \<Rightarrow> rr_is_sealed r' \<and> \<not> rr_is_writable r' \<and> rr_confirm_offset r' = e
        \<and> rr_seal alive' pd' servers' r' = (r', Some (Ok e)) \<and> rr_try_ack r' = Ok (r', False)
    | Err x \<Rightarrow> rr_open_for_write r \<longrightarrow> r' = r
    | Panic \<Rightarrow> True"
  using assms rr_seal_results [of alive pd servers r r'] by (simp split: outcome.split)

theorem rr_seal_final_witness:
  "\<exists>r'. rr_seal True Ok (\<lambda>_. Ok) sample_confirmed = (r', Some (Ok 110)) \<and> rr_is_sealed r' \<and> rr_confirm_offset r' = 110"
proof -
  have z: "rr_status sample_confirmed = 0" "rr_open_for_write sample_confirmed" "rr_confirm_offset sample_confirmed = 110"
    by (simp_all add: sample_confirmed_def sample_written_def rr_new_def sample_range_meta_def rm_new_range_def)
  then obtain r' where "rr_seal True Ok (\<lambda>_. Ok) sample_confirmed = (r', Some (Ok 110))"
    by (auto simp: rr_seal_def seal_begin_def rr_is_sealed_def rr_is_sealing_def seal_pd_def placement_driver_seal_def Let_def split: prod.splits)
  with rr_seal_final [OF this] show ?thesis by auto
qed

text \<open>
  A caller that waits for a seal in progress is not told when that seal fails: it still
  waits afterwards although no seal is in progress, and only a later seal that succeeds wakes it.
\<close>

theorem failed_seal_keeps_waiters:
  assumes "rr_is_sealing r" and "\<not> rr_is_sealed r" and "seal_begin r = (r1, nxt)" and "pd (set_end e (rr_metadata r)) = Err x"
    and "seal_pd alive pd e r1 = (r2, res)"
  shows "nxt = SealWait \<and> (\<exists>x. res = Err x) \<and> 0 < rr_waiting r2 \<and> \<not> rr_is_sealing r2 \<and> \<not> rr_is_sealed r2"
proof -
  have r1: "r1 = r\<lparr>rr_waiting := rr_waiting r + 1\<rparr>" "nxt = SealWait" using assms(1-3) by (auto simp: seal_begin_def)
  have "r2 = erase_sealing r1" "\<exists>x. res = Err x" using assms(4,5) r1 by (auto simp: seal_pd_def placement_driver_seal_def split: if_splits)
  moreover have "rr_is_sealed r1 = rr_is_sealed r" using r1 by (simp add: rr_is_sealed_def)
  ultimately show ?thesis using r1 assms(2) by (simp add: erase_sealing_def flip: erase_sealing_def) (simp add: erase_sealing_def)
qed

theorem failed_seal_keeps_waiters_witness:
  "\<exists>r1 r2 res. seal_begin (mark_sealing sample_written) = (r1, SealWait)
     \<and> seal_pd True (\<lambda>_. Err client_dropped) 100 r1 = (r2, res) \<and> 0 < rr_waiting r2 \<and> \<not> rr_is_sealing r2"
proof -
  have n: "\<not> rr_is_sealed (mark_sealing sample_written)"
    by (simp only: sealed_flags(4)) (simp add: rr_is_sealed_def sample_written_def rr_new_def sample_range_meta_def rm_new_range_def)
  obtain r1 nxt r2 res where s: "seal_begin (mark_sealing sample_written) = (r1, nxt)" "seal_pd True (\<lambda>_. Err client_dropped) 100 r1 = (r2, res)"
    by (metis surj_pair)
  show ?thesis using failed_seal_keeps_waiters [OF sealed_flags(3) n s(1) refl s(2)] s by auto
qed

section \<open>Fetching\<close>

definition asked :: "nat \<Rightarrow> u64 \<Rightarrow> nat \<Rightarrow> nat list" where
  "asked n sticky k = map (\<lambda>j. (sticky + j) mod n) [0..<k]"

lemma asked_Suc: "asked n sticky (Suc k) = sticky mod n # asked n (sticky + 1) k"
  by (simp add: asked_def upt_conv_Cons map_Suc_upt [symmetric] del: upt_Suc)

lemma fetch_replicas_first:
  assumes "\<forall>i \<in> set (asked n sticky k). \<exists>e. ask i = Err e"
  shows "fetch_replicas fb ask eo n (k + left) sticky err =
    fetch_replicas fb ask eo n left (sticky + k) (if k = 0 then err else case ask ((sticky + k - 1) mod n) of Err e \<Rightarrow> Some e | _ \<Rightarrow> None)"
  using assms
proof (induction k arbitrary: sticky err)
  case (Suc k)
  then obtain e where e: "ask (sticky mod n) = Err e" by (auto simp: asked_Suc)
  have "\<forall>i \<in> set (asked n (sticky + 1) k). \<exists>e. ask i = Err e" using Suc(2) by (simp add: asked_Suc)
  from Suc(1) [OF this, of "Some e"] e show ?case by (cases k) simp_all
qed simp

text \<open>
  Fetching from a range tries its replicas in turn from the sticky one, each at most once. The
  first replica that answers decides the result, and stays the sticky one unless its records
  cannot be parsed; when no replica answers, the result is the error of the last one.
\<close>

theorem rr_fetch_order:
  assumes n: "k \<le> length (rr_replicas r)"
    and fails: "\<forall>i \<in> set (asked (length (rr_replicas r)) (rr_sticky_read_index r) k). \<exists>e. servers i
      (replica_fetch_request s e' mx (rr_replicas r ! i)) = Err e"
  shows "(k < length (rr_replicas r) \<and> servers ((rr_sticky_read_index r + k) mod length (rr_replicas r))
        (replica_fetch_request s e' mx (rr_replicas r ! ((rr_sticky_read_index r + k) mod length (rr_replicas r)))) = Ok fr
      \<longrightarrow> snd (rr_fetch fb True servers s e' mx r) = dataset_of fb e' fr
        \<and> rr_sticky_read_index (fst (rr_fetch fb True servers s e' mx r)) = rr_sticky_read_index r + k + (case dataset_of fb e' fr of Err _ \<Rightarrow> 1 | _ \<Rightarrow> 0))
    \<and> (k = length (rr_replicas r) \<longrightarrow> (\<exists>e. snd (rr_fetch fb True servers s e' mx r) = Err e))"
proof -
  let ?n = "length (rr_replicas r)" and ?st = "rr_sticky_read_index r"
  let ?ask = "\<lambda>i. replica_fetch True (servers i) s e' mx (rr_replicas r ! i)"
  have all: "\<forall>i \<in> set (asked ?n ?st k). \<exists>e. ?ask i = Err e" using fails by (simp add: replica_fetch_def)
  note f = fetch_replicas_first [OF all, of fb e' "?n - k" None, unfolded le_add_diff_inverse [OF n]]
  show ?thesis
  proof (cases "k = ?n")
    case True
    with f show ?thesis by (simp add: rr_fetch_def Let_def)
  next
    case False
    then obtain l where l: "?n - k = Suc l" using n by (metis Suc_diff_Suc le_neq_implies_less)
    from f [unfolded l] have "fetch_replicas fb ?ask e' ?n ?n ?st None = fetch_replicas fb ?ask e' ?n (Suc l) (?st + k)
        (if k = 0 then None else case ?ask ((?st + k - 1) mod ?n) of Err e \<Rightarrow> Some e | _ \<Rightarrow> None)" by simp
    with False show ?thesis by (auto simp: rr_fetch_def Let_def replica_fetch_def split: outcome.split)
  qed
qed

theorem rr_fetch_order_witness:
  "\<exists>r. length (rr_replicas r) = 3 \<and> snd (rr_fetch tiny_fb True (\<lambda>i req. if i = 0 then Err client_dropped
     else Ok \<lparr>fs_payload = None, fs_object_metadata_list = None\<rparr>) 100 110 0 r) = Ok (Full [empty_block 110])"
proof -
  let ?srv = "\<lambda>i req. if i = (0 :: nat) then Err client_dropped else Ok \<lparr>fs_payload = None, fs_object_metadata_list = None\<rparr>"
  have n: "length (rr_replicas sample_written) = 3" "rr_sticky_read_index sample_written = 0"
    by (simp_all add: sample_written_def rr_new_def sample_range_meta_def rm_new_range_def)
  have "snd (rr_fetch tiny_fb True ?srv 100 110 0 sample_written) = dataset_of tiny_fb 110 \<lparr>fs_payload = None, fs_object_metadata_list = None\<rparr>"
    using rr_fetch_order [of 1 sample_written ?srv 100 110 0 "\<lparr>fs_payload = None, fs_object_metadata_list = None\<rparr>" tiny_fb] n
    by (simp add: asked_def)
  then show ?thesis using n by (intro exI [of _ sample_written]) (simp add: dataset_of_def)
qed

end
