(* ===== verification/Replication_Stream.thy ===== *)
theory Replication_Stream
  imports Replication_Range
begin

text \<open>
  A stream as the replication client appends to and reads from it,
  \<open>src/components/replication/src/stream/replication_stream.rs\<close>. The ranges are owned by the map
  from start offsets; the last range is kept as its key, since it is always an entry of the map
  and both see its changes. The channels of requests and of signals to the append task are a
  queue and a counter; what a caller is told is a log of responses. \<open>env_round\<close> has the replies of
  the placement driver and the range servers to the calls of one round of the loop that looks
  for a writable range; \<open>get_writable_range\<close> has no result while it is still retrying.
\<close>

section \<open>Model\<close>

definition EXPIRED_STREAM_EPOCH :: error_code where "EXPIRED_STREAM_EPOCH = 1489"

record append_request =
  aq_base_offset :: u64
  aq_record_batch :: record_batch
  aq_pending :: bool

definition aq_new :: "u64 \<Rightarrow> record_batch \<Rightarrow> append_request" where
  "aq_new base_offset batch = \<lparr>aq_base_offset = base_offset, aq_record_batch = batch, aq_pending = True\<rparr>"

definition aq_count :: "append_request \<Rightarrow> u32" where
  "aq_count q = rb_last_offset_delta (aq_record_batch q) mod 2 ^ 32"

type_synonym response = "u64 \<times> (es_error, unit) outcome"

record repl_stream =
  sm_id :: u64
  sm_epoch :: u64
  sm_ranges :: "(u64, repl_range) btree"
  sm_next_offset :: u64
  sm_last_range :: "u64 option"
  sm_start_offset :: u64
  sm_closed :: bool
  sm_cache :: hot_cache
  sm_requests :: "append_request list"
  sm_signals :: nat
  sm_responses :: "response list"
  at_inflight :: "(u64, append_request) btree"
  at_next_append :: u64
  at_error :: "es_error option"
  at_ended :: bool

definition sm_new :: "u64 \<Rightarrow> u64 \<Rightarrow> hot_cache \<Rightarrow> repl_stream" where
  "sm_new stream_id epoch cache =
     \<lparr>sm_id = stream_id, sm_epoch = epoch, sm_ranges = bt_empty, sm_next_offset = 0, sm_last_range = None, sm_start_offset = 0,
      sm_closed = False, sm_cache = cache, sm_requests = [], sm_signals = 0, sm_responses = [], at_inflight = bt_empty,
      at_next_append = 0, at_error = None, at_ended = False\<rparr>"

definition last_range :: "repl_stream \<Rightarrow> repl_range option" where
  "last_range st = (case sm_last_range st of None \<Rightarrow> None | Some k \<Rightarrow> bt_get k (sm_ranges st))"

definition put_last :: "repl_range \<Rightarrow> repl_stream \<Rightarrow> repl_stream" where
  "put_last r st = (case sm_last_range st of None \<Rightarrow> st | Some k \<Rightarrow> st\<lparr>sm_ranges := bt_insert k r (sm_ranges st)\<rparr>)"

definition sm_try_ack :: "repl_stream \<Rightarrow> repl_stream" where
  "sm_try_ack st = st\<lparr>sm_signals := sm_signals st + 1\<rparr>"

text \<open>A request is answered once: the sender of the answer is taken by the first one.\<close>

definition aq_respond :: "(es_error, unit) outcome \<Rightarrow> append_request list \<Rightarrow> response list" where
  "aq_respond res qs = map (\<lambda>q. (aq_base_offset q, res)) (filter aq_pending qs)"

definition taken :: "append_request \<Rightarrow> append_request" where
  "taken q = q\<lparr>aq_pending := False\<rparr>"

subsection \<open>The writable range\<close>

record env_round =
  ev_alive :: bool
  ev_pd_seal :: "range_metadata \<Rightarrow> (es_error, range_metadata) outcome"
  ev_servers :: "nat \<Rightarrow> range_metadata \<Rightarrow> (es_error, range_metadata) outcome"
  ev_create :: "range_metadata \<Rightarrow> (es_error, range_metadata) outcome"

definition new_range :: "env_round \<Rightarrow> u32 \<Rightarrow> u64 \<Rightarrow> repl_stream \<Rightarrow> repl_stream \<times> (es_error, unit) outcome" where
  "new_range ev range_index start_offset st =
     (if ev_alive ev
      then (case rr_create (ev_create ev) (sm_id st) (sm_epoch st) range_index start_offset of
              Ok metadata \<Rightarrow>
                (st\<lparr>sm_ranges := bt_insert start_offset (rr_new metadata True) (sm_ranges st), sm_last_range := Some start_offset\<rparr>, Ok ())
            | Err e \<Rightarrow> (st, Err e)
            | Panic \<Rightarrow> (st, Panic))
      else (st, Err (es_new UNEXPECTED ''new range fail, client is drop'')))"

definition after_seal :: "env_round \<Rightarrow> repl_range \<Rightarrow> repl_stream \<Rightarrow> repl_stream \<times> u64 option \<times> (es_error, unit) outcome option" where
  "after_seal ev r st =
     (case rr_seal (ev_alive ev) (ev_pd_seal ev) (ev_servers ev) r of
        (r, None) \<Rightarrow> (put_last r st, None, None)
      | (r, Some (Ok end_offset)) \<Rightarrow>
          let st = put_last r st; index = int_as_u32 (rm_index (rr_metadata r)) in
          if index + 1 \<ge> 2 ^ 32 then (st, Some end_offset, Some Panic)
          else (case new_range ev (index + 1) end_offset st of (st, res) \<Rightarrow> (st, Some end_offset, Some res))
      | (r, Some (Err e)) \<Rightarrow> (put_last r st, None, Some (Err e))
      | (r, Some Panic) \<Rightarrow> (put_last r st, None, Some Panic))"

fun get_writable_range :: "env_round list \<Rightarrow> u64 option \<Rightarrow> repl_stream
    \<Rightarrow> repl_stream \<times> (es_error, repl_range \<times> u64 option) outcome option" where
  "get_writable_range [] rewind st =
     (case last_range st of
        Some r \<Rightarrow> (st, if rr_is_writable r then Some (Ok (r, rewind)) else None)
      | None \<Rightarrow> (st, None))"
| "get_writable_range (ev # evs) rewind st =
     (case last_range st of
        Some r \<Rightarrow>
          if rr_is_writable r then (st, Some (Ok (r, rewind)))
          else (case after_seal ev r st of
                  (st, rw, res) \<Rightarrow>
                    let rewind = (case rw of None \<Rightarrow> rewind | Some e \<Rightarrow> Some e) in
                    (case res of
                       None \<Rightarrow> (st, None)
                     | Some (Ok _) \<Rightarrow> get_writable_range evs rewind st
                     | Some (Err e) \<Rightarrow> if es_code e = EXPIRED_STREAM_EPOCH then (st, Some (Err e)) else get_writable_range evs rewind st
                     | Some Panic \<Rightarrow> (st, Some Panic)))
      | None \<Rightarrow>
          (case new_range ev 0 0 st of
             (st, Panic) \<Rightarrow> (st, Some Panic)
           | (st, _) \<Rightarrow> get_writable_range evs rewind st))"

subsection \<open>The append task\<close>

type_synonym property_order = "(string \<rightharpoonup> string) \<Rightarrow> (string \<times> string) list"

fun append_all :: "fb_meta \<Rightarrow> property_order \<Rightarrow> int \<Rightarrow> append_request list \<Rightarrow> u64 \<times> repl_range \<times> hot_cache
    \<Rightarrow> (unit, u64 \<times> repl_range \<times> hot_cache) outcome" where
  "append_all fb order now [] s = Ok s"
| "append_all fb order now (q # qs) s =
     (case s of (nxt, r, hot) \<Rightarrow>
        (case rr_append fb order now (aq_record_batch q) (aq_base_offset q) (r, hot) of
           Ok (_, r, hot) \<Rightarrow> append_all fb order now qs (aq_base_offset q + aq_count q, r, hot)
         | Err e \<Rightarrow> Err e
         | Panic \<Rightarrow> Panic))"

definition ack_and_append :: "fb_meta \<Rightarrow> property_order \<Rightarrow> int \<Rightarrow> repl_range \<Rightarrow> repl_stream \<Rightarrow> repl_stream \<times> (es_error, unit) outcome" where
  "ack_and_append fb order now r st =
     (let acked = filter (\<lambda>e. fst e < rr_confirm_offset r) (at_inflight st);
          st = st\<lparr>sm_responses := sm_responses st @ aq_respond (Ok ()) (map snd acked), at_inflight := drop (length acked) (at_inflight st)\<rparr>;
          rest = map snd (filter (\<lambda>e. at_next_append st \<le> fst e) (at_inflight st))
      in case append_all fb order now rest (at_next_append st, r, sm_cache st) of
           Ok (nxt, r, hot) \<Rightarrow> (put_last r (st\<lparr>at_next_append := nxt, sm_cache := hot\<rparr>), Ok ())
         | _ \<Rightarrow> (st, Panic))"

definition append_task0 :: "fb_meta \<Rightarrow> property_order \<Rightarrow> int \<Rightarrow> env_round list \<Rightarrow> repl_stream \<Rightarrow> repl_stream \<times> (es_error, unit) outcome option" where
  "append_task0 fb order now evs st =
     (case get_writable_range evs None st of
        (st, None) \<Rightarrow> (st, None)
      | (st, Some (Err e)) \<Rightarrow> (st, Some (Err e))
      | (st, Some Panic) \<Rightarrow> (st, Some Panic)
      | (st, Some (Ok (r, rewind))) \<Rightarrow>
          let st = (case rewind of None \<Rightarrow> st | Some e \<Rightarrow> st\<lparr>at_next_append := e\<rparr>) in
          if at_inflight st = [] then (st, Some (Ok ()))
          else (case ack_and_append fb order now r st of (st, res) \<Rightarrow> (st, Some res)))"

definition already_closed :: es_error where
  "already_closed = es_new STREAM_ALREADY_CLOSED ''stream is closed''"

definition fail_inflight :: "es_error \<Rightarrow> repl_stream \<Rightarrow> repl_stream" where
  "fail_inflight e st =
     st\<lparr>sm_responses := sm_responses st @ aq_respond (Err e) (map snd (at_inflight st)),
        at_inflight := map (\<lambda>(k, q). (k, taken q)) (at_inflight st)\<rparr>"

definition task_end :: "repl_stream \<Rightarrow> repl_stream" where
  "task_end st = (fail_inflight already_closed st)\<lparr>at_ended := True\<rparr>"

definition task_round :: "fb_meta \<Rightarrow> property_order \<Rightarrow> int \<Rightarrow> env_round list \<Rightarrow> repl_stream \<Rightarrow> repl_stream \<times> (es_error, unit) outcome option" where
  "task_round fb order now evs st =
     (if sm_closed st then (task_end st, Some (Ok ()))
      else case append_task0 fb order now evs st of
             (st, Some (Err e)) \<Rightarrow> (fail_inflight e (st\<lparr>at_error := Some e\<rparr>), Some (Ok ()))
           | r \<Rightarrow> r)"

datatype task_event = RecvRequest | RecvSignal | RecvShutdown

definition append_task_step :: "fb_meta \<Rightarrow> property_order \<Rightarrow> int \<Rightarrow> env_round list \<Rightarrow> task_event \<Rightarrow> repl_stream
    \<Rightarrow> repl_stream \<times> (es_error, unit) outcome option" where
  "append_task_step fb order now evs ev st =
     (case ev of
        RecvRequest \<Rightarrow>
          (case sm_requests st of
             [] \<Rightarrow> (st, None)
           | q # qs \<Rightarrow>
               let st = st\<lparr>sm_requests := qs\<rparr> in
               (case at_error st of
                  Some e \<Rightarrow> (st\<lparr>sm_responses := sm_responses st @ aq_respond (Err e) [q]\<rparr>, Some (Ok ()))
                | None \<Rightarrow> task_round fb order now evs (st\<lparr>at_inflight := bt_insert (aq_base_offset q) q (at_inflight st)\<rparr>)))
      | RecvSignal \<Rightarrow>
          if sm_signals st = 0 then (st, None) else task_round fb order now evs (st\<lparr>sm_signals := sm_signals st - 1\<rparr>)
      | RecvShutdown \<Rightarrow> (task_end st, Some (Ok ())))"

subsection \<open>Operations of a stream\<close>

definition range_key_insert :: "range_metadata \<Rightarrow> (u64, repl_range) btree \<Rightarrow> (u64, repl_range) btree" where
  "range_key_insert m rs = bt_insert (rm_start m) (rr_new m False) rs"

definition sm_load :: "range_metadata list \<Rightarrow> repl_stream \<Rightarrow> repl_stream" where
  "sm_load metadata st = st\<lparr>sm_ranges := fold range_key_insert (sort_key rm_index metadata) (sm_ranges st)\<rparr>"

definition sm_open :: "bool \<Rightarrow> (es_error, unit) outcome \<Rightarrow> (es_error, range_metadata list) outcome \<Rightarrow> env_round \<Rightarrow> repl_stream
    \<Rightarrow> repl_stream \<times> (es_error, unit) outcome option" where
  "sm_open alive update_stream list_ranges ev st =
     (if \<not> alive then (st, Some (Err (es_new UNEXPECTED ''range get client fail, client is dropped'')))
      else case bind_outcome update_stream (\<lambda>_. list_ranges) of
             Err e \<Rightarrow> (st, Some (Err e))
           | Panic \<Rightarrow> (st, Some Panic)
           | Ok metadata \<Rightarrow>
               let st = sm_load metadata st;
                   start = (case bt_first (sm_ranges st) of Some (k, _) \<Rightarrow> k | None \<Rightarrow> 0)
               in (case bt_last (sm_ranges st) of
                     None \<Rightarrow> (st\<lparr>sm_start_offset := start\<rparr>, Some (Ok ()))
                   | Some (k, r) \<Rightarrow>
                       (case rr_seal (ev_alive ev) (ev_pd_seal ev) (ev_servers ev) r of
                          (r, res) \<Rightarrow>
                            let st = put_last r (st\<lparr>sm_last_range := Some k\<rparr>) in
                            (case res of
                               Some (Ok confirm_offset) \<Rightarrow> (st\<lparr>sm_next_offset := confirm_offset, sm_start_offset := start\<rparr>, Some (Ok ()))
                             | Some (Err e) \<Rightarrow> (st, Some (Err e))
                             | Some Panic \<Rightarrow> (st, Some Panic)
                             | None \<Rightarrow> (st, None)))))"

definition sm_close :: "env_round \<Rightarrow> repl_stream \<Rightarrow> repl_stream" where
  "sm_close ev st =
     (let st = st\<lparr>sm_closed := True\<rparr> in
      case last_range st of
        None \<Rightarrow> st
      | Some r \<Rightarrow> put_last (fst (rr_seal (ev_alive ev) (ev_pd_seal ev) (ev_servers ev) r)) st)"

definition sm_confirm_offset :: "repl_stream \<Rightarrow> u64" where
  "sm_confirm_offset st = (case last_range st of None \<Rightarrow> 0 | Some r \<Rightarrow> rr_confirm_offset r)"

text \<open>The result is the base offset of the request that was sent; its answer is a response of the append task.\<close>

definition sm_append :: "record_batch \<Rightarrow> repl_stream \<Rightarrow> (es_error, u64 \<times> repl_stream) outcome" where
  "sm_append batch st =
     (if sm_closed st then Err already_closed
      else
        let base_offset = sm_next_offset st; count = rb_last_offset_delta batch in
        if base_offset + count \<ge> 2 ^ 64 then Panic
        else if at_ended st then Err already_closed
        else Ok (base_offset, st\<lparr>sm_next_offset := base_offset + count, sm_requests := sm_requests st @ [aq_new base_offset batch]\<rparr>))"

definition fetch_out_of_range :: es_error where
  "fetch_out_of_range = es_new OFFSET_OUT_OF_RANGE_BOUNDS ''fetch out of range''"

definition sm_fetch :: "fb_meta \<Rightarrow> bool \<Rightarrow> (nat \<Rightarrow> fetch_request \<Rightarrow> (es_error, fetch_result_set) outcome) \<Rightarrow> u64 \<Rightarrow> u64 \<Rightarrow> u32 \<Rightarrow> repl_stream
    \<Rightarrow> repl_stream \<times> (es_error, fetch_dataset) outcome" where
  "sm_fetch fb alive servers start_offset end_offset batch_max_bytes st =
     (if start_offset = end_offset then (st, Ok (Partial []))
      else case last_range st of
             None \<Rightarrow> (st, Err fetch_out_of_range)
           | Some lr \<Rightarrow>
               if rr_confirm_offset lr < end_offset then (st, Err fetch_out_of_range)
               else if rm_start (rr_metadata lr) \<le> start_offset
               then (case rr_fetch fb alive servers start_offset end_offset batch_max_bytes lr of (r, ds) \<Rightarrow> (put_last r st, ds))
               else (case bt_upper_bound start_offset (sm_ranges st) of
                       None \<Rightarrow> (st, Err fetch_out_of_range)
                     | Some (k, r) \<Rightarrow>
                         if rm_start (rr_metadata r) > start_offset then (st, Err fetch_out_of_range)
                         else (case rr_fetch fb alive servers start_offset (min end_offset (rr_confirm_offset r)) batch_max_bytes r of
                                 (r, ds) \<Rightarrow>
                                   (st\<lparr>sm_ranges := bt_insert k r (sm_ranges st)\<rparr>,
                                    bind_outcome ds (\<lambda>ds. case ds of
                                        Full blocks \<Rightarrow> Ok (Partial blocks)
                                      | Mixin blocks objects \<Rightarrow> Ok (Mixin blocks objects)
                                      | _ \<Rightarrow> Err (es_new UNEXPECTED ''fetch dataset should not be Partial or Overflow''))))))"

definition keep_range :: "u64 \<Rightarrow> u64 \<Rightarrow> u64 \<times> repl_range \<Rightarrow> bool" where
  "keep_range new_start_offset last_start e \<longleftrightarrow>
     fst e = last_start \<or> (case rm_end (rr_metadata (snd e)) of Some end_offset \<Rightarrow> end_offset > new_start_offset | None \<Rightarrow> True)"

definition sm_trim :: "bool \<Rightarrow> (es_error, unit) outcome \<Rightarrow> u64 \<Rightarrow> repl_stream \<Rightarrow> repl_stream \<times> (es_error, unit) outcome" where
  "sm_trim alive trim_stream new_start_offset st =
     (let ranges = (case bt_last (sm_ranges st) of
                      None \<Rightarrow> sm_ranges st
                    | Some (last_start, _) \<Rightarrow> filter (keep_range new_start_offset last_start) (sm_ranges st))
      in (st\<lparr>sm_start_offset := new_start_offset, sm_ranges := ranges\<rparr>,
          if alive then trim_stream else Err (es_new UNEXPECTED ''range get client fail, client is dropped'')))"

definition sm_delete :: "bool \<Rightarrow> (es_error, unit) outcome \<Rightarrow> repl_stream \<Rightarrow> repl_stream \<times> (es_error, unit) outcome" where
  "sm_delete alive delete_stream st =
     (st\<lparr>sm_ranges := bt_empty, sm_last_range := None\<rparr>,
      if alive then delete_stream else Err (es_new UNEXPECTED ''range get client fail, client is dropped''))"

section \<open>Chains of requests\<close>

fun reqs_chain :: "u64 \<Rightarrow> append_request list \<Rightarrow> bool" where
  "reqs_chain a [] = True"
| "reqs_chain a (q # qs) = (aq_base_offset q = a \<and> reqs_chain (a + aq_count q) qs)"

fun reqs_end :: "u64 \<Rightarrow> append_request list \<Rightarrow> u64" where
  "reqs_end a [] = a"
| "reqs_end a (q # qs) = reqs_end (a + aq_count q) qs"

definition req_ok :: "append_request \<Rightarrow> bool" where
  "req_ok q \<longleftrightarrow> 0 < rb_last_offset_delta (aq_record_batch q) \<and> rb_last_offset_delta (aq_record_batch q) < 2 ^ 32"

text \<open>The offsets where a request of the chain begins or the chain ends.\<close>

definition bounds :: "u64 \<Rightarrow> append_request list \<Rightarrow> u64 set" where
  "bounds a qs = (\<lambda>k. reqs_end a (take k qs)) ` {..length qs}"

definition keyed :: "append_request list \<Rightarrow> (u64, append_request) btree" where
  "keyed qs = map (\<lambda>q. (aq_base_offset q, q)) qs"

lemma reqs_append [simp]:
  "reqs_chain a (qs @ rs) \<longleftrightarrow> reqs_chain a qs \<and> reqs_chain (reqs_end a qs) rs" "reqs_end a (qs @ rs) = reqs_end (reqs_end a qs) rs"
  by (induction qs arbitrary: a) auto

lemma reqs_end_ge: "a \<le> reqs_end a qs"
  by (induction qs arbitrary: a) (auto intro: le_trans [OF le_add1])

lemma req_ok_pos: "req_ok q \<Longrightarrow> 0 < aq_count q"
  by (simp add: req_ok_def aq_count_def)

lemma reqs_below:
  assumes "reqs_chain a qs" and "\<forall>q \<in> set qs. req_ok q" and "q \<in> set qs"
  shows "a \<le> aq_base_offset q \<and> aq_base_offset q < reqs_end a qs"
  using assms
proof (induction qs arbitrary: a)
  case (Cons p qs)
  show ?case
  proof (cases "q = p")
    case True
    have "a < a + aq_count p" using Cons(3) req_ok_pos by simp
    with True Cons(2) reqs_end_ge [of "a + aq_count p" qs] show ?thesis by simp
  next
    case False
    with Cons(1) [of "a + aq_count p"] Cons(2-4) show ?thesis by auto
  qed
qed simp

lemma filter_bound:
  assumes c: "reqs_chain a qs" and ok: "\<forall>q \<in> set qs. req_ok q" and n: "n = reqs_end a (take k qs)"
  shows "filter (\<lambda>q. aq_base_offset q < n) qs = take k qs" and "filter (\<lambda>q. n \<le> aq_base_offset q) qs = drop k qs"
proof -
  have qs: "qs = take k qs @ drop k qs" by simp
  have c': "reqs_chain a (take k qs)" "reqs_chain n (drop k qs)" using c n by (metis append_take_drop_id reqs_append(1))+
  have lo: "\<forall>q \<in> set (take k qs). aq_base_offset q < n" using reqs_below [OF c'(1)] ok n by (meson in_set_takeD)
  have hi: "\<forall>q \<in> set (drop k qs). n \<le> aq_base_offset q" using reqs_below [OF c'(2)] ok by (meson in_set_dropD)
  have "filter (\<lambda>q. aq_base_offset q < n) (take k qs) = take k qs" "filter (\<lambda>q. aq_base_offset q < n) (drop k qs) = []"
    "filter (\<lambda>q. n \<le> aq_base_offset q) (take k qs) = []" "filter (\<lambda>q. n \<le> aq_base_offset q) (drop k qs) = drop k qs"
    using lo hi by (auto simp: filter_empty_conv filter_id_conv not_less not_le)
  then show "filter (\<lambda>q. aq_base_offset q < n) qs = take k qs" "filter (\<lambda>q. n \<le> aq_base_offset q) qs = drop k qs"
    using qs by (metis filter_append append_Nil append_Nil2)+
qed

lemma keyed_filter: "map snd (filter (\<lambda>e. P (fst e)) (keyed qs)) = filter (\<lambda>q. P (aq_base_offset q)) qs"
  by (induction qs) (auto simp: keyed_def)

lemma keyed_insert:
  assumes "reqs_chain a qs" and "\<forall>q \<in> set qs. req_ok q" and "aq_base_offset q = reqs_end a qs"
  shows "bt_insert (aq_base_offset q) q (keyed qs) = keyed (qs @ [q])"
  using assms
proof (induction qs arbitrary: a)
  case (Cons p qs)
  have "aq_base_offset p < aq_base_offset q" using reqs_below [OF Cons(2,3), of p] Cons(4) by simp
  with Cons show ?case by (auto simp: keyed_def)
qed (simp add: keyed_def)

section \<open>Appending a chain\<close>

lemma with_property_keeps [simp]:
  "b_stream_id (with_property k v b) = b_stream_id b" "b_range_index (with_property k v b) = b_range_index b"
  "b_base_offset (with_property k v b) = b_base_offset b" "b_last_offset_delta (with_property k v b) = b_last_offset_delta b"
  "b_payload (with_property k v b) = b_payload b"
  by (simp_all add: with_property_def)

lemma fold_property_keeps [simp]:
  "b_stream_id (fold (\<lambda>(k, v). with_property k v) kvs b) = b_stream_id b" "b_range_index (fold (\<lambda>(k, v). with_property k v) kvs b) = b_range_index b"
  "b_base_offset (fold (\<lambda>(k, v). with_property k v) kvs b) = b_base_offset b"
  "b_last_offset_delta (fold (\<lambda>(k, v). with_property k v) kvs b) = b_last_offset_delta b"
  "b_payload (fold (\<lambda>(k, v). with_property k v) kvs b) = b_payload b"
  by (induction kvs arbitrary: b) auto

lemma record_batch_to_bytes_ok: "\<exists>bs. record_batch_to_bytes fb order now batch off sid i = Ok bs"
  by (simp add: record_batch_to_bytes_def Let_def build_def with_payload_def with_base_timestamp_def with_last_offset_delta_def
      with_base_offset_def with_flags_def with_range_index_def with_stream_id_def split: option.split)

lemma rr_append_ok:
  assumes "rr_next_offset r = off" and "off + rb_last_offset_delta batch mod 2 ^ 32 < 2 ^ 64" and "hc_inv hot"
  shows "\<exists>bs hot'. rr_append fb order now batch off (r, hot) = Ok (bs, r\<lparr>rr_next_offset := off + rb_last_offset_delta batch mod 2 ^ 32\<rparr>, hot') \<and> hc_inv hot'"
proof -
  obtain bs where b: "record_batch_to_bytes fb order now batch off (rm_stream_id (rr_metadata r)) (int_as_u32 (rm_index (rr_metadata r))) = Ok bs"
    using record_batch_to_bytes_ok by blast
  obtain hot' where "hc_insert (rm_stream_id (rr_metadata r)) off (rb_last_offset_delta batch mod 2 ^ 32) [vec_bytes_to_bytes bs] hot = Ok hot'" "hc_inv hot'"
    using hc_insert_keeps [OF assms(3)] by blast
  with b assms(1,2) show ?thesis by (simp add: rr_append_def Let_def)
qed

lemma append_all_ok:
  assumes "reqs_chain n qs" and "reqs_end n qs < 2 ^ 64" and "rr_next_offset r = n" and "hc_inv hot"
  shows "\<exists>hot'. append_all fb order now qs (n, r, hot) = Ok (reqs_end n qs, r\<lparr>rr_next_offset := reqs_end n qs\<rparr>, hot') \<and> hc_inv hot'"
  using assms
proof (induction qs arbitrary: n r hot)
  case (Cons q qs)
  have lt: "n + aq_count q < 2 ^ 64" using Cons(3) reqs_end_ge [of "n + aq_count q" qs] by simp
  obtain bs hot1 where a: "rr_append fb order now (aq_record_batch q) n (r, hot) = Ok (bs, r\<lparr>rr_next_offset := n + aq_count q\<rparr>, hot1)" "hc_inv hot1"
    using rr_append_ok [OF Cons(4) _ Cons(5)] lt by (simp add: aq_count_def) blast
  have "\<exists>hot'. append_all fb order now qs (n + aq_count q, r\<lparr>rr_next_offset := n + aq_count q\<rparr>, hot1)
      = Ok (reqs_end (n + aq_count q) qs, r\<lparr>rr_next_offset := n + aq_count q, rr_next_offset := reqs_end (n + aq_count q) qs\<rparr>, hot') \<and> hc_inv hot'"
    by (rule Cons(1)) (use Cons(2,3) a(2) in simp_all)
  with Cons(2) a(1) show ?case by simp
qed simp

section \<open>The append task keeps its invariant\<close>

text \<open>
  What the append task relies on about its last range, for requests \<open>qs\<close> in flight from offset
  \<open>a\<close> on and the offset \<open>nxt\<close> of the next append: a seal gives the confirm offset, which is the
  border of a request, and a writable range expects \<open>nxt\<close> next and has replicas that confirmed
  whole requests.
\<close>

definition on_border :: "u64 \<Rightarrow> append_request list \<Rightarrow> u64 \<Rightarrow> u64 \<Rightarrow> bool" where
  "on_border a qs nxt off \<longleftrightarrow> off \<le> nxt \<and> (off \<le> a \<or> off \<in> bounds a qs)"

definition range_part :: "u64 \<Rightarrow> append_request list \<Rightarrow> u64 \<Rightarrow> repl_stream \<Rightarrow> bool" where
  "range_part a qs nxt st \<longleftrightarrow> bt_wf (sm_ranges st) \<and>
     (case sm_last_range st of
        None \<Rightarrow> a = 0 \<and> nxt = 0
      | Some k \<Rightarrow> \<exists>r. bt_get k (sm_ranges st) = Some r \<and> (rr_open_for_write r \<or> rr_is_sealed r)
          \<and> 0 \<le> rm_index (rr_metadata r) \<and> rm_index (rr_metadata r) < 2 ^ 31 \<and> rr_confirm_offset r \<in> bounds a qs
          \<and> (rr_is_writable r \<longrightarrow> rr_next_offset r = nxt \<and> nxt \<in> bounds a qs \<and> rr_confirm_offset r \<le> nxt
              \<and> (\<forall>rp \<in> set (rr_replicas r). on_border a qs nxt (rp_confirm_offset rp))))"

definition task_inv :: "repl_stream \<Rightarrow> bool" where
  "task_inv st \<longleftrightarrow> (\<exists>a qs. at_inflight st = keyed qs \<and> reqs_chain a (qs @ sm_requests st) \<and> sm_next_offset st = reqs_end a (qs @ sm_requests st)
     \<and> sm_next_offset st < 2 ^ 64 \<and> (\<forall>q \<in> set (qs @ sm_requests st). req_ok q) \<and> hc_inv (sm_cache st) \<and> range_part a qs (at_next_append st) st)"

text \<open>
  The placement driver answers every request, and creates a range as asked: open, at the given
  start.
\<close>

definition env_ok :: "env_round \<Rightarrow> bool" where
  "env_ok ev \<longleftrightarrow> (\<forall>m. ev_pd_seal ev m \<noteq> Panic \<and> ev_create ev m \<noteq> Panic
     \<and> (\<forall>m'. ev_create ev m = Ok m' \<longrightarrow> rm_start m' = rm_start m \<and> rm_end m' = None \<and> 0 \<le> rm_index m' \<and> rm_index m' < 2 ^ 31))"

lemma bounds_start: "a \<in> bounds a qs"
  unfolding bounds_def by (rule image_eqI [of _ _ 0]) auto

lemma bounds_end: "reqs_end a qs \<in> bounds a qs"
  unfolding bounds_def by (rule image_eqI [of _ _ "length qs"]) auto

lemma bounds_cut: "n \<in> bounds a qs \<Longrightarrow> \<exists>k \<le> length qs. n = reqs_end a (take k qs)"
  by (auto simp: bounds_def)

lemma bounds_split:
  assumes "n \<in> bounds a qs"
  shows "n \<le> reqs_end a (take k qs) \<or> n \<in> bounds (reqs_end a (take k qs)) (drop k qs)"
proof -
  obtain j where j: "j \<le> length qs" "n = reqs_end a (take j qs)" using bounds_cut [OF assms] by blast
  show ?thesis
  proof (cases "j \<le> k")
    case True
    then have "take k qs = take j qs @ drop j (take k qs)" by (metis append_take_drop_id min.absorb1 take_take)
    then have "reqs_end a (take k qs) = reqs_end n (drop j (take k qs))" using j(2) by (metis reqs_append(2))
    then show ?thesis using reqs_end_ge by simp
  next
    case False
    then have "take j qs = take k qs @ take (j - k) (drop k qs)" by (metis le_add_diff_inverse nat_le_linear take_add)
    then have "n = reqs_end (reqs_end a (take k qs)) (take (j - k) (drop k qs))" using j(2) by simp
    moreover have "j - k \<le> length (drop k qs)" using j(1) by simp
    ultimately show ?thesis unfolding bounds_def by blast
  qed
qed

lemma bounds_le: "n \<in> bounds a qs \<Longrightarrow> n \<le> reqs_end a qs"
  using bounds_split [of n a qs "length qs"] by (auto simp: bounds_def)

lemma rr_seal_known:
  assumes "rr_open_for_write r \<or> rr_is_sealed r" and "\<And>m. pd m \<noteq> Panic"
  shows "\<exists>r' res. rr_seal alive pd servers r = (r', res) \<and> rr_metadata r' = rr_metadata r \<and> rr_open_for_write r' = rr_open_for_write r
    \<and> rr_confirm_offset r' = rr_confirm_offset r \<and> (rr_is_sealed r \<longrightarrow> rr_is_sealed r')
    \<and> (case res of None \<Rightarrow> rr_status r' = rr_status r \<and> rr_status r \<noteq> 0 | Some (Ok e) \<Rightarrow> e = rr_confirm_offset r \<and> rr_is_sealed r'
       | Some (Err x) \<Rightarrow> r' = r | Some Panic \<Rightarrow> False)"
proof (cases "rr_is_sealed r \<or> rr_is_sealing r")
  case True
  then show ?thesis by (auto simp: rr_seal_def seal_begin_def rr_is_sealed_def rr_is_sealing_def)
next
  case False
  then have op: "rr_open_for_write r" using assms(1) by simp
  let ?p = "placement_driver_seal alive pd (rr_confirm_offset r) (mark_sealing r)"
  have "?p \<noteq> Panic" using assms(2) [of "set_end (rr_confirm_offset r) (rr_metadata r)"]
    by (cases "pd (set_end (rr_confirm_offset r) (rr_metadata r))") (auto simp: placement_driver_seal_def)
  then consider (ok) m where "?p = Ok m" | (err) x where "?p = Err x" by (cases ?p) auto
  then show ?thesis
  proof cases
    case ok
    let ?r = "(mark_sealed (mark_sealing r))\<lparr>rr_waiting := 0\<rparr>"
    have "rr_is_sealed ?r" using sealed_flags(1) [of "mark_sealing r"] by (simp add: rr_is_sealed_def)
    moreover have "rr_seal alive pd servers r = (?r, Some (Ok (rr_confirm_offset r)))"
      using False op ok by (simp add: rr_seal_def seal_begin_def seal_pd_def Let_def)
    ultimately show ?thesis by simp
  next
    case err
    then have "rr_seal alive pd servers r = (r, Some (Err x))"
      using False op by (simp add: rr_seal_def seal_begin_def seal_pd_def erase_mark_sealing)
    then show ?thesis by simp
  qed
qed

definition only_ranges :: "repl_stream \<Rightarrow> repl_stream \<Rightarrow> bool" where
  "only_ranges st st' \<longleftrightarrow> (\<exists>rs lr. st' = st\<lparr>sm_ranges := rs, sm_last_range := lr\<rparr>)"

lemma only_ranges_refl: "only_ranges st st"
  unfolding only_ranges_def by (intro exI [of _ "sm_ranges st"] exI [of _ "sm_last_range st"]) simp

lemma only_ranges_trans: "only_ranges st st' \<Longrightarrow> only_ranges st' st'' \<Longrightarrow> only_ranges st st''"
  by (cases st) (auto simp: only_ranges_def)

lemma new_range_part:
  assumes ev: "env_ok ev" and w: "bt_wf (sm_ranges st)" and n: "nxt \<in> bounds a qs" and r: "new_range ev i nxt st = (st', res)"
  shows "res \<noteq> Panic \<and> only_ranges st st' \<and> (res = Ok () \<longrightarrow> range_part a qs nxt st'
      \<and> (\<exists>x. last_range st' = Some x \<and> rr_is_writable x)) \<and> (\<forall>e. res = Err e \<longrightarrow> st' = st)"
proof (cases "ev_alive ev")
  case True
  let ?m = "rm_new (sm_id st) (as_i32 i) (sm_epoch st) nxt None"
  show ?thesis
  proof (cases "ev_create ev ?m")
    case (Ok m)
    then have m: "rm_start m = nxt" "rm_end m = None" "0 \<le> rm_index m" "rm_index m < 2 ^ 31" using ev by (auto simp: env_ok_def rm_new_def rm_new_range_def)
    have st: "st' = st\<lparr>sm_ranges := bt_insert nxt (rr_new m True) (sm_ranges st), sm_last_range := Some nxt\<rparr>" "res = Ok ()"
      using r True Ok by (auto simp: new_range_def rr_create_def)
    then have "only_ranges st st'" by (cases st) (auto simp: only_ranges_def)
    with st show ?thesis using m n w
      by (auto simp: range_part_def rr_new_def Let_def bt_wf_insert bt_get_insert last_range_def rr_is_writable_def replica_new_def on_border_def)
  next
    case (Err e)
    with r True show ?thesis by (auto simp: new_range_def rr_create_def only_ranges_refl)
  qed (use ev in \<open>simp add: env_ok_def\<close>)
qed (use r in \<open>auto simp: new_range_def only_ranges_refl\<close>)

lemma put_last_part:
  assumes p: "range_part a qs nxt st" and k: "sm_last_range st = Some k" "bt_get k (sm_ranges st) = Some r"
    and r': "rr_open_for_write r' \<or> rr_is_sealed r'" "rr_metadata r' = rr_metadata r" "rr_confirm_offset r' = rr_confirm_offset r"
      "\<not> rr_is_writable r'"
  shows "range_part a qs nxt' (put_last r' st)"
  using assms by (auto simp: range_part_def put_last_def bt_wf_insert bt_get_insert)

lemma put_last_same: "only_ranges st (put_last r st)"
  by (cases st) (auto simp: put_last_def only_ranges_def split: option.split)

lemma ranges_cong:
  assumes "sm_ranges st = sm_ranges st'" and "sm_last_range st = sm_last_range st'"
  shows "last_range st = last_range st'" and "range_part a qs n st = range_part a qs n st'"
  unfolding last_range_def range_part_def assms by (rule refl)+

lemma range_part_upd [simp]:
  "range_part a qs n (st\<lparr>sm_requests := x0\<rparr>) = range_part a qs n st" "range_part a qs n (st\<lparr>at_inflight := x1\<rparr>) = range_part a qs n st"
  "range_part a qs n (st\<lparr>sm_signals := x2\<rparr>) = range_part a qs n st" "range_part a qs n (st\<lparr>sm_responses := x3\<rparr>) = range_part a qs n st"
  "range_part a qs n (st\<lparr>at_next_append := x4\<rparr>) = range_part a qs n st" "range_part a qs n (st\<lparr>sm_cache := x5\<rparr>) = range_part a qs n st"
  "range_part a qs n (st\<lparr>at_error := x6\<rparr>) = range_part a qs n st" "range_part a qs n (st\<lparr>at_ended := x7\<rparr>) = range_part a qs n st"
  "range_part a qs n (st\<lparr>sm_closed := x8\<rparr>) = range_part a qs n st" "range_part a qs n (st\<lparr>sm_next_offset := x9\<rparr>) = range_part a qs n st"
  by (rule ranges_cong(2); simp)+

lemma last_range_upd [simp]:
  "last_range (st\<lparr>sm_requests := x0\<rparr>) = last_range st" "last_range (st\<lparr>at_inflight := x1\<rparr>) = last_range st" "last_range (st\<lparr>sm_signals := x2\<rparr>) = last_range st"
  "last_range (st\<lparr>sm_responses := x3\<rparr>) = last_range st" "last_range (st\<lparr>at_next_append := x4\<rparr>) = last_range st" "last_range (st\<lparr>sm_cache := x5\<rparr>) = last_range st"
  "last_range (st\<lparr>at_error := x6\<rparr>) = last_range st" "last_range (st\<lparr>at_ended := x7\<rparr>) = last_range st" "last_range (st\<lparr>sm_closed := x8\<rparr>) = last_range st"
  "last_range (st\<lparr>sm_next_offset := x9\<rparr>) = last_range st"
  by (rule ranges_cong(1); simp)+

lemma range_part_last: "range_part a qs nxt st \<Longrightarrow> last_range st = None \<longleftrightarrow> sm_last_range st = None"
  by (auto simp: range_part_def last_range_def split: option.splits)

lemma range_part_idle:
  assumes "range_part a qs n st" and "last_range st = Some r" and "\<not> rr_is_writable r"
  shows "range_part a qs n' st"
  using assms by (auto simp: range_part_def last_range_def split: option.splits)

lemma after_seal_part:
  assumes ev: "env_ok ev" and p: "range_part a qs nxt st" and l: "last_range st = Some r" and nw: "\<not> rr_is_writable r"
    and s: "after_seal ev r st = (st', rw, res)"
  shows "only_ranges st st' \<and> res \<noteq> Some Panic
    \<and> (if res = Some (Ok ()) then \<exists>e x. rw = Some e \<and> range_part a qs e st' \<and> last_range st' = Some x \<and> rr_is_writable x
       else range_part a qs n st' \<and> (\<exists>x. last_range st' = Some x \<and> \<not> rr_is_writable x))"
proof -
  from l obtain k where k: "sm_last_range st = Some k" "bt_get k (sm_ranges st) = Some r" by (auto simp: last_range_def split: option.splits)
  have r: "rr_open_for_write r \<or> rr_is_sealed r" "0 \<le> rm_index (rr_metadata r)" "rm_index (rr_metadata r) < 2 ^ 31" "rr_confirm_offset r \<in> bounds a qs"
    using p k by (auto simp: range_part_def)
  have w: "bt_wf (sm_ranges st)" using p by (simp add: range_part_def)
  obtain r' sres where sl: "rr_seal (ev_alive ev) (ev_pd_seal ev) (ev_servers ev) r = (r', sres)" "rr_metadata r' = rr_metadata r"
    "rr_open_for_write r' = rr_open_for_write r" "rr_confirm_offset r' = rr_confirm_offset r" "rr_is_sealed r \<longrightarrow> rr_is_sealed r'"
    "case sres of None \<Rightarrow> rr_status r' = rr_status r \<and> rr_status r \<noteq> 0 | Some (Ok e) \<Rightarrow> e = rr_confirm_offset r \<and> rr_is_sealed r'
       | Some (Err x) \<Rightarrow> r' = r | Some Panic \<Rightarrow> False"
    using rr_seal_known [OF r(1), of "ev_pd_seal ev"] ev by (metis env_ok_def)
  have nw': "\<not> rr_is_writable r'" using sl(3,6) nw sealed_not_writable by (auto simp: rr_is_writable_def split: option.splits outcome.splits)
  let ?st = "put_last r' st"
  have idle: "range_part a qs m ?st" for m using put_last_part [OF p k _ sl(2,4) nw'] r(1) sl(3,5) by auto
  have last: "last_range ?st = Some r'" using k w by (simp add: last_range_def put_last_def bt_get_insert)
  show ?thesis
  proof (cases "\<exists>e. sres = Some (Ok e)")
    case False
    then have "st' = ?st" "res \<noteq> Some (Ok ())" "res \<noteq> Some Panic" using s sl(1,6) by (auto simp: after_seal_def split: option.splits outcome.splits)
    with idle last nw' put_last_same show ?thesis by auto
  next
    case True
    then have sres: "sres = Some (Ok (rr_confirm_offset r))" using sl(6) by auto
    have "int_as_u32 (rm_index (rr_metadata r')) + 1 < 2 ^ 32" using r(2,3) sl(2) by (simp add: to_unsigned_def)
    then have n: "new_range ev (int_as_u32 (rm_index (rr_metadata r')) + 1) (rr_confirm_offset r) ?st = (st', the res)" "rw = Some (rr_confirm_offset r)" "res \<noteq> None"
      using s sl(1) sres by (auto simp: after_seal_def Let_def split: prod.splits)
    have "bt_wf (sm_ranges ?st)" using idle by (simp add: range_part_def)
    note nr = new_range_part [OF ev this r(4) n(1)]
    have o: "only_ranges st st'" using only_ranges_trans [OF put_last_same] nr by blast
    obtain nres where nres: "res = Some nres" using n(3) by blast
    show ?thesis
    proof (cases nres)
      case (Ok u)
      with nr o nres n(2) show ?thesis by auto
    next
      case (Err x)
      with nr have "st' = ?st" using nres by simp
      with Err nr o nres idle last nw' show ?thesis by simp
    qed (use nr nres in simp)
  qed
qed

definition or_rewind :: "u64 \<Rightarrow> u64 option \<Rightarrow> u64" where
  "or_rewind nxt rewind = (case rewind of None \<Rightarrow> nxt | Some e \<Rightarrow> e)"

definition writable_result :: "u64 \<Rightarrow> append_request list \<Rightarrow> u64 \<Rightarrow> repl_stream \<Rightarrow> (es_error, repl_range \<times> u64 option) outcome option \<Rightarrow> bool" where
  "writable_result a qs nxt st res \<longleftrightarrow> res \<noteq> Some Panic \<and> (case res of
       Some (Ok (r, rw)) \<Rightarrow> last_range st = Some r \<and> rr_is_writable r \<and> range_part a qs (or_rewind nxt rw) st
     | _ \<Rightarrow> range_part a qs nxt st)"

lemma get_writable_range_part:
  assumes "\<forall>ev \<in> set evs. env_ok ev" and "range_part a qs (or_rewind nxt rewind) st" and "last_range st = None \<Longrightarrow> rewind = None"
    and "get_writable_range evs rewind st = (st', res)"
  shows "only_ranges st st' \<and> writable_result a qs nxt st' res"
  using assms
proof (induction evs arbitrary: rewind st)
  case Nil
  show ?case
  proof (cases "last_range st")
    case None
    with Nil show ?thesis by (auto simp: writable_result_def or_rewind_def only_ranges_refl)
  next
    case (Some r)
    with Nil show ?thesis by (auto simp: writable_result_def only_ranges_refl intro: range_part_idle split: if_splits)
  qed
next
  case (Cons ev evs)
  have ev: "env_ok ev" "\<forall>ev \<in> set evs. env_ok ev" using Cons(2) by auto
  show ?case
  proof (cases "last_range st")
    case None
    then have z: "rewind = None" "a = 0" "nxt = 0" using Cons(3,4) range_part_last [OF Cons(3)]
      by (auto simp: range_part_def or_rewind_def)
    obtain st1 res1 where n: "new_range ev 0 0 st = (st1, res1)" by (metis surj_pair)
    have w: "bt_wf (sm_ranges st)" using Cons(3) by (simp add: range_part_def)
    have b: "0 \<in> bounds a qs" using bounds_start [of a qs] z(2) by simp
    note n1 = new_range_part [OF ev(1) w b n]
    have p1: "range_part a qs (or_rewind nxt rewind) st1" using n1 Cons(3) z by (cases res1) (auto simp: or_rewind_def)
    have g: "get_writable_range evs rewind st1 = (st', res)" using Cons(5) None n n1 by (cases res1) auto
    have "only_ranges st1 st' \<and> writable_result a qs nxt st' res" by (rule Cons(1) [OF ev(2) p1 _ g]) (use z in simp)
    with n1 only_ranges_trans show ?thesis by blast
  next
    case (Some r)
    show ?thesis
    proof (cases "rr_is_writable r")
      case True
      with Cons(3,5) Some show ?thesis by (auto simp: writable_result_def only_ranges_refl)
    next
      case nw: False
      obtain st1 rw res1 where s: "after_seal ev r st = (st1, rw, res1)" by (metis surj_pair)
      note s1 = after_seal_part [OF ev(1) Cons(3) Some nw s]
      let ?rw = "case rw of None \<Rightarrow> rewind | Some e \<Rightarrow> Some e"
      have stop: ?thesis if "st' = st1" "res1 \<noteq> Some (Ok ())" "\<And>x. res \<noteq> Some (Ok x)" "res \<noteq> Some Panic"
        using s1 [of nxt] that by (auto simp: writable_result_def split: option.splits outcome.splits)
      have go: ?thesis if g: "get_writable_range evs ?rw st1 = (st', res)"
      proof -
        have p1: "range_part a qs (or_rewind nxt ?rw) st1" using s1 [of "or_rewind nxt ?rw"] by (auto simp: or_rewind_def split: if_splits)
        have "only_ranges st1 st' \<and> writable_result a qs nxt st' res"
          by (rule Cons(1) [OF ev(2) p1 _ g]) (use s1 [of nxt] in \<open>auto split: if_splits\<close>)
        with s1 only_ranges_trans show ?thesis by blast
      qed
      show ?thesis
      proof (cases res1)
        case None
        with Cons(5) Some nw s stop show ?thesis by auto
      next
        case r1: (Some o1)
        show ?thesis
        proof (cases o1)
          case (Ok u)
          with Cons(5) Some nw s r1 go show ?thesis by simp
        next
          case (Err e)
          with Cons(5) Some nw s r1 go stop show ?thesis by (auto split: if_splits)
        next
          case Panic
          with s1 r1 show ?thesis by simp
        qed
      qed
    qed
  qed
qed

lemma range_part_writable:
  assumes "range_part a qs nxt st" and "last_range st = Some r" and "rr_is_writable r"
  shows "rr_next_offset r = nxt" and "nxt \<in> bounds a qs" and "rr_confirm_offset r \<in> bounds a qs" and "rr_confirm_offset r \<le> nxt"
  using assms by (auto simp: range_part_def last_range_def split: option.splits)

text \<open>Acknowledging the requests below the confirm offset and handing the others to the range.\<close>

lemma ack_and_append_ok:
  assumes qs: "at_inflight st = keyed qs" "reqs_chain a qs" "\<forall>q \<in> set qs. req_ok q" "reqs_end a qs < 2 ^ 64" and hot: "hc_inv (sm_cache st)"
    and p: "range_part a qs (at_next_append st) st" and l: "last_range st = Some r" "rr_is_writable r"
  shows "\<exists>k hot. k \<le> length qs \<and> rr_confirm_offset r = reqs_end a (take k qs) \<and> hc_inv hot \<and> ack_and_append fb order now r st =
    (put_last (r\<lparr>rr_next_offset := reqs_end a qs\<rparr>) (st\<lparr>sm_responses := sm_responses st @ aq_respond (Ok ()) (take k qs),
       at_inflight := keyed (drop k qs), at_next_append := reqs_end a qs, sm_cache := hot\<rparr>), Ok ())"
proof -
  note w = range_part_writable [OF p l]
  obtain k where k: "k \<le> length qs" "rr_confirm_offset r = reqs_end a (take k qs)" using bounds_cut [OF w(3)] by blast
  obtain j where j: "j \<le> length qs" "at_next_append st = reqs_end a (take j qs)" using bounds_cut [OF w(2)] by blast
  note fk = filter_bound [OF qs(2,3) k(2)] and fj = filter_bound [OF qs(2,3) j(2)]
  have acked: "map snd (filter (\<lambda>e. fst e < rr_confirm_offset r) (at_inflight st)) = take k qs"
    using keyed_filter [of "\<lambda>b. b < rr_confirm_offset r" qs] fk(1) qs(1) by simp
  then have len: "length (filter (\<lambda>e. fst e < rr_confirm_offset r) (at_inflight st)) = k" using k(1) by (metis length_map length_take min.absorb2)
  have dr: "drop k (at_inflight st) = keyed (drop k qs)" using qs(1) by (simp add: keyed_def drop_map)
  have lo: "\<forall>q \<in> set (take k qs). aq_base_offset q < rr_confirm_offset r"
    using fk(1) by (metis (mono_tags, lifting) mem_Collect_eq set_filter)
  have "filter (\<lambda>q. at_next_append st \<le> aq_base_offset q) (take k qs) = []"
    using lo w(4) by (auto simp: filter_empty_conv)
  then have "filter (\<lambda>q. at_next_append st \<le> aq_base_offset q) (drop k qs) = drop j qs"
    using fj(2) by (metis append_Nil append_take_drop_id filter_append)
  then have rest: "map snd (filter (\<lambda>e. at_next_append st \<le> fst e) (keyed (drop k qs))) = drop j qs"
    using keyed_filter [of "\<lambda>b. at_next_append st \<le> b" "drop k qs"] by simp
  have e: "reqs_chain (at_next_append st) (drop j qs)" "reqs_end (at_next_append st) (drop j qs) = reqs_end a qs"
    using qs(2) j(2) by (metis append_take_drop_id reqs_append)+
  have lt: "reqs_end (at_next_append st) (drop j qs) < 2 ^ 64" using e(2) qs(4) by simp
  obtain hot' where h: "append_all fb order now (drop j qs) (at_next_append st, r, sm_cache st)
      = Ok (reqs_end a qs, r\<lparr>rr_next_offset := reqs_end a qs\<rparr>, hot')" "hc_inv hot'"
    using append_all_ok [OF e(1) lt w(1) hot] e(2) by metis
  have "ack_and_append fb order now r st = (put_last (r\<lparr>rr_next_offset := reqs_end a qs\<rparr>) (st\<lparr>sm_responses := sm_responses st @ aq_respond (Ok ()) (take k qs),
       at_inflight := keyed (drop k qs), at_next_append := reqs_end a qs, sm_cache := hot'\<rparr>), Ok ())"
    using acked len dr rest h(1) by (simp add: ack_and_append_def Let_def)
  with k h(2) show ?thesis by blast
qed

definition acked_ok :: "repl_stream \<Rightarrow> response list \<Rightarrow> repl_stream \<Rightarrow> bool" where
  "acked_ok st new st' \<longleftrightarrow> (\<forall>b. (b, Ok ()) \<in> set new \<longrightarrow>
     (\<exists>q \<in> snd ` set (at_inflight st). aq_base_offset q = b \<and> b + aq_count q \<le> sm_confirm_offset st'))"

lemma reqs_chain_end: "reqs_chain a qs \<Longrightarrow> q \<in> set qs \<Longrightarrow> aq_base_offset q + aq_count q \<le> reqs_end a qs"
  by (induction qs arbitrary: a) (auto simp: reqs_end_ge)

lemma reqs_chain_take: "reqs_chain a qs \<Longrightarrow> reqs_chain a (take k qs)"
  by (metis append_take_drop_id reqs_append(1))

lemma appended_range:
  assumes x: "last_range st = Some x" "rr_is_writable x" "range_part a qs nxt st" and k: "rr_confirm_offset x = reqs_end a (take k qs)"
  shows "last_range (put_last (x\<lparr>rr_next_offset := reqs_end a qs\<rparr>) st) = Some (x\<lparr>rr_next_offset := reqs_end a qs\<rparr>)
    \<and> range_part (rr_confirm_offset x) (drop k qs) (reqs_end a qs) (put_last (x\<lparr>rr_next_offset := reqs_end a qs\<rparr>) st)"
proof -
  obtain key where key: "sm_last_range st = Some key" "bt_get key (sm_ranges st) = Some x" "bt_wf (sm_ranges st)"
    "rr_open_for_write x \<or> rr_is_sealed x" "0 \<le> rm_index (rr_metadata x)" "rm_index (rr_metadata x) < 2 ^ 31"
    using x by (auto simp: last_range_def range_part_def split: option.splits)
  have e: "reqs_end (rr_confirm_offset x) (drop k qs) = reqs_end a qs" using k by (metis append_take_drop_id reqs_append(2))
  have "reqs_end a qs \<in> bounds (rr_confirm_offset x) (drop k qs)" "rr_confirm_offset x \<le> reqs_end a qs"
    using bounds_end [of "rr_confirm_offset x" "drop k qs"] reqs_end_ge [of "rr_confirm_offset x" "drop k qs"] e by simp_all
  moreover have "\<forall>rp \<in> set (rr_replicas x). on_border (rr_confirm_offset x) (drop k qs) (reqs_end a qs) (rp_confirm_offset rp)"
  proof
    fix rp assume "rp \<in> set (rr_replicas x)"
    then have b: "on_border a qs nxt (rp_confirm_offset rp)" and n: "nxt \<in> bounds a qs"
      using x key(1,2) by (auto simp: range_part_def)
    have "a \<le> rr_confirm_offset x" using k reqs_end_ge by simp
    then show "on_border (rr_confirm_offset x) (drop k qs) (reqs_end a qs) (rp_confirm_offset rp)"
      using b bounds_le [OF n] bounds_split [of "rp_confirm_offset rp" a qs k] k by (auto simp: on_border_def)
  qed
  ultimately show ?thesis using key bounds_start
    by (auto simp: last_range_def put_last_def range_part_def bt_get_insert bt_wf_insert rr_is_sealed_def rr_is_writable_def)
qed

lemma append_task0_ok:
  assumes inv: "task_inv st" and evs: "\<forall>ev \<in> set evs. env_ok ev" and r: "append_task0 fb order now evs st = (st', res)"
  shows "res \<noteq> Some Panic \<and> task_inv st' \<and> at_error st' = at_error st \<and> sm_requests st' = sm_requests st
    \<and> (\<exists>new. sm_responses st' = sm_responses st @ new \<and> acked_ok st new st')
    \<and> (res = Some (Ok ()) \<longrightarrow> (\<exists>x. last_range st' = Some x \<and> rr_is_writable x \<and>
         (at_inflight st \<noteq> [] \<longrightarrow> reqs_chain (rr_confirm_offset x) (map snd (at_inflight st'))
            \<and> rr_next_offset x = reqs_end (rr_confirm_offset x) (map snd (at_inflight st')))))"
proof -
  obtain a qs where i: "at_inflight st = keyed qs" "reqs_chain a (qs @ sm_requests st)" "sm_next_offset st = reqs_end a (qs @ sm_requests st)"
    "sm_next_offset st < 2 ^ 64" "\<forall>q \<in> set (qs @ sm_requests st). req_ok q" "hc_inv (sm_cache st)" "range_part a qs (at_next_append st) st"
    using inv by (auto simp: task_inv_def)
  obtain st1 res1 where g: "get_writable_range evs None st = (st1, res1)" by (metis surj_pair)
  have "only_ranges st st1 \<and> writable_result a qs (at_next_append st) st1 res1"
    by (rule get_writable_range_part [OF evs _ _ g]) (use i(7) in \<open>simp_all add: or_rewind_def\<close>)
  then obtain rs lr where o: "st1 = st\<lparr>sm_ranges := rs, sm_last_range := lr\<rparr>" and w: "writable_result a qs (at_next_append st) st1 res1"
    by (auto simp: only_ranges_def)
  have stop: ?thesis if "st' = st1" "range_part a qs (at_next_append st) st1" "\<And>u. res \<noteq> Some (Ok u)" "res \<noteq> Some Panic"
    using that i o by (auto simp: task_inv_def acked_ok_def range_part_def)
  consider (ok) x rw where "res1 = Some (Ok (x, rw))" | (other) "\<And>y. res1 \<noteq> Some (Ok y)" by (metis surj_pair)
  then show ?thesis
  proof cases
    case other
    then have "range_part a qs (at_next_append st) st1" "res1 \<noteq> Some Panic" using w by (auto simp: writable_result_def split: option.splits outcome.splits)
    with other r g stop show ?thesis by (auto simp: append_task0_def split: option.splits outcome.splits)
  next
    case ok
    let ?n = "or_rewind (at_next_append st) rw"
    let ?st = "st1\<lparr>at_next_append := ?n\<rparr>"
    have x: "last_range ?st = Some x" "rr_is_writable x" "range_part a qs ?n ?st"
      using w ok ranges_cong [of ?st st1] by (auto simp: writable_result_def)
    have q: "at_inflight ?st = keyed qs" "reqs_chain a qs" "\<forall>q \<in> set qs. req_ok q" "reqs_end a qs < 2 ^ 64" "hc_inv (sm_cache ?st)"
      using i o reqs_end_ge [of "reqs_end a qs" "sm_requests st"] by auto
    have upd: "(case rw of None \<Rightarrow> st1 | Some e \<Rightarrow> st1\<lparr>at_next_append := e\<rparr>) = ?st" using o by (cases rw) (simp_all add: or_rewind_def)
    show ?thesis
    proof (cases "qs = []")
      case True
      then have "st' = ?st" "res = Some (Ok ())" using r g ok upd q(1) by (auto simp: append_task0_def Let_def keyed_def)
      then show ?thesis using x i o True by (auto simp: task_inv_def acked_ok_def keyed_def)
    next
      case False
      have "range_part a qs (at_next_append ?st) ?st" using x(3) by simp
      from ack_and_append_ok [OF q this x(1,2), of fb order now] obtain k hot where k: "k \<le> length qs" "rr_confirm_offset x = reqs_end a (take k qs)" "hc_inv hot"
        "ack_and_append fb order now x ?st = (put_last (x\<lparr>rr_next_offset := reqs_end a qs\<rparr>) (?st\<lparr>sm_responses := sm_responses ?st @ aq_respond (Ok ()) (take k qs),
           at_inflight := keyed (drop k qs), at_next_append := reqs_end a qs, sm_cache := hot\<rparr>), Ok ())" by blast
      let ?x = "x\<lparr>rr_next_offset := reqs_end a qs\<rparr>"
      let ?st2 = "put_last ?x (?st\<lparr>sm_responses := sm_responses ?st @ aq_respond (Ok ()) (take k qs),
           at_inflight := keyed (drop k qs), at_next_append := reqs_end a qs, sm_cache := hot\<rparr>)"
      have st': "st' = ?st2" "res = Some (Ok ())" using r g ok upd q(1) False k(4) by (auto simp: append_task0_def Let_def keyed_def)
      have "sm_ranges ?st2 = sm_ranges (put_last ?x ?st)" "sm_last_range ?st2 = sm_last_range (put_last ?x ?st)"
        by (simp_all add: put_last_def split: option.split)
      from appended_range [OF x k(2)] ranges_cong [OF this]
      have l2: "last_range ?st2 = Some ?x" and p2: "range_part (rr_confirm_offset x) (drop k qs) (reqs_end a qs) ?st2" by simp_all
      have e: "reqs_chain (rr_confirm_offset x) (drop k qs)" "reqs_end (rr_confirm_offset x) (drop k qs) = reqs_end a qs"
        using q(2) k(2) by (metis append_take_drop_id reqs_append)+
      have f: "at_inflight ?st2 = keyed (drop k qs)" "sm_requests ?st2 = sm_requests st" "sm_next_offset ?st2 = sm_next_offset st" "sm_cache ?st2 = hot"
        "at_next_append ?st2 = reqs_end a qs" "at_error ?st2 = at_error st" "sm_responses ?st2 = sm_responses st @ aq_respond (Ok ()) (take k qs)"
        using o by (simp_all add: put_last_def split: option.split)
      have "task_inv ?st2" unfolding task_inv_def
        by (rule exI [of _ "rr_confirm_offset x"], rule exI [of _ "drop k qs"]) (use f i e k(3) p2 in \<open>auto dest: in_set_dropD\<close>)
      moreover have "acked_ok st (aq_respond (Ok ()) (take k qs)) ?st2"
        using reqs_chain_end [of a "take k qs"] q(2) k(2) i(1) l2
        by (auto simp: acked_ok_def aq_respond_def sm_confirm_offset_def keyed_def dest: in_set_takeD reqs_chain_take)
      ultimately show ?thesis using st' l2 f e x(2) by (auto simp: keyed_def rr_is_writable_def comp_def)
    qed
  qed
qed

lemma set_bt_insert_subset: "set (bt_insert k v m) \<subseteq> insert (k, v) (set m)"
  by (induction k v m rule: bt_insert.induct) auto

section \<open>Interleavings of a stream\<close>

lemma task_inv_cong:
  assumes "task_inv st" and "at_inflight st' = at_inflight st" "sm_requests st' = sm_requests st" "sm_next_offset st' = sm_next_offset st"
    "sm_cache st' = sm_cache st" "at_next_append st' = at_next_append st"
    and "\<And>a qs. at_inflight st = keyed qs \<Longrightarrow> reqs_chain a qs \<Longrightarrow> \<forall>q \<in> set qs. req_ok q \<Longrightarrow> range_part a qs (at_next_append st) st
      \<Longrightarrow> range_part a qs (at_next_append st) st'"
  shows "task_inv st'"
  using assms unfolding task_inv_def by (metis Un_iff reqs_append(1) set_append)

lemma put_part:
  assumes "range_part a qs n st" and "last_range st = Some r" and "rr_metadata r' = rr_metadata r" and "rr_open_for_write r' \<or> rr_is_sealed r'"
    and "rr_confirm_offset r' \<in> bounds a qs"
    and "rr_is_writable r' \<Longrightarrow> rr_next_offset r' = n \<and> n \<in> bounds a qs \<and> rr_confirm_offset r' \<le> n
      \<and> (\<forall>rp \<in> set (rr_replicas r'). on_border a qs n (rp_confirm_offset rp))"
  shows "range_part a qs n (put_last r' st)"
  using assms by (auto simp: range_part_def put_last_def last_range_def bt_wf_insert bt_get_insert split: option.splits)

lemma put_last_fields [simp]:
  "at_inflight (put_last r st) = at_inflight st" "sm_requests (put_last r st) = sm_requests st" "sm_next_offset (put_last r st) = sm_next_offset st"
  "sm_cache (put_last r st) = sm_cache st" "at_next_append (put_last r st) = at_next_append st" "at_error (put_last r st) = at_error st"
  by (simp_all add: put_last_def split: option.split)

lemma task_inv_put:
  assumes "task_inv st" and "last_range st = Some r"
    and "\<And>a qs. at_inflight st = keyed qs \<Longrightarrow> reqs_chain a qs \<Longrightarrow> \<forall>q \<in> set qs. req_ok q \<Longrightarrow> range_part a qs (at_next_append st) st
      \<Longrightarrow> range_part a qs (at_next_append st) (put_last r' st)"
  shows "task_inv (put_last r' st)"
  by (rule task_inv_cong [OF assms(1)]) (use assms(3) in simp_all)

text \<open>
  An offset that an append task of the last range may confirm: the end of a request that was
  handed to the range, which is still in flight or comes before every request that is.
\<close>

definition handed :: "repl_stream \<Rightarrow> u64 \<Rightarrow> bool" where
  "handed st off \<longleftrightarrow> off \<le> at_next_append st \<and> ((\<exists>e \<in> set (at_inflight st). off = aq_base_offset (snd e) + aq_count (snd e))
     \<or> (\<forall>e \<in> set (at_inflight st). off \<le> fst e))"

inductive stream_step :: "repl_stream \<Rightarrow> repl_stream \<Rightarrow> bool" where
  appends: "sm_append batch st = Ok (base, st') \<Longrightarrow> 0 < rb_last_offset_delta batch \<Longrightarrow> rb_last_offset_delta batch < 2 ^ 32 \<Longrightarrow> stream_step st st'"
| tasks: "at_error st = None \<Longrightarrow> \<forall>ev \<in> set evs. env_ok ev \<Longrightarrow> append_task_step fb order now evs e st = (st', res) \<Longrightarrow> stream_step st st'"
| gates: "last_range st = Some r \<Longrightarrow> i < length (rr_replicas r) \<Longrightarrow> append_gate n (rr_replicas r ! i) = (rp, t)
    \<Longrightarrow> stream_step st (put_last (r\<lparr>rr_replicas := (rr_replicas r)[i := rp]\<rparr>) st)"
| replies: "last_range st = Some r \<Longrightarrow> i < length (rr_replicas r) \<Longrightarrow> handed st off \<Longrightarrow> append_reply off n reply (rr_replicas r ! i) = (rp, t)
    \<Longrightarrow> stream_step st (put_last (r\<lparr>rr_replicas := (rr_replicas r)[i := rp]\<rparr>) st)"
| acks: "last_range st = Some r \<Longrightarrow> rr_try_ack r = Ok (r', called)
    \<Longrightarrow> stream_step st (if called then sm_try_ack (put_last r' st) else put_last r' st)"
| closes: "env_ok ev \<Longrightarrow> stream_step st (sm_close ev st)"

lemma handed_border:
  assumes "handed st off" and "at_inflight st = keyed qs" and "reqs_chain a qs" and "at_next_append st \<in> bounds a qs"
  shows "on_border a qs (at_next_append st) off"
proof -
  have "off \<le> a \<or> off \<in> bounds a qs"
  proof (cases "\<exists>e \<in> set (at_inflight st). off = aq_base_offset (snd e) + aq_count (snd e)")
    case True
    then obtain q where q: "q \<in> set qs" "off = aq_base_offset q + aq_count q" using assms(2) by (auto simp: keyed_def)
    then obtain xs ys where x: "qs = xs @ q # ys" by (meson split_list)
    with assms(3) q(2) have "off = reqs_end a (take (Suc (length xs)) qs)" by simp
    moreover have "Suc (length xs) \<le> length qs" using x by simp
    ultimately show ?thesis unfolding bounds_def by blast
  next
    case False
    then have all: "\<forall>q \<in> set qs. off \<le> aq_base_offset q" using assms(1,2) by (auto simp: handed_def keyed_def)
    show ?thesis
    proof (cases qs)
      case Nil
      then show ?thesis using assms(1,4) by (auto simp: handed_def bounds_def)
    next
      case (Cons q qs')
      then show ?thesis using all assms(3) by auto
    qed
  qed
  then show ?thesis using assms(1) by (simp add: on_border_def handed_def)
qed

lemma replica_update_part:
  assumes p: "range_part a qs n st" and l: "last_range st = Some r"
    and rp: "rr_is_writable r \<Longrightarrow> on_border a qs n (rp_confirm_offset rp)"
  shows "range_part a qs n (put_last (r\<lparr>rr_replicas := (rr_replicas r)[i := rp]\<rparr>) st)"
proof (rule put_part [OF p l])
  let ?r = "r\<lparr>rr_replicas := (rr_replicas r)[i := rp]\<rparr>"
  have r: "(rr_open_for_write r \<or> rr_is_sealed r) \<and> rr_confirm_offset r \<in> bounds a qs \<and> (rr_is_writable r \<longrightarrow> rr_next_offset r = n
      \<and> n \<in> bounds a qs \<and> rr_confirm_offset r \<le> n \<and> (\<forall>rp \<in> set (rr_replicas r). on_border a qs n (rp_confirm_offset rp)))"
    using p l by (auto simp: range_part_def last_range_def split: option.splits)
  then show "rr_open_for_write ?r \<or> rr_is_sealed ?r" "rr_confirm_offset ?r \<in> bounds a qs" by (auto simp: rr_is_sealed_def)
  show "rr_next_offset ?r = n \<and> n \<in> bounds a qs \<and> rr_confirm_offset ?r \<le> n \<and> (\<forall>rp \<in> set (rr_replicas ?r). on_border a qs n (rp_confirm_offset rp))"
    if "rr_is_writable ?r" using r rp that by (auto simp: rr_is_writable_def dest!: set_update_subset_insert [THEN subsetD])
qed simp

lemma calculate_confirm_member: "calculate_confirm_offset r = Ok off \<Longrightarrow> \<exists>rp \<in> set (rr_replicas r). rp_confirm_offset rp = off"
proof -
  let ?xs = "map rp_confirm_offset (filter (\<lambda>r. \<not> rp_corrupted r) (rr_replicas r))"
  assume "calculate_confirm_offset r = Ok off"
  then obtain i where "i < length ?xs" "off = rev (sort ?xs) ! i"
    by (auto simp: calculate_confirm_offset_def calculate_confirm_offset0_def nth_opt_def outcome_simps split: if_splits option.splits)
  then have "off \<in> set (rev (sort ?xs))" by (metis length_rev length_sort nth_mem)
  then show ?thesis by auto
qed

lemma try_ack_part:
  assumes p: "range_part a qs n st" and l: "last_range st = Some r" and t: "rr_try_ack r = Ok (r', called)"
  shows "range_part a qs n (put_last r' st)"
proof (rule put_part [OF p l])
  have r: "(rr_open_for_write r \<or> rr_is_sealed r) \<and> rr_confirm_offset r \<in> bounds a qs \<and> (rr_is_writable r \<longrightarrow> rr_next_offset r = n
      \<and> n \<in> bounds a qs \<and> rr_confirm_offset r \<le> n \<and> (\<forall>rp \<in> set (rr_replicas r). on_border a qs n (rp_confirm_offset rp)))"
    using p l by (auto simp: range_part_def last_range_def split: option.splits)
  have ge: "a \<le> rr_confirm_offset r" using r bounds_cut reqs_end_ge by metis
  have up: "on_border a qs n off" if "rr_is_writable r" "calculate_confirm_offset r = Ok off" for off
    using calculate_confirm_member [OF that(2)] r that(1) by auto
  consider (same) "r' = r" | (confirm) off where "rr_is_writable r" "calculate_confirm_offset r = Ok off" "off > rr_confirm_offset r" "r' = r\<lparr>rr_confirm_offset := off\<rparr>"
    | (corrupted) "rr_is_writable r" "r' = mark_corrupted r"
    using t by (auto simp: rr_try_ack_def split: if_splits outcome.splits)
  then have "rr_metadata r' = rr_metadata r \<and> (rr_open_for_write r' \<or> rr_is_sealed r') \<and> rr_confirm_offset r' \<in> bounds a qs
    \<and> (rr_is_writable r' \<longrightarrow> rr_next_offset r' = n \<and> n \<in> bounds a qs \<and> rr_confirm_offset r' \<le> n
      \<and> (\<forall>rp \<in> set (rr_replicas r'). on_border a qs n (rp_confirm_offset rp)))"
  proof cases
    case confirm
    with up [OF confirm(1,2)] ge r show ?thesis by (auto simp: on_border_def rr_is_writable_def rr_is_sealed_def)
  next
    case corrupted
    with r show ?thesis by (auto simp: rr_is_writable_def mark_corrupted_def)
  qed (use r in simp)
  then show "rr_metadata r' = rr_metadata r" "rr_open_for_write r' \<or> rr_is_sealed r'" "rr_confirm_offset r' \<in> bounds a qs"
    "rr_is_writable r' \<Longrightarrow> rr_next_offset r' = n \<and> n \<in> bounds a qs \<and> rr_confirm_offset r' \<le> n
      \<and> (\<forall>rp \<in> set (rr_replicas r'). on_border a qs n (rp_confirm_offset rp))" by auto
qed

lemma seal_part:
  assumes ev: "env_ok ev" and p: "range_part a qs n st" and l: "last_range st = Some r"
  shows "range_part a qs n (put_last (fst (rr_seal (ev_alive ev) (ev_pd_seal ev) (ev_servers ev) r)) st)"
proof -
  have r: "(rr_open_for_write r \<or> rr_is_sealed r) \<and> rr_confirm_offset r \<in> bounds a qs \<and> (rr_is_writable r \<longrightarrow> rr_next_offset r = n
      \<and> n \<in> bounds a qs \<and> rr_confirm_offset r \<le> n \<and> (\<forall>rp \<in> set (rr_replicas r). on_border a qs n (rp_confirm_offset rp)))"
    using p l by (auto simp: range_part_def last_range_def split: option.splits)
  obtain r' res where s: "rr_seal (ev_alive ev) (ev_pd_seal ev) (ev_servers ev) r = (r', res)" "rr_metadata r' = rr_metadata r"
    "rr_open_for_write r' = rr_open_for_write r" "rr_confirm_offset r' = rr_confirm_offset r" "rr_is_sealed r \<longrightarrow> rr_is_sealed r'"
    "case res of None \<Rightarrow> rr_status r' = rr_status r \<and> rr_status r \<noteq> 0 | Some (Ok e) \<Rightarrow> e = rr_confirm_offset r \<and> rr_is_sealed r'
       | Some (Err x) \<Rightarrow> r' = r | Some Panic \<Rightarrow> False"
    using rr_seal_known [of r "ev_pd_seal ev"] r ev by (metis env_ok_def)
  then have w: "r' = r \<or> \<not> rr_is_writable r'" using sealed_not_writable by (auto simp: rr_is_writable_def split: option.splits outcome.splits)
  have "range_part a qs n (put_last r' st)" by (rule put_part [OF p l]) (use r s w in auto)
  with s(1) show ?thesis by simp
qed

lemma task_inv_fail: "task_inv st \<Longrightarrow> task_inv (fail_inflight e st)"
proof -
  have c: "reqs_chain a (map taken qs) = reqs_chain a qs" "reqs_end a (map taken qs) = reqs_end a qs" for a qs
    by (induction qs arbitrary: a) (auto simp: taken_def aq_count_def)
  have b: "bounds a (map taken qs) = bounds a qs" for a qs by (simp add: bounds_def take_map c)
  have k: "map (\<lambda>(k, q). (k, taken q)) (keyed qs) = keyed (map taken qs)" for qs by (simp add: keyed_def taken_def)
  have ro: "req_ok (taken q) = req_ok q" for q by (simp add: req_ok_def taken_def)
  assume "task_inv st"
  then obtain a qs where i: "at_inflight st = keyed qs" "reqs_chain a (qs @ sm_requests st)" "sm_next_offset st = reqs_end a (qs @ sm_requests st)"
    "sm_next_offset st < 2 ^ 64" "\<forall>q \<in> set (qs @ sm_requests st). req_ok q" "hc_inv (sm_cache st)" "range_part a qs (at_next_append st) st"
    by (auto simp: task_inv_def)
  have "range_part a (map taken qs) (at_next_append st) (fail_inflight e st)"
    using i(7) by (simp add: fail_inflight_def) (auto simp: range_part_def b on_border_def split: option.splits)
  then show ?thesis unfolding task_inv_def using i
    by (intro exI [of _ a] exI [of _ "map taken qs"]) (auto simp: fail_inflight_def c k ro)
qed

lemma task_inv_receive:
  assumes inv: "task_inv st" and q: "sm_requests st = q # rest"
  shows "task_inv (st\<lparr>sm_requests := rest, at_inflight := bt_insert (aq_base_offset q) q (at_inflight st)\<rparr>)"
proof -
  obtain a qs where i: "at_inflight st = keyed qs" "reqs_chain a (qs @ q # rest)" "sm_next_offset st = reqs_end a (qs @ q # rest)"
    "sm_next_offset st < 2 ^ 64" "\<forall>q \<in> set (qs @ q # rest). req_ok q" "hc_inv (sm_cache st)" "range_part a qs (at_next_append st) st"
    using inv q by (auto simp: task_inv_def)
  have "bt_insert (aq_base_offset q) q (at_inflight st) = keyed (qs @ [q])" unfolding i(1) by (rule keyed_insert) (use i(2,5) in auto)
  moreover have "bounds a qs \<subseteq> bounds a (qs @ [q])"
  proof
    fix n assume "n \<in> bounds a qs"
    then obtain k where k: "k \<le> length qs" "n = reqs_end a (take k (qs @ [q]))" using bounds_cut by force
    moreover have "k \<le> length (qs @ [q])" using k(1) by simp
    ultimately show "n \<in> bounds a (qs @ [q])" unfolding bounds_def by blast
  qed
  moreover from this i(7) have "range_part a (qs @ [q]) (at_next_append st) st" by (auto simp: range_part_def on_border_def split: option.splits)
  ultimately show ?thesis using i unfolding task_inv_def
    by (intro exI [of _ a] exI [of _ "qs @ [q]"]) auto
qed

lemma append_task_step_ok:
  assumes inv: "task_inv st" and err: "at_error st = None" and evs: "\<forall>ev \<in> set evs. env_ok ev"
    and r: "append_task_step fb order now evs e st = (st', res)"
  shows "res \<noteq> Some Panic \<and> task_inv st' \<and> (\<exists>st1 new. task_inv st1 \<and> sm_responses st' = sm_responses st @ new \<and> acked_ok st1 new st'
    \<and> set (at_inflight st1) \<subseteq> set (at_inflight st) \<union> (\<lambda>q. (aq_base_offset q, q)) ` set (sm_requests st))"
proof -
  have round: "res \<noteq> Some Panic \<and> task_inv st' \<and> (\<exists>new. sm_responses st' = sm_responses st1 @ new \<and> acked_ok st1 new st')"
    if i1: "task_inv st1" and r1: "task_round fb order now evs st1 = (st', res)" for st1
  proof (cases "sm_closed st1")
    case True
    then have "st' = task_end st1" "res = Some (Ok ())" using r1 by (auto simp: task_round_def)
    moreover have "task_inv (task_end st1)" using task_inv_fail [OF i1, of already_closed]
      by (rule task_inv_cong) (auto simp: task_end_def)
    ultimately show ?thesis by (auto simp: task_end_def fail_inflight_def acked_ok_def aq_respond_def)
  next
    case False
    obtain st2 res2 where t: "append_task0 fb order now evs st1 = (st2, res2)" by (metis surj_pair)
    note t1 = append_task0_ok [OF i1 evs t]
    show ?thesis
    proof (cases "\<exists>x. res2 = Some (Err x)")
      case True
      then obtain x where x: "res2 = Some (Err x)" by blast
      then have st': "st' = fail_inflight x (st2\<lparr>at_error := Some x\<rparr>)" "res = Some (Ok ())" using r1 t False by (auto simp: task_round_def)
      have i2: "task_inv st2" using t1 by blast
      then have "task_inv (st2\<lparr>at_error := Some x\<rparr>)" by (rule task_inv_cong) simp_all
      then have "task_inv st'" using st' task_inv_fail by simp
      moreover obtain new where new: "sm_responses st2 = sm_responses st1 @ new" "acked_ok st1 new st2" using t1 by blast
      have "sm_confirm_offset st' = sm_confirm_offset st2" using st'(1) by (simp add: sm_confirm_offset_def fail_inflight_def)
      then have "acked_ok st1 (new @ aq_respond (Err x) (map snd (at_inflight st2))) st'" using new(2) by (auto simp: acked_ok_def aq_respond_def)
      moreover have "sm_responses st' = sm_responses st1 @ new @ aq_respond (Err x) (map snd (at_inflight st2))"
        using st'(1) new(1) by (simp add: fail_inflight_def)
      ultimately show ?thesis using st'(2) by blast
    next
      case False2: False
      then have "st' = st2" "res = res2" using r1 t False by (auto simp: task_round_def split: option.splits outcome.splits)
      then show ?thesis using t1 by blast
    qed
  qed
  show ?thesis
  proof (cases e)
    case RecvRequest
    show ?thesis
    proof (cases "sm_requests st")
      case Nil
      then show ?thesis using RecvRequest r inv by (auto simp: append_task_step_def acked_ok_def)
    next
      case (Cons q rest)
      let ?st = "st\<lparr>sm_requests := rest, at_inflight := bt_insert (aq_base_offset q) q (at_inflight st)\<rparr>"
      have i1: "task_inv ?st" by (rule task_inv_receive [OF inv Cons])
      have "task_round fb order now evs ?st = (st', res)" using RecvRequest r Cons err by (simp add: append_task_step_def)
      from round [OF i1 this] obtain new where "res \<noteq> Some Panic" "task_inv st'" "sm_responses st' = sm_responses ?st @ new" "acked_ok ?st new st'" by blast
      moreover have "set (bt_insert (aq_base_offset q) q (at_inflight st)) \<subseteq> insert (aq_base_offset q, q) (set (at_inflight st))"
        by (rule set_bt_insert_subset)
      ultimately show ?thesis using i1 Cons by (intro conjI exI [of _ ?st] exI [of _ new]) auto
    qed
  next
    case RecvSignal
    show ?thesis
    proof (cases "sm_signals st = 0")
      case True
      then show ?thesis using RecvSignal r inv by (auto simp: append_task_step_def acked_ok_def)
    next
      case False
      let ?st = "st\<lparr>sm_signals := sm_signals st - 1\<rparr>"
      have i1: "task_inv ?st" using inv by (rule task_inv_cong) auto
      have "task_round fb order now evs ?st = (st', res)" using RecvSignal r False by (simp add: append_task_step_def)
      from round [OF i1 this] show ?thesis using i1 by (intro conjI) (force, force, intro exI [of _ ?st], auto)
    qed
  next
    case RecvShutdown
    then have "st' = task_end st" "res = Some (Ok ())" using r by (auto simp: append_task_step_def)
    moreover have "task_inv (task_end st)" using task_inv_fail [OF inv, of already_closed]
      by (rule task_inv_cong) (auto simp: task_end_def)
    ultimately show ?thesis using inv by (intro conjI exI [of _ st]) (auto simp: task_end_def fail_inflight_def acked_ok_def aq_respond_def)
  qed
qed

lemma sm_append_inv:
  assumes inv: "task_inv st" and r: "sm_append batch st = Ok (base, st')" "0 < rb_last_offset_delta batch" "rb_last_offset_delta batch < 2 ^ 32"
  shows "task_inv st'"
proof -
  obtain a qs where i: "at_inflight st = keyed qs" "reqs_chain a (qs @ sm_requests st)" "sm_next_offset st = reqs_end a (qs @ sm_requests st)"
    "\<forall>q \<in> set (qs @ sm_requests st). req_ok q" "hc_inv (sm_cache st)" "range_part a qs (at_next_append st) st"
    using inv by (auto simp: task_inv_def)
  let ?q = "aq_new (sm_next_offset st) batch"
  have st': "st' = st\<lparr>sm_next_offset := sm_next_offset st + rb_last_offset_delta batch, sm_requests := sm_requests st @ [?q]\<rparr>"
    "sm_next_offset st + rb_last_offset_delta batch < 2 ^ 64"
    using r(1) by (auto simp: sm_append_def Let_def split: if_splits)
  have "req_ok ?q" "aq_count ?q = rb_last_offset_delta batch" "aq_base_offset ?q = sm_next_offset st" using r(2,3) by (simp_all add: req_ok_def aq_new_def aq_count_def)
  then show ?thesis using i st' unfolding task_inv_def by (intro exI [of _ a] exI [of _ qs]) auto
qed

lemma stream_step_inv:
  assumes "stream_step st st'" and "task_inv st"
  shows "task_inv st'"
  using assms(1)
proof cases
  case (appends batch base)
  then show ?thesis using sm_append_inv assms(2) by blast
next
  case (tasks evs fb order now e res)
  then show ?thesis using append_task_step_ok assms(2) by blast
next
  case (gates r i n rp t)
  have c: "rp_confirm_offset rp = rp_confirm_offset (rr_replicas r ! i)" using gates(4) by (auto simp: append_gate_def split: if_splits)
  show ?thesis unfolding gates(1)
  proof (rule task_inv_put [OF assms(2) gates(2)], rule replica_update_part [OF _ gates(2)])
    fix a qs assume "range_part a qs (at_next_append st) st" "rr_is_writable r"
    then show "on_border a qs (at_next_append st) (rp_confirm_offset rp)"
      using gates(2,3) c by (auto simp: range_part_def last_range_def split: option.splits)
  qed
next
  case (replies r i off n reply rp t)
  have c: "rp_confirm_offset rp = rp_confirm_offset (rr_replicas r ! i) \<or> rp_confirm_offset rp = off"
    using replies(5) by (auto simp: append_reply_positive max_def split: if_splits)
  show ?thesis unfolding replies(1)
  proof (rule task_inv_put [OF assms(2) replies(2)], rule replica_update_part [OF _ replies(2)])
    fix a qs assume q: "at_inflight st = keyed qs" "reqs_chain a qs" and p: "range_part a qs (at_next_append st) st" "rr_is_writable r"
    have "on_border a qs (at_next_append st) (rp_confirm_offset (rr_replicas r ! i))"
      using p replies(2,3) by (auto simp: range_part_def last_range_def split: option.splits)
    moreover have "on_border a qs (at_next_append st) off"
      by (rule handed_border [OF replies(4) q range_part_writable(2) [OF p(1) replies(2) p(2)]])
    ultimately show "on_border a qs (at_next_append st) (rp_confirm_offset rp)" using c by auto
  qed
next
  case (acks r r' called)
  have p: "task_inv (put_last r' st)"
    by (rule task_inv_put [OF assms(2) acks(2)]) (rule try_ack_part [OF _ acks(2,3)])
  then have "task_inv (sm_try_ack (put_last r' st))" by (rule task_inv_cong) (simp_all add: sm_try_ack_def)
  with p acks(1) show ?thesis by simp
next
  case (closes ev)
  let ?st = "st\<lparr>sm_closed := True\<rparr>"
  have i: "task_inv ?st" using assms(2) by (rule task_inv_cong) simp_all
  show ?thesis
  proof (cases "last_range ?st")
    case None
    with i closes(1) show ?thesis by (simp add: sm_close_def)
  next
    case (Some r)
    have "task_inv (put_last (fst (rr_seal (ev_alive ev) (ev_pd_seal ev) (ev_servers ev) r)) ?st)"
      by (rule task_inv_put [OF i Some]) (rule seal_part [OF closes(2) _ Some])
    with Some closes(1) show ?thesis by (simp add: sm_close_def)
  qed
qed

lemma stream_steps_inv: "stream_step\<^sup>*\<^sup>* st st' \<Longrightarrow> task_inv st \<Longrightarrow> task_inv st'"
  by (induction rule: rtranclp_induct) (auto intro: stream_step_inv)

subsection \<open>Opening\<close>

lemma seal_replicas_meta: "rr_metadata (fst (seal_replicas alive servers r)) = rr_metadata r"
  by (auto simp: seal_replicas_def Let_def split: prod.splits outcome.splits)

lemma rr_seal_meta: "rr_metadata (fst (rr_seal alive pd servers r)) = rr_metadata r"
  using seal_replicas_meta [of alive servers "mark_sealing r"]
  by (auto simp: rr_seal_def seal_begin_def seal_pd_def Let_def split: seal_next.splits prod.splits outcome.splits)

lemma loaded_ranges_wf: "bt_wf m \<Longrightarrow> bt_wf (fold range_key_insert ms m)"
  by (induction ms arbitrary: m) (auto simp: range_key_insert_def bt_wf_insert)

lemma loaded_ranges_get:
  assumes "bt_wf m" and "bt_get k (fold range_key_insert ms m) = Some r"
  shows "bt_get k m = Some r \<or> (\<exists>x \<in> set ms. r = rr_new x False)"
  using assms
proof (induction ms arbitrary: m)
  case (Cons x ms)
  have "bt_wf (range_key_insert x m)" using Cons(2) by (simp add: range_key_insert_def bt_wf_insert)
  from Cons(1) [OF this] Cons(2,3) show ?case by (auto simp: range_key_insert_def bt_get_insert split: if_splits)
qed simp

lemma sm_open_inv:
  assumes o: "sm_open alive up (Ok ms) ev (sm_new sid epoch hot) = (st, Some (Ok ()))" and hot: "hc_inv hot"
    and ms: "\<forall>m \<in> set ms. 0 \<le> rm_index m \<and> rm_index m < 2 ^ 31" and n: "sm_next_offset st < 2 ^ 64"
  shows "task_inv st \<and> at_error st = None"
proof -
  let ?rs = "fold range_key_insert (sort_key rm_index ms) bt_empty"
  have w: "bt_wf ?rs" by (rule loaded_ranges_wf) (simp add: bt_empty_def)
  obtain u where u: "up = Ok u" "alive" using o by (cases up) (auto simp: sm_open_def split: if_splits)
  show ?thesis
  proof (cases "bt_last ?rs")
    case None
    with o u have "st = (sm_new sid epoch hot)\<lparr>sm_ranges := ?rs, sm_start_offset := 0\<rparr>"
      by (auto simp: sm_open_def sm_load_def sm_new_def Let_def bt_last_def bt_first_def split: if_splits)
    then show ?thesis using hot w by (auto simp: task_inv_def sm_new_def bt_empty_def keyed_def range_part_def intro: exI [of _ 0] exI [of _ "[]"])
  next
    case (Some e)
    obtain k r where e: "e = (k, r)" by (cases e)
    have kr: "bt_get k ?rs = Some r" using bt_last_Some [OF Some] w e by (simp add: bt_get_Some_iff)
    then obtain m where m: "m \<in> set ms" "r = rr_new m False" using loaded_ranges_get [of bt_empty k "sort_key rm_index ms" r] by (auto simp: bt_empty_def bt_get_def)
    obtain r' x where s: "rr_seal (ev_alive ev) (ev_pd_seal ev) (ev_servers ev) r = (r', Some (Ok x))"
      and st: "at_inflight st = []" "sm_requests st = []" "sm_next_offset st = x" "sm_cache st = hot" "at_next_append st = 0" "at_error st = None"
        "sm_ranges st = bt_insert k r' ?rs" "sm_last_range st = Some k"
      using o u Some e by (auto simp: sm_open_def sm_load_def sm_new_def Let_def put_last_def bt_empty_def split: prod.splits option.splits outcome.splits)
    have r': "rr_is_sealed r'" "\<not> rr_is_writable r'" "rr_confirm_offset r' = x" using rr_seal_results(1) [OF s] by blast+
    have "rr_metadata r' = m" using rr_seal_meta [of "ev_alive ev" "ev_pd_seal ev" "ev_servers ev" r] s m(2) by (simp add: rr_new_def Let_def)
    then have "range_part x [] 0 st" using st r' ms m(1) w bounds_start [of x "[]"] by (simp add: range_part_def bt_wf_insert bt_get_insert)
    then show ?thesis using st hot n by (auto simp: task_inv_def keyed_def intro: exI [of _ x] exI [of _ "[]"])
  qed
qed


definition sample_env :: env_round where
  "sample_env = \<lparr>ev_alive = True, ev_pd_seal = Ok, ev_servers = (\<lambda>_. Ok),
     ev_create = (\<lambda>m. Ok (m\<lparr>rm_end := None, rm_index := 0, rm_replica := rm_replica sample_range_meta, rm_replica_count := 3, rm_ack_count := 2\<rparr>))\<rparr>"

lemma sample_env_ok: "env_ok sample_env"
  by (simp add: env_ok_def sample_env_def)

definition sample_stream :: repl_stream where
  "sample_stream = sm_new 1 0 sample_hot"

definition sample_appended :: repl_stream where
  "sample_appended = sample_stream\<lparr>sm_next_offset := 2, sm_requests := [aq_new 0 sample_batch]\<rparr>"

lemma sample_delta: "rb_last_offset_delta sample_batch = 2"
  by (simp add: rb_last_offset_delta_def sample_batch_def Record_Batch.sample_meta_def)


text \<open>
  Deleting a stream forgets its ranges but not where its next append starts. A request that
  reaches the append task afterwards is handed to a new range that starts at 0, whose check of
  the base offset panics, unless the stream was still empty.
\<close>

theorem append_after_delete_panics:
  assumes st: "sm_requests st = q # rest" "at_inflight st = []" "at_next_append st \<le> aq_base_offset q" "0 < aq_base_offset q"
    "at_error st = None" "\<not> sm_closed st"
    and ev: "env_ok ev" "ev_alive ev" "ev_create ev (rm_new (sm_id st) 0 (sm_epoch st) 0 None) = Ok m"
    and del: "sm_delete alive r st = (st1, res)"
  shows "snd (append_task_step fb order now (ev # evs) RecvRequest st1) = Some Panic"
proof -
  have m: "rm_start m = 0" "rm_end m = None" using ev(1,3) by (auto simp: env_ok_def rm_new_def rm_new_range_def)
  let ?r = "rr_new m True"
  let ?st = "st1\<lparr>sm_requests := rest, at_inflight := [(aq_base_offset q, q)]\<rparr>"
  let ?st2 = "?st\<lparr>sm_ranges := [(0, ?r)], sm_last_range := Some 0\<rparr>"
  have st1: "sm_ranges st1 = []" "sm_last_range st1 = None" "sm_requests st1 = q # rest" "at_inflight st1 = []" "at_error st1 = None"
    "\<not> sm_closed st1" "at_next_append st1 = at_next_append st" "sm_id st1 = sm_id st" "sm_epoch st1 = sm_epoch st"
    using del st by (auto simp: sm_delete_def bt_empty_def)
  have w: "rr_is_writable ?r" "rr_next_offset ?r = 0" "rr_confirm_offset ?r = 0" using m by (simp_all add: rr_new_def Let_def rr_is_writable_def)
  have "new_range ev 0 0 ?st = (?st2, Ok ())"
    using ev st1 by (simp add: new_range_def rr_create_def to_signed_def)
  moreover have "get_writable_range evs None ?st2 = (?st2, Some (Ok (?r, None)))"
    using w(1) by (cases evs) (simp_all add: last_range_def bt_get_def)
  ultimately have g: "get_writable_range (ev # evs) None ?st = (?st2, Some (Ok (?r, None)))"
    using st1 by (simp add: last_range_def)
  have "append_all fb order now [q] (at_next_append ?st2, ?r, sm_cache ?st2) = Panic"
    using w(2) st(4) by (simp add: rr_append_def Let_def)
  then have "snd (ack_and_append fb order now ?r ?st2) = Panic" using w(3) st(3) st1 by (simp add: ack_and_append_def Let_def)
  then obtain st3 where "ack_and_append fb order now ?r ?st2 = (st3, Panic)" by (metis prod.collapse)
  then have "append_task0 fb order now (ev # evs) ?st = (st3, Some Panic)" using g by (simp add: append_task0_def del: get_writable_range.simps)
  then show ?thesis using st1 by (simp add: append_task_step_def task_round_def)
qed

theorem append_after_delete_panics_witness:
  "snd (append_task_step sample_fb (\<lambda>_. []) 0 [sample_env] RecvRequest
     (fst (sm_delete True (Ok ()) (sample_stream\<lparr>sm_requests := [aq_new 5 sample_batch], at_next_append := 5\<rparr>)))) = Some Panic"
proof -
  let ?st = "sample_stream\<lparr>sm_requests := [aq_new 5 sample_batch], at_next_append := 5\<rparr>"
  obtain st1 res where d: "sm_delete True (Ok ()) ?st = (st1, res)" by (metis surj_pair)
  show ?thesis
    using append_after_delete_panics [OF _ _ _ _ _ _ sample_env_ok _ _ d] d
    by (simp add: sample_stream_def sm_new_def bt_empty_def aq_new_def sample_env_def)
qed

end
