(* ===== verification/Object_Stream.thy ===== *)
theory Object_Stream
  imports Replication_Stream
begin

text \<open>
  Reading records that were moved to object storage: the known objects and position hints of a
  stream and the stream that completes its records from objects,
  \<open>src/components/replication/src/stream/object_stream.rs\<close>, and the reader of objects,
  \<open>object_reader.rs\<close>. The object store is a parameter \<open>store\<close> that maps a key and a range of
  positions to bytes, and the inner stream is a parameter that fetches and may change its state.
  The loops of \<open>fetch0\<close> end only if the reader makes progress, so they are
  \<open>partial_function (option)\<close>.
\<close>

section \<open>Model\<close>

definition OBJECT_OPERATOR_UNINITIALIZED :: error_code where "OBJECT_OPERATOR_UNINITIALIZED = 1474"

subsection \<open>Known objects\<close>

record object_metadata_manager =
  mg_metadata_map :: "(u64, object_metadata) btree"
  mg_offset_to_position :: "(u64, u32) btree"

definition mg_new :: object_metadata_manager where
  "mg_new = \<lparr>mg_metadata_map = bt_empty, mg_offset_to_position = bt_empty\<rparr>"

definition or_insert :: "'k :: linorder \<Rightarrow> 'v \<Rightarrow> ('k, 'v) btree \<Rightarrow> ('k, 'v) btree" where
  "or_insert k v m = (if bt_get k m = None then bt_insert k v m else m)"

definition add_object_metadata :: "object_metadata \<Rightarrow> object_metadata_manager \<Rightarrow> object_metadata_manager" where
  "add_object_metadata metadata mg = mg\<lparr>mg_metadata_map := or_insert (om_start_offset metadata) metadata (mg_metadata_map mg)\<rparr>"

definition add_position_hint :: "u64 \<Rightarrow> u32 \<Rightarrow> object_metadata_manager \<Rightarrow> object_metadata_manager" where
  "add_position_hint start_offset position mg = mg\<lparr>mg_offset_to_position := or_insert start_offset position (mg_offset_to_position mg)\<rparr>"

definition position_hint :: "u64 \<Rightarrow> object_metadata \<Rightarrow> object_metadata_manager \<Rightarrow> u32 option" where
  "position_hint start_offset object mg =
     (case bt_upper_bound start_offset (mg_offset_to_position mg) of
        Some (offset, position) \<Rightarrow> if offset \<ge> om_start_offset object then Some position else None
      | None \<Rightarrow> None)"

definition mg_find_first :: "u64 \<Rightarrow> u64 option \<Rightarrow> u32 \<Rightarrow> object_metadata_manager \<Rightarrow> (es_error, (object_metadata \<times> u32 \<times> u32) option) outcome" where
  "mg_find_first start_offset end_offset size_hint mg =
     (case bt_upper_bound start_offset (mg_metadata_map mg) of
        None \<Rightarrow> Ok None
      | Some (_, object) \<Rightarrow>
          if om_end_offset object \<le> start_offset then Ok None
          else bind_outcome (find_bound object start_offset end_offset size_hint (position_hint start_offset object mg)) (\<lambda>bound.
            case bound of Some pos \<Rightarrow> Ok (Some (object, pos)) | None \<Rightarrow> Panic))"

subsection \<open>The object reader\<close>

type_synonym object_bytes = "string \<Rightarrow> nat \<Rightarrow> nat \<Rightarrow> (unit, bytes) outcome"

function read0 :: "fb_meta \<Rightarrow> object_bytes \<Rightarrow> string \<Rightarrow> u32 \<Rightarrow> u64 \<Rightarrow> u64 \<Rightarrow> bytes \<Rightarrow> (es_error, records_block list) outcome" where
  "read0 fb store object_key object_data_len start_pos end_pos all_bytes =
     (if start_pos \<ge> end_pos then Err (es_unexpected ''read to object end still cannot read a complete RecordBatch'')
      else case store object_key start_pos end_pos of
             Ok read_bytes \<Rightarrow>
               (case parse_blocks fb (all_bytes @ read_bytes) (1024 * 1024) of
                  Ok blocks \<Rightarrow>
                    if blocks = []
                    then read0 fb store object_key object_data_len end_pos (min (end_pos + end_pos - start_pos) object_data_len) (all_bytes @ read_bytes)
                    else Ok blocks
                | Err _ \<Rightarrow> Err (es_new OBJECT_PARSE_ERROR ''parse block fail'')
                | Panic \<Rightarrow> Panic)
           | _ \<Rightarrow> Err (es_new OBJECT_PARSE_ERROR ''parse block fail''))"
  by pat_completeness auto
termination
  by (relation "measure (\<lambda>(_, _, _, len, s, e, _). if s \<ge> e then 0 else Suc (len + 1 - e))") auto

definition object_read :: "fb_meta \<Rightarrow> object_bytes option \<Rightarrow> object_metadata \<Rightarrow> u32 \<times> u32 \<Rightarrow> (es_error, records_block list) outcome" where
  "object_read fb op object pos =
     (case op of
        None \<Rightarrow> Err (es_new OBJECT_OPERATOR_UNINITIALIZED ''Operator is not initialized'')
      | Some store \<Rightarrow>
          (case om_key object of
             None \<Rightarrow> Panic
           | Some k \<Rightarrow> read0 fb store k (om_data_len object) (fst pos) (snd pos) []))"

definition trim_ends :: "u64 \<Rightarrow> u64 option \<Rightarrow> records_block list \<Rightarrow> records_block list" where
  "trim_ends start_offset end_offset blocks =
     (let blocks = blocks[0 := blk_trim start_offset end_offset (blocks ! 0)] in
      if length blocks > 1 then blocks[length blocks - 1 := blk_trim start_offset end_offset (last blocks)] else blocks)"

fun add_hints :: "u64 \<Rightarrow> u32 \<Rightarrow> records_block list \<Rightarrow> object_metadata_manager \<Rightarrow> object_metadata_manager" where
  "add_hints object_end position [] mg = mg"
| "add_hints object_end position (block # blocks) mg =
     (let end_offset = blk_end_offset block;
          position = (if end_offset = object_end then 0 else position)
      in add_hints object_end (position + blk_size block) blocks (add_position_hint end_offset position mg))"

definition read_first_object_blocks :: "fb_meta \<Rightarrow> object_bytes option \<Rightarrow> u64 \<Rightarrow> u64 option \<Rightarrow> u32 \<Rightarrow> object_metadata_manager
    \<Rightarrow> object_metadata_manager \<times> (es_error, records_block list) outcome" where
  "read_first_object_blocks fb op start_offset end_offset size_hint mg =
     (case mg_find_first start_offset end_offset size_hint mg of
        Ok None \<Rightarrow> (mg, Err (es_new OBJECT_NOT_FOUND ''Cannot find object for the range.''))
      | Ok (Some (object, pos)) \<Rightarrow>
          if snd pos < fst pos then (mg, Panic)
          else (case object_read fb op object pos of
                  Ok blocks \<Rightarrow>
                    if blocks = [] then (mg, Err (es_new NO_MATCH_RECORDS_IN_OBJECT ''Object reader return empty block''))
                    else let blocks = trim_ends start_offset end_offset blocks
                         in (add_hints (om_end_offset object) (fst pos) blocks mg, Ok blocks)
                | r \<Rightarrow> (mg, r))
      | Err e \<Rightarrow> (mg, Err e)
      | Panic \<Rightarrow> (mg, Panic))"

subsection \<open>Fetching\<close>

definition merge_blocks :: "records_block list \<Rightarrow> records_block" where
  "merge_blocks blocks =
     (if blocks = [] then empty_block (2 ^ 64 - 1)
      else let records = concat (map blk_records blocks)
           in if records = [] then empty_block (blk_end_offset (last blocks)) else blk_new records)"

fun check_sequence :: "u64 option \<Rightarrow> records_block list \<Rightarrow> (es_error, unit) outcome" where
  "check_sequence expect [] = Ok ()"
| "check_sequence expect (b # bs) =
     (case expect of
        Some n \<Rightarrow>
          if blk_start_offset b \<noteq> n then Err (es_new RECORDS_BLOCKS_NOT_CONTINUOUS ''Blocks is not continuous'')
          else check_sequence (Some (blk_end_offset b)) bs
      | None \<Rightarrow> check_sequence (Some (blk_end_offset b)) bs)"

definition check_records_sequence :: "records_block list \<Rightarrow> (es_error, unit) outcome" where
  "check_records_sequence = check_sequence None"

definition dataset_blocks :: "fetch_dataset \<Rightarrow> records_block list \<times> object_metadata list" where
  "dataset_blocks ds = (case ds of Full bs \<Rightarrow> (bs, []) | Partial bs \<Rightarrow> (bs, []) | Mixin bs os \<Rightarrow> (bs, os) | Overflow bs \<Rightarrow> (bs, []))"

record fetch_state =
  ft_manager :: object_metadata_manager
  ft_start_offset :: u64
  ft_remaining_size :: u32
  ft_final_blocks :: "records_block list"

partial_function (option) object_loop :: "fb_meta \<Rightarrow> object_bytes option \<Rightarrow> u64 \<Rightarrow> fetch_state \<Rightarrow> (fetch_state \<times> (es_error, unit) outcome) option" where
  "object_loop fb op blocks_start_offset st =
     (if ft_start_offset st \<ge> blocks_start_offset \<or> ft_remaining_size st = 0 then Some (st, Ok ())
      else case read_first_object_blocks fb op (ft_start_offset st) None (ft_remaining_size st) (ft_manager st) of
             (mg, Ok object_blocks) \<Rightarrow>
               if object_blocks = [] then Some (st\<lparr>ft_manager := mg\<rparr>, Err (es_new NO_MATCH_RECORDS_IN_OBJECT ''Object blocks is empty''))
               else object_loop fb op blocks_start_offset
                      (st\<lparr>ft_manager := mg, ft_start_offset := blk_end_offset (last object_blocks),
                          ft_remaining_size := ft_remaining_size st - min (sum_list (map blk_size object_blocks)) (ft_remaining_size st),
                          ft_final_blocks := ft_final_blocks st @ object_blocks\<rparr>)
           | (mg, Err e) \<Rightarrow> Some (st\<lparr>ft_manager := mg\<rparr>, Err e)
           | (mg, Panic) \<Rightarrow> Some (st\<lparr>ft_manager := mg\<rparr>, Panic))"

definition add_local :: "records_block \<Rightarrow> fetch_state \<Rightarrow> fetch_state" where
  "add_local records_block st =
     (if blk_start_offset records_block \<le> ft_start_offset st
      then let b = blk_trim (ft_start_offset st) None records_block in
           if blk_is_empty b then st
           else st\<lparr>ft_remaining_size := ft_remaining_size st - min (blk_size b) (ft_remaining_size st), ft_start_offset := blk_end_offset b,
                   ft_final_blocks := ft_final_blocks st @ [b]\<rparr>
      else st)"

partial_function (option) fetch_rounds :: "fb_meta \<Rightarrow> object_bytes option \<Rightarrow> ('s \<Rightarrow> u64 \<Rightarrow> u64 \<Rightarrow> u32 \<Rightarrow> 's \<times> (es_error, fetch_dataset) outcome)
    \<Rightarrow> u64 \<Rightarrow> 's \<Rightarrow> fetch_state \<Rightarrow> ('s \<times> fetch_state \<times> (es_error, unit) outcome) option" where
  "fetch_rounds fb op inner end_offset s st =
     (case inner s (ft_start_offset st) end_offset (ft_remaining_size st) of
        (s, Ok ds) \<Rightarrow>
          (case dataset_blocks ds of
             (records_blocks, objects) \<Rightarrow>
               let st = st\<lparr>ft_manager := fold add_object_metadata objects (ft_manager st)\<rparr>;
                   records_block = merge_blocks records_blocks
               in (case object_loop fb op (blk_start_offset records_block) st of
                     None \<Rightarrow> None
                   | Some (st, Ok _) \<Rightarrow>
                       let st = add_local records_block st in
                       if ft_start_offset st \<ge> end_offset \<or> ft_remaining_size st = 0 then Some (s, st, Ok ())
                       else fetch_rounds fb op inner end_offset s st
                   | Some (st, Err e) \<Rightarrow> Some (s, st, Err e)
                   | Some (st, Panic) \<Rightarrow> Some (s, st, Panic)))
      | (s, Err e) \<Rightarrow> Some (s, st, Err e)
      | (s, Panic) \<Rightarrow> Some (s, st, Panic))"

definition os_fetch0 :: "fb_meta \<Rightarrow> object_bytes option \<Rightarrow> ('s \<Rightarrow> u64 \<Rightarrow> u64 \<Rightarrow> u32 \<Rightarrow> 's \<times> (es_error, fetch_dataset) outcome)
    \<Rightarrow> u64 \<Rightarrow> u64 \<Rightarrow> u32 \<Rightarrow> 's \<times> object_metadata_manager \<Rightarrow> (('s \<times> object_metadata_manager) \<times> (es_error, fetch_dataset) outcome) option" where
  "os_fetch0 fb op inner start_offset end_offset batch_max_bytes = (\<lambda>(s, mg).
     case fetch_rounds fb op inner end_offset s
            \<lparr>ft_manager = mg, ft_start_offset = start_offset, ft_remaining_size = batch_max_bytes, ft_final_blocks = []\<rparr> of
       None \<Rightarrow> None
     | Some (s, st, r) \<Rightarrow>
         Some ((s, ft_manager st),
               bind_outcome r (\<lambda>_. bind_outcome (check_records_sequence (ft_final_blocks st)) (\<lambda>_. Ok (Overflow (ft_final_blocks st))))))"

section \<open>Reading the middle of an object\<close>

lemma parse_blocks_flats:
  assumes "\<forall>f \<in> set fs. parseable fb f" and "length (concat (map flat_bytes fs)) < 2 ^ 32"
  shows "parse_blocks fb (concat (map flat_bytes fs)) bs =
    Ok (finish_blocks (roll_block bs (fold (push_record fb bs) fs \<lparr>ps_cursor = [], ps_blocks = [], ps_block = [], ps_length = 0\<rparr>)))"
proof -
  let ?st = "\<lparr>ps_cursor = concat (map flat_bytes fs), ps_blocks = [], ps_block = [], ps_length = 0\<rparr>"
  let ?init = "\<lparr>ps_cursor = [], ps_blocks = [], ps_block = [], ps_length = 0\<rparr>"
  have "parse_loop fb bs ?st = parse_loop fb bs ((fold (push_record fb bs) fs ?st)\<lparr>ps_cursor := []\<rparr>)"
    using parse_loop_flats [where fs = fs and fb = fb and st = ?st and tail = "[]" and bs = bs] assms by simp
  also have "\<dots> = parse_loop fb bs (fold (push_record fb bs) fs ?init)"
    using fold_push_cursor [where fb = fb and bs = bs and fs = fs and st = ?st and c = "[]"] by simp
  also have "\<dots> = Ok (finish_blocks (roll_block bs (fold (push_record fb bs) fs ?init)))"
    using fold_push_cursor [where fb = fb and bs = bs and fs = fs and st = ?init and c = "[]"] by (intro parse_loop_done) (metis length_0_conv parse_state.select_convs(1) parse_state.surjective parse_state.update_convs(1) zero_less_numeral)
  finally show ?thesis by (simp add: parse_blocks_def)
qed

lemma parse_two_blocks:
  assumes "parseable fb f" and "parseable fb g" and "1024 * 1024 \<le> length (flat_bytes f)"
  shows "parse_blocks fb (flat_bytes f @ flat_bytes g) (1024 * 1024) = Ok [blk_new [record_of fb f], blk_new [record_of fb g]]"
proof -
  have l: "9 \<le> length (flat_bytes g)" using assms(2) by (simp add: parseable_def length_flat_bytes)
  have b: "length (flat_bytes f) < 2 ^ 31" "length (flat_bytes g) < 2 ^ 31" using assms by (simp_all add: parseable_def)
  have "parse_blocks fb (concat (map flat_bytes [f, g])) (1024 * 1024) =
    Ok (finish_blocks (roll_block (1024 * 1024) (fold (push_record fb (1024 * 1024)) [f, g] \<lparr>ps_cursor = [], ps_blocks = [], ps_block = [], ps_length = 0\<rparr>)))"
    using assms b by (intro parse_blocks_flats) simp_all
  then show ?thesis using assms(3) l by (simp add: push_record_def Let_def roll_block_def finish_blocks_def)
qed

text \<open>An object that holds the batches \<open>f\<close> and \<open>g\<close>, the records up to and from offset \<open>mid\<close>.\<close>

definition two_batches :: "fb_meta \<Rightarrow> object_bytes \<Rightarrow> object_metadata \<Rightarrow> flat_record_batch \<Rightarrow> flat_record_batch \<Rightarrow> u64 \<Rightarrow> bool" where
  "two_batches fb store object f g mid \<longleftrightarrow> parseable fb f \<and> parseable fb g
     \<and> om_sparse_index object = [] \<and> om_data_len object = length (flat_bytes f @ flat_bytes g)
     \<and> (\<exists>k. om_key object = Some k \<and> store k 0 (om_data_len object) = Ok (flat_bytes f @ flat_bytes g))
     \<and> br_start_offset (record_of fb f) = om_start_offset object \<and> br_end_offset (record_of fb f) = mid
     \<and> br_start_offset (record_of fb g) = mid \<and> br_end_offset (record_of fb g) = om_end_offset object
     \<and> om_start_offset object < mid \<and> mid < om_end_offset object"

lemma read_middle:
  assumes t: "two_batches fb store object f g mid" and big: "1024 * 1024 \<le> length (flat_bytes f)"
    and mg: "mg_metadata_map mg = [(om_start_offset object, object)]" "mg_offset_to_position mg = []"
  shows "\<exists>mg'. read_first_object_blocks fb (Some store) mid None size_hint mg =
    (mg', Ok [\<lparr>blk_records = [], blk_empty_offset = None\<rparr>, blk_new [record_of fb g]])"
proof -
  obtain k where k: "om_key object = Some k" "store k 0 (om_data_len object) = Ok (flat_bytes f @ flat_bytes g)" using t by (auto simp: two_batches_def)
  have len: "om_data_len object = length (flat_bytes f @ flat_bytes g)" using t by (simp add: two_batches_def)
  have find: "mg_find_first mid None size_hint mg = Ok (Some (object, (0, om_data_len object)))"
    using t mg by (simp add: mg_find_first_def bt_upper_bound_def bt_last_def position_hint_def find_bound_def find_start.simps find_end.simps two_batches_def)
  have pos: "0 < om_data_len object" using big len by auto
  have "object_read fb (Some store) object (0, om_data_len object) = Ok [blk_new [record_of fb f], blk_new [record_of fb g]]"
    using k pos parse_two_blocks [of fb f g] big t by (simp add: object_read_def two_batches_def)
  then show ?thesis using find t
    by (simp add: read_first_object_blocks_def trim_ends_def blk_trim_def blk_new_def two_batches_def Let_def)
qed


definition big_flat :: "byte \<Rightarrow> flat_record_batch" where
  "big_flat b = \<lparr>f_magic = Some Magic0, f_metadata = [b], f_payload = replicate (1024 * 1024) b\<rparr>"

definition sample_object :: object_metadata where
  "sample_object = (om_new 1 0 0 10)\<lparr>om_end_offset_delta := 20, om_data_len := 1024 * 1024 + 22, om_key := Some []\<rparr>"

definition sample_bytes :: object_bytes where
  "sample_bytes k p e = Ok (flat_bytes (big_flat 1) @ flat_bytes (tiny_flat 2))"

lemma big_flat_length: "flat_ok (big_flat b)" "length (flat_bytes (big_flat b)) = 1024 * 1024 + 10"
proof -
  show f: "flat_ok (big_flat b)" by (simp add: flat_ok_def big_flat_def)
  show "length (flat_bytes (big_flat b)) = 1024 * 1024 + 10" by (simp add: length_flat_bytes [OF f]) (simp add: big_flat_def)
qed

lemma sample_two_batches: "two_batches tiny_fb sample_bytes sample_object (big_flat 1) (tiny_flat 2) 20"
proof -
  have r: "fb_root tiny_fb (f_metadata (big_flat 1)) = Some (tiny_meta 1)" by (simp add: tiny_fb_def big_flat_def)
  then have p: "parseable tiny_fb (big_flat 1)" "parseable tiny_fb (tiny_flat 2)" by (simp_all add: parseable_def big_flat_length)
  show ?thesis unfolding two_batches_def using p r
    by (simp add: sample_object_def om_new_def sample_bytes_def record_of_def om_end_offset_def br_end_offset_def tiny_meta_def
        big_flat_length to_unsigned_def)
qed


end
