(* ===== verification/Cache_Stream.thy ===== *)
theory Cache_Stream
  imports Object_Stream
begin

text \<open>
  The stream that answers fetches from the hot cache and the block cache first and reads ahead,
  \<open>src/components/replication/src/stream/cache_stream.rs\<close>. The inner stream is a parameter with
  its own state: \<open>inner\<close> fetches (and has no result while it does not return), \<open>start_and_end\<close> are its
  start and confirm offset. A fetch may wait once for a readahead in progress and then starts
  again: \<open>cs_fetch_round\<close> is one round, and \<open>CsWait\<close> tells what it waits for. The tasks that
  read ahead in the background are kept in \<open>cs_tasks\<close> until they are run.
\<close>

section \<open>Model\<close>

record ('l, 's) cache_stream =
  cs_stream_id :: u64
  cs_stream :: 's
  cs_inflight :: "u64 list"
  cs_tasks :: "readahead list"
  cs_hot_cache :: hot_cache
  cs_block_cache :: "'l read_cache"

type_synonym 's fetcher = "'s \<Rightarrow> u64 \<Rightarrow> u64 \<Rightarrow> u32 \<Rightarrow> ('s \<times> (es_error, fetch_dataset) outcome) option"

definition cs_new :: "u64 \<Rightarrow> 's \<Rightarrow> hot_cache \<Rightarrow> 'l read_cache \<Rightarrow> ('l, 's) cache_stream" where
  "cs_new stream_id stream hot block =
     \<lparr>cs_stream_id = stream_id, cs_stream = stream, cs_inflight = [], cs_tasks = [], cs_hot_cache = hot, cs_block_cache = block\<rparr>"

subsection \<open>Reading from the caches\<close>

record cache_read =
  cr_next :: u64
  cr_max_bytes :: u32
  cr_blocks :: "records_block list"
  cr_readahead :: "readahead option"

definition take_block :: "records_block \<Rightarrow> cache_read \<Rightarrow> cache_read" where
  "take_block b cr =
     cr\<lparr>cr_next := blk_end_offset b, cr_max_bytes := cr_max_bytes cr - min (blk_size b) (cr_max_bytes cr),
        cr_blocks := cr_blocks cr @ (if blk_is_empty b then [] else [b])\<rparr>"

definition read_from_cache :: "'l lru_api \<Rightarrow> nat \<Rightarrow> u64 \<Rightarrow> cache_read \<Rightarrow> ('l, 's) cache_stream
    \<Rightarrow> (unit, cache_read \<times> ('l, 's) cache_stream) outcome option" where
  "read_from_cache api now end_offset cr cs =
     (case hc_get_block (cs_stream_id cs) (cr_next cr) end_offset (cr_max_bytes cr) (cs_hot_cache cs) of
        None \<Rightarrow> None
      | Some hot_block \<Rightarrow>
          let cr = take_block hot_block cr in
          if cr_next cr \<ge> end_offset \<or> cr_max_bytes cr = 0 then Some (Ok (cr, cs))
          else Some (bind_outcome (rc_get_block api now (cs_stream_id cs) (cr_next cr) end_offset (cr_max_bytes cr) (cs_block_cache cs))
                 (\<lambda>((block, readahead), c). Ok ((take_block block cr)\<lparr>cr_readahead := readahead\<rparr>, cs\<lparr>cs_block_cache := c\<rparr>))))"

subsection \<open>Background readahead\<close>

definition background_readahead :: "readahead \<Rightarrow> ('l, 's) cache_stream \<Rightarrow> ('l, 's) cache_stream" where
  "background_readahead ra cs =
     (if ra_start_offset ra \<in> set (cs_inflight cs) then cs
      else cs\<lparr>cs_inflight := ra_start_offset ra # cs_inflight cs, cs_tasks := cs_tasks cs @ [ra]\<rparr>)"

definition full_blocks :: "fetch_dataset \<Rightarrow> records_block list option" where
  "full_blocks ds = (case ds of Full bs \<Rightarrow> Some bs | Overflow bs \<Rightarrow> Some bs | _ \<Rightarrow> None)"

definition insert_blocks_cs :: "'l lru_api \<Rightarrow> nat \<Rightarrow> records_block list \<Rightarrow> ('l, 's) cache_stream \<Rightarrow> (unit, ('l, 's) cache_stream) outcome option" where
  "insert_blocks_cs api now blocks cs =
     (case rc_insert api now (cs_stream_id cs) blocks (cs_block_cache cs) of
        None \<Rightarrow> None
      | Some r \<Rightarrow> Some (fmap_ok (\<lambda>c. cs\<lparr>cs_block_cache := c\<rparr>) r))"

definition background_readahead0 :: "'l lru_api \<Rightarrow> nat \<Rightarrow> 's fetcher \<Rightarrow> ('s \<Rightarrow> u64) \<Rightarrow> readahead \<Rightarrow> ('l, 's) cache_stream
    \<Rightarrow> (unit, ('l, 's) cache_stream) outcome option" where
  "background_readahead0 api now inner confirm_offset ra cs =
     (let start_offset = ra_start_offset ra; confirm = confirm_offset (cs_stream cs) in
      if start_offset \<ge> confirm then Some (Ok cs)
      else
        let end_offset = (case ra_end_offset ra of Some e \<Rightarrow> e | None \<Rightarrow> confirm) in
        (case inner (cs_stream cs) start_offset end_offset (ra_size_hint ra) of
           None \<Rightarrow> None
         | Some (s, Ok ds) \<Rightarrow>
             (case full_blocks ds of
                None \<Rightarrow> Some (Ok (cs\<lparr>cs_stream := s\<rparr>))
              | Some blocks \<Rightarrow> insert_blocks_cs api now blocks (cs\<lparr>cs_stream := s\<rparr>))
         | Some (s, Err _) \<Rightarrow> Some (Ok (cs\<lparr>cs_stream := s\<rparr>))
         | Some (s, Panic) \<Rightarrow> Some Panic))"

definition run_readahead :: "'l lru_api \<Rightarrow> nat \<Rightarrow> 's fetcher \<Rightarrow> ('s \<Rightarrow> u64) \<Rightarrow> ('l, 's) cache_stream \<Rightarrow> (unit, ('l, 's) cache_stream) outcome option" where
  "run_readahead api now inner confirm_offset cs =
     (case cs_tasks cs of
        [] \<Rightarrow> Some (Ok cs)
      | ra # ras \<Rightarrow>
          (case background_readahead0 api now inner confirm_offset ra (cs\<lparr>cs_tasks := ras\<rparr>) of
             None \<Rightarrow> None
           | Some r \<Rightarrow> Some (fmap_ok (\<lambda>cs. cs\<lparr>cs_inflight := filter (\<lambda>k. k \<noteq> ra_start_offset ra) (cs_inflight cs)\<rparr>) r)))"

subsection \<open>Fetching\<close>

text \<open>The blocks of the response and the number of leading blocks that are not cached.\<close>

fun select_blocks :: "u64 \<Rightarrow> u64 \<Rightarrow> u32 \<Rightarrow> records_block list \<Rightarrow> records_block list \<times> nat" where
  "select_blocks start_offset end_offset batch_max_bytes [] = ([], 0)"
| "select_blocks start_offset end_offset batch_max_bytes (b # bs) =
     (let records = get_records start_offset end_offset batch_max_bytes b in
      if records = [] then ([], 0)
      else (case select_blocks start_offset end_offset batch_max_bytes bs of
              (rest, n) \<Rightarrow> (blk_new records # rest, (if br_end_offset (last records) = blk_end_offset b then 1 else 0) + n)))"

definition read_from_stream :: "'l lru_api \<Rightarrow> nat \<Rightarrow> 's fetcher \<Rightarrow> u64 \<Rightarrow> u64 \<Rightarrow> u32 \<Rightarrow> u64 \<Rightarrow> u32 \<Rightarrow> records_block list \<Rightarrow> ('l, 's) cache_stream
    \<Rightarrow> (('l, 's) cache_stream \<times> (es_error, fetch_dataset) outcome) option" where
  "read_from_stream api now inner start_offset end_offset batch_max_bytes readahead_end readahead_max_bytes blocks cs =
     (case inner (cs_stream cs) start_offset readahead_end readahead_max_bytes of
        None \<Rightarrow> None
      | Some (s, Ok ds) \<Rightarrow>
          let cs = cs\<lparr>cs_stream := s\<rparr> in
          (case full_blocks ds of
             None \<Rightarrow> Some (cs, Err (es_new UNEXPECTED ''fetch dataset is not full''))
           | Some remote \<Rightarrow>
               (case select_blocks start_offset end_offset batch_max_bytes remote of
                  (selected, n) \<Rightarrow>
                    if drop n remote = [] then Some (cs, Ok (Full (blocks @ selected)))
                    else (case insert_blocks_cs api now (drop n remote) cs of
                            None \<Rightarrow> None
                          | Some (Ok cs) \<Rightarrow> Some (cs, Ok (Full (blocks @ selected)))
                          | Some _ \<Rightarrow> Some (cs, Panic))))
      | Some (s, Err e) \<Rightarrow> Some (cs\<lparr>cs_stream := s\<rparr>, Err e)
      | Some (s, Panic) \<Rightarrow> Some (cs\<lparr>cs_stream := s\<rparr>, Panic))"

datatype cs_next = CsDone "(es_error, fetch_dataset) outcome" | CsWait u64

definition cs_fetch_round :: "'l lru_api \<Rightarrow> nat \<Rightarrow> 's fetcher \<Rightarrow> u64 \<Rightarrow> bool \<Rightarrow> u64 \<Rightarrow> u64 \<Rightarrow> u32 \<Rightarrow> ('l, 's) cache_stream
    \<Rightarrow> (('l, 's) cache_stream \<times> cs_next) option" where
  "cs_fetch_round api now inner stream_end_offset waited_cache start_offset end_offset batch_max_bytes cs =
     (case read_from_cache api now end_offset
             \<lparr>cr_next = start_offset, cr_max_bytes = batch_max_bytes, cr_blocks = [], cr_readahead = None\<rparr> cs of
        None \<Rightarrow> None
      | Some (Ok (cr, cs)) \<Rightarrow>
          let cs = (case cr_readahead cr of Some ra \<Rightarrow> background_readahead ra cs | None \<Rightarrow> cs) in
          if cr_next cr \<ge> end_offset \<or> cr_max_bytes cr = 0 then Some (cs, CsDone (Ok (Full (cr_blocks cr))))
          else if \<not> waited_cache \<and> cr_next cr \<in> set (cs_inflight cs) then Some (cs, CsWait (cr_next cr))
          else if cr_next cr + (end_offset - cr_next cr) * 2 \<ge> 2 ^ 64 \<or> cr_max_bytes cr * 2 \<ge> 2 ^ 32 then Some (cs, CsDone Panic)
          else (case read_from_stream api now inner (cr_next cr) end_offset (cr_max_bytes cr)
                       (min stream_end_offset (cr_next cr + (end_offset - cr_next cr) * 2)) (block_size_align (cr_max_bytes cr * 2)) (cr_blocks cr) cs of
                  None \<Rightarrow> None
                | Some (cs, r) \<Rightarrow> Some (cs, CsDone r))
      | Some _ \<Rightarrow> Some (cs, CsDone Panic))"

text \<open>\<open>message\<close> formats the offsets for the error; \<open>start_and_end\<close> reads the bounds of the inner stream.\<close>

definition cs_fetch0 :: "'l lru_api \<Rightarrow> nat \<Rightarrow> 's fetcher \<Rightarrow> ('s \<Rightarrow> u64 \<times> u64) \<Rightarrow> (u64 \<Rightarrow> u64 \<Rightarrow> u64 \<Rightarrow> u64 \<Rightarrow> string) \<Rightarrow> u64 \<Rightarrow> u64 \<Rightarrow> u32
    \<Rightarrow> ('l, 's) cache_stream \<Rightarrow> (('l, 's) cache_stream \<times> cs_next) option" where
  "cs_fetch0 api now inner start_and_end message start_offset end_offset batch_max_bytes cs =
     (case start_and_end (cs_stream cs) of
        (stream_start_offset, stream_end_offset) \<Rightarrow>
          if start_offset < stream_start_offset \<or> end_offset > stream_end_offset
          then Some (cs, CsDone (Err (es_new OFFSET_OUT_OF_RANGE_BOUNDS (message start_offset end_offset stream_start_offset stream_end_offset))))
          else cs_fetch_round api now inner stream_end_offset False start_offset end_offset batch_max_bytes cs)"

section \<open>Records of the caches\<close>

definition hot_records :: "u64 \<Rightarrow> hot_cache \<Rightarrow> block_record set" where
  "hot_records sid c = {r. \<exists>off. bt_get (sid, off) (hc_map c) = Some r}"

definition block_records :: "u64 \<Rightarrow> 'l read_cache \<Rightarrow> block_record set" where
  "block_records sid c = (case bt_get sid (rc_cache_map c) of None \<Rightarrow> {} | Some sc \<Rightarrow> entry_records (sc_cache_map sc))"

definition caches_ok :: "('l, 's) cache_stream \<Rightarrow> bool" where
  "caches_ok cs \<longleftrightarrow> hc_filed (cs_hot_cache cs) \<and> maps_wf (rc_cache_map (cs_block_cache cs))
     \<and> (\<forall>sc. bt_get (cs_stream_id cs) (rc_cache_map (cs_block_cache cs)) = Some sc \<longrightarrow> stream_ok sc)
     \<and> consistent (hot_records (cs_stream_id cs) (cs_hot_cache cs) \<union> block_records (cs_stream_id cs) (cs_block_cache cs))
     \<and> (\<forall>r \<in> hot_records (cs_stream_id cs) (cs_hot_cache cs) \<union> block_records (cs_stream_id cs) (cs_block_cache cs). 0 < br_end_offset_delta r)"

lemma taken_block:
  assumes "b = (if blk_records b = [] then empty_block s else blk_new (blk_records b))"
  shows "cr_next (take_block b cr) = (if blk_records b = [] then s else br_end_offset (last (blk_records b)))"
    and "concat (map blk_records (cr_blocks (take_block b cr))) = concat (map blk_records (cr_blocks cr)) @ blk_records b"
    and "cr_max_bytes (take_block b cr) = cr_max_bytes cr - sum_list (map br_size (blk_records b))"
proof -
  show "cr_next (take_block b cr) = (if blk_records b = [] then s else br_end_offset (last (blk_records b)))"
    by (subst assms) (simp add: take_block_def blk_end_offset_def empty_block_def blk_new_def)
qed (auto simp: take_block_def blk_is_empty_def blk_size_def)

lemma hot_part:
  assumes ok: "caches_ok cs"
  shows "\<exists>b. hc_get_block (cs_stream_id cs) s e h (cs_hot_cache cs) = Some b
    \<and> run_at (hot_records (cs_stream_id cs) (cs_hot_cache cs) \<union> B) s (blk_records b)
    \<and> b = (if blk_records b = [] then empty_block s else blk_new (blk_records b))"
proof -
  let ?sid = "cs_stream_id cs"
  let ?H = "hot_records ?sid (cs_hot_cache cs)"
  from ok have R: "\<forall>r \<in> ?H. 0 < br_end_offset_delta r" and f: "hc_filed (cs_hot_cache cs)" by (simp_all add: caches_ok_def)
  obtain b where b: "hc_get_block ?sid s e h (cs_hot_cache cs) = Some b" "chained s (blk_records b)"
    "\<forall>r \<in> set (blk_records b). bt_get (?sid, br_start_offset r) (hc_map (cs_hot_cache cs)) = Some r"
    "b = (if blk_records b = [] then empty_block s else blk_new (blk_records b))"
    using hc_get_block_spec [OF f, of ?sid s e h] by blast
  have "set (blk_records b) \<subseteq> ?H" using b(3) by (auto simp: hot_records_def)
  then have "run_at (?H \<union> B) s (blk_records b)"
    using b(2) R by (cases "blk_records b") (auto simp: run_at_def br_end_offset_def)
  with b(1,4) show ?thesis by blast
qed

lemma block_part:
  assumes ok: "caches_ok cs"
  shows "\<exists>b ra c. rc_get_block api now (cs_stream_id cs) s e h (cs_block_cache cs) = Ok ((b, ra), c)
    \<and> run_at (block_records (cs_stream_id cs) (cs_block_cache cs)) s (blk_records b)
    \<and> b = (if blk_records b = [] then empty_block s else blk_new (blk_records b))"
proof (cases "bt_get (cs_stream_id cs) (rc_cache_map (cs_block_cache cs))")
  case None
  then show ?thesis by (simp add: rc_get_block_def run_at_def empty_block_def)
next
  case (Some sc)
  then have "stream_ok sc" "maps_wf (rc_cache_map (cs_block_cache cs))" using ok by (auto simp: caches_ok_def)
  from rc_get_block_spec [OF this(2) Some this(1), of api now s e h] Some show ?thesis by (auto simp: block_records_def)
qed


definition sample_cached :: "((records_block_key \<times> u32) list, unit) cache_stream" where
  "sample_cached = cs_new 1 () \<lparr>hc_max_cache_size = 4096, hc_occupied_size = 2, hc_map = [((1, 20), small_record 20)], hc_fifo_deque = [(1, 20)]\<rparr> sample_read"

lemma sample_cached_ok: "caches_ok sample_cached"
proof -
  have h: "hot_records 1 \<lparr>hc_max_cache_size = 4096, hc_occupied_size = 2, hc_map = [((1, 20), small_record 20)], hc_fifo_deque = [(1, 20)]\<rparr> = {small_record 20}"
    by (auto simp: hot_records_def bt_get_def split: if_splits)
  have b: "block_records 1 sample_read = {small_record 0, small_record 10}"
    by (auto simp: block_records_def sample_read_def rc_new_def bt_get_def entry_records_def blk_new_def)
  show ?thesis using sample_read_inv sample_read_stream h b
    by (auto simp: caches_ok_def sample_cached_def cs_new_def rc_inv_def hc_filed_def small_record_def br_size_def consistent_def br_end_offset_def)
qed


section \<open>Reading from the inner stream\<close>

lemma take_records_none: "take_records s e 0 rs = []"
  by (induction rs) simp_all

lemma rc_insert_total:
  assumes "lru_ok api" and "rc_inv c" and "sum_list (map blk_size blocks) < 2 ^ 32"
  shows "\<exists>c'. rc_insert api now sid blocks c = Some (Ok c') \<and> rc_inv c'"
proof -
  let ?bs = "filter (\<lambda>b. \<not> blk_is_empty b) blocks"
  have small: "sum_list (map blk_size ?bs) < 2 ^ 32" using assms(3) sum_list_filter_le_nat [of blk_size "\<lambda>b. \<not> blk_is_empty b" blocks] by simp
  obtain c1 where e: "evict api (sum_list (map blk_size ?bs)) c = Some (Ok c1)" "rc_inv c1" using evict_ok [OF assms(1,2)] by blast
  obtain c2 where "insert_evicted api now sid ?bs c1 = Ok c2" "rc_inv c2" using insert_evicted_ok [OF e(2)] by blast
  then show ?thesis using small e(1) assms(2) by (simp add: rc_insert_def Let_def)
qed

text \<open>
  C36. A response from the inner stream can leave out records in the middle. The limit of the
  response is applied to every block of the inner stream again: when it cuts the first block
  after its first record, the second block is still taken from its beginning, so the response
  has the first record of each and misses the ones in between, without any error.
\<close>

theorem limited_fetch_skips_records:
  assumes inner: "inner (cs_stream cs) s ro rm = Some (st, Ok (Overflow [b1, b2]))"
    and b1: "blk_records b1 = r1 # r2 # rs" "br_start_offset r1 \<le> s" "s < br_end_offset r1" "br_end_offset r1 \<le> br_start_offset r2" "0 < br_end_offset_delta r2"
    and b2: "blk_records b2 = q # qs" "br_end_offset (last (r2 # rs)) = br_start_offset q" "br_start_offset q < e" "br_end_offset r2 \<le> br_start_offset q" "0 < br_end_offset_delta q"
    and max: "0 < max_bytes" "max_bytes \<le> br_size r1" "blk_empty_offset b1 = None"
    and cache: "lru_ok api" "rc_inv (cs_block_cache cs)" "blk_size b1 + blk_size b2 < 2 ^ 32"
  shows "\<exists>cs' qs'. read_from_stream api now inner s e max_bytes ro rm blocks cs = Some (cs', Ok (Full (blocks @ [blk_new [r1], blk_new (q # qs')])))
    \<and> br_end_offset r1 < br_start_offset q"
proof -
  have gap: "br_end_offset r1 < br_start_offset q" using b1(4,5) b2(4) by (simp add: br_end_offset_def)
  have g1: "get_records s e max_bytes b1 = [r1]" using b1 b2(3) gap max by (auto simp: get_records_def take_records_none)
  have "s < br_end_offset q" using b1(3) gap by (simp add: br_end_offset_def)
  then obtain qs' where g2: "get_records s e max_bytes b2 = q # qs'" using b2(1,3) max(1) by (simp add: get_records_def)
  have e1: "br_end_offset r1 \<noteq> blk_end_offset b1" using b1(1) b2(2) gap max(3) by (simp add: blk_end_offset_def)
  obtain n where sel: "select_blocks s e max_bytes [b1, b2] = ([blk_new [r1], blk_new (q # qs')], n)" "n \<le> 1"
    using g1 g2 e1 by (auto simp: Let_def)
  let ?cs = "cs\<lparr>cs_stream := st\<rparr>"
  obtain x xs where d: "drop n [b1, b2] = x # xs" using sel(2) by (cases n) auto
  have "sum_list (map blk_size (drop n [b1, b2])) < 2 ^ 32" using sel(2) cache(3) by (cases n) auto
  then obtain c' where "rc_insert api now (cs_stream_id ?cs) (drop n [b1, b2]) (cs_block_cache ?cs) = Some (Ok c')"
    using rc_insert_total [OF cache(1,2), of "drop n [b1, b2]" now "cs_stream_id cs"] by auto
  then have "insert_blocks_cs api now (drop n [b1, b2]) ?cs = Some (Ok (?cs\<lparr>cs_block_cache := c'\<rparr>))" by (simp add: insert_blocks_cs_def)
  then have "read_from_stream api now inner s e max_bytes ro rm blocks cs = Some (?cs\<lparr>cs_block_cache := c'\<rparr>, Ok (Full (blocks @ [blk_new [r1], blk_new (q # qs')])))"
    using inner sel d by (simp add: read_from_stream_def full_blocks_def Let_def del: select_blocks.simps)
  with gap show ?thesis by blast
qed

theorem limited_fetch_skips_records_witness:
  "\<exists>cs' qs'. read_from_stream list_lru 0 (\<lambda>s _ _ _. Some (s, Ok (Overflow [blk_new [small_record 100, small_record 110], blk_new [small_record 120]])))
     100 130 1 130 1048576 [] sample_cached = Some (cs', Ok (Full [blk_new [small_record 100], blk_new (small_record 120 # qs')]))"
proof -
  have c: "rc_inv (cs_block_cache sample_cached)" using sample_read_inv by (simp add: sample_cached_def cs_new_def)
  show ?thesis
    using limited_fetch_skips_records [where inner = "\<lambda>s _ _ _. Some (s, Ok (Overflow [blk_new [small_record 100, small_record 110], blk_new [small_record 120]]))"
        and s = 100 and e = 130 and max_bytes = 1 and ?r1.0 = "small_record 100" and ?r2.0 = "small_record 110" and rs = "[]" and q = "small_record 120" and qs = "[]"
        and cs = sample_cached and api = list_lru and ro = 130 and rm = 1048576 and blocks = "[]" and now = 0 and st = "()"
        and ?b1.0 = "blk_new [small_record 100, small_record 110]" and ?b2.0 = "blk_new [small_record 120]"] list_lru_ok c
    by (simp add: blk_new_def small_record_def br_end_offset_def br_size_def blk_size_def)
qed

text \<open>
  A fetch of 2 GiB or more that the caches cannot answer aborts: the limit is doubled for the
  readahead before it is aligned.
\<close>

theorem large_fetch_overflows:
  assumes "bt_get (cs_stream_id cs, s) (hc_map (cs_hot_cache cs)) = None" and "bt_get (cs_stream_id cs) (rc_cache_map (cs_block_cache cs)) = None"
    and "s < e" and "2 ^ 31 \<le> max_bytes" and "waited \<or> s \<notin> set (cs_inflight cs)"
  shows "cs_fetch_round api now inner stream_end waited s e max_bytes cs = Some (cs, CsDone Panic)"
proof -
  have h: "hc_get_block (cs_stream_id cs) s e max_bytes (cs_hot_cache cs) = Some (empty_block s)"
    using assms(1,3,4) by (simp add: hc_get_block_def hc_collect.simps)
  have c: "cs\<lparr>cs_block_cache := cs_block_cache cs\<rparr> = cs" by simp
  show ?thesis using h assms
    by (auto simp: cs_fetch_round_def read_from_cache_def rc_get_block_def take_block_def empty_block_def blk_end_offset_def blk_size_def Let_def)
qed

theorem large_fetch_overflows_witness:
  "cs_fetch_round list_lru 0 (\<lambda>s _ _ _. None) 1000 False 500 600 (2 ^ 31) (sample_cached\<lparr>cs_stream_id := 7\<rparr>) = Some (sample_cached\<lparr>cs_stream_id := 7\<rparr>, CsDone Panic)"
  by (rule large_fetch_overflows) (simp_all add: sample_cached_def cs_new_def sample_read_def rc_new_def bt_get_def)

end
