(* ===== verification/Stream_Manager.thy ===== *)
theory Stream_Manager
  imports Cache_Stream Log_Segment
begin

text \<open>
  The streams of one thread of the replication client,
  \<open>src/components/replication/src/stream/stream_manager.rs\<close>: a cache stream over an object stream
  over a replication stream for every opened stream, the two caches they share and the
  connections they are spread over. The shared caches are lent to a stream for the time of an
  operation. \<open>servers\<close> are the replies of the range servers to the fetches of a stream.
\<close>

section \<open>Model\<close>

definition STREAM_NOT_EXIST :: error_code where "STREAM_NOT_EXIST = 1488"

type_synonym object_stream = "repl_stream \<times> object_metadata_manager"
type_synonym 'l fstream = "('l, object_stream) cache_stream"

record 'l stream_manager =
  sg_round_robin :: usize
  sg_streams :: "(u64, 'l fstream) btree"
  sg_hot_cache :: hot_cache
  sg_block_cache :: "'l read_cache"
  sg_clients :: usize

text \<open>\<open>var\<close> is the value of \<open>ES_MAX_CACHE_SIZE\<close>, in MiB.\<close>

definition get_max_cache_size :: "string option \<Rightarrow> (unit, u64) outcome" where
  "get_max_cache_size var =
     (let mb = (case parse_u64 (case var of Some v \<Rightarrow> v | None \<Rightarrow> ''2048'') of Some n \<Rightarrow> n | None \<Rightarrow> 2048)
      in if mb * 1024 * 1024 \<ge> 2 ^ 64 then Panic else Ok (mb * 1024 * 1024))"

definition sg_new :: "'l lru_api \<Rightarrow> string option \<Rightarrow> usize \<Rightarrow> (unit, 'l stream_manager) outcome" where
  "sg_new api var connection_pool_size =
     bind_outcome (get_max_cache_size var) (\<lambda>size.
       if size * 2 \<ge> 2 ^ 64 then Panic
       else bind_outcome (hc_new (size * 2 div 3)) (\<lambda>hot.
         Ok \<lparr>sg_round_robin = 0, sg_streams = bt_empty, sg_hot_cache = hot, sg_block_cache = rc_new api (size div 3),
             sg_clients = connection_pool_size\<rparr>))"

text \<open>The index of the client; \<open>%\<close> by zero panics.\<close>

definition route_client :: "'l stream_manager \<Rightarrow> (es_error, usize \<times> 'l stream_manager) outcome" where
  "route_client sg =
     (if sg_clients sg = 0 \<or> sg_round_robin sg + 1 \<ge> 2 ^ 64 then Panic
      else Ok (sg_round_robin sg mod sg_clients sg, sg\<lparr>sg_round_robin := sg_round_robin sg + 1\<rparr>))"

definition stream_not_exist :: "u64 \<Rightarrow> es_error" where
  "stream_not_exist stream_id = es_new STREAM_NOT_EXIST (''Stream '' @ decimal stream_id @ '' does not exist'')"

text \<open>The message of a fetch outside the bounds of the stream.\<close>

definition bound_message :: "u64 \<Rightarrow> u64 \<Rightarrow> u64 \<Rightarrow> u64 \<Rightarrow> string" where
  "bound_message start_offset end_offset stream_start_offset stream_end_offset =
     ''['' @ decimal start_offset @ '', '' @ decimal end_offset @ '' is out of stream bound ['' @ decimal stream_start_offset
       @ '','' @ decimal stream_end_offset @ '')''"

definition lend :: "'l stream_manager \<Rightarrow> 'l fstream \<Rightarrow> 'l fstream" where
  "lend sg fs =
     fs\<lparr>cs_hot_cache := sg_hot_cache sg, cs_block_cache := sg_block_cache sg,
        cs_stream := ((fst (cs_stream fs))\<lparr>sm_cache := sg_hot_cache sg\<rparr>, snd (cs_stream fs))\<rparr>"

definition put_back :: "u64 \<Rightarrow> 'l fstream \<Rightarrow> 'l stream_manager \<Rightarrow> 'l stream_manager" where
  "put_back stream_id fs sg =
     sg\<lparr>sg_streams := bt_insert stream_id fs (sg_streams sg), sg_hot_cache := sm_cache (fst (cs_stream fs)), sg_block_cache := cs_block_cache fs\<rparr>"

definition on_stream :: "u64 \<Rightarrow> 'l stream_manager \<Rightarrow> ('l fstream \<Rightarrow> 'l fstream \<times> (es_error, 'a) outcome)
    \<Rightarrow> 'l stream_manager \<times> (es_error, 'a) outcome" where
  "on_stream stream_id sg f =
     (case bt_get stream_id (sg_streams sg) of
        None \<Rightarrow> (sg, Err (stream_not_exist stream_id))
      | Some fs \<Rightarrow> (case f (lend sg fs) of (fs, r) \<Rightarrow> (put_back stream_id fs sg, r)))"

definition repl_op :: "(repl_stream \<Rightarrow> repl_stream \<times> (es_error, 'a) outcome) \<Rightarrow> 'l fstream \<Rightarrow> 'l fstream \<times> (es_error, 'a) outcome" where
  "repl_op f fs = (case cs_stream fs of (st, mg) \<Rightarrow> (case f st of (st, r) \<Rightarrow> (fs\<lparr>cs_stream := (st, mg)\<rparr>, r)))"

subsection \<open>Operations\<close>

text \<open>The base offset of the request; its answer is a response of the append task.\<close>

definition sg_append :: "u64 \<Rightarrow> record_batch \<Rightarrow> 'l stream_manager \<Rightarrow> 'l stream_manager \<times> (es_error, u64) outcome" where
  "sg_append stream_id batch sg =
     on_stream stream_id sg (repl_op (\<lambda>st.
       case sm_append batch st of Ok (base, st) \<Rightarrow> (st, Ok base) | Err e \<Rightarrow> (st, Err e) | Panic \<Rightarrow> (st, Panic)))"

definition repl_fetcher :: "fb_meta \<Rightarrow> object_bytes option \<Rightarrow> bool \<Rightarrow> (nat \<Rightarrow> fetch_request \<Rightarrow> (es_error, fetch_result_set) outcome) \<Rightarrow> object_stream fetcher" where
  "repl_fetcher fb op alive servers s start_offset end_offset batch_max_bytes =
     os_fetch0 fb op (\<lambda>st s e m. sm_fetch fb alive servers s e m st) start_offset end_offset batch_max_bytes s"

definition read_response :: "(es_error, fetch_dataset) outcome \<Rightarrow> (es_error, bytes list) outcome" where
  "read_response r =
     bind_outcome r (\<lambda>ds.
       case ds of
         Full blocks \<Rightarrow> Ok (concat (map br_data (concat (map blk_records blocks))))
       | _ \<Rightarrow> Err (es_new UNEXPECTED ''Fetch dataset should be full''))"

text \<open>A fetch up to its result or the readahead it waits for; no result while it does not return.\<close>

definition sg_fetch :: "'l lru_api \<Rightarrow> nat \<Rightarrow> fb_meta \<Rightarrow> object_bytes option \<Rightarrow> bool \<Rightarrow> (nat \<Rightarrow> fetch_request \<Rightarrow> (es_error, fetch_result_set) outcome)
    \<Rightarrow> u64 \<Rightarrow> u64 \<Rightarrow> u64 \<Rightarrow> u32 \<Rightarrow> 'l stream_manager
    \<Rightarrow> ('l stream_manager \<times> ((es_error, bytes list) outcome + u64)) option" where
  "sg_fetch api now fb op alive servers stream_id start_offset end_offset batch_max_bytes sg =
     (case bt_get stream_id (sg_streams sg) of
        None \<Rightarrow> Some (sg, Inl (Err (stream_not_exist stream_id)))
      | Some fs \<Rightarrow>
          (case cs_fetch0 api now (repl_fetcher fb op alive servers) (\<lambda>s. (sm_start_offset (fst s), sm_confirm_offset (fst s))) bound_message
                  start_offset end_offset batch_max_bytes (lend sg fs) of
             None \<Rightarrow> None
           | Some (fs, CsDone r) \<Rightarrow> Some (put_back stream_id fs sg, Inl (read_response r))
           | Some (fs, CsWait k) \<Rightarrow> Some (put_back stream_id fs sg, Inr k)))"

text \<open>\<open>create_stream i\<close> is the answer of the placement driver to client \<open>i\<close>.\<close>

definition create_request :: "u8 \<Rightarrow> u8 \<Rightarrow> nat \<Rightarrow> stream_t" where
  "create_request replica ack_count retention_period_ms =
     stream_t_default\<lparr>st_replica := as_i8 replica, st_ack_count := as_i8 ack_count,
       st_retention_period_ms := as_i64 retention_period_ms, st_start_offset := 0, st_epoch := 0\<rparr>"

definition sg_create :: "(usize \<Rightarrow> stream_t \<Rightarrow> (es_error, stream_metadata) outcome) \<Rightarrow> u8 \<Rightarrow> u8 \<Rightarrow> nat \<Rightarrow> 'l stream_manager
    \<Rightarrow> 'l stream_manager \<times> (es_error, u64) outcome" where
  "sg_create create_stream replica ack_count retention_period_ms sg =
     (case route_client sg of
        Ok (i, sg) \<Rightarrow> (sg, fmap_ok sm_stream_id (create_stream i (create_request replica ack_count retention_period_ms)))
      | Err e \<Rightarrow> (sg, Err e)
      | Panic \<Rightarrow> (sg, Panic))"

definition new_stream :: "u64 \<Rightarrow> u64 \<Rightarrow> 'l stream_manager \<Rightarrow> 'l fstream" where
  "new_stream stream_id epoch sg = cs_new stream_id (sm_new stream_id epoch (sg_hot_cache sg), mg_new) (sg_hot_cache sg) (sg_block_cache sg)"

text \<open>\<open>up\<close> and \<open>ranges\<close> are the answers of the placement driver; no result while the seal waits.\<close>

definition sg_open :: "bool \<Rightarrow> (es_error, unit) outcome \<Rightarrow> (es_error, range_metadata list) outcome \<Rightarrow> env_round \<Rightarrow> u64 \<Rightarrow> u64 \<Rightarrow> 'l stream_manager
    \<Rightarrow> ('l stream_manager \<times> (es_error, unit) outcome) option" where
  "sg_open alive up ranges ev stream_id epoch sg =
     (case route_client sg of
        Ok (_, sg) \<Rightarrow>
          (case sm_open alive up ranges ev (fst (cs_stream (new_stream stream_id epoch sg))) of
             (st, None) \<Rightarrow> None
           | (st, Some (Ok _)) \<Rightarrow>
               Some (put_back stream_id ((new_stream stream_id epoch sg)\<lparr>cs_stream := (st, mg_new)\<rparr>) sg, Ok ())
           | (st, Some r) \<Rightarrow> Some (sg, r))
      | Err e \<Rightarrow> Some (sg, Err e)
      | Panic \<Rightarrow> Some (sg, Panic))"

definition sg_close :: "env_round \<Rightarrow> u64 \<Rightarrow> 'l stream_manager \<Rightarrow> 'l stream_manager \<times> (es_error, unit) outcome" where
  "sg_close ev stream_id sg =
     (case bt_get stream_id (sg_streams sg) of
        None \<Rightarrow> (sg, Err (stream_not_exist stream_id))
      | Some fs \<Rightarrow>
          (case sm_close ev (fst (cs_stream (lend sg fs))) of
             st \<Rightarrow> (sg\<lparr>sg_streams := bt_remove stream_id (sg_streams sg), sg_hot_cache := sm_cache st\<rparr>, Ok ())))"

definition sg_start_offset :: "u64 \<Rightarrow> 'l stream_manager \<Rightarrow> (es_error, u64) outcome" where
  "sg_start_offset stream_id sg =
     (case bt_get stream_id (sg_streams sg) of
        Some fs \<Rightarrow> Ok (sm_start_offset (fst (cs_stream fs)))
      | None \<Rightarrow> Err (stream_not_exist stream_id))"

definition sg_next_offset :: "u64 \<Rightarrow> 'l stream_manager \<Rightarrow> (es_error, u64) outcome" where
  "sg_next_offset stream_id sg =
     (case bt_get stream_id (sg_streams sg) of
        Some fs \<Rightarrow> Ok (sm_next_offset (fst (cs_stream fs)))
      | None \<Rightarrow> Err (stream_not_exist stream_id))"

definition sg_trim :: "bool \<Rightarrow> (es_error, unit) outcome \<Rightarrow> u64 \<Rightarrow> u64 \<Rightarrow> 'l stream_manager \<Rightarrow> 'l stream_manager \<times> (es_error, unit) outcome" where
  "sg_trim alive trim_stream stream_id new_start_offset sg =
     on_stream stream_id sg (repl_op (sm_trim alive trim_stream new_start_offset))"

definition sg_delete :: "bool \<Rightarrow> (es_error, unit) outcome \<Rightarrow> u64 \<Rightarrow> 'l stream_manager \<Rightarrow> 'l stream_manager \<times> (es_error, unit) outcome" where
  "sg_delete alive delete_stream stream_id sg = on_stream stream_id sg (repl_op (sm_delete alive delete_stream))"

section \<open>Reading back what was appended\<close>

text \<open>The batch as the range writes it: with its stream, its range and its offsets.\<close>

definition stamped :: "record_batch \<Rightarrow> u64 \<Rightarrow> u64 \<Rightarrow> u32 \<Rightarrow> record_batch" where
  "stamped batch base_offset stream_id range_index =
     batch\<lparr>rb_metadata := (rb_metadata batch)\<lparr>m_stream_id := as_i64 stream_id, m_range_index := as_i32 range_index,
       m_base_offset := as_i64 base_offset, m_last_offset_delta := as_i32 (rb_last_offset_delta batch)\<rparr>\<rparr>"

lemma record_batch_to_bytes_stamped:
  assumes "m_properties (rb_metadata batch) = None"
  shows "record_batch_to_bytes fb order now batch off sid i = Ok (fst (flat_encode (init_from_struct fb (stamped batch off sid i))))"
  using assms
  by (cases batch; cases "rb_metadata batch")
    (simp add: record_batch_to_bytes_def Let_def build_def with_payload_def with_base_timestamp_def with_last_offset_delta_def
      with_base_offset_def with_flags_def with_range_index_def with_stream_id_def new_builder_def stamped_def)

lemma rr_append_caches:
  assumes a: "rr_append fb order now batch off (r, hot) = Ok (bs, r', hot')" and inv: "hc_inv hot"
    and p: "m_properties (rb_metadata batch) = None"
  shows "bt_get (rm_stream_id (rr_metadata r), off) (hc_map hot') = Some \<lparr>br_start_offset = off,
      br_end_offset_delta = rb_last_offset_delta batch mod 2 ^ 32,
      br_data = [encode_batch fb (stamped batch off (rm_stream_id (rr_metadata r)) (int_as_u32 (rm_index (rr_metadata r))))]\<rparr>"
proof -
  let ?sid = "rm_stream_id (rr_metadata r)" and ?d = "rb_last_offset_delta batch mod 2 ^ 32"
  let ?e = "encode_batch fb (stamped batch off ?sid (int_as_u32 (rm_index (rr_metadata r))))"
  obtain c where c: "hc_insert ?sid off ?d [?e] hot = Ok c"
    "bt_get (?sid, off) (hc_map c) = Some \<lparr>br_start_offset = off, br_end_offset_delta = ?d, br_data = [?e]\<rparr>"
    using hc_insert_spec [OF inv, of ?sid off ?d "[?e]"] by blast
  from a have "hot' = c"
    using c(1) by (auto simp: rr_append_def Let_def record_batch_to_bytes_stamped [OF p] vec_bytes_to_bytes_def encode_batch_def split: if_splits)
  with c(2) show ?thesis by simp
qed

lemma lent_confirm_offset: "sm_confirm_offset (st\<lparr>sm_cache := c\<rparr>) = sm_confirm_offset st"
  by (simp add: sm_confirm_offset_def last_range_upd)

lemma hot_hit:
  assumes "bt_get (sid, s) (hc_map c) = Some r" and "s < br_end_offset r" and "0 < h"
  shows "hc_get_block sid s (br_end_offset r) h c = Some (blk_new [r])"
  using assms by (simp add: hc_get_block_def hc_collect.simps [of _ _ _ _ s] hc_collect.simps [of _ _ _ _ "br_end_offset r"])


definition sample_open :: repl_range where
  "sample_open = rr_new (sample_range_meta\<lparr>rm_start := 10\<rparr>) True"

definition sample_confirming :: repl_stream where
  "sample_confirming = sample_stream\<lparr>sm_ranges := [(10, sample_open\<lparr>rr_confirm_offset := 12\<rparr>)], sm_last_range := Some 10\<rparr>"

lemma sample_confirming_bounds: "sm_start_offset sample_confirming = 0" "sm_confirm_offset sample_confirming = 12"
proof -
  have "last_range sample_confirming = Some (sample_open\<lparr>rr_confirm_offset := 12\<rparr>)"
    by (simp add: last_range_def sample_confirming_def bt_get_def)
  then show "sm_confirm_offset sample_confirming = 12" by (simp add: sm_confirm_offset_def)
qed (simp add: sample_confirming_def sample_stream_def sm_new_def)

definition sample_manager :: "hot_cache \<Rightarrow> (records_block_key \<times> u32) list stream_manager" where
  "sample_manager hot =
     \<lparr>sg_round_robin = 0,
      sg_streams = [(1, cs_new 1 (sample_confirming, mg_new) hot sample_read)],
      sg_hot_cache = hot, sg_block_cache = sample_read, sg_clients = 1\<rparr>"


section \<open>Streams are filed under their ids\<close>

text \<open>
  The operations in any order, with the rounds of the append tasks and of the tasks that read
  ahead between them. An operation that does not return or panics has no step.
\<close>

definition sg_task :: "fb_meta \<Rightarrow> property_order \<Rightarrow> int \<Rightarrow> env_round list \<Rightarrow> task_event \<Rightarrow> u64 \<Rightarrow> 'l stream_manager
    \<Rightarrow> 'l stream_manager \<times> (es_error, unit) outcome" where
  "sg_task fb order now evs ev stream_id sg =
     on_stream stream_id sg (repl_op (\<lambda>st. case append_task_step fb order now evs ev st of (st, r) \<Rightarrow> (st, case r of Some x \<Rightarrow> x | None \<Rightarrow> Ok ())))"

definition sg_readahead :: "'l lru_api \<Rightarrow> nat \<Rightarrow> fb_meta \<Rightarrow> object_bytes option \<Rightarrow> bool \<Rightarrow> (nat \<Rightarrow> fetch_request \<Rightarrow> (es_error, fetch_result_set) outcome)
    \<Rightarrow> u64 \<Rightarrow> 'l stream_manager \<Rightarrow> 'l stream_manager option" where
  "sg_readahead api now fb op alive servers stream_id sg =
     (case bt_get stream_id (sg_streams sg) of
        None \<Rightarrow> Some sg
      | Some fs \<Rightarrow>
          (case run_readahead api now (repl_fetcher fb op alive servers) (\<lambda>s. sm_confirm_offset (fst s)) (lend sg fs) of
             Some (Ok fs) \<Rightarrow> Some (put_back stream_id fs sg)
           | _ \<Rightarrow> None))"

inductive manager_step :: "'l stream_manager \<Rightarrow> 'l stream_manager \<Rightarrow> bool" where
  creates: "sg_create create_stream replica ack_count retention sg = (sg', r) \<Longrightarrow> manager_step sg sg'"
| opens: "sg_open alive up ranges ev sid epoch sg = Some (sg', r) \<Longrightarrow> manager_step sg sg'"
| appends: "sg_append sid batch sg = (sg', r) \<Longrightarrow> manager_step sg sg'"
| fetches: "sg_fetch api now fb op alive servers sid s e limit sg = Some (sg', x) \<Longrightarrow> manager_step sg sg'"
| trims: "sg_trim alive res sid off sg = (sg', r) \<Longrightarrow> manager_step sg sg'"
| deletes: "sg_delete alive res sid sg = (sg', r) \<Longrightarrow> manager_step sg sg'"
| closes: "sg_close ev sid sg = (sg', r) \<Longrightarrow> manager_step sg sg'"
| task: "sg_task fb order now evs tev sid sg = (sg', r) \<Longrightarrow> manager_step sg sg'"
| reads_ahead: "sg_readahead api now fb op alive servers sid sg = Some sg' \<Longrightarrow> manager_step sg sg'"

definition stream_at :: "u64 \<Rightarrow> 'l fstream \<Rightarrow> bool" where
  "stream_at sid fs \<longleftrightarrow> cs_stream_id fs = sid \<and> sm_id (fst (cs_stream fs)) = sid"

definition streams_filed :: "'l stream_manager \<Rightarrow> bool" where
  "streams_filed sg \<longleftrightarrow> bt_wf (sg_streams sg) \<and> (\<forall>sid fs. bt_get sid (sg_streams sg) = Some fs \<longrightarrow> stream_at sid fs)"

lemma stream_at_lend [simp]: "stream_at sid (lend sg fs) = stream_at sid fs"
  by (simp add: stream_at_def lend_def)

lemma filed_put_back: "streams_filed sg \<Longrightarrow> stream_at sid fs \<Longrightarrow> streams_filed (put_back sid fs sg)"
  by (auto simp: streams_filed_def put_back_def bt_get_insert bt_wf_insert split: if_splits)

lemma filed_on_stream:
  assumes "streams_filed sg" and "on_stream sid sg f = (sg', r)" and "\<And>fs fs' r. stream_at sid fs \<Longrightarrow> f fs = (fs', r) \<Longrightarrow> stream_at sid fs'"
  shows "streams_filed sg'"
proof (cases "bt_get sid (sg_streams sg)")
  case (Some fs)
  obtain fs' x where f: "f (lend sg fs) = (fs', x)" by fastforce
  have "stream_at sid (lend sg fs)" using assms(1) Some by (simp add: streams_filed_def)
  then have "stream_at sid fs'" using f by (rule assms(3))
  then show ?thesis using assms(1,2) Some f by (auto simp: on_stream_def intro: filed_put_back)
qed (use assms(1,2) in \<open>simp add: on_stream_def\<close>)

lemma repl_op_at:
  assumes "\<And>st st' r. f st = (st', r) \<Longrightarrow> sm_id st' = sm_id st" and "stream_at sid fs" and "repl_op f fs = (fs', r)"
  shows "stream_at sid fs'"
proof -
  obtain st mg where s: "cs_stream fs = (st, mg)" by fastforce
  obtain st' x where f: "f st = (st', x)" by fastforce
  from assms(1) [OF f] assms(2,3) s f show ?thesis by (auto simp: repl_op_def stream_at_def)
qed

lemma filed_repl_op:
  assumes "streams_filed sg" and "on_stream sid sg (repl_op f) = (sg', r)" and "\<And>st st' r. f st = (st', r) \<Longrightarrow> sm_id st' = sm_id st"
  shows "streams_filed sg'"
  using assms(1,2) by (rule filed_on_stream) (rule repl_op_at [OF assms(3)])

subsection \<open>The id of a stream never changes\<close>

lemma put_last_id [simp]: "sm_id (put_last r st) = sm_id st"
  by (simp add: put_last_def split: option.split)

lemma new_range_id: "new_range ev i off st = (st', r) \<Longrightarrow> sm_id st' = sm_id st"
  by (auto simp: new_range_def split: if_splits outcome.splits)

lemma after_seal_id: "after_seal ev r st = (st', rw, res) \<Longrightarrow> sm_id st' = sm_id st"
  by (auto simp: after_seal_def Let_def split: if_splits outcome.splits option.splits prod.splits dest!: new_range_id)

lemma get_writable_range_id: "get_writable_range evs rw st = (st', r) \<Longrightarrow> sm_id st' = sm_id st"
proof (induction evs arbitrary: rw st)
  case Nil
  then show ?case by (auto split: option.splits)
next
  case (Cons ev evs)
  show ?case
  proof (cases "last_range st")
    case None
    obtain st1 x where n: "new_range ev 0 0 st = (st1, x)" by fastforce
    show ?thesis using Cons(1) [of rw st1] Cons(2) None n new_range_id [OF n] by (cases x) auto
  next
    case (Some q)
    obtain st1 rw1 x where n: "after_seal ev q st = (st1, rw1, x)" by (metis prod.collapse)
    show ?thesis using Cons(1) [of _ st1] Cons(2) Some n after_seal_id [OF n]
      by (auto simp: Let_def split: if_splits option.splits outcome.splits)
  qed
qed

lemma ack_and_append_id: "ack_and_append fb order now q st = (st', r) \<Longrightarrow> sm_id st' = sm_id st"
  by (auto simp: ack_and_append_def Let_def split: outcome.splits prod.splits)

lemma append_task0_id: "append_task0 fb order now evs st = (st', r) \<Longrightarrow> sm_id st' = sm_id st"
proof -
  assume a: "append_task0 fb order now evs st = (st', r)"
  obtain st1 x where g: "get_writable_range evs None st = (st1, x)" by fastforce
  from a g get_writable_range_id [OF g] show ?thesis
    by (auto simp: append_task0_def Let_def split: option.splits outcome.splits if_splits prod.splits dest!: ack_and_append_id)
qed

lemma task_round_id: "task_round fb order now evs st = (st', r) \<Longrightarrow> sm_id st' = sm_id st"
  by (auto simp: task_round_def task_end_def fail_inflight_def split: if_splits option.splits outcome.splits prod.splits dest!: append_task0_id)

lemma append_task_step_id: "append_task_step fb order now evs ev st = (st', r) \<Longrightarrow> sm_id st' = sm_id st"
  by (auto simp: append_task_step_def task_end_def fail_inflight_def Let_def
      split: task_event.splits list.splits option.splits if_splits dest!: task_round_id)

lemma sm_open_id: "sm_open alive up ranges ev st = (st', r) \<Longrightarrow> sm_id st' = sm_id st"
  by (auto simp: sm_open_def sm_load_def Let_def split: if_splits option.splits outcome.splits prod.splits)

lemma sm_fetch_id: "sm_fetch fb alive servers s e limit st = (st', r) \<Longrightarrow> sm_id st' = sm_id st"
  by (auto simp: sm_fetch_def split: if_splits option.splits prod.splits)

lemma fetch_rounds_id:
  assumes "fetch_rounds fb op inner e s st = Some y" and "\<And>s a b c s' r. inner s a b c = (s', r) \<Longrightarrow> f s' = f s"
  shows "f (fst y) = f s"
  using assms(2)
proof (induction rule: fetch_rounds.raw_induct [OF _ assms(1)])
  case (1 rounds fb op inner e s st y)
  obtain s1 x where i: "inner s (ft_start_offset st) e (ft_remaining_size st) = (s1, x)" by fastforce
  have s1: "f s1 = f s" by (rule 1(3) [OF i])
  have ih: "f (fst z) = f s1" if "rounds fb op inner e s1 st1 = Some z" for st1 z
    by (rule 1(1) [OF that 1(3)])
  from 1(2) i s1 ih show ?case
    by (auto simp: Let_def split: outcome.splits option.splits if_splits prod.splits)
qed

lemma repl_fetcher_id:
  assumes "repl_fetcher fb op alive servers s a b c = Some (s', r)"
  shows "sm_id (fst s') = sm_id (fst s)"
proof -
  obtain st mg where s: "s = (st, mg)" by fastforce
  obtain y where y: "fetch_rounds fb op (\<lambda>st s e m. sm_fetch fb alive servers s e m st) b st
      \<lparr>ft_manager = mg, ft_start_offset = a, ft_remaining_size = c, ft_final_blocks = []\<rparr> = Some y" "fst s' = fst y"
    using assms s by (auto simp: repl_fetcher_def os_fetch0_def split: option.splits prod.splits)
  have "sm_id (fst y) = sm_id st" by (rule fetch_rounds_id [OF y(1)]) (rule sm_fetch_id)
  with s y(2) show ?thesis by simp
qed

subsection \<open>Fetches keep the stream in its place\<close>

lemma read_from_cache_keeps:
  "read_from_cache api now e cr cs = Some (Ok (cr', cs')) \<Longrightarrow> cs_stream_id cs' = cs_stream_id cs \<and> cs_stream cs' = cs_stream cs"
  by (auto simp: read_from_cache_def Let_def bind_outcome_eq_Ok split: option.splits if_splits)

lemma insert_blocks_cs_keeps:
  "insert_blocks_cs api now bs cs = Some (Ok cs') \<Longrightarrow> cs_stream_id cs' = cs_stream_id cs \<and> cs_stream cs' = cs_stream cs"
  by (auto simp: insert_blocks_cs_def fmap_ok_eq_Ok split: option.splits outcome.splits)

lemma background_readahead_keeps [simp]:
  "cs_stream_id (background_readahead ra cs) = cs_stream_id cs" "cs_stream (background_readahead ra cs) = cs_stream cs"
  by (simp_all add: background_readahead_def)

lemma read_from_stream_at:
  assumes "read_from_stream api now (repl_fetcher fb op alive servers) s e m re rm blocks cs = Some (cs', r)" and "stream_at sid cs"
  shows "stream_at sid cs'"
proof (cases "repl_fetcher fb op alive servers (cs_stream cs) s re rm")
  case (Some x)
  obtain s1 y where x: "x = (s1, y)" by fastforce
  have i: "sm_id (fst s1) = sm_id (fst (cs_stream cs))" by (rule repl_fetcher_id) (use Some x in simp)
  show ?thesis using assms Some x i
    by (auto simp: read_from_stream_def Let_def stream_at_def split: outcome.splits option.splits prod.splits if_splits dest!: insert_blocks_cs_keeps)
qed (use assms in \<open>simp add: read_from_stream_def\<close>)

lemma cs_fetch0_at:
  assumes f: "cs_fetch0 api now (repl_fetcher fb op alive servers) limits msg s e m cs = Some (cs', x)" and at: "stream_at sid cs"
  shows "stream_at sid cs'"
proof -
  let ?cr = "\<lparr>cr_next = s, cr_max_bytes = m, cr_blocks = [], cr_readahead = None\<rparr>"
  have round: "stream_at sid cs'" if r: "cs_fetch_round api now (repl_fetcher fb op alive servers) se w s e m cs = Some (cs', x)" for se w
  proof (cases "read_from_cache api now e ?cr cs")
    case (Some y)
    show ?thesis
    proof (cases y)
      case (Ok z)
      obtain cr cs1 where z: "z = (cr, cs1)" by fastforce
      let ?cs = "case cr_readahead cr of Some ra \<Rightarrow> background_readahead ra cs1 | None \<Rightarrow> cs1"
      have "stream_at sid ?cs"
        using read_from_cache_keeps [of api now e ?cr cs cr cs1] Some Ok z at by (auto simp: stream_at_def split: option.split)
      then show ?thesis using r Some Ok z
        by (auto simp: cs_fetch_round_def Let_def split: if_splits option.splits dest: read_from_stream_at)
    qed (use r Some at in \<open>auto simp: cs_fetch_round_def\<close>)
  qed (use r in \<open>simp add: cs_fetch_round_def\<close>)
  show ?thesis using f at by (auto simp: cs_fetch0_def split: prod.splits if_splits intro: round)
qed

lemma run_readahead_at:
  assumes "run_readahead api now (repl_fetcher fb op alive servers) confirm cs = Some (Ok cs')" and "stream_at sid cs"
  shows "stream_at sid cs'"
proof (cases "cs_tasks cs")
  case (Cons ra ras)
  let ?cs = "cs\<lparr>cs_tasks := ras\<rparr>"
  obtain cs1 where b: "background_readahead0 api now (repl_fetcher fb op alive servers) confirm ra ?cs = Some (Ok cs1)"
    and c: "cs_stream_id cs' = cs_stream_id cs1" "cs_stream cs' = cs_stream cs1"
    using assms(1) Cons by (auto simp: run_readahead_def fmap_ok_eq_Ok split: option.splits)
  have "stream_at sid cs1" using b assms(2)
    by (auto simp: background_readahead0_def Let_def stream_at_def split: if_splits option.splits outcome.splits prod.splits
        dest!: insert_blocks_cs_keeps repl_fetcher_id)
  then show ?thesis using c by (simp add: stream_at_def)
qed (use assms in \<open>simp add: run_readahead_def\<close>)

subsection \<open>Every operation keeps the streams filed\<close>

lemma filed_cong: "sg_streams sg' = sg_streams sg \<Longrightarrow> streams_filed sg \<Longrightarrow> streams_filed sg'"
  by (simp add: streams_filed_def)

lemma route_client_streams: "route_client sg = Ok (i, sg') \<Longrightarrow> sg_streams sg' = sg_streams sg"
  by (auto simp: route_client_def split: if_splits)

lemma sg_open_filed:
  assumes "streams_filed sg" and "sg_open alive up ranges ev sid epoch sg = Some (sg', r)"
  shows "streams_filed sg'"
proof (cases "route_client sg")
  case (Ok y)
  obtain i sg1 where y: "y = (i, sg1)" by fastforce
  have f: "streams_filed sg1" by (rule filed_cong [OF _ assms(1)]) (use route_client_streams Ok y in blast)
  obtain st x where o: "sm_open alive up ranges ev (fst (cs_stream (new_stream sid epoch sg1))) = (st, x)" by fastforce
  have "sm_id st = sid" using sm_open_id [OF o] by (simp add: new_stream_def cs_new_def sm_new_def)
  then have "stream_at sid ((new_stream sid epoch sg1)\<lparr>cs_stream := (st, mg_new)\<rparr>)" by (simp add: stream_at_def new_stream_def cs_new_def)
  from filed_put_back [OF f this] show ?thesis using assms(2) Ok y o f
    by (auto simp: sg_open_def split: option.splits outcome.splits)
qed (use assms in \<open>auto simp: sg_open_def\<close>)

lemma sg_fetch_filed:
  assumes f: "streams_filed sg" and "sg_fetch api now fb op alive servers sid s e limit sg = Some (sg', x)"
  shows "streams_filed sg'"
proof (cases "bt_get sid (sg_streams sg)")
  case (Some fs)
  have at: "stream_at sid (lend sg fs)" using f Some by (simp add: streams_filed_def)
  obtain fs' where "stream_at sid fs'" "sg' = put_back sid fs' sg"
    using assms(2) Some by (auto simp: sg_fetch_def split: option.splits cs_next.splits dest: cs_fetch0_at [OF _ at])
  then show ?thesis using f by (simp add: filed_put_back)
qed (use assms in \<open>simp add: sg_fetch_def\<close>)

lemma bt_wf_removed: "bt_wf m \<Longrightarrow> bt_wf (bt_remove k m)"
  by (simp add: bt_remove_def bt_wf_filter)

lemma sg_close_filed: "streams_filed sg \<Longrightarrow> sg_close ev sid sg = (sg', r) \<Longrightarrow> streams_filed sg'"
  by (auto simp: sg_close_def streams_filed_def bt_wf_removed bt_get_remove split: option.splits if_splits)

lemma sg_readahead_filed:
  assumes f: "streams_filed sg" and "sg_readahead api now fb op alive servers sid sg = Some sg'"
  shows "streams_filed sg'"
proof (cases "bt_get sid (sg_streams sg)")
  case (Some fs)
  have at: "stream_at sid (lend sg fs)" using f Some by (simp add: streams_filed_def)
  obtain fs' where "stream_at sid fs'" "sg' = put_back sid fs' sg"
    using assms(2) Some by (auto simp: sg_readahead_def split: option.splits outcome.splits dest: run_readahead_at [OF _ at])
  then show ?thesis using f by (simp add: filed_put_back)
qed (use assms in \<open>simp add: sg_readahead_def\<close>)

lemma manager_step_filed: "manager_step sg sg' \<Longrightarrow> streams_filed sg \<Longrightarrow> streams_filed sg'"
proof (induction rule: manager_step.induct)
  case (creates create_stream replica ack_count retention sg sg' r)
  then show ?case by (auto simp: sg_create_def split: outcome.splits prod.splits intro: filed_cong dest: route_client_streams)
next
  case (appends sid batch sg sg' r)
  from appends(2,1) [unfolded sg_append_def] show ?case
    by (rule filed_repl_op) (auto simp: sm_append_def Let_def split: if_splits outcome.splits)
next
  case (trims alive res sid off sg sg' r)
  from trims(2,1) [unfolded sg_trim_def] show ?case by (rule filed_repl_op) (auto simp: sm_trim_def Let_def)
next
  case (deletes alive res sid sg sg' r)
  from deletes(2,1) [unfolded sg_delete_def] show ?case by (rule filed_repl_op) (auto simp: sm_delete_def)
next
  case (task fb order now evs tev sid sg sg' r)
  from task(2,1) [unfolded sg_task_def] show ?case by (rule filed_repl_op) (auto split: prod.splits dest: append_task_step_id)
qed (rule sg_open_filed sg_fetch_filed sg_close_filed sg_readahead_filed; assumption)+



end
