(* ===== verification/Watermark.thy ===== *)
theory Watermark
  imports BTree_Map
begin

text \<open>
  The watermarks of the write-ahead log, \<open>src/components/store/src/watermark/\<close>: for every range of
  every stream the store tracks what is indexed and what is offloaded, and derives the smallest
  offset of the log that is still needed and the offset up to which everything is offloaded. The
  index that translates offsets of a range to offsets of the log is the argument \<open>tlb\<close>; the locale
  \<open>wal_scanner\<close> has what the watermarks rely on. Assertions of debug builds are left out.
\<close>

section \<open>Model\<close>

type_synonym scan_wal = "u64 \<Rightarrow> u32 \<Rightarrow> u64 \<Rightarrow> u64 option \<Rightarrow> u64 option"

type_synonym offload_slice = "u64 \<times> u64"

subsection \<open>Ranges\<close>

record range_descriptor =
  rd_stream :: u64
  rd_range :: u32
  rd_start :: u64
  rd_end :: u64
  rd_seal :: "u64 option"
  rd_offloaded :: "offload_slice list"
  rd_wal :: "u64 option"

definition rd_new :: "u64 \<Rightarrow> u32 \<Rightarrow> u64 \<Rightarrow> range_descriptor" where
  "rd_new stream range_index start_offset =
     \<lparr>rd_stream = stream, rd_range = range_index, rd_start = start_offset, rd_end = start_offset, rd_seal = None, rd_offloaded = [], rd_wal = None\<rparr>"

definition rd_with_end :: "u64 \<Rightarrow> u32 \<Rightarrow> u64 \<Rightarrow> u64 \<Rightarrow> range_descriptor" where
  "rd_with_end stream range_index start_offset end_offset =
     \<lparr>rd_stream = stream, rd_range = range_index, rd_start = start_offset, rd_end = end_offset, rd_seal = Some end_offset, rd_offloaded = [], rd_wal = None\<rparr>"

definition rd_trim :: "scan_wal \<Rightarrow> u64 \<Rightarrow> range_descriptor \<Rightarrow> range_descriptor" where
  "rd_trim tlb start_offset r =
     (if rd_start r \<le> start_offset
      then let end_offset = (case rd_seal r of Some off \<Rightarrow> off | None \<Rightarrow> rd_end r) in
           case tlb (rd_stream r) (rd_range r) start_offset (Some end_offset) of
             Some wal_offset \<Rightarrow> r\<lparr>rd_start := start_offset, rd_wal := Some wal_offset\<rparr>
           | None \<Rightarrow> r\<lparr>rd_start := start_offset\<rparr>
      else r)"

definition rd_index :: "u64 \<Rightarrow> range_descriptor \<Rightarrow> range_descriptor" where
  "rd_index off r = (if off > rd_end r then r\<lparr>rd_end := off\<rparr> else r)"

definition rd_seal_at :: "u64 \<Rightarrow> range_descriptor \<Rightarrow> range_descriptor" where
  "rd_seal_at off r = r\<lparr>rd_seal := Some off\<rparr>"

text \<open>The slices from the last one on; the first that touches the new slice is expanded.\<close>

fun expand_slice :: "offload_slice \<Rightarrow> offload_slice list \<Rightarrow> offload_slice list option" where
  "expand_slice sl [] = None"
| "expand_slice sl (s # ss) =
     (if fst sl = snd s then Some ((fst s, snd sl) # ss)
      else if snd sl = fst s then Some ((fst sl, snd s) # ss)
      else map_option ((#) s) (expand_slice sl ss))"

text \<open>The first slice that ends where its follow-up starts is merged with it.\<close>

fun merge_slices :: "offload_slice list \<Rightarrow> offload_slice list" where
  "merge_slices (a # b # ss) = (if snd a = fst b then (fst a, snd b) # ss else a # merge_slices (b # ss))"
| "merge_slices ss = ss"

fun insert_slice :: "offload_slice \<Rightarrow> offload_slice list \<Rightarrow> offload_slice list" where
  "insert_slice sl [] = [sl]"
| "insert_slice sl (s # ss) = (if snd s \<le> fst sl then s # sl # ss else s # insert_slice sl ss)"

definition rd_offload :: "offload_slice \<Rightarrow> range_descriptor \<Rightarrow> range_descriptor" where
  "rd_offload sl r =
     r\<lparr>rd_offloaded := (case expand_slice sl (rev (rd_offloaded r)) of
        Some ss \<Rightarrow> merge_slices (rev ss)
      | None \<Rightarrow> insert_slice sl (rd_offloaded r))\<rparr>"

definition rd_min_wal :: "scan_wal \<Rightarrow> range_descriptor \<Rightarrow> range_descriptor \<times> u64 option" where
  "rd_min_wal tlb r =
     (if rd_end r = rd_start r then (r, None)
      else case rd_wal r of
             Some w \<Rightarrow> (r, Some w)
           | None \<Rightarrow>
               (case tlb (rd_stream r) (rd_range r) (rd_start r) (Some (rd_end r)) of
                  Some off \<Rightarrow> (r\<lparr>rd_wal := Some off\<rparr>, Some off)
                | None \<Rightarrow> (r, None)))"

fun high_from :: "u64 \<Rightarrow> offload_slice list \<Rightarrow> u64" where
  "high_from off [] = off"
| "high_from off (s # ss) = (if off = fst s then high_from (snd s) ss else off)"

definition rd_high :: "range_descriptor \<Rightarrow> u64" where
  "rd_high r = high_from (rd_start r) (rd_offloaded r)"

subsection \<open>Streams\<close>

record stream_descriptor =
  sd_stream_id :: u64
  sd_ranges :: "range_descriptor list"

definition sd_new :: "u64 \<Rightarrow> stream_descriptor" where
  "sd_new stream_id = \<lparr>sd_stream_id = stream_id, sd_ranges = []\<rparr>"

text \<open>After the last range with a smaller index, at the end when there is none.\<close>

definition insert_range :: "range_descriptor \<Rightarrow> range_descriptor list \<Rightarrow> range_descriptor list" where
  "insert_range r rs =
     (if \<exists>q \<in> set rs. rd_range q < rd_range r
      then let after = rev (takeWhile (\<lambda>q. \<not> rd_range q < rd_range r) (rev rs))
           in take (length rs - length after) rs @ r # after
      else rs @ [r])"

definition sd_add_range :: "u32 \<Rightarrow> u64 \<Rightarrow> u64 option \<Rightarrow> stream_descriptor \<Rightarrow> stream_descriptor" where
  "sd_add_range range_index start_offset end_offset d =
     (let r = (case end_offset of
                 Some e \<Rightarrow> rd_with_end (sd_stream_id d) range_index start_offset e
               | None \<Rightarrow> rd_new (sd_stream_id d) range_index start_offset)
      in d\<lparr>sd_ranges := insert_range r (sd_ranges d)\<rparr>)"

text \<open>No result while the loop does not return.\<close>

partial_function (option) trim_loop :: "scan_wal \<Rightarrow> u64 \<Rightarrow> range_descriptor list \<Rightarrow> range_descriptor list option" where
  "trim_loop tlb off rs =
     (case rs of
        [] \<Rightarrow> Some []
      | r # rest \<Rightarrow>
          if rd_start r \<ge> off then Some rs
          else (case rd_seal r of
                  Some e \<Rightarrow> trim_loop tlb off (if e \<le> off then rest else rs)
                | None \<Rightarrow> Some (rd_trim tlb off r # rest)))"

definition sd_trim :: "scan_wal \<Rightarrow> u64 \<Rightarrow> stream_descriptor \<Rightarrow> stream_descriptor option" where
  "sd_trim tlb off d = map_option (\<lambda>rs. d\<lparr>sd_ranges := rs\<rparr>) (trim_loop tlb off (sd_ranges d))"

definition sd_index :: "u32 \<Rightarrow> u64 \<Rightarrow> stream_descriptor \<Rightarrow> stream_descriptor" where
  "sd_index range_index off d =
     (if sd_ranges d \<noteq> [] \<and> rd_range (last (sd_ranges d)) = range_index
      then d\<lparr>sd_ranges := butlast (sd_ranges d) @ [rd_index off (last (sd_ranges d))]\<rparr> else d)"

definition sd_seal :: "u32 \<Rightarrow> u64 \<Rightarrow> stream_descriptor \<Rightarrow> stream_descriptor" where
  "sd_seal range_index e d = d\<lparr>sd_ranges := map (\<lambda>r. if rd_range r = range_index then rd_seal_at e r else r) (sd_ranges d)\<rparr>"

definition sd_trim_range :: "scan_wal \<Rightarrow> u32 \<Rightarrow> u64 \<Rightarrow> stream_descriptor \<Rightarrow> stream_descriptor" where
  "sd_trim_range tlb range_index off d = d\<lparr>sd_ranges := map (\<lambda>r. if rd_range r = range_index then rd_trim tlb off r else r) (sd_ranges d)\<rparr>"

definition sd_delete_range :: "u32 \<Rightarrow> stream_descriptor \<Rightarrow> stream_descriptor" where
  "sd_delete_range range_index d = d\<lparr>sd_ranges := dropWhile (\<lambda>r. rd_range r \<le> range_index) (sd_ranges d)\<rparr>"

definition sd_min_wal :: "scan_wal \<Rightarrow> stream_descriptor \<Rightarrow> stream_descriptor \<times> u64 option" where
  "sd_min_wal tlb d =
     (case sd_ranges d of
        [] \<Rightarrow> (d, None)
      | r # rs \<Rightarrow> (case rd_min_wal tlb r of (r, w) \<Rightarrow> (d\<lparr>sd_ranges := r # rs\<rparr>, w)))"

fun offload_first :: "u32 \<Rightarrow> offload_slice \<Rightarrow> range_descriptor list \<Rightarrow> range_descriptor list" where
  "offload_first range_index sl [] = []"
| "offload_first range_index sl (r # rs) = (if rd_range r = range_index then rd_offload sl r # rs else r # offload_first range_index sl rs)"

definition sd_data_offload :: "u32 \<Rightarrow> u64 \<Rightarrow> u32 \<Rightarrow> stream_descriptor \<Rightarrow> (unit, stream_descriptor) outcome" where
  "sd_data_offload range_index start_offset delta d =
     (if \<exists>r \<in> set (sd_ranges d). rd_range r = range_index
      then if start_offset + delta \<ge> 2 ^ 64 then Panic
           else Ok (d\<lparr>sd_ranges := offload_first range_index (start_offset, start_offset + delta) (sd_ranges d)\<rparr>)
      else Ok d)"

fun wal_high_of :: "scan_wal \<Rightarrow> u64 \<Rightarrow> range_descriptor list \<Rightarrow> u64 option" where
  "wal_high_of tlb stream_id [] = None"
| "wal_high_of tlb stream_id (r # rs) =
     (case rd_seal r of
        Some e \<Rightarrow> if rd_high r \<ge> e then wal_high_of tlb stream_id rs else tlb stream_id (rd_range r) (rd_high r) (Some e)
      | None \<Rightarrow> tlb stream_id (rd_range r) (rd_high r) (Some (rd_end r)))"

definition sd_wal_high :: "scan_wal \<Rightarrow> stream_descriptor \<Rightarrow> u64 option" where
  "sd_wal_high tlb d = wal_high_of tlb (sd_stream_id d) (sd_ranges d)"

subsection \<open>The manager\<close>

record wal_watermark =
  ww_min :: u64
  ww_offload :: u64

definition ww_new :: wal_watermark where
  "ww_new = \<lparr>ww_min = 0, ww_offload = 0\<rparr>"

record watermark_manager =
  wm_streams :: "(u64, stream_descriptor) btree"
  wm_watermarks :: "wal_watermark list"

definition wm_new :: watermark_manager where
  "wm_new = \<lparr>wm_streams = bt_empty, wm_watermarks = []\<rparr>"

definition add_watermark :: "wal_watermark \<Rightarrow> watermark_manager \<Rightarrow> watermark_manager" where
  "add_watermark w m = m\<lparr>wm_watermarks := wm_watermarks m @ [w]\<rparr>"

definition stream_mut :: "u64 \<Rightarrow> watermark_manager \<Rightarrow> stream_descriptor" where
  "stream_mut stream_id m = (case bt_get stream_id (wm_streams m) of Some d \<Rightarrow> d | None \<Rightarrow> sd_new stream_id)"

definition put_stream :: "u64 \<Rightarrow> stream_descriptor \<Rightarrow> watermark_manager \<Rightarrow> watermark_manager" where
  "put_stream stream_id d m = m\<lparr>wm_streams := bt_insert stream_id d (wm_streams m)\<rparr>"

definition least_of :: "u64 list \<Rightarrow> u64" where
  "least_of xs = (if xs = [] then 0 else Min (set xs))"

definition min_wal_offset :: "scan_wal \<Rightarrow> watermark_manager \<Rightarrow> watermark_manager \<times> u64" where
  "min_wal_offset tlb m =
     (let ds = map (\<lambda>(k, d). (k, sd_min_wal tlb d)) (wm_streams m)
      in (m\<lparr>wm_streams := map (\<lambda>(k, d, _). (k, d)) ds\<rparr>, least_of (List.map_filter (\<lambda>(_, _, w). w) ds)))"

definition offload_wal_offset :: "scan_wal \<Rightarrow> watermark_manager \<Rightarrow> u64" where
  "offload_wal_offset tlb m = least_of (List.map_filter (\<lambda>(_, d). sd_wal_high tlb d) (wm_streams m))"

definition wm_on_index :: "u64 \<Rightarrow> u32 \<Rightarrow> u64 \<Rightarrow> watermark_manager \<Rightarrow> watermark_manager" where
  "wm_on_index stream_id range_index off m = put_stream stream_id (sd_index range_index off (stream_mut stream_id m)) m"

definition wm_trim_stream :: "scan_wal \<Rightarrow> u64 \<Rightarrow> u64 \<Rightarrow> watermark_manager \<Rightarrow> watermark_manager option" where
  "wm_trim_stream tlb stream_id off m =
     (case sd_trim tlb off (stream_mut stream_id m) of
        None \<Rightarrow> None
      | Some d \<Rightarrow>
          (case min_wal_offset tlb (put_stream stream_id d m) of
             (m, least) \<Rightarrow> Some (m\<lparr>wm_watermarks := map (\<lambda>w. w\<lparr>ww_min := least\<rparr>) (wm_watermarks m)\<rparr>)))"

definition wm_on_data_offload :: "scan_wal \<Rightarrow> u64 \<Rightarrow> u32 \<Rightarrow> u64 \<Rightarrow> u32 \<Rightarrow> watermark_manager \<Rightarrow> (unit, watermark_manager) outcome" where
  "wm_on_data_offload tlb stream_id range_index off delta m =
     bind_outcome (sd_data_offload range_index off delta (stream_mut stream_id m)) (\<lambda>d.
       let m = put_stream stream_id d m; offload = offload_wal_offset tlb m
       in Ok (m\<lparr>wm_watermarks := map (\<lambda>w. w\<lparr>ww_offload := offload\<rparr>) (wm_watermarks m)\<rparr>))"

definition wm_add_range :: "u64 \<Rightarrow> u32 \<Rightarrow> u64 \<Rightarrow> u64 option \<Rightarrow> watermark_manager \<Rightarrow> watermark_manager" where
  "wm_add_range stream_id range_index start_offset end_offset m = put_stream stream_id (sd_add_range range_index start_offset end_offset (stream_mut stream_id m)) m"

definition wm_delete_range :: "u64 \<Rightarrow> u32 \<Rightarrow> watermark_manager \<Rightarrow> watermark_manager" where
  "wm_delete_range stream_id range_index m = put_stream stream_id (sd_delete_range range_index (stream_mut stream_id m)) m"

definition wm_seal_range :: "u64 \<Rightarrow> u32 \<Rightarrow> u64 \<Rightarrow> watermark_manager \<Rightarrow> watermark_manager" where
  "wm_seal_range stream_id range_index e m = put_stream stream_id (sd_seal range_index e (stream_mut stream_id m)) m"

definition wm_trim_range :: "scan_wal \<Rightarrow> u64 \<Rightarrow> u32 \<Rightarrow> u64 \<Rightarrow> watermark_manager \<Rightarrow> watermark_manager" where
  "wm_trim_range tlb stream_id range_index start_offset m = put_stream stream_id (sd_trim_range tlb range_index start_offset (stream_mut stream_id m)) m"

section \<open>What is below the high watermark is offloaded\<close>

definition covered :: "offload_slice list \<Rightarrow> u64 set" where
  "covered ss = (\<Union>s \<in> set ss. {fst s..<snd s})"

lemma covered_simps [simp]: "covered [] = {}" "covered (s # ss) = {fst s..<snd s} \<union> covered ss" "covered (rev ss) = covered ss"
  by (auto simp: covered_def)

definition forward :: "offload_slice list \<Rightarrow> bool" where
  "forward ss \<longleftrightarrow> (\<forall>s \<in> set ss. fst s \<le> snd s)"

lemma forward_simps [simp]: "forward []" "forward (s # ss) \<longleftrightarrow> fst s \<le> snd s \<and> forward ss" "forward (rev ss) = forward ss"
  by (simp_all add: forward_def)

lemma expand_slice_covers:
  "expand_slice sl ss = Some ss' \<Longrightarrow> forward (sl # ss) \<Longrightarrow> covered ss' = {fst sl..<snd sl} \<union> covered ss \<and> forward ss'"
proof (induction ss arbitrary: ss')
  case (Cons s ss)
  then show ?case
    by (auto split: if_splits)
qed simp

lemma merge_slices_covers: "forward ss \<Longrightarrow> covered (merge_slices ss) = covered ss \<and> forward (merge_slices ss)"
  by (induction ss rule: merge_slices.induct) auto

lemma insert_slice_covers: "covered (insert_slice sl ss) = {fst sl..<snd sl} \<union> covered ss"
  by (induction ss) auto

lemma insert_slice_forward: "forward (sl # ss) \<Longrightarrow> forward (insert_slice sl ss)"
  by (induction ss) auto

lemma rd_offload_covers:
  assumes "forward (sl # rd_offloaded r)"
  shows "covered (rd_offloaded (rd_offload sl r)) = {fst sl..<snd sl} \<union> covered (rd_offloaded r) \<and> forward (rd_offloaded (rd_offload sl r))"
proof (cases "expand_slice sl (rev (rd_offloaded r))")
  case None
  then show ?thesis using assms by (simp add: rd_offload_def insert_slice_covers insert_slice_forward)
next
  case (Some ss)
  have "forward (sl # rev (rd_offloaded r))" using assms by simp
  from expand_slice_covers [OF Some this] have "covered ss = {fst sl..<snd sl} \<union> covered (rd_offloaded r)" "forward (rev ss)"
    by simp_all
  then show ?thesis using Some merge_slices_covers [of "rev ss"] by (simp add: rd_offload_def)
qed

lemma high_from_covered: "{off..<high_from off ss} \<subseteq> covered ss"
proof (induction ss arbitrary: off)
  case (Cons s ss)
  have "{fst s..<high_from (snd s) ss} \<subseteq> {fst s..<snd s} \<union> {snd s..<high_from (snd s) ss}" by auto
  with Cons [of "snd s"] show ?case by auto
qed simp

datatype rd_event = RdTrim u64 | RdIndex u64 | RdSeal u64 | RdOffload u64 u32

definition rd_apply :: "scan_wal \<Rightarrow> rd_event \<Rightarrow> range_descriptor \<Rightarrow> range_descriptor" where
  "rd_apply tlb ev r =
     (case ev of
        RdTrim off \<Rightarrow> rd_trim tlb off r
      | RdIndex off \<Rightarrow> rd_index off r
      | RdSeal off \<Rightarrow> rd_seal_at off r
      | RdOffload off delta \<Rightarrow> rd_offload (off, off + delta) r)"

fun offloads :: "rd_event list \<Rightarrow> u64 set" where
  "offloads [] = {}"
| "offloads (RdOffload off delta # evs) = {off..<off + delta} \<union> offloads evs"
| "offloads (_ # evs) = offloads evs"

lemma rd_trim_offloaded [simp]: "rd_offloaded (rd_trim tlb off r) = rd_offloaded r"
  by (simp add: rd_trim_def Let_def split: option.split)

lemma rd_run_covers:
  "forward (rd_offloaded r) \<Longrightarrow> covered (rd_offloaded (fold (rd_apply tlb) evs r)) = covered (rd_offloaded r) \<union> offloads evs"
proof (induction evs arbitrary: r)
  case (Cons ev evs)
  have step: "covered (rd_offloaded (rd_apply tlb ev r)) = covered (rd_offloaded r) \<union> offloads [ev] \<and> forward (rd_offloaded (rd_apply tlb ev r))"
  proof (cases ev)
    case (RdOffload off delta)
    have "forward ((off, off + delta) # rd_offloaded r)" using Cons(2) by simp
    from rd_offload_covers [OF this] RdOffload show ?thesis by (auto simp: rd_apply_def)
  qed (use Cons(2) in \<open>simp_all add: rd_apply_def rd_index_def rd_seal_at_def\<close>)
  have "offloads (ev # evs) = offloads [ev] \<union> offloads evs" by (cases ev) auto
  with Cons(1) step show ?case by auto
qed simp

text \<open>
  C9. The high watermark of a range never runs ahead: after any sequence of trims, index entries,
  seals and offloads of a range, in any order and with overlapping slices, every offset from the
  start of the range up to its high watermark was offloaded by one of them.
\<close>

theorem high_is_offloaded:
  assumes run: "r' = fold (rd_apply tlb) evs (rd_new stream range_index start_offset)"
  shows "{rd_start r'..<rd_high r'} \<subseteq> offloads evs"
proof -
  have "covered (rd_offloaded r') = offloads evs"
    unfolding run by (subst rd_run_covers) (simp_all add: rd_new_def)
  then show ?thesis using high_from_covered [of "rd_start r'" "rd_offloaded r'"] by (simp add: rd_high_def)
qed

theorem high_is_offloaded_witness:
  "rd_high (fold (rd_apply (\<lambda>_ _ _ _. None)) [RdOffload 10 10, RdOffload 0 10] (rd_new 1 0 0)) = 20
   \<and> {0..<20} \<subseteq> offloads [RdOffload 10 10, RdOffload 0 10]"
proof -
  let ?r = "fold (rd_apply (\<lambda>_ _ _ _. None)) [RdOffload 10 10, RdOffload 0 10] (rd_new 1 0 0)"
  have "rd_high ?r = 20" "rd_start ?r = 0"
    by (simp_all add: rd_apply_def rd_offload_def rd_new_def rd_high_def)
  with high_is_offloaded [OF refl, of "\<lambda>_ _ _ _. None" "[RdOffload 10 10, RdOffload 0 10]" 1 0 0] show ?thesis by simp
qed

section \<open>Trimming a stream\<close>

definition expired :: "u64 \<Rightarrow> range_descriptor \<Rightarrow> bool" where
  "expired off r \<longleftrightarrow> rd_start r < off \<and> (case rd_seal r of Some e \<Rightarrow> e \<le> off | None \<Rightarrow> False)"

definition inside_sealed :: "u64 \<Rightarrow> range_descriptor \<Rightarrow> bool" where
  "inside_sealed off r \<longleftrightarrow> rd_start r < off \<and> (case rd_seal r of Some e \<Rightarrow> off < e | None \<Rightarrow> False)"

lemma trim_loop_stuck:
  assumes "trim_loop tlb off rs = Some rs'"
  shows "\<not> (rs \<noteq> [] \<and> inside_sealed off (hd rs))"
proof (induction rule: trim_loop.raw_induct [OF _ assms])
  case (1 rec tlb off rs rs')
  show ?case
  proof (rule notI)
    assume s: "rs \<noteq> [] \<and> inside_sealed off (hd rs)"
    then obtain r q e where r: "rs = r # q" "rd_seal r = Some e" "\<not> e \<le> off" "\<not> off \<le> rd_start r"
      by (cases rs) (auto simp: inside_sealed_def split: option.splits)
    with 1(2) have "rec tlb off rs = Some rs'" by simp
    from 1(1) [OF this] s show False by blast
  qed
qed

lemma trim_loop_drop: "trim_loop tlb off rs = trim_loop tlb off (dropWhile (expired off) rs)"
proof (induction rs)
  case (Cons r rs)
  then show ?case by (auto simp: expired_def trim_loop.simps [of tlb off "r # rs"] split: option.splits)
qed simp

text \<open>
  C40. Trimming a stream drops exactly the leading sealed ranges that end at or before the offset, and
  trims the open range after them. It does not return when the offset lies inside a sealed range:
  such a range is neither dropped nor trimmed, and the loop looks at it again without end.
\<close>

theorem sd_trim_returns:
  "sd_trim tlb off d =
     (case dropWhile (expired off) (sd_ranges d) of
        [] \<Rightarrow> Some (d\<lparr>sd_ranges := []\<rparr>)
      | r # rs \<Rightarrow>
          if inside_sealed off r then None
          else Some (d\<lparr>sd_ranges := (if rd_start r < off then rd_trim tlb off r else r) # rs\<rparr>))"
proof (cases "dropWhile (expired off) (sd_ranges d)")
  case Nil
  show ?thesis unfolding sd_trim_def trim_loop_drop [of tlb off "sd_ranges d"] Nil by (simp add: trim_loop.simps)
next
  case (Cons r rs)
  then have n: "\<not> expired off r" by (metis dropWhile_eq_Cons_conv)
  show ?thesis
  proof (cases "inside_sealed off r")
    case True
    then have "trim_loop tlb off (r # rs) = None" using trim_loop_stuck [of tlb off "r # rs"] by (cases "trim_loop tlb off (r # rs)") auto
    then show ?thesis using True unfolding sd_trim_def trim_loop_drop [of tlb off "sd_ranges d"] Cons by simp
  next
    case False
    then have "rd_start r < off \<Longrightarrow> rd_seal r = None" using n by (auto simp: expired_def inside_sealed_def split: option.splits)
    then have "trim_loop tlb off (r # rs) = Some ((if rd_start r < off then rd_trim tlb off r else r) # rs)"
      by (subst trim_loop.simps) simp
    then show ?thesis using False unfolding sd_trim_def trim_loop_drop [of tlb off "sd_ranges d"] Cons by simp
  qed
qed

section \<open>The minimum of the log\<close>

lemma map_filter_mem: "(k, d, Some w) \<in> set xs \<Longrightarrow> w \<in> set (List.map_filter (\<lambda>(_, _, w). w) xs)"
proof (induction xs)
  case (Cons x xs)
  then show ?case by (cases x) (auto simp: List.map_filter_simps split: option.split)
qed simp

definition rd_typed :: "range_descriptor \<Rightarrow> bool" where
  "rd_typed r \<longleftrightarrow> rd_stream r < 2 ^ 64 \<and> rd_range r < 2 ^ 32 \<and> rd_start r < 2 ^ 64 \<and> rd_end r < 2 ^ 64 \<and> (\<forall>e. rd_seal r = Some e \<longrightarrow> e < 2 ^ 64)"

text \<open>
  What the watermarks rely on, for values within the widths of their types: a scan gives the log offset of the first indexed batch at or after
  an offset and before an end. \<open>recs\<close> gives the log offset of the batch that is indexed at an offset.
\<close>

locale wal_scanner =
  fixes scan :: scan_wal and recs :: "u64 \<Rightarrow> u32 \<Rightarrow> u64 \<Rightarrow> u64 option"
  assumes scan_Some: "sid < 2 ^ 64 \<Longrightarrow> i < 2 ^ 32 \<Longrightarrow> off < 2 ^ 64 \<Longrightarrow> e < 2 ^ 64 \<Longrightarrow> scan sid i off (Some e) = Some w \<Longrightarrow>
      \<exists>x. off \<le> x \<and> x < e \<and> recs sid i x = Some w \<and> (\<forall>y. off \<le> y \<and> y < x \<longrightarrow> recs sid i y = None)"
    and scan_None: "sid < 2 ^ 64 \<Longrightarrow> i < 2 ^ 32 \<Longrightarrow> off < 2 ^ 64 \<Longrightarrow> e < 2 ^ 64 \<Longrightarrow> scan sid i off (Some e) = None \<Longrightarrow> off \<le> x \<Longrightarrow> x < e \<Longrightarrow> recs sid i x = None"
begin

definition log_ordered :: bool where
  "log_ordered \<longleftrightarrow> (\<forall>sid i x y v w. recs sid i x = Some v \<longrightarrow> recs sid i y = Some w \<longrightarrow> x \<le> y \<longrightarrow> v \<le> w)"

definition wal_known :: "range_descriptor \<Rightarrow> bool" where
  "wal_known r \<longleftrightarrow> (\<forall>w x v. rd_wal r = Some w \<longrightarrow> rd_start r \<le> x \<longrightarrow> recs (rd_stream r) (rd_range r) x = Some v \<longrightarrow> w \<le> v)"

lemma scan_least:
  assumes t: "sid < 2 ^ 64" "i < 2 ^ 32" "off < 2 ^ 64" "e < 2 ^ 64"
    and "log_ordered" and "scan sid i off (Some e) = Some w" and "off \<le> x" and "recs sid i x = Some v"
  shows "w \<le> v"
proof -
  obtain y where y: "off \<le> y" "recs sid i y = Some w" "\<forall>z. off \<le> z \<and> z < y \<longrightarrow> recs sid i z = None" using scan_Some [OF t assms(6)] by blast
  then have "y \<le> x" using assms(7,8) by (metis not_le option.distinct(1))
  with assms(5,8) y(2) show ?thesis unfolding log_ordered_def by blast
qed

lemma rd_trim_known: "log_ordered \<Longrightarrow> rd_typed r \<Longrightarrow> off < 2 ^ 64 \<Longrightarrow> wal_known r \<Longrightarrow> wal_known (rd_trim scan off r)"
  by (auto simp: rd_trim_def wal_known_def rd_typed_def Let_def split: option.splits intro: scan_least dest: order_trans)

lemma rd_min_wal_bound:
  assumes o: "log_ordered" and k: "wal_known r" "rd_typed r" and x: "recs (rd_stream r) (rd_range r) x = Some v" "rd_start r \<le> x" "x < rd_end r"
  shows "\<exists>w. snd (rd_min_wal scan r) = Some w \<and> w \<le> v"
proof (cases "rd_wal r")
  case (Some w)
  then show ?thesis using k x by (auto simp: rd_min_wal_def wal_known_def)
next
  case None
  have t: "rd_stream r < 2 ^ 64" "rd_range r < 2 ^ 32" "rd_start r < 2 ^ 64" "rd_end r < 2 ^ 64" using k(2) by (simp_all add: rd_typed_def)
  obtain w where w: "scan (rd_stream r) (rd_range r) (rd_start r) (Some (rd_end r)) = Some w"
    using scan_None [OF t _ x(2,3)] x(1) by (cases "scan (rd_stream r) (rd_range r) (rd_start r) (Some (rd_end r))") auto
  show ?thesis using None w scan_least [OF t o w x(2,1)] x(2,3) by (auto simp: rd_min_wal_def)
qed

lemma min_wal_offset_bound:
  assumes o: "log_ordered" and d: "(sid, d) \<in> set (wm_streams m)" "sd_ranges d = r # rs" and k: "wal_known r" "rd_typed r"
    and x: "recs (rd_stream r) (rd_range r) x = Some v" "rd_start r \<le> x" "x < rd_end r"
  shows "snd (min_wal_offset scan m) \<le> v"
proof -
  obtain w where w: "snd (rd_min_wal scan r) = Some w" "w \<le> v" using rd_min_wal_bound [OF o k x] by blast
  have "snd (sd_min_wal scan d) = Some w" using w(1) d(2) by (cases "rd_min_wal scan r") (simp add: sd_min_wal_def)
  then have "(sid, fst (sd_min_wal scan d), Some w) \<in> set (map (\<lambda>(k, d). (k, sd_min_wal scan d)) (wm_streams m))"
    using d(1) by (cases "sd_min_wal scan d") (auto intro: image_eqI [of _ _ "(sid, d)"])
  then have "w \<in> set (List.map_filter (\<lambda>(_, _, w). w) (map (\<lambda>(k, d). (k, sd_min_wal scan d)) (wm_streams m)))"
    by (rule map_filter_mem)
  then have "least_of (List.map_filter (\<lambda>(_, _, w). w) (map (\<lambda>(k, d). (k, sd_min_wal scan d)) (wm_streams m))) \<le> w"
    by (auto simp: least_of_def intro: Min_le)
  then show ?thesis using w(2) by (simp add: min_wal_offset_def Let_def)
qed

end

text \<open>
  A range whose only indexed batch starts where the range starts has its end at its start, so its
  stream does not count.
\<close>

theorem first_batch_unprotected:
  assumes ab: "a < b" and off: "sb < off" "off < e" and scan: "tlb b j off (Some e) = Some wb"
    and live: "tlb a i sa None = Some wa" "wa < wb"
    and m: "m = wm_on_index b j e (wm_add_range b j sb None (wm_on_index a i sa (wm_add_range a i sa None (add_watermark ww_new wm_new))))"
  shows "\<exists>m'. wm_trim_stream tlb b off m = Some m' \<and> wa < ww_min (hd (wm_watermarks m'))"
proof -
  let ?A = "\<lparr>sd_stream_id = a, sd_ranges = [rd_new a i sa]\<rparr>" and ?B = "\<lparr>sd_stream_id = b, sd_ranges = [(rd_new b j sb)\<lparr>rd_end := e\<rparr>]\<rparr>"
  have m: "m = \<lparr>wm_streams = [(a, ?A), (b, ?B)], wm_watermarks = [ww_new]\<rparr>"
    using ab off unfolding m
    by (simp add: wm_on_index_def wm_add_range_def add_watermark_def wm_new_def put_stream_def stream_mut_def bt_empty_def bt_get_def
        sd_add_range_def sd_new_def insert_range_def sd_index_def rd_index_def rd_new_def Let_def)
  let ?B' = "\<lparr>sd_stream_id = b, sd_ranges = [(rd_new b j off)\<lparr>rd_end := e, rd_wal := Some wb\<rparr>]\<rparr>"
  have t: "sd_trim tlb off ?B = Some ?B'"
    using off scan by (simp add: sd_trim_def trim_loop.simps rd_new_def rd_trim_def Let_def)
  have "wm_trim_stream tlb b off m = Some \<lparr>wm_streams = [(a, ?A), (b, ?B')], wm_watermarks = [ww_new\<lparr>ww_min := wb\<rparr>]\<rparr>"
    using ab off t unfolding m
    by (simp add: wm_trim_stream_def stream_mut_def bt_get_def put_stream_def min_wal_offset_def sd_min_wal_def rd_min_wal_def rd_new_def
        List.map_filter_def least_of_def Let_def)
  with live(2) show ?thesis by simp
qed

end
