(* ===== verification/Indexer.thy ===== *)
theory Indexer
  imports Index_Record Watermark Metadata Store_Error
begin

text \<open>
  The index of the store over RocksDB, \<open>src/components/store/src/index/indexer.rs\<close>, and its
  compaction filters, \<open>compaction.rs\<close>. RocksDB is a parameter: \<open>rocks_api\<close> has the calls the indexer
  makes, and \<open>rocks_ok\<close> the documented behaviour it relies on, with \<open>all\<close> the entries of a column
  family in the order of their keys. Iterators skip entries that cannot be read; the database is
  opened with both column families.
\<close>

section \<open>Model\<close>

subsection \<open>The database\<close>

type_synonym kv = "bytes \<times> bytes"

record 'd rocks_api =
  rk_cf :: "string \<Rightarrow> 'd \<Rightarrow> bool"
  rk_put :: "string \<Rightarrow> bytes \<Rightarrow> bytes \<Rightarrow> 'd \<Rightarrow> (string, 'd) outcome"
  rk_get :: "string \<Rightarrow> bytes \<Rightarrow> 'd \<Rightarrow> (string, bytes option) outcome"
  rk_iter :: "string \<Rightarrow> bytes \<Rightarrow> bytes option \<Rightarrow> 'd \<Rightarrow> kv list"
  rk_last :: "string \<Rightarrow> bytes \<Rightarrow> bytes option \<Rightarrow> 'd \<Rightarrow> (string, kv option) outcome"
  rk_flush :: "'d \<Rightarrow> (string, 'd) outcome"

definition in_bounds :: "bytes \<Rightarrow> bytes option \<Rightarrow> kv \<Rightarrow> bool" where
  "in_bounds lo hi e \<longleftrightarrow> \<not> bytes_less (fst e) lo \<and> (case hi of Some h \<Rightarrow> bytes_less (fst e) h | None \<Rightarrow> True)"

definition kv_put :: "bytes \<Rightarrow> bytes \<Rightarrow> kv list \<Rightarrow> kv list" where
  "kv_put k v es = filter (\<lambda>e. bytes_less (fst e) k) es @ (k, v) # filter (\<lambda>e. bytes_less k (fst e)) es"

definition last_kv :: "kv list \<Rightarrow> kv option" where
  "last_kv es = (if es = [] then None else Some (last es))"

definition rocks_ok :: "'d rocks_api \<Rightarrow> ('d \<Rightarrow> string \<Rightarrow> kv list) \<Rightarrow> bool" where
  "rocks_ok api all \<longleftrightarrow>
     (\<forall>d cf. sorted_wrt bytes_less (map fst (all d cf)))
     \<and> (\<forall>cf k v d d'. rk_put api cf k v d = Ok d' \<longrightarrow> all d' = (all d)(cf := kv_put k v (all d cf)) \<and> (\<forall>c. rk_cf api c d' = rk_cf api c d))
     \<and> (\<forall>cf k d r. rk_get api cf k d = Ok r \<longrightarrow> r = map_of (all d cf) k)
     \<and> (\<forall>cf lo hi d. rk_iter api cf lo hi d = filter (in_bounds lo hi) (all d cf))
     \<and> (\<forall>cf lo hi d r. rk_last api cf lo hi d = Ok r \<longrightarrow> r = last_kv (filter (in_bounds lo hi) (all d cf)))
     \<and> (\<forall>d d'. rk_flush api d = Ok d' \<longrightarrow> all d' = all d \<and> (\<forall>c. rk_cf api c d' = rk_cf api c d))"

subsection \<open>The indexer\<close>

definition INDEX_COLUMN_FAMILY :: string where "INDEX_COLUMN_FAMILY = ''index''"
definition METADATA_COLUMN_FAMILY :: string where "METADATA_COLUMN_FAMILY = ''metadata''"
definition WAL_CHECKPOINT :: bytes where "WAL_CHECKPOINT = map (\<lambda>c. of_nat (of_char c)) ''wal_checkpoint''"
definition RANGE_PREFIX :: byte where "RANGE_PREFIX = 114"

record 'd indexer =
  ix_db :: 'd
  ix_count :: usize
  ix_flush_threshold :: usize

definition no_family :: "string \<Rightarrow> store_error" where
  "no_family cf = RocksDB (''No column family: `'' @ cf @ ''`'')"

definition on_db :: "(string, 'a) outcome \<Rightarrow> (store_error, 'a) outcome" where
  "on_db r = (case r of Ok a \<Rightarrow> Ok a | Err e \<Rightarrow> Err (RocksDB e) | Panic \<Rightarrow> Panic)"

text \<open>An entry that cannot be decoded is skipped or ends a scan.\<close>

definition decode_entry :: "kv \<Rightarrow> ('e, index_record option) outcome" where
  "decode_entry e =
     (case index_try_from (fst e) of
        Err _ \<Rightarrow> Ok None
      | Panic \<Rightarrow> Panic
      | Ok i \<Rightarrow> (case handle_try_from (snd e) of
                   Err _ \<Rightarrow> Ok None
                 | Panic \<Rightarrow> Panic
                 | Ok h \<Rightarrow> Ok (Some \<lparr>ir_index = i, ir_handle = h\<rparr>)))"

fun scan_while :: "u32 \<Rightarrow> u32 \<Rightarrow> kv list \<Rightarrow> ('e, index_record list) outcome" where
  "scan_while bytes_c max_bytes [] = Ok []"
| "scan_while bytes_c max_bytes (e # es) =
     (if bytes_c \<ge> max_bytes then Ok []
      else bind_outcome (decode_entry e) (\<lambda>r.
             case r of
               None \<Rightarrow> Ok []
             | Some r \<Rightarrow>
                 if bytes_c + rh_len (ir_handle r) \<ge> 2 ^ 32 then Panic
                 else fmap_ok ((#) r) (scan_while (bytes_c + rh_len (ir_handle r)) max_bytes es)))"

definition scan_records_from :: "'d rocks_api \<Rightarrow> bytes \<Rightarrow> bytes \<Rightarrow> u32 \<Rightarrow> 'd indexer \<Rightarrow> (store_error, index_record list option) outcome" where
  "scan_records_from api lower upper max_bytes ix =
     (if rk_cf api INDEX_COLUMN_FAMILY (ix_db ix)
      then fmap_ok (\<lambda>rs. if rs = [] then None else Some rs)
             (scan_while 0 max_bytes (rk_iter api INDEX_COLUMN_FAMILY lower (Some upper) (ix_db ix)))
      else Err (no_family INDEX_COLUMN_FAMILY))"

definition build_index_key :: "u64 \<Rightarrow> u32 \<Rightarrow> u64 \<Rightarrow> bytes" where
  "build_index_key stream_id range_index off = index_bytes \<lparr>ri_stream_id = stream_id, ri_range = range_index, ri_offset = off\<rparr>"

definition decode_last :: "kv option \<Rightarrow> (store_error, index_record option) outcome" where
  "decode_last e = (case e of Some e \<Rightarrow> decode_entry e | None \<Rightarrow> Ok None)"

definition retrieve_max_key :: "'d rocks_api \<Rightarrow> u64 \<Rightarrow> u32 \<Rightarrow> 'd indexer \<Rightarrow> (store_error, index_record option) outcome" where
  "retrieve_max_key api stream_id range_index ix =
     (if rk_cf api INDEX_COLUMN_FAMILY (ix_db ix)
      then if range_index + 1 \<ge> 2 ^ 32 then Panic
           else bind_outcome (on_db (rk_last api INDEX_COLUMN_FAMILY (be_bytes 8 stream_id @ be_bytes 4 range_index)
                                       (Some (be_bytes 8 stream_id @ be_bytes 4 (range_index + 1))) (ix_db ix))) decode_last
      else Err (no_family INDEX_COLUMN_FAMILY))"

definition retrieve_left_key :: "'d rocks_api \<Rightarrow> u64 \<Rightarrow> u32 \<Rightarrow> u64 \<Rightarrow> 'd indexer \<Rightarrow> (store_error, index_record option) outcome" where
  "retrieve_left_key api stream_id range_index off ix =
     bind_outcome (retrieve_max_key api stream_id range_index ix) (\<lambda>max_key.
       case max_key of
         None \<Rightarrow> Ok None
       | Some r \<Rightarrow>
           if off > ri_offset (ir_index r) then Ok None
           else if off = ri_offset (ir_index r) then Ok (Some r)
           else if rk_cf api INDEX_COLUMN_FAMILY (ix_db ix)
           then if off + 1 \<ge> 2 ^ 64 then Panic
                else bind_outcome (on_db (rk_last api INDEX_COLUMN_FAMILY (build_index_key stream_id range_index 0)
                                            (Some (build_index_key stream_id range_index (off + 1))) (ix_db ix))) decode_last
           else Err (no_family INDEX_COLUMN_FAMILY))"

definition advance_wal_checkpoint :: "'d rocks_api \<Rightarrow> u64 \<Rightarrow> 'd indexer \<Rightarrow> (store_error, 'd indexer) outcome" where
  "advance_wal_checkpoint api off ix =
     (if rk_cf api METADATA_COLUMN_FAMILY (ix_db ix)
      then fmap_ok (\<lambda>d. ix\<lparr>ix_db := d\<rparr>) (on_db (rk_put api METADATA_COLUMN_FAMILY WAL_CHECKPOINT (be_bytes 8 off) (ix_db ix)))
      else Err (RocksDB ''Metadata should have been created as we have create_if_missing enabled''))"

definition get_wal_checkpoint :: "'d rocks_api \<Rightarrow> 'd indexer \<Rightarrow> (store_error, u64) outcome" where
  "get_wal_checkpoint api ix =
     (if rk_cf api METADATA_COLUMN_FAMILY (ix_db ix)
      then bind_outcome (on_db (rk_get api METADATA_COLUMN_FAMILY WAL_CHECKPOINT (ix_db ix))) (\<lambda>v.
             case v of
               Some value \<Rightarrow> if length value < 8 then Err DataCorrupted else fmap_ok fst (get_be 8 value)
             | None \<Rightarrow> Ok 0)
      else Ok 0)"

definition ix_flush :: "'d rocks_api \<Rightarrow> 'd indexer \<Rightarrow> (store_error, 'd indexer) outcome" where
  "ix_flush api ix =
     (if rk_cf api INDEX_COLUMN_FAMILY (ix_db ix) \<and> rk_cf api METADATA_COLUMN_FAMILY (ix_db ix)
      then fmap_ok (\<lambda>d. ix\<lparr>ix_db := d\<rparr>) (on_db (rk_flush api (ix_db ix)))
      else Panic)"

text \<open>
  The steps that ran before an error have taken effect, so the indexer is part of every result. The
  counter wraps, as atomic additions do, and \<open>prev + 1\<close> is checked.
\<close>

definition ix_index :: "'d rocks_api \<Rightarrow> index_record \<Rightarrow> 'd indexer \<Rightarrow> 'd indexer \<times> (store_error, unit) outcome" where
  "ix_index api r ix =
     (if rk_cf api INDEX_COLUMN_FAMILY (ix_db ix)
      then (case rk_put api INDEX_COLUMN_FAMILY (index_bytes (ir_index r)) (handle_bytes (ir_handle r)) (ix_db ix) of
              Err e \<Rightarrow> (ix, Err (RocksDB e))
            | Panic \<Rightarrow> (ix, Panic)
            | Ok d \<Rightarrow>
                (case advance_wal_checkpoint api (rh_wal_offset (ir_handle r)) (ix\<lparr>ix_db := d\<rparr>) of
                   Err e \<Rightarrow> (ix\<lparr>ix_db := d\<rparr>, Err e)
                 | Panic \<Rightarrow> (ix\<lparr>ix_db := d\<rparr>, Panic)
                 | Ok ix1 \<Rightarrow>
                     let prev = ix_count ix1; ix2 = ix1\<lparr>ix_count := (prev + 1) mod 2 ^ 64\<rparr> in
                     if prev + 1 \<ge> 2 ^ 64 then (ix2, Panic)
                     else if prev + 1 \<ge> ix_flush_threshold ix2
                     then (case ix_flush api ix2 of
                             Ok ix3 \<Rightarrow> (ix3\<lparr>ix_count := 0\<rparr>, Ok ())
                           | Err e \<Rightarrow> (ix2, Err e)
                           | Panic \<Rightarrow> (ix2, Panic))
                     else (ix2, Ok ())))
      else (ix, Err (RocksDB ''No column family'')))"

definition ix_scan_wal_offset :: "'d rocks_api \<Rightarrow> 'd indexer \<Rightarrow> u64 \<Rightarrow> u32 \<Rightarrow> u64 \<Rightarrow> u64 option \<Rightarrow> (unit, u64 option) outcome" where
  "ix_scan_wal_offset api ix stream_id range_index off end_off =
     (case scan_records_from api (build_index_key stream_id range_index off)
             (be_bytes 8 stream_id @ be_bytes 4 range_index @ be_bytes 8 (case end_off of Some e \<Rightarrow> e | None \<Rightarrow> 2 ^ 64 - 1)) 1 ix of
        Ok (Some (r # _)) \<Rightarrow> Ok (Some (rh_wal_offset (ir_handle r)))
      | Panic \<Rightarrow> Panic
      | _ \<Rightarrow> Ok None)"

definition scan_record_left_shift :: "'d rocks_api \<Rightarrow> u64 \<Rightarrow> u32 \<Rightarrow> u64 \<Rightarrow> u64 \<Rightarrow> u32 \<Rightarrow> 'd indexer \<Rightarrow> (store_error, index_record list option) outcome" where
  "scan_record_left_shift api stream_id range_index off max_offset max_bytes ix =
     bind_outcome (retrieve_left_key api stream_id range_index off ix) (\<lambda>left.
       let left_key = (case left of Some r \<Rightarrow> index_bytes (ir_index r) | None \<Rightarrow> build_index_key stream_id range_index off) in
       if stream_id + 1 \<ge> 2 ^ 64 then Panic
       else scan_records_from api left_key (build_index_key stream_id range_index max_offset) max_bytes ix)"

subsection \<open>Ranges in the metadata\<close>

definition range_key_bytes :: "u64 \<Rightarrow> int \<Rightarrow> bytes" where
  "range_key_bytes stream_id index = RANGE_PREFIX # be_bytes 8 stream_id @ be_bytes 4 (int_as_u32 index)"

definition read_range :: "kv \<Rightarrow> (unit, range_metadata) outcome" where
  "read_range e =
     bind_outcome (get_be 1 (fst e)) (\<lambda>(_, cur).
     bind_outcome (get_be 8 cur) (\<lambda>(stream_id, cur).
     bind_outcome (get_be 4 cur) (\<lambda>(index, _).
     bind_outcome (get_be 8 (snd e)) (\<lambda>(start_offset, cur).
       if length (snd e) = 8 then Ok (rm_new stream_id (as_i32 index) 0 start_offset None)
       else bind_outcome (get_be 8 cur) (\<lambda>(end_off, _). Ok (rm_new stream_id (as_i32 index) 0 start_offset (Some end_off)))))))"

fun read_ranges :: "kv list \<Rightarrow> (unit, range_metadata list) outcome" where
  "read_ranges [] = Ok []"
| "read_ranges (e # es) = bind_outcome (read_range e) (\<lambda>m. fmap_ok ((#) m) (read_ranges es))"

definition ranges_with :: "'d rocks_api \<Rightarrow> bytes \<Rightarrow> 'd indexer \<Rightarrow> (unit, range_metadata list) outcome" where
  "ranges_with api prefix ix =
     (if rk_cf api METADATA_COLUMN_FAMILY (ix_db ix)
      then read_ranges (takeWhile (\<lambda>e. take (length prefix) (fst e) = prefix) (rk_iter api METADATA_COLUMN_FAMILY prefix None (ix_db ix)))
      else Ok [])"

definition list_by_stream :: "'d rocks_api \<Rightarrow> u64 \<Rightarrow> 'd indexer \<Rightarrow> (unit, range_metadata list) outcome" where
  "list_by_stream api stream_id ix = ranges_with api (RANGE_PREFIX # be_bytes 8 stream_id) ix"

definition list_ranges :: "'d rocks_api \<Rightarrow> 'd indexer \<Rightarrow> (unit, range_metadata list) outcome" where
  "list_ranges api ix = ranges_with api [RANGE_PREFIX] ix"

definition put_range :: "'d rocks_api \<Rightarrow> u64 \<Rightarrow> int \<Rightarrow> bytes \<Rightarrow> 'd indexer \<Rightarrow> (store_error, 'd indexer) outcome" where
  "put_range api stream_id index value ix =
     (if rk_cf api METADATA_COLUMN_FAMILY (ix_db ix)
      then fmap_ok (\<lambda>d. ix\<lparr>ix_db := d\<rparr>) (on_db (rk_put api METADATA_COLUMN_FAMILY (range_key_bytes stream_id index) value (ix_db ix)))
      else Err (RocksDB (''No column family: '' @ METADATA_COLUMN_FAMILY)))"

definition ix_seal :: "'d rocks_api \<Rightarrow> u64 \<Rightarrow> range_metadata \<Rightarrow> 'd indexer \<Rightarrow> (store_error, 'd indexer) outcome" where
  "ix_seal api stream_id m ix =
     (case rm_end m of
        None \<Rightarrow> Err (Internal [])
      | Some e \<Rightarrow> put_range api stream_id (rm_index m) (be_bytes 8 (rm_start m) @ be_bytes 8 e) ix)"

definition ix_add :: "'d rocks_api \<Rightarrow> u64 \<Rightarrow> range_metadata \<Rightarrow> 'd indexer \<Rightarrow> (store_error, 'd indexer) outcome" where
  "ix_add api stream_id m ix =
     put_range api stream_id (rm_index m) (be_bytes 8 (rm_start m) @ (case rm_end m of Some e \<Rightarrow> be_bytes 8 e | None \<Rightarrow> [])) ix"

subsection \<open>Compaction\<close>

datatype decision = Keep | Remove

definition index_filter :: "u64 \<Rightarrow> kv \<Rightarrow> decision" where
  "index_filter min_offset e =
     (if length (fst e) \<noteq> 8 then Keep
      else if length (snd e) < 8 then Remove
      else if be_val (take 8 (snd e)) < min_offset then Remove else Keep)"

definition range_filter :: "u64 \<Rightarrow> kv \<Rightarrow> decision" where
  "range_filter min_offset e =
     (if length (snd e) = 8 then Keep
      else if length (snd e) = 16 \<and> be_val (take 8 (drop 8 (snd e))) \<le> min_offset then Remove
      else Keep)"

text \<open>Both column families are compacted with the filter of the index.\<close>

definition compact :: "u64 \<Rightarrow> kv list \<Rightarrow> kv list" where
  "compact min_offset es = filter (\<lambda>e. index_filter min_offset e = Keep) es"

section \<open>Entries and records\<close>

definition index_wf :: "kv list \<Rightarrow> bool" where
  "index_wf es \<longleftrightarrow> (\<forall>e \<in> set es. \<exists>i h. e = (index_bytes i, handle_bytes h) \<and> index_ok i \<and> handle_ok h)"

fun records_of :: "kv list \<Rightarrow> index_record list" where
  "records_of [] = []"
| "records_of (e # es) =
     (case (decode_entry e :: (unit, index_record option) outcome) of Ok (Some r) \<Rightarrow> r # records_of es | _ \<Rightarrow> records_of es)"

lemma index_wf_Cons: "index_wf (e # es) \<longleftrightarrow> (\<exists>i h. e = (index_bytes i, handle_bytes h) \<and> index_ok i \<and> handle_ok h) \<and> index_wf es"
  by (auto simp: index_wf_def)

lemma index_wf_filter: "index_wf es \<Longrightarrow> index_wf (filter P es)"
  by (simp add: index_wf_def)

lemma decode_entry_bytes: "index_ok i \<Longrightarrow> handle_ok h \<Longrightarrow> decode_entry (index_bytes i, handle_bytes h) = Ok (Some \<lparr>ir_index = i, ir_handle = h\<rparr>)"
  using index_entry_roundtrip [of i h] by (simp add: decode_entry_def)

definition entry_of :: "index_record \<Rightarrow> kv" where
  "entry_of r = (index_bytes (ir_index r), handle_bytes (ir_handle r))"

definition record_ok :: "index_record \<Rightarrow> bool" where
  "record_ok r \<longleftrightarrow> index_ok (ir_index r) \<and> handle_ok (ir_handle r)"

lemma decode_entry_of: "record_ok r \<Longrightarrow> decode_entry (entry_of r) = Ok (Some r)"
  by (cases r) (simp add: record_ok_def entry_of_def decode_entry_bytes)

lemma index_wf_records: "index_wf es \<Longrightarrow> es = map entry_of (records_of es) \<and> (\<forall>r \<in> set (records_of es). record_ok r)"
  by (induction es) (auto simp: index_wf_Cons decode_entry_bytes entry_of_def record_ok_def)

lemma records_of_entries: "\<forall>r \<in> set rs. record_ok r \<Longrightarrow> records_of (map entry_of rs) = rs"
  by (induction rs) (auto simp: decode_entry_of)

lemma records_of_filter:
  assumes "index_wf es"
  shows "records_of (filter P es) = filter (\<lambda>r. P (entry_of r)) (records_of es)"
proof -
  obtain rs where rs: "es = map entry_of rs" "\<forall>r \<in> set rs. record_ok r" "records_of es = rs" using index_wf_records [OF assms] by blast
  have "filter P es = map entry_of (filter (\<lambda>r. P (entry_of r)) rs)" by (simp add: rs(1) filter_map comp_def)
  then show ?thesis using rs(2,3) records_of_entries [of "filter (\<lambda>r. P (entry_of r)) rs"] by simp
qed

fun take_len :: "nat \<Rightarrow> nat \<Rightarrow> index_record list \<Rightarrow> index_record list" where
  "take_len c limit [] = []"
| "take_len c limit (r # rs) = (if c \<ge> limit then [] else r # take_len (c + rh_len (ir_handle r)) limit rs)"

lemma scan_while_spec:
  "index_wf es \<Longrightarrow> limit \<le> 2 ^ 31 \<Longrightarrow> scan_while c limit es = Ok (take_len c limit (records_of es))"
proof (induction es arbitrary: c)
  case (Cons e es)
  then obtain i h where e: "e = (index_bytes i, handle_bytes h)" "index_ok i" "handle_ok h" by (auto simp: index_wf_Cons)
  have w: "index_wf es" using Cons(2) by (simp add: index_wf_Cons)
  have "c + rh_len h < 2 ^ 32" if "c < limit" using e(3) Cons(3) that by (simp add: handle_ok_def)
  then show ?case using Cons(1) [OF w Cons(3)] e(2,3) unfolding e(1) by (auto simp: decode_entry_bytes not_le)
qed simp

lemma decode_last_spec:
  assumes "index_wf es"
  shows "decode_last (last_kv es) = Ok (if records_of es = [] then None else Some (last (records_of es)))"
proof -
  obtain rs where rs: "es = map entry_of rs" "\<forall>r \<in> set rs. record_ok r" "records_of es = rs" using index_wf_records [OF assms] by blast
  then show ?thesis by (cases "rs = []") (auto simp: decode_last_def last_kv_def last_map decode_entry_of)
qed

section \<open>Bounds of the scans\<close>

lemma bytes_less_Nil [simp]: "\<not> bytes_less xs []"
  by (cases xs) simp_all

lemma bounds_of_keys:
  assumes "record_ok r" and "s < 2 ^ 64" "i < 2 ^ 32" "a < 2 ^ 64" "b < 2 ^ 64"
  shows "in_bounds (build_index_key s i a) (Some (build_index_key s i b)) (entry_of r) \<longleftrightarrow>
    ri_stream_id (ir_index r) = s \<and> ri_range (ir_index r) = i \<and> a \<le> ri_offset (ir_index r) \<and> ri_offset (ir_index r) < b"
proof -
  have k: "index_ok (ir_index r)" "index_ok \<lparr>ri_stream_id = s, ri_range = i, ri_offset = a\<rparr>" "index_ok \<lparr>ri_stream_id = s, ri_range = i, ri_offset = b\<rparr>"
    using assms by (simp_all add: record_ok_def index_ok_def)
  show ?thesis
    using index_bytes_less [OF k(1,2)] index_bytes_less [OF k(1,3)]
    by (auto simp: in_bounds_def entry_of_def build_index_key_def)
qed

lemma bounds_of_prefix:
  assumes "record_ok r" and "s < 2 ^ 64" "i + 1 < 2 ^ 32"
  shows "in_bounds (be_bytes 8 s @ be_bytes 4 i) (Some (be_bytes 8 s @ be_bytes 4 (i + 1))) (entry_of r) \<longleftrightarrow>
    ri_stream_id (ir_index r) = s \<and> ri_range (ir_index r) = i"
proof -
  let ?x = "ir_index r"
  have pow: "(256 :: nat) ^ 8 = 2 ^ 64" "(256 :: nat) ^ 4 = 2 ^ 32" by simp_all
  have k: "ri_stream_id ?x < 256 ^ 8" "ri_range ?x < 256 ^ 4" "s < 256 ^ 8" "i < 256 ^ 4" "i + 1 < 256 ^ 4"
    using assms unfolding pow by (simp_all add: record_ok_def index_ok_def)
  have l: "bytes_less (index_bytes ?x) (be_bytes 8 s @ be_bytes 4 j) \<longleftrightarrow> ri_stream_id ?x < s \<or> ri_stream_id ?x = s \<and> ri_range ?x < j"
    if "j < 256 ^ 4" for j
    using bytes_less_append [of "be_bytes 4 (ri_range ?x)" "be_bytes 4 j" "be_bytes 8 (ri_offset ?x)" "[]"] k that
    by (simp add: index_bytes_def bytes_less_append be_bytes_less del: be_bytes.simps)
  show ?thesis unfolding in_bounds_def entry_of_def using l [OF k(4)] l [OF k(5)] by auto
qed

definition of_range :: "u64 \<Rightarrow> u32 \<Rightarrow> kv list \<Rightarrow> index_record list" where
  "of_range s i es = filter (\<lambda>r. ri_stream_id (ir_index r) = s \<and> ri_range (ir_index r) = i) (records_of es)"

lemma of_range_sorted:
  assumes "index_wf es" and "sorted_wrt bytes_less (map fst es)"
  shows "sorted_wrt (\<lambda>x y. ri_offset (ir_index x) < ri_offset (ir_index y)) (of_range s i es)"
proof -
  obtain rs where rs: "es = map entry_of rs" "\<forall>r \<in> set rs. record_ok r" "records_of es = rs" using index_wf_records [OF assms(1)] by blast
  have "sorted_wrt (\<lambda>x y. bytes_less (index_bytes (ir_index x)) (index_bytes (ir_index y))) rs"
    using assms(2) unfolding rs(1) by (simp add: sorted_wrt_map entry_of_def)
  then have "sorted_wrt (\<lambda>x y. bytes_less (index_bytes (ir_index x)) (index_bytes (ir_index y))) (of_range s i es)"
    unfolding of_range_def rs(3) by (rule sorted_wrt_filter)
  then show ?thesis
    by (rule sorted_wrt_mono_rel [rotated]) (use rs(2,3) index_bytes_less in \<open>auto simp: of_range_def record_ok_def\<close>)
qed

lemma filter_keys:
  assumes "index_wf es" and "s < 2 ^ 64" "i < 2 ^ 32" "a < 2 ^ 64" "b < 2 ^ 64"
  shows "records_of (filter (in_bounds (build_index_key s i a) (Some (build_index_key s i b))) es) =
    filter (\<lambda>r. a \<le> ri_offset (ir_index r) \<and> ri_offset (ir_index r) < b) (of_range s i es)"
  unfolding records_of_filter [OF assms(1)] of_range_def filter_filter
  by (rule filter_cong [OF refl]) (use bounds_of_keys [OF _ assms(2-5)] index_wf_records [OF assms(1)] in auto)

lemma filter_prefix:
  assumes "index_wf es" and "s < 2 ^ 64" "i + 1 < 2 ^ 32"
  shows "records_of (filter (in_bounds (be_bytes 8 s @ be_bytes 4 i) (Some (be_bytes 8 s @ be_bytes 4 (i + 1)))) es) = of_range s i es"
  unfolding records_of_filter [OF assms(1)] of_range_def
  by (rule filter_cong [OF refl]) (use bounds_of_prefix [OF _ assms(2,3)] index_wf_records [OF assms(1)] in auto)

section \<open>Scans\<close>

text \<open>The database answers: its column families exist and the last entry of a range can be read.\<close>

definition rocks_up :: "'d rocks_api \<Rightarrow> 'd \<Rightarrow> bool" where
  "rocks_up api d \<longleftrightarrow> rk_cf api INDEX_COLUMN_FAMILY d \<and> rk_cf api METADATA_COLUMN_FAMILY d \<and> (\<forall>cf lo hi. \<exists>r. rk_last api cf lo hi d = Ok r)"

lemma rocks_last:
  assumes "rocks_ok api all" and "rocks_up api d"
  shows "on_db (rk_last api cf lo hi d) = Ok (last_kv (filter (in_bounds lo hi) (all d cf)))"
proof -
  obtain r where r: "rk_last api cf lo hi d = Ok r" using assms(2) unfolding rocks_up_def by blast
  with assms(1) have "r = last_kv (filter (in_bounds lo hi) (all d cf))" by (simp add: rocks_ok_def)
  with r show ?thesis by (simp add: on_db_def)
qed

lemma retrieve_max_key_spec:
  assumes db: "rocks_ok api all" "rocks_up api (ix_db ix)" "index_wf (all (ix_db ix) INDEX_COLUMN_FAMILY)" and b: "s < 2 ^ 64" "i + 1 < 2 ^ 32"
  shows "retrieve_max_key api s i ix =
    (let rs = of_range s i (all (ix_db ix) INDEX_COLUMN_FAMILY) in Ok (if rs = [] then None else Some (last rs)))"
proof -
  have "rk_cf api INDEX_COLUMN_FAMILY (ix_db ix)" using db(2) by (simp add: rocks_up_def)
  then show ?thesis
    using b decode_last_spec [OF index_wf_filter [OF db(3)]] filter_prefix [OF db(3) b]
    by (simp add: retrieve_max_key_def rocks_last [OF db(1,2)] Let_def del: be_bytes.simps)
qed

lemma last_below:
  assumes "sorted_wrt (\<lambda>x y. f x < f y) rs" and "rs \<noteq> []"
  shows "x \<in> set rs \<Longrightarrow> f x \<le> (f (last rs) :: nat)"
  using assms
proof (induction rs rule: rev_induct)
  case (snoc y ys)
  then show ?case by (auto simp: sorted_wrt_append less_imp_le)
qed simp

lemma retrieve_left_key_spec:
  assumes db: "rocks_ok api all" "rocks_up api (ix_db ix)" "index_wf (all (ix_db ix) INDEX_COLUMN_FAMILY)"
    and b: "s < 2 ^ 64" "i + 1 < 2 ^ 32" "off < 2 ^ 64" and rs: "rs = of_range s i (all (ix_db ix) INDEX_COLUMN_FAMILY)"
  shows "retrieve_left_key api s i off ix =
    (let ls = filter (\<lambda>r. ri_offset (ir_index r) \<le> off) rs in
     Ok (if rs = [] \<or> off > ri_offset (ir_index (last rs)) \<or> ls = [] then None else Some (last ls)))"
proof (cases "rs = []")
  case True
  then show ?thesis using retrieve_max_key_spec [OF db b(1,2)] rs by (simp add: retrieve_left_key_def)
next
  case False
  let ?es = "all (ix_db ix) INDEX_COLUMN_FAMILY" and ?last = "ri_offset (ir_index (last rs))"
  have m: "retrieve_max_key api s i ix = Ok (Some (last rs))" using retrieve_max_key_spec [OF db b(1,2)] rs False by simp
  have srt: "sorted_wrt (\<lambda>x y. ri_offset (ir_index x) < ri_offset (ir_index y)) rs"
    unfolding rs by (rule of_range_sorted [OF db(3)]) (use db(1) in \<open>simp add: rocks_ok_def\<close>)
  consider "off > ?last" | "off = ?last" | "off < ?last" by linarith
  then show ?thesis
  proof cases
    case 2
    have "filter (\<lambda>r. ri_offset (ir_index r) \<le> off) rs = rs" using last_below [OF srt False] 2 by (simp add: filter_id_conv)
    then show ?thesis using m 2 False by (simp add: retrieve_left_key_def)
  next
    case 3
    have "?last < 2 ^ 64" using index_wf_records [OF db(3)] last_in_set [OF False] unfolding rs
      by (auto simp: of_range_def record_ok_def index_ok_def)
    then have b': "i < 2 ^ 32" "(0 :: nat) < 2 ^ 64" "off + 1 < 2 ^ 64" using b 3 by auto
    have "rk_cf api INDEX_COLUMN_FAMILY (ix_db ix)" using db(2) by (simp add: rocks_up_def)
    moreover have "records_of (filter (in_bounds (build_index_key s i 0) (Some (build_index_key s i (off + 1)))) ?es)
        = filter (\<lambda>r. ri_offset (ir_index r) \<le> off) rs"
      using filter_keys [OF db(3) b(1) b'] by (simp add: rs less_Suc_eq_le)
    ultimately show ?thesis
      using m 3 b' False decode_last_spec [OF index_wf_filter [OF db(3)], of "in_bounds (build_index_key s i 0) (Some (build_index_key s i (off + 1)))"]
      by (simp add: retrieve_left_key_def rocks_last [OF db(1,2)] Let_def)
  qed (use m False in \<open>simp add: retrieve_left_key_def\<close>)
qed

text \<open>Where a scan from an offset begins.\<close>

definition left_of :: "u64 \<Rightarrow> index_record list \<Rightarrow> u64" where
  "left_of off rs =
     (let ls = filter (\<lambda>r. ri_offset (ir_index r) \<le> off) rs in
      if rs = [] \<or> off > ri_offset (ir_index (last rs)) \<or> ls = [] then off else ri_offset (ir_index (last ls)))"

lemma scan_left_shift_eq:
  assumes db: "rocks_ok api all" "rocks_up api (ix_db ix)" "index_wf (all (ix_db ix) INDEX_COLUMN_FAMILY)"
    and b: "s + 1 < 2 ^ 64" "i + 1 < 2 ^ 32" "off < 2 ^ 64" "max_offset < 2 ^ 64" "max_bytes \<le> 2 ^ 31"
    and rs: "rs = of_range s i (all (ix_db ix) INDEX_COLUMN_FAMILY)"
  shows "scan_record_left_shift api s i off max_offset max_bytes ix =
    (let xs = take_len 0 max_bytes (filter (\<lambda>r. left_of off rs \<le> ri_offset (ir_index r) \<and> ri_offset (ir_index r) < max_offset) rs)
     in Ok (if xs = [] then None else Some xs))"
proof -
  let ?es = "all (ix_db ix) INDEX_COLUMN_FAMILY"
  have s: "s < 2 ^ 64" "i < 2 ^ 32" using b by simp_all
  have in_rs: "ri_stream_id (ir_index r) = s \<and> ri_range (ir_index r) = i \<and> ri_offset (ir_index r) < 2 ^ 64" if "r \<in> set rs" for r
    using that index_wf_records [OF db(3)] unfolding rs by (auto simp: of_range_def record_ok_def index_ok_def)
  have key: "(case left of Some r \<Rightarrow> index_bytes (ir_index r) | None \<Rightarrow> build_index_key s i off) = build_index_key s i (left_of off rs)
      \<and> left_of off rs < 2 ^ 64"
    if "retrieve_left_key api s i off ix = Ok left" for left
  proof (cases left)
    case None
    then show ?thesis using that retrieve_left_key_spec [OF db s(1) b(2,3) rs] b(3) by (auto simp: left_of_def Let_def split: if_splits)
  next
    case (Some r)
    then have r: "r \<in> set rs" "left_of off rs = ri_offset (ir_index r)"
      using that retrieve_left_key_spec [OF db s(1) b(2,3) rs] last_in_set [of "filter (\<lambda>r. ri_offset (ir_index r) \<le> off) rs"]
      by (auto simp: left_of_def Let_def split: if_splits)
    show ?thesis using in_rs [OF r(1)] r(2) Some by (cases "ir_index r") (auto simp: build_index_key_def)
  qed
  obtain left where left: "retrieve_left_key api s i off ix = Ok left" using retrieve_left_key_spec [OF db s(1) b(2,3) rs] by (simp add: Let_def)
  have cf: "rk_cf api INDEX_COLUMN_FAMILY (ix_db ix)" using db(2) by (simp add: rocks_up_def)
  have it: "rk_iter api cf' lo hi d = filter (in_bounds lo hi) (all d cf')" for cf' lo hi d using db(1) by (simp add: rocks_ok_def)
  have "(scan_while 0 max_bytes (filter (in_bounds (build_index_key s i (left_of off rs)) (Some (build_index_key s i max_offset))) ?es)
        :: (store_error, index_record list) outcome)
      = Ok (take_len 0 max_bytes (filter (\<lambda>r. left_of off rs \<le> ri_offset (ir_index r) \<and> ri_offset (ir_index r) < max_offset) rs))"
    unfolding scan_while_spec [OF index_wf_filter [OF db(3)] b(5)] using filter_keys [OF db(3) s _ b(4)] key [OF left] by (simp add: rs)
  then show ?thesis using b(1) key [OF left] by (simp add: scan_record_left_shift_def left scan_records_from_def cf it Let_def)
qed

text \<open>
  C12. The scan behind every fetch returns, in the order of their offsets, the indexed batches of
  the range up to the maximal offset and until the limit of bytes is reached, and no batch of any
  other stream or range. It begins with the last batch that starts at or before the wanted offset;
  when the offset is beyond the start of the last batch of the range, it begins with the batches
  that start at or after the offset. RocksDB is only assumed to keep its keys in the order of
  their bytes.
\<close>

theorem scan_left_shift_spec:
  assumes db: "rocks_ok api all" "rocks_up api (ix_db ix)" "index_wf (all (ix_db ix) INDEX_COLUMN_FAMILY)"
    and b: "s + 1 < 2 ^ 64" "i + 1 < 2 ^ 32" "off < 2 ^ 64" "max_offset < 2 ^ 64" "max_bytes \<le> 2 ^ 31"
    and rs: "rs = of_range s i (all (ix_db ix) INDEX_COLUMN_FAMILY)"
  shows "scan_record_left_shift api s i off max_offset max_bytes ix =
    (let xs = take_len 0 max_bytes (filter (\<lambda>r. left_of off rs \<le> ri_offset (ir_index r) \<and> ri_offset (ir_index r) < max_offset) rs)
     in Ok (if xs = [] then None else Some xs))"
  using assms by (rule scan_left_shift_eq)

text \<open>
  C38. The scan does not find the last batch of a range from an offset inside it: the search for the
  batch to the left gives up as soon as the offset is beyond the first offset of the last batch, so
  the scan begins behind it and finds nothing, although the batch holds the offset.
\<close>

theorem last_batch_not_found:
  assumes db: "rocks_ok api all" "rocks_up api (ix_db ix)" "index_wf (all (ix_db ix) INDEX_COLUMN_FAMILY)"
    and b: "s + 1 < 2 ^ 64" "i + 1 < 2 ^ 32" "off < 2 ^ 64" "max_offset < 2 ^ 64" "max_bytes \<le> 2 ^ 31"
    and rs: "of_range s i (all (ix_db ix) INDEX_COLUMN_FAMILY) = rs" "rs \<noteq> []"
    and off: "ri_offset (ir_index (last rs)) < off" "off < end_offset (last rs)"
  shows "scan_record_left_shift api s i off max_offset max_bytes ix = Ok None"
proof -
  have srt: "sorted_wrt (\<lambda>x y. ri_offset (ir_index x) < ri_offset (ir_index y)) rs"
    unfolding rs(1) [symmetric] by (rule of_range_sorted [OF db(3)]) (use db(1) in \<open>simp add: rocks_ok_def\<close>)
  have "filter (\<lambda>r. left_of off rs \<le> ri_offset (ir_index r) \<and> ri_offset (ir_index r) < max_offset) rs = []"
    using off(1) last_below [OF srt rs(2)] by (fastforce simp: left_of_def filter_empty_conv)
  then show ?thesis using scan_left_shift_eq [OF db b rs(1) [symmetric]] by simp
qed

section \<open>The index as the scanner of the watermarks\<close>

definition tlb_of :: "'d rocks_api \<Rightarrow> 'd indexer \<Rightarrow> scan_wal" where
  "tlb_of api ix s i off e = (case ix_scan_wal_offset api ix s i off e of Ok w \<Rightarrow> w | _ \<Rightarrow> None)"

definition recs_of :: "kv list \<Rightarrow> u64 \<Rightarrow> u32 \<Rightarrow> u64 \<Rightarrow> u64 option" where
  "recs_of es s i off = map_option (\<lambda>r. rh_wal_offset (ir_handle r)) (find (\<lambda>r. ri_offset (ir_index r) = off) (of_range s i es))"

lemma tlb_of_eq:
  assumes db: "rocks_ok api all" "rocks_up api (ix_db ix)" "index_wf (all (ix_db ix) INDEX_COLUMN_FAMILY)"
    and b: "s < 2 ^ 64" "i < 2 ^ 32" "off < 2 ^ 64" "e < 2 ^ 64"
  shows "tlb_of api ix s i off (Some e) =
    (case filter (\<lambda>r. off \<le> ri_offset (ir_index r) \<and> ri_offset (ir_index r) < e) (of_range s i (all (ix_db ix) INDEX_COLUMN_FAMILY)) of
       [] \<Rightarrow> None | r # _ \<Rightarrow> Some (rh_wal_offset (ir_handle r)))"
proof -
  let ?es = "all (ix_db ix) INDEX_COLUMN_FAMILY"
  let ?rs = "filter (\<lambda>r. off \<le> ri_offset (ir_index r) \<and> ri_offset (ir_index r) < e) (of_range s i ?es)"
  have cf: "rk_cf api INDEX_COLUMN_FAMILY (ix_db ix)" using db(2) by (simp add: rocks_up_def)
  have it: "rk_iter api cf' lo hi d = filter (in_bounds lo hi) (all d cf')" for cf' lo hi d using db(1) by (simp add: rocks_ok_def)
  have key: "be_bytes 8 s @ be_bytes 4 i @ be_bytes 8 e = build_index_key s i e" by (simp add: build_index_key_def index_bytes_def)
  have one: "(1 :: nat) \<le> 2 ^ 31" by simp
  have "(scan_while 0 1 (filter (in_bounds (build_index_key s i off) (Some (build_index_key s i e))) ?es)
      :: (store_error, index_record list) outcome) = Ok (take_len 0 1 ?rs)"
    unfolding scan_while_spec [OF index_wf_filter [OF db(3)] one] filter_keys [OF db(3) b] ..
  then have "scan_records_from api (build_index_key s i off) (build_index_key s i e) 1 ix
      = Ok (if take_len 0 1 ?rs = [] then None else Some (take_len 0 1 ?rs))"
    by (simp add: scan_records_from_def cf it)
  then show ?thesis by (cases ?rs) (simp_all add: tlb_of_def ix_scan_wal_offset_def key del: be_bytes.simps)
qed

lemma recs_of_Some:
  assumes "sorted_wrt (\<lambda>x y. ri_offset (ir_index x) < ri_offset (ir_index y)) (of_range s i es)" and "r \<in> set (of_range s i es)"
  shows "recs_of es s i (ri_offset (ir_index r)) = Some (rh_wal_offset (ir_handle r))"
proof -
  have "find (\<lambda>x. ri_offset (ir_index x) = ri_offset (ir_index r)) xs = Some r"
    if "sorted_wrt (\<lambda>x y. ri_offset (ir_index x) < ri_offset (ir_index y)) xs" "r \<in> set xs" for xs
    using that by (induction xs) auto
  from this [OF assms] show ?thesis by (simp add: recs_of_def)
qed

lemma recs_of_mem: "recs_of es s i x = Some w \<Longrightarrow> \<exists>r \<in> set (of_range s i es). ri_offset (ir_index r) = x \<and> rh_wal_offset (ir_handle r) = w"
  by (auto simp: recs_of_def find_Some_iff)

lemma index_scanner:
  assumes db: "rocks_ok api all" "rocks_up api (ix_db ix)" "index_wf (all (ix_db ix) INDEX_COLUMN_FAMILY)"
  shows "wal_scanner (tlb_of api ix) (recs_of (all (ix_db ix) INDEX_COLUMN_FAMILY))"
proof
  fix s i off e w x :: nat
  let ?rs = "of_range s i (all (ix_db ix) INDEX_COLUMN_FAMILY)" and ?P = "\<lambda>r. off \<le> ri_offset (ir_index r) \<and> ri_offset (ir_index r) < e"
  assume b: "s < 2 ^ 64" "i < 2 ^ 32" "off < 2 ^ 64" "e < 2 ^ 64"
  have srt: "sorted_wrt (\<lambda>x y. ri_offset (ir_index x) < ri_offset (ir_index y)) ?rs"
    by (rule of_range_sorted [OF db(3)]) (use db(1) in \<open>simp add: rocks_ok_def\<close>)
  {
    assume "tlb_of api ix s i off (Some e) = Some w"
    then obtain r q where r: "filter ?P ?rs = r # q" "rh_wal_offset (ir_handle r) = w"
      unfolding tlb_of_eq [OF db b] by (auto split: list.splits)
    then have m: "r \<in> set ?rs" "?P r" by (metis (mono_tags, lifting) filter_eq_ConsD in_set_conv_decomp)+
    have least: "ri_offset (ir_index r) \<le> ri_offset (ir_index y)" if "y \<in> set ?rs" "?P y" for y
    proof -
      have "y \<in> set (r # q)" unfolding r(1) [symmetric] using that by simp
      then show ?thesis using sorted_wrt_filter [OF srt, of ?P] unfolding r(1) by auto
    qed
    have "recs_of (all (ix_db ix) INDEX_COLUMN_FAMILY) s i y = None" if "off \<le> y" "y < ri_offset (ir_index r)" for y
      using recs_of_mem [of _ s i y] least that m(2)
      by (cases "recs_of (all (ix_db ix) INDEX_COLUMN_FAMILY) s i y") fastforce+
    then show "\<exists>x\<ge>off. x < e \<and> recs_of (all (ix_db ix) INDEX_COLUMN_FAMILY) s i x = Some w
        \<and> (\<forall>y. off \<le> y \<and> y < x \<longrightarrow> recs_of (all (ix_db ix) INDEX_COLUMN_FAMILY) s i y = None)"
      using recs_of_Some [OF srt m(1)] r(2) m(2) by (intro exI [of _ "ri_offset (ir_index r)"]) simp
  next
    assume n: "tlb_of api ix s i off (Some e) = None" and x: "off \<le> x" "x < e"
    have "filter ?P ?rs = []" using n unfolding tlb_of_eq [OF db b] by (simp split: list.splits)
    then show "recs_of (all (ix_db ix) INDEX_COLUMN_FAMILY) s i x = None"
      using recs_of_mem [of _ s i x] x by (cases "recs_of (all (ix_db ix) INDEX_COLUMN_FAMILY) s i x") (fastforce simp: filter_empty_conv)+
  }
qed

section \<open>A database in memory\<close>

text \<open>A database with this behaviour, for closed instances of the theorems: the sequence of its writes.\<close>

type_synonym mem_db = "(string \<times> bytes \<times> bytes) list"

lemma bytes_less_irrefl [simp]: "\<not> bytes_less xs xs"
  by (induction xs) simp_all

lemma bytes_less_trans: "bytes_less xs ys \<Longrightarrow> bytes_less ys zs \<Longrightarrow> bytes_less xs zs"
proof (induction xs ys arbitrary: zs rule: bytes_less.induct)
  case (3 x xs y ys)
  then show ?case by (cases zs) auto
qed (auto elim: bytes_less.elims)

lemma kv_put_sorted: "sorted_wrt bytes_less (map fst es) \<Longrightarrow> sorted_wrt bytes_less (map fst (kv_put k v es))"
  by (auto simp: kv_put_def sorted_wrt_append sorted_wrt_map intro: sorted_wrt_filter bytes_less_trans)

definition mem_all :: "mem_db \<Rightarrow> string \<Rightarrow> kv list" where
  "mem_all d cf = fold (\<lambda>(c, k, v) es. if c = cf then kv_put k v es else es) d []"

definition mem_rocks :: "mem_db rocks_api" where
  "mem_rocks =
     \<lparr>rk_cf = (\<lambda>_ _. True), rk_put = (\<lambda>cf k v d. Ok (d @ [(cf, k, v)])), rk_get = (\<lambda>cf k d. Ok (map_of (mem_all d cf) k)),
      rk_iter = (\<lambda>cf lo hi d. filter (in_bounds lo hi) (mem_all d cf)),
      rk_last = (\<lambda>cf lo hi d. Ok (last_kv (filter (in_bounds lo hi) (mem_all d cf)))), rk_flush = Ok\<rparr>"

lemma mem_rocks_ok: "rocks_ok mem_rocks mem_all"
proof -
  have "sorted_wrt bytes_less (map fst (mem_all d cf))" for d cf
  proof (induction d rule: rev_induct)
    case (snoc x d)
    then show ?case by (cases x) (auto simp: mem_all_def kv_put_sorted)
  qed (simp add: mem_all_def)
  then show ?thesis by (auto simp: rocks_ok_def mem_rocks_def mem_all_def)
qed

lemma mem_rocks_up: "rocks_up mem_rocks d"
  by (simp add: rocks_up_def mem_rocks_def)

definition sample_record :: index_record where
  "sample_record = \<lparr>ir_index = \<lparr>ri_stream_id = 1, ri_range = 0, ri_offset = 10\<rparr>, ir_handle = \<lparr>rh_wal_offset = 4096, rh_len = 100, rh_ext = BatchSize 5\<rparr>\<rparr>"

definition sample_index :: "mem_db indexer" where
  "sample_index = \<lparr>ix_db = [(INDEX_COLUMN_FAMILY, entry_of sample_record)], ix_count = 1, ix_flush_threshold = 128\<rparr>"

lemma sample_index_entries: "mem_all (ix_db sample_index) INDEX_COLUMN_FAMILY = [entry_of sample_record]"
  by (simp add: mem_all_def sample_index_def kv_put_def entry_of_def)

lemma sample_record_ok: "record_ok sample_record"
  by (simp add: record_ok_def sample_record_def index_ok_def handle_ok_def)

lemma sample_index_wf: "index_wf (mem_all (ix_db sample_index) INDEX_COLUMN_FAMILY)"
  unfolding sample_index_entries using sample_record_ok by (auto simp: index_wf_def entry_of_def record_ok_def)

lemma sample_of_range: "of_range 1 0 (mem_all (ix_db sample_index) INDEX_COLUMN_FAMILY) = [sample_record]"
proof -
  have "records_of [entry_of sample_record] = [sample_record]" using records_of_entries [of "[sample_record]"] sample_record_ok by simp
  then show ?thesis unfolding sample_index_entries of_range_def by (simp add: sample_record_def)
qed

interpretation ix: wal_scanner "tlb_of mem_rocks sample_index" "recs_of (mem_all (ix_db sample_index) INDEX_COLUMN_FAMILY)"
  by (rule index_scanner [OF mem_rocks_ok mem_rocks_up sample_index_wf])

theorem scan_left_shift_spec_witness:
  "scan_record_left_shift mem_rocks 1 0 10 15 1024 sample_index = Ok (Some [sample_record])"
  using scan_left_shift_spec [OF mem_rocks_ok mem_rocks_up sample_index_wf, of 1 0 10 15 1024 "[sample_record]"]
  unfolding sample_of_range by (simp add: left_of_def) (simp add: sample_record_def)

theorem last_batch_not_found_witness: "scan_record_left_shift mem_rocks 1 0 12 15 1024 sample_index = Ok None"
  by (rule last_batch_not_found [OF mem_rocks_ok mem_rocks_up sample_index_wf _ _ _ _ _ sample_of_range])
    (simp_all add: sample_record_def end_offset_def)

section \<open>Watermarks over the index\<close>

text \<open>
  The minimum of the log protects indexed records: when the log offsets of a range grow with its
  offsets, the minimum over all streams is at most the log offset of every batch that is indexed
  between the start and the end of the first range of a stream, whatever the index holds for the
  other streams.
\<close>

theorem min_watermark_protects:
  assumes db: "rocks_ok api all" "rocks_up api (ix_db ix)" "index_wf (all (ix_db ix) INDEX_COLUMN_FAMILY)"
    and log: "\<forall>r \<in> set (records_of (all (ix_db ix) INDEX_COLUMN_FAMILY)). \<forall>q \<in> set (records_of (all (ix_db ix) INDEX_COLUMN_FAMILY)).
      ri_stream_id (ir_index r) = ri_stream_id (ir_index q) \<longrightarrow> ri_range (ir_index r) = ri_range (ir_index q) \<longrightarrow>
      ri_offset (ir_index r) \<le> ri_offset (ir_index q) \<longrightarrow> rh_wal_offset (ir_handle r) \<le> rh_wal_offset (ir_handle q)"
    and d: "(sid, d) \<in> set (wm_streams m)" "sd_ranges d = r # rs" and r: "rd_wal r = None" "rd_typed r"
    and x: "x \<in> set (records_of (all (ix_db ix) INDEX_COLUMN_FAMILY))" "ri_stream_id (ir_index x) = rd_stream r" "ri_range (ir_index x) = rd_range r"
      "rd_start r \<le> ri_offset (ir_index x)" "ri_offset (ir_index x) < rd_end r"
  shows "snd (min_wal_offset (tlb_of api ix) m) \<le> rh_wal_offset (ir_handle x)"
proof -
  let ?es = "all (ix_db ix) INDEX_COLUMN_FAMILY"
  have sc: "wal_scanner (tlb_of api ix) (recs_of ?es)" by (rule index_scanner [OF db])
  have o: "wal_scanner.log_ordered (recs_of ?es)"
    unfolding wal_scanner.log_ordered_def [OF sc]
  proof (intro allI impI)
    fix s i a b v w
    assume v: "recs_of ?es s i a = Some v" and w: "recs_of ?es s i b = Some w" and ab: "a \<le> b"
    obtain p q where "p \<in> set (of_range s i ?es)" "ri_offset (ir_index p) = a" "rh_wal_offset (ir_handle p) = v"
      "q \<in> set (of_range s i ?es)" "ri_offset (ir_index q) = b" "rh_wal_offset (ir_handle q) = w"
      using recs_of_mem [OF v] recs_of_mem [OF w] by blast
    then show "v \<le> w" using log ab by (auto simp: of_range_def)
  qed
  have k: "wal_scanner.wal_known (recs_of ?es) r" using r(1) by (simp add: wal_scanner.wal_known_def [OF sc])
  have mem: "x \<in> set (of_range (rd_stream r) (rd_range r) ?es)" using x(1-3) by (simp add: of_range_def)
  have "recs_of ?es (rd_stream r) (rd_range r) (ri_offset (ir_index x)) = Some (rh_wal_offset (ir_handle x))"
    by (rule recs_of_Some [OF of_range_sorted [OF db(3)] mem]) (use db(1) in \<open>simp add: rocks_ok_def\<close>)
  from wal_scanner.min_wal_offset_bound [OF sc o d k r(2) this x(4,5)] show ?thesis .
qed

theorem min_watermark_protects_witness:
  "snd (min_wal_offset (tlb_of mem_rocks sample_index)
     \<lparr>wm_streams = [(1, \<lparr>sd_stream_id = 1, sd_ranges = [(rd_new 1 0 0)\<lparr>rd_end := 20\<rparr>]\<rparr>)], wm_watermarks = []\<rparr>) \<le> 4096"
proof -
  have r: "records_of (mem_all (ix_db sample_index) INDEX_COLUMN_FAMILY) = [sample_record]"
    unfolding sample_index_entries using records_of_entries [of "[sample_record]"] sample_record_ok by simp
  have "snd (min_wal_offset (tlb_of mem_rocks sample_index)
     \<lparr>wm_streams = [(1, \<lparr>sd_stream_id = 1, sd_ranges = [(rd_new 1 0 0)\<lparr>rd_end := 20\<rparr>]\<rparr>)], wm_watermarks = []\<rparr>) \<le> rh_wal_offset (ir_handle sample_record)"
    by (rule min_watermark_protects [OF mem_rocks_ok mem_rocks_up sample_index_wf, where r = "(rd_new 1 0 0)\<lparr>rd_end := 20\<rparr>" and rs = "[]"
          and sid = 1 and d = "\<lparr>sd_stream_id = 1, sd_ranges = [(rd_new 1 0 0)\<lparr>rd_end := 20\<rparr>]\<rparr>"])
      (simp_all add: r rd_new_def rd_typed_def, simp_all add: sample_record_def)
  then show ?thesis by (simp add: sample_record_def)
qed

section \<open>Ranges in the metadata\<close>

lemma prefix_between: "\<not> bytes_less k p \<Longrightarrow> bytes_less k (p @ x) \<Longrightarrow> take (length p) k = p"
proof (induction p arbitrary: k)
  case (Cons a p)
  then show ?case by (cases k) auto
qed simp

lemma prefix_not_less: "\<not> bytes_less (p @ x) p"
  by (induction p) simp_all

lemma takeWhile_prefix:
  assumes "sorted_wrt bytes_less (map fst es)"
  shows "takeWhile (\<lambda>e. take (length p) (fst e) = p) (filter (in_bounds p None) es) = filter (\<lambda>e. take (length p) (fst e) = p) es"
  using assms
proof (induction es)
  case (Cons e es)
  have later: "filter (\<lambda>e. take (length p) (fst e) = p) es = []" if e: "in_bounds p None e" "take (length p) (fst e) \<noteq> p"
  proof (rule ccontr)
    assume "filter (\<lambda>e. take (length p) (fst e) = p) es \<noteq> []"
    then obtain q where q: "q \<in> set es" "take (length p) (fst q) = p" by (auto simp: filter_empty_conv)
    have "bytes_less (fst e) (p @ drop (length p) (fst q))" using Cons(2) q by (metis append_take_drop_id image_eqI list.map(2) list.set_map sorted_wrt.simps(2))
    then show False using e prefix_between [of "fst e" p] by (auto simp: in_bounds_def)
  qed
  have self: "in_bounds p None e" if "take (length p) (fst e) = p"
    using prefix_not_less [of p "drop (length p) (fst e)"] append_take_drop_id [of "length p" "fst e"] that by (simp add: in_bounds_def)
  show ?case using Cons later self by auto
qed simp

definition range_entry :: "range_metadata \<Rightarrow> kv" where
  "range_entry m = (range_key_bytes (rm_stream_id m) (rm_index m), be_bytes 8 (rm_start m) @ (case rm_end m of Some e \<Rightarrow> be_bytes 8 e | None \<Rightarrow> []))"

text \<open>What the metadata keeps of a range.\<close>

definition stored :: "range_metadata \<Rightarrow> range_metadata" where
  "stored m = rm_new (rm_stream_id m) (rm_index m) 0 (rm_start m) (rm_end m)"

definition range_typed :: "range_metadata \<Rightarrow> bool" where
  "range_typed m \<longleftrightarrow> rm_stream_id m < 2 ^ 64 \<and> fits_signed 32 (rm_index m) \<and> rm_start m < 2 ^ 64 \<and> (\<forall>e. rm_end m = Some e \<longrightarrow> e < 2 ^ 64)"

lemma read_range_entry:
  assumes "range_typed m"
  shows "read_range (range_entry m) = Ok (stored m)"
proof -
  have pow: "(256 :: nat) ^ 8 = 2 ^ 64" "(256 :: nat) ^ 4 = 2 ^ 32" by simp_all
  have i: "int_as_u32 (rm_index m) < 256 ^ 4" "as_i32 (int_as_u32 (rm_index m)) = rm_index m"
    using assms to_unsigned_less [of 32 "rm_index m"] to_signed_to_unsigned [of 32 "rm_index m"] unfolding pow by (simp_all add: range_typed_def)
  have b: "rm_stream_id m < 256 ^ 8" "rm_start m < 256 ^ 8" "\<And>e. rm_end m = Some e \<Longrightarrow> e < 256 ^ 8"
    using assms unfolding pow by (simp_all add: range_typed_def)
  show ?thesis using i b
    by (cases "rm_end m") (simp_all add: read_range_def range_entry_def range_key_bytes_def bind_get_be_ok be_val_be_bytes stored_def del: be_bytes.simps)
qed

lemma read_ranges_entries: "\<forall>m \<in> set ms. range_typed m \<Longrightarrow> read_ranges (map range_entry ms) = Ok (map stored ms)"
  by (induction ms) (simp_all add: read_range_entry)

definition metadata_wf :: "kv list \<Rightarrow> bool" where
  "metadata_wf es \<longleftrightarrow> (\<forall>e \<in> set es. take 1 (fst e) = [RANGE_PREFIX] \<longrightarrow> (\<exists>m. range_typed m \<and> e = range_entry m))"

lemma bytes_less_total: "bytes_less xs ys \<or> xs = ys \<or> bytes_less ys xs"
proof (induction xs ys rule: bytes_less.induct)
  case (3 x xs y ys)
  then show ?case by (cases x y rule: linorder_cases) auto
next
  case (1 ys)
  then show ?case by (cases ys) auto
qed simp

lemma set_kv_put: "set (kv_put k v es) = insert (k, v) {e \<in> set es. fst e \<noteq> k}"
  using bytes_less_total by (auto simp: kv_put_def)

lemma stream_prefix:
  assumes "range_typed m" and "s < 2 ^ 64"
  shows "take (length (RANGE_PREFIX # be_bytes 8 s)) (fst (range_entry m)) = RANGE_PREFIX # be_bytes 8 s \<longleftrightarrow> rm_stream_id m = s"
  using assms be_bytes_less(2) [of "rm_stream_id m" 8 s]
  by (simp add: range_entry_def range_key_bytes_def range_typed_def del: be_bytes.simps)

lemma stored_of_entry: "range_typed m \<Longrightarrow> range_typed n \<Longrightarrow> range_entry m = range_entry n \<Longrightarrow> stored m = stored n"
  using read_range_entry [of m] read_range_entry [of n] by simp

lemma range_key_eq:
  assumes "range_typed m" and "range_typed n" and "rm_stream_id m = rm_stream_id n"
  shows "fst (range_entry m) = fst (range_entry n) \<longleftrightarrow> rm_index m = rm_index n"
proof -
  have pow: "(256 :: nat) ^ 4 = 2 ^ 32" by simp
  have "int_as_u32 (rm_index m) < 256 ^ 4" "int_as_u32 (rm_index n) < 256 ^ 4" unfolding pow by (rule to_unsigned_less)+
  moreover have "int_as_u32 (rm_index m) = int_as_u32 (rm_index n) \<longleftrightarrow> rm_index m = rm_index n"
  proof -
    have "as_i32 (int_as_u32 (rm_index m)) = rm_index m" "as_i32 (int_as_u32 (rm_index n)) = rm_index n"
      using assms(1,2) by (simp_all add: range_typed_def to_signed_to_unsigned)
    then show ?thesis by metis
  qed
  ultimately show ?thesis using assms(3) by (simp add: range_entry_def range_key_bytes_def be_bytes_less del: be_bytes.simps)
qed

lemma entries_of: "\<forall>e \<in> set es. \<exists>m. P m \<and> e = g m \<Longrightarrow> \<exists>ms. es = map g ms \<and> (\<forall>m \<in> set ms. P m)"
proof (induction es)
  case (Cons e es)
  then obtain m ms where "e = g m" "P m" "es = map g ms" "\<forall>m \<in> set ms. P m" by auto
  then show ?case by (intro exI [of _ "m # ms"]) simp
qed simp

lemma list_by_stream_spec:
  assumes db: "rocks_ok api all" "rk_cf api METADATA_COLUMN_FAMILY (ix_db ix)" "metadata_wf (all (ix_db ix) METADATA_COLUMN_FAMILY)" and s: "s < 2 ^ 64"
  shows "\<exists>xs. list_by_stream api s ix = Ok xs
    \<and> set xs = stored ` {m. range_typed m \<and> rm_stream_id m = s \<and> range_entry m \<in> set (all (ix_db ix) METADATA_COLUMN_FAMILY)}"
proof -
  let ?es = "all (ix_db ix) METADATA_COLUMN_FAMILY" and ?p = "RANGE_PREFIX # be_bytes 8 s"
  let ?fs = "filter (\<lambda>e. take (length ?p) (fst e) = ?p) ?es"
  have it: "rk_iter api cf lo hi d = filter (in_bounds lo hi) (all d cf)" and srt: "sorted_wrt bytes_less (map fst ?es)" for cf lo hi d
    using db(1) by (simp_all add: rocks_ok_def)
  have "\<forall>e \<in> set ?fs. \<exists>m. range_typed m \<and> e = range_entry m"
  proof
    fix e assume e: "e \<in> set ?fs"
    then have "take 1 (fst e) = [RANGE_PREFIX]" by (cases "fst e") auto
    with e db(3) show "\<exists>m. range_typed m \<and> e = range_entry m" by (simp add: metadata_wf_def)
  qed
  then obtain ms where ms: "?fs = map range_entry ms" "\<forall>m \<in> set ms. range_typed m" using entries_of [of ?fs range_typed range_entry] by blast
  have l: "list_by_stream api s ix = Ok (map stored ms)"
    unfolding list_by_stream_def ranges_with_def it takeWhile_prefix [OF srt] ms(1) using db(2) read_ranges_entries [OF ms(2)] by simp
  have mem: "range_entry m \<in> set ?es \<and> rm_stream_id m = s \<longleftrightarrow> range_entry m \<in> range_entry ` set ms" if "range_typed m" for m
    unfolding set_map [symmetric] ms(1) [symmetric] set_filter using stream_prefix [OF that s] by auto
  have "set (map stored ms) = stored ` {m. range_typed m \<and> rm_stream_id m = s \<and> range_entry m \<in> set ?es}"
  proof (intro equalityI subsetI)
    fix x assume "x \<in> set (map stored ms)"
    then obtain m where "m \<in> set ms" "x = stored m" by auto
    then show "x \<in> stored ` {m. range_typed m \<and> rm_stream_id m = s \<and> range_entry m \<in> set ?es}" using mem ms(2) by blast
  next
    fix x assume "x \<in> stored ` {m. range_typed m \<and> rm_stream_id m = s \<and> range_entry m \<in> set ?es}"
    then obtain m n where "range_typed m" "x = stored m" "n \<in> set ms" "range_entry m = range_entry n" using mem by blast
    then have "x = stored n" using stored_of_entry [of m n] ms(2) by blast
    then show "x \<in> set (map stored ms)" using \<open>n \<in> set ms\<close> by simp
  qed
  with l show ?thesis by blast
qed

lemma stored_after_put:
  assumes m: "range_typed m" and E': "E' = insert (range_entry m) {e \<in> E. fst e \<noteq> fst (range_entry m)}"
  shows "stored ` {n. range_typed n \<and> rm_stream_id n = rm_stream_id m \<and> range_entry n \<in> E'} =
    insert (stored m) {x \<in> stored ` {n. range_typed n \<and> rm_stream_id n = rm_stream_id m \<and> range_entry n \<in> E}. rm_index x \<noteq> rm_index m}"
    (is "?new = insert _ {x \<in> ?old. _}")
proof -
  let ?s = "rm_stream_id m"
  have i: "rm_index (stored n) = rm_index n" for n by (simp add: stored_def rm_new_def rm_new_range_def)
  have e: "range_entry n \<in> E' \<longleftrightarrow> range_entry n = range_entry m \<or> range_entry n \<in> E \<and> rm_index n \<noteq> rm_index m"
    if "range_typed n" "rm_stream_id n = ?s" for n
    unfolding E' using range_key_eq [OF that(1) m that(2)] by auto
  show "?new = insert (stored m) {x \<in> ?old. rm_index x \<noteq> rm_index m}"
  proof (intro equalityI subsetI)
    fix x assume "x \<in> ?new"
    then obtain n where n: "range_typed n" "rm_stream_id n = ?s" "x = stored n" "range_entry n \<in> E'" by blast
    then consider "range_entry n = range_entry m" | "range_entry n \<in> E" "rm_index n \<noteq> rm_index m" using e by blast
    then show "x \<in> insert (stored m) {x \<in> ?old. rm_index x \<noteq> rm_index m}"
    proof cases
      case 1
      then show ?thesis using stored_of_entry [OF n(1) m] n(3) by blast
    next
      case 2
      then show ?thesis using n(1-3) i by auto
    qed
  next
    fix x assume "x \<in> insert (stored m) {x \<in> ?old. rm_index x \<noteq> rm_index m}"
    then consider "x = stored m" | "x \<in> ?old" "rm_index x \<noteq> rm_index m" by blast
    then show "x \<in> ?new"
    proof cases
      case 1
      then show ?thesis using m e [OF m] by blast
    next
      case 2
      then obtain n where "range_typed n" "rm_stream_id n = ?s" "x = stored n" "range_entry n \<in> E" by blast
      then show ?thesis using e 2(2) i by (intro image_eqI [of _ _ n]) auto
    qed
  qed
qed

text \<open>
  C39. A range that is added or sealed is listed with its stream, index, start and end, and the
  listing keeps every other range of the stream: it is the old listing with the entry of this
  index replaced.
\<close>

theorem added_range_listed:
  assumes db: "rocks_ok api all" "rk_cf api METADATA_COLUMN_FAMILY (ix_db ix)" "metadata_wf (all (ix_db ix) METADATA_COLUMN_FAMILY)"
    and m: "range_typed m" and put: "ix_add api (rm_stream_id m) m ix = Ok ix' \<or> ix_seal api (rm_stream_id m) m ix = Ok ix'"
  shows "\<exists>old new. list_by_stream api (rm_stream_id m) ix = Ok old \<and> list_by_stream api (rm_stream_id m) ix' = Ok new
    \<and> set new = insert (stored m) {x \<in> set old. rm_index x \<noteq> rm_index m}"
proof -
  let ?s = "rm_stream_id m" and ?es = "all (ix_db ix) METADATA_COLUMN_FAMILY" and ?es' = "all (ix_db ix') METADATA_COLUMN_FAMILY"
  have "put_range api ?s (rm_index m) (snd (range_entry m)) ix = Ok ix'"
    using put by (auto simp: ix_add_def ix_seal_def range_entry_def split: option.splits)
  then have p: "rk_put api METADATA_COLUMN_FAMILY (fst (range_entry m)) (snd (range_entry m)) (ix_db ix) = Ok (ix_db ix')"
    using db(2) by (auto simp: put_range_def range_entry_def fmap_ok_eq_Ok on_db_def split: outcome.splits)
  have es': "set ?es' = insert (range_entry m) {e \<in> set ?es. fst e \<noteq> fst (range_entry m)}" and cf: "rk_cf api METADATA_COLUMN_FAMILY (ix_db ix')"
    using db(1,2) p by (auto simp: rocks_ok_def set_kv_put)
  have wf: "metadata_wf ?es'" using db(3) m es' by (auto simp: metadata_wf_def)
  have s: "?s < 2 ^ 64" using m by (simp add: range_typed_def)
  obtain old new where l: "list_by_stream api ?s ix = Ok old" "list_by_stream api ?s ix' = Ok new"
    and old: "set old = stored ` {n. range_typed n \<and> rm_stream_id n = ?s \<and> range_entry n \<in> set ?es}"
    and new: "set new = stored ` {n. range_typed n \<and> rm_stream_id n = ?s \<and> range_entry n \<in> set ?es'}"
    using list_by_stream_spec [OF db s] list_by_stream_spec [OF db(1) cf wf s] by blast
  have "set new = insert (stored m) {x \<in> set old. rm_index x \<noteq> rm_index m}" unfolding new old by (rule stored_after_put [OF m es'])
  with l show ?thesis by blast
qed

theorem added_range_listed_witness:
  "\<exists>new. list_by_stream mem_rocks 1 \<lparr>ix_db = [(METADATA_COLUMN_FAMILY, range_entry (rm_new 1 0 0 5 None))], ix_count = 0, ix_flush_threshold = 128\<rparr> = Ok new
     \<and> set new = {rm_new 1 0 0 5 None}"
proof -
  let ?m = "rm_new 1 0 0 5 None"
  let ?ix = "\<lparr>ix_db = [], ix_count = 0, ix_flush_threshold = 128\<rparr> :: mem_db indexer"
  let ?ix' = "\<lparr>ix_db = [(METADATA_COLUMN_FAMILY, range_entry ?m)], ix_count = 0, ix_flush_threshold = 128\<rparr> :: mem_db indexer"
  have t: "range_typed ?m" by (simp add: range_typed_def rm_new_def rm_new_range_def fits_signed_def)
  have a: "ix_add mem_rocks (rm_stream_id ?m) ?m ?ix = Ok ?ix'"
    by (simp add: ix_add_def put_range_def mem_rocks_def on_db_def range_entry_def rm_new_def rm_new_range_def)
  have w: "metadata_wf (mem_all (ix_db ?ix) METADATA_COLUMN_FAMILY)" by (simp add: metadata_wf_def mem_all_def)
  have c: "rk_cf mem_rocks METADATA_COLUMN_FAMILY (ix_db ?ix)" by (simp add: mem_rocks_def)
  have e: "list_by_stream mem_rocks 1 ?ix = Ok []" by (simp add: list_by_stream_def ranges_with_def mem_rocks_def mem_all_def)
  have "stored ?m = ?m" "rm_stream_id ?m = 1" by (simp_all add: stored_def rm_new_def rm_new_range_def)
  with added_range_listed [OF mem_rocks_ok c w t disjI1 [OF a]] e show ?thesis by auto
qed

section \<open>Compaction\<close>

text \<open>
  Compaction never removes anything: the filter only looks at entries whose keys have 8 bytes, and
  keys of the index have 20, those of ranges 13 and the key of the checkpoint 14.
\<close>

theorem compaction_keeps_everything:
  assumes "index_wf es \<or> (\<forall>e \<in> set es. (\<exists>m. e = range_entry m) \<or> fst e = WAL_CHECKPOINT)"
  shows "compact min_offset es = es"
  using assms
  by (auto simp: compact_def index_filter_def filter_id_conv index_wf_def index_bytes_def range_entry_def range_key_bytes_def WAL_CHECKPOINT_def
      simp del: be_bytes.simps)

end
