(* ===== verification/Index_Driver.thy ===== *)
theory Index_Driver
  imports Indexer
begin

text \<open>
  The thread that owns the index, \<open>src/components/store/src/index/driver.rs\<close>: it runs the commands
  it receives one after the other on the indexer and on the watermarks. An entry is indexed again
  until it succeeds; the attempts find the database in the states \<open>attempts\<close>, one for each. No result
  means that the command does not return.
\<close>

section \<open>Model\<close>

datatype index_command =
    Index index_record
  | ScanRecord u64 u32 u64 u64 u32
  | ListRange
  | ListRangeByStream u64
  | SealRange range_metadata
  | CreateRange range_metadata
  | RangeEvent event_type range_metadata
  | StreamTrim u64 u64
  | DataOffload u64 u32 u64 u32

datatype index_reply =
    NoReply
  | Scanned "(store_error, index_record list option) outcome"
  | Ranges "range_metadata list"
  | Answered "(store_error, unit) outcome"

record 'd index_driver =
  dr_indexer :: "'d indexer"
  dr_watermarks :: watermark_manager

definition dr_new :: "'d \<Rightarrow> usize \<Rightarrow> 'd index_driver" where
  "dr_new d flush_threshold =
     \<lparr>dr_indexer = \<lparr>ix_db = d, ix_count = 0, ix_flush_threshold = flush_threshold\<rparr>, dr_watermarks = add_watermark ww_new wm_new\<rparr>"

fun index_retry :: "'d rocks_api list \<Rightarrow> index_record \<Rightarrow> 'd indexer \<Rightarrow> (unit, 'd indexer) outcome option" where
  "index_retry [] r ix = None"
| "index_retry (api # apis) r ix =
     (case ix_index api r ix of
        (ix, Ok _) \<Rightarrow> Some (Ok ix)
      | (ix, Err _) \<Rightarrow> index_retry apis r ix
      | (ix, Panic) \<Rightarrow> Some Panic)"

definition range_event :: "scan_wal \<Rightarrow> event_type \<Rightarrow> range_metadata \<Rightarrow> watermark_manager \<Rightarrow> watermark_manager" where
  "range_event tlb ev m wm =
     (if ev = Added \<or> ev = Listed
      then if rm_index m \<ge> 0 then wm_add_range (rm_stream_id m) (nat (rm_index m)) (rm_start m) (rm_end m) wm else wm
      else if ev = Modified
      then if rm_index m \<ge> 0 then wm_trim_range tlb (rm_stream_id m) (nat (rm_index m)) (rm_start m) wm else wm
      else if ev = Deleted then wm_delete_range (rm_stream_id m) (int_as_u32 (rm_index m)) wm
      else wm)"

definition put_indexer :: "'d indexer \<Rightarrow> index_reply \<Rightarrow> 'd index_driver \<Rightarrow> (unit, 'd index_driver \<times> index_reply) outcome option" where
  "put_indexer ix reply d = Some (Ok (d\<lparr>dr_indexer := ix\<rparr>, reply))"

definition put_watermarks :: "watermark_manager \<Rightarrow> 'd index_driver \<Rightarrow> (unit, 'd index_driver \<times> index_reply) outcome option" where
  "put_watermarks wm d = Some (Ok (d\<lparr>dr_watermarks := wm\<rparr>, NoReply))"

definition answer_range :: "(store_error, 'd indexer) outcome \<Rightarrow> 'd index_driver \<Rightarrow> (unit, 'd index_driver \<times> index_reply) outcome option" where
  "answer_range r d =
     (case r of
        Ok ix \<Rightarrow> put_indexer ix (Answered (Ok ())) d
      | Err e \<Rightarrow> Some (Ok (d, Answered (Err e)))
      | Panic \<Rightarrow> Some Panic)"

definition run_command :: "'d rocks_api \<Rightarrow> 'd rocks_api list \<Rightarrow> index_command \<Rightarrow> 'd index_driver
    \<Rightarrow> (unit, 'd index_driver \<times> index_reply) outcome option" where
  "run_command api attempts cmd d =
     (let ix = dr_indexer d; wm = dr_watermarks d; tlb = tlb_of api ix in
      case cmd of
        Index r \<Rightarrow>
          (case index_retry attempts r ix of
             None \<Rightarrow> None
           | Some (Ok ix) \<Rightarrow>
               Some (Ok (\<lparr>dr_indexer = ix, dr_watermarks = wm_on_index (ri_stream_id (ir_index r)) (ri_range (ir_index r)) (ri_offset (ir_index r)) wm\<rparr>, NoReply))
           | Some _ \<Rightarrow> Some Panic)
      | ScanRecord stream_id range_index off max_offset max_bytes \<Rightarrow>
          (case scan_record_left_shift api stream_id range_index off max_offset max_bytes ix of
             Panic \<Rightarrow> Some Panic
           | res \<Rightarrow> Some (Ok (d, Scanned res)))
      | ListRange \<Rightarrow> (case list_ranges api ix of Ok ms \<Rightarrow> Some (Ok (d, Ranges ms)) | _ \<Rightarrow> Some Panic)
      | ListRangeByStream stream_id \<Rightarrow> (case list_by_stream api stream_id ix of Ok ms \<Rightarrow> Some (Ok (d, Ranges ms)) | _ \<Rightarrow> Some Panic)
      | CreateRange m \<Rightarrow> answer_range (ix_add api (rm_stream_id m) m ix) d
      | SealRange m \<Rightarrow> answer_range (ix_seal api (rm_stream_id m) m ix) d
      | DataOffload stream_id range_index off delta \<Rightarrow>
          (case wm_on_data_offload tlb stream_id range_index off delta wm of Ok wm \<Rightarrow> put_watermarks wm d | _ \<Rightarrow> Some Panic)
      | RangeEvent ev m \<Rightarrow> put_watermarks (range_event tlb ev m wm) d
      | StreamTrim stream_id off \<Rightarrow> (case wm_trim_stream tlb stream_id off wm of None \<Rightarrow> None | Some wm \<Rightarrow> put_watermarks wm d))"

fun run_commands :: "'d rocks_api \<Rightarrow> 'd rocks_api list \<Rightarrow> index_command list \<Rightarrow> 'd index_driver \<Rightarrow> 'd index_driver option" where
  "run_commands api attempts [] d = Some d"
| "run_commands api attempts (c # cs) d =
     (case run_command api attempts c d of Some (Ok (d, _)) \<Rightarrow> run_commands api attempts cs d | _ \<Rightarrow> None)"

section \<open>What the commands keep\<close>

definition cmd_typed :: "index_command \<Rightarrow> bool" where
  "cmd_typed c \<longleftrightarrow> (case c of Index r \<Rightarrow> record_ok r | SealRange m \<Rightarrow> range_typed m | CreateRange m \<Rightarrow> range_typed m | _ \<Rightarrow> True)"

definition driver_ok :: "('d \<Rightarrow> string \<Rightarrow> kv list) \<Rightarrow> 'd index_driver \<Rightarrow> bool" where
  "driver_ok all d \<longleftrightarrow> index_wf (all (ix_db (dr_indexer d)) INDEX_COLUMN_FAMILY) \<and> metadata_wf (all (ix_db (dr_indexer d)) METADATA_COLUMN_FAMILY)"

lemma families_differ: "INDEX_COLUMN_FAMILY \<noteq> METADATA_COLUMN_FAMILY"
  by (simp add: INDEX_COLUMN_FAMILY_def METADATA_COLUMN_FAMILY_def)

text \<open>The index entries of an indexer, and how the entries of both families change by one entry.\<close>

abbreviation entries :: "('d \<Rightarrow> string \<Rightarrow> kv list) \<Rightarrow> 'd indexer \<Rightarrow> kv list" where
  "entries all ix \<equiv> all (ix_db ix) INDEX_COLUMN_FAMILY"

abbreviation metadata :: "('d \<Rightarrow> string \<Rightarrow> kv list) \<Rightarrow> 'd indexer \<Rightarrow> kv list" where
  "metadata all ix \<equiv> all (ix_db ix) METADATA_COLUMN_FAMILY"

lemma put_families:
  assumes "rocks_ok api all" and "rk_put api cf k v d = Ok d'"
  shows "set (all d' cf) = insert (k, v) {e \<in> set (all d cf). fst e \<noteq> k}" and "c \<noteq> cf \<Longrightarrow> all d' c = all d c"
  using assms by (auto simp: rocks_ok_def set_kv_put)

lemma advance_wal_checkpoint_keeps:
  assumes "rocks_ok api all" and "advance_wal_checkpoint api off ix = Ok ix'"
  shows "entries all ix' = entries all ix \<and> (metadata_wf (metadata all ix) \<longrightarrow> metadata_wf (metadata all ix'))"
proof -
  have p: "rk_put api METADATA_COLUMN_FAMILY WAL_CHECKPOINT (be_bytes 8 off) (ix_db ix) = Ok (ix_db ix')"
    using assms(2) by (auto simp: advance_wal_checkpoint_def fmap_ok_eq_Ok on_db_def split: if_splits outcome.splits)
  have "take 1 WAL_CHECKPOINT \<noteq> [RANGE_PREFIX]" by (simp add: WAL_CHECKPOINT_def RANGE_PREFIX_def)
  then show ?thesis using put_families [OF assms(1) p] families_differ by (auto simp: metadata_wf_def)
qed

lemma ix_flush_keeps: "rocks_ok api all \<Longrightarrow> ix_flush api ix = Ok ix' \<Longrightarrow> all (ix_db ix') = all (ix_db ix)"
  by (auto simp: ix_flush_def rocks_ok_def fmap_ok_eq_Ok on_db_def split: if_splits outcome.splits)

text \<open>Indexing a record adds at most its entry, and exactly its entry when it succeeds.\<close>

definition adds_entry :: "('d \<Rightarrow> string \<Rightarrow> kv list) \<Rightarrow> index_record \<Rightarrow> 'd indexer \<Rightarrow> 'd indexer \<Rightarrow> bool" where
  "adds_entry all r ix ix' \<longleftrightarrow>
     set (entries all ix') = insert (entry_of r) {e \<in> set (entries all ix). fst e \<noteq> index_bytes (ir_index r)}
     \<and> (metadata_wf (metadata all ix) \<longrightarrow> metadata_wf (metadata all ix'))"

lemma ix_index_adds:
  assumes ok: "rocks_ok api all" and i: "ix_index api r ix = (ix', res)"
  shows "adds_entry all r ix ix' \<or> ix' = ix \<and> res \<noteq> Ok ()"
proof (cases "rk_put api INDEX_COLUMN_FAMILY (index_bytes (ir_index r)) (handle_bytes (ir_handle r)) (ix_db ix)")
  case (Ok d)
  let ?ix = "ix\<lparr>ix_db := d\<rparr>"
  have a: "adds_entry all r ix ?ix"
    using put_families [OF ok Ok] families_differ by (simp add: adds_entry_def entry_of_def)
  have keep: "adds_entry all r ix ix2" if "entries all ix2 = entries all ?ix" "metadata_wf (metadata all ?ix) \<longrightarrow> metadata_wf (metadata all ix2)" for ix2
    using a that by (simp add: adds_entry_def)
  show ?thesis
  proof (cases "advance_wal_checkpoint api (rh_wal_offset (ir_handle r)) ?ix")
    case Ok2: (Ok ix1)
    have k: "adds_entry all r ix ix2" if "all (ix_db ix2) = all (ix_db ix1)" for ix2
      using advance_wal_checkpoint_keeps [OF ok Ok2] that by (intro keep) simp_all
    show ?thesis using i Ok Ok2 by (auto simp: ix_index_def Let_def k split: if_splits outcome.splits intro!: k dest!: ix_flush_keeps [OF ok])
  qed (use i Ok a in \<open>auto simp: ix_index_def split: if_splits\<close>)
qed (use i in \<open>auto simp: ix_index_def split: if_splits\<close>)

lemma adds_entry_twice: "adds_entry all r ix ix1 \<Longrightarrow> adds_entry all r ix1 ix2 \<Longrightarrow> adds_entry all r ix ix2"
  by (auto simp: adds_entry_def entry_of_def)

lemma index_retry_adds:
  assumes "index_retry attempts r ix = Some (Ok ix')" and "\<forall>api \<in> set attempts. rocks_ok api all"
  shows "adds_entry all r ix ix'"
  using assms
proof (induction attempts arbitrary: ix)
  case (Cons api apis)
  have ok: "rocks_ok api all" using Cons(3) by simp
  obtain ix1 res where i: "ix_index api r ix = (ix1, res)" by fastforce
  note a = ix_index_adds [OF ok i]
  show ?case
  proof (cases res)
    case (Ok u)
    then show ?thesis using Cons(2) i a by auto
  next
    case (Err e)
    then have "adds_entry all r ix1 ix'" using Cons i by simp
    then show ?thesis using a adds_entry_twice by blast
  qed (use Cons(2) i in simp)
qed simp

lemma adds_entry_wf: "adds_entry all r ix ix' \<Longrightarrow> record_ok r \<Longrightarrow> index_wf (entries all ix) \<Longrightarrow> index_wf (entries all ix')"
  by (auto simp: adds_entry_def index_wf_def entry_of_def record_ok_def)

lemma put_range_keeps:
  assumes ok: "rocks_ok api all" and p: "put_range api (rm_stream_id m) (rm_index m) (snd (range_entry m)) ix = Ok ix'" and m: "range_typed m"
  shows "entries all ix' = entries all ix \<and> (metadata_wf (metadata all ix) \<longrightarrow> metadata_wf (metadata all ix'))"
proof -
  have p: "rk_put api METADATA_COLUMN_FAMILY (fst (range_entry m)) (snd (range_entry m)) (ix_db ix) = Ok (ix_db ix')"
    using p by (auto simp: put_range_def range_entry_def fmap_ok_eq_Ok on_db_def split: if_splits outcome.splits)
  then show ?thesis using put_families [OF ok p] families_differ m by (auto simp: metadata_wf_def)
qed

lemma ix_add_keeps:
  "rocks_ok api all \<Longrightarrow> range_typed m \<Longrightarrow> ix_add api (rm_stream_id m) m ix = Ok ix' \<Longrightarrow>
    entries all ix' = entries all ix \<and> (metadata_wf (metadata all ix) \<longrightarrow> metadata_wf (metadata all ix'))"
  by (rule put_range_keeps [of api all m]) (simp_all add: ix_add_def range_entry_def)

lemma ix_seal_keeps:
  "rocks_ok api all \<Longrightarrow> range_typed m \<Longrightarrow> ix_seal api (rm_stream_id m) m ix = Ok ix' \<Longrightarrow>
    entries all ix' = entries all ix \<and> (metadata_wf (metadata all ix) \<longrightarrow> metadata_wf (metadata all ix'))"
  by (rule put_range_keeps [of api all m]) (auto simp: ix_seal_def range_entry_def split: option.splits)

lemma run_command_keeps:
  assumes ok: "rocks_ok api all" "\<forall>a \<in> set attempts. rocks_ok a all" and c: "cmd_typed c"
    and run: "run_command api attempts c d = Some (Ok (d', reply))"
  shows "(case c of Index r \<Rightarrow> adds_entry all r (dr_indexer d) (dr_indexer d')
    | _ \<Rightarrow> entries all (dr_indexer d') = entries all (dr_indexer d)
        \<and> (metadata_wf (metadata all (dr_indexer d)) \<longrightarrow> metadata_wf (metadata all (dr_indexer d'))))"
proof (cases c)
  case (Index r)
  then show ?thesis using run index_retry_adds [OF _ ok(2)]
    by (auto simp: run_command_def Let_def split: option.splits outcome.splits)
next
  case (SealRange m)
  then show ?thesis using run c ix_seal_keeps [OF ok(1), of m]
    by (auto simp: run_command_def answer_range_def put_indexer_def cmd_typed_def Let_def split: outcome.splits)
next
  case (CreateRange m)
  then show ?thesis using run c ix_add_keeps [OF ok(1), of m]
    by (auto simp: run_command_def answer_range_def put_indexer_def cmd_typed_def Let_def split: outcome.splits)
qed (use run in \<open>auto simp: run_command_def put_watermarks_def Let_def split: outcome.splits option.splits\<close>)

lemma run_command_ok:
  assumes "rocks_ok api all" "\<forall>a \<in> set attempts. rocks_ok a all" "cmd_typed c" "run_command api attempts c d = Some (Ok (d', reply))" and "driver_ok all d"
  shows "driver_ok all d'"
proof (cases c)
  case (Index r)
  then have a: "adds_entry all r (dr_indexer d) (dr_indexer d')" using run_command_keeps [OF assms(1-4)] by simp
  then show ?thesis using adds_entry_wf [OF a] assms(3,5) Index by (simp add: driver_ok_def cmd_typed_def adds_entry_def)
qed (use run_command_keeps [OF assms(1-4)] assms(5) in \<open>simp_all add: driver_ok_def\<close>)

lemma run_commands_ok:
  assumes "rocks_ok api all" "\<forall>a \<in> set attempts. rocks_ok a all"
  shows "run_commands api attempts cs d = Some d' \<Longrightarrow> \<forall>c \<in> set cs. cmd_typed c \<Longrightarrow> driver_ok all d \<Longrightarrow> driver_ok all d'"
proof (induction cs arbitrary: d)
  case (Cons c cs)
  then obtain d1 rep where r: "run_command api attempts c d = Some (Ok (d1, rep))" "run_commands api attempts cs d1 = Some d'"
    by (auto split: option.splits outcome.splits)
  then show ?case using Cons run_command_ok [OF assms _ r(1)] by simp
qed simp

lemma run_commands_keep_entry:
  assumes "rocks_ok api all" "\<forall>a \<in> set attempts. rocks_ok a all"
  shows "run_commands api attempts cs d = Some d' \<Longrightarrow> \<forall>c \<in> set cs. cmd_typed c \<Longrightarrow> record_ok r \<Longrightarrow>
    \<forall>q. Index q \<in> set cs \<longrightarrow> ir_index q \<noteq> ir_index r \<Longrightarrow> entry_of r \<in> set (entries all (dr_indexer d)) \<Longrightarrow> entry_of r \<in> set (entries all (dr_indexer d'))"
proof (induction cs arbitrary: d)
  case (Cons c cs)
  then obtain d1 rep where r: "run_command api attempts c d = Some (Ok (d1, rep))" "run_commands api attempts cs d1 = Some d'"
    by (auto split: option.splits outcome.splits)
  have t: "cmd_typed c" using Cons(3) by simp
  have "entry_of r \<in> set (entries all (dr_indexer d1))"
  proof (cases c)
    case (Index q)
    then have q: "ir_index q \<noteq> ir_index r" "record_ok q" using Cons(3,5) by (simp_all add: cmd_typed_def)
    then have "index_bytes (ir_index q) \<noteq> index_bytes (ir_index r)"
      using index_entry_roundtrip [of "ir_index q" "ir_handle q"] index_entry_roundtrip [of "ir_index r" "ir_handle r"] Cons(4)
      by (auto simp: record_ok_def)
    then show ?thesis using run_command_keeps [OF assms t r(1)] Index Cons(6) by (auto simp: adds_entry_def entry_of_def)
  qed (use run_command_keeps [OF assms t r(1)] Cons(6) in simp_all)
  then show ?case using Cons r(2) by simp
qed simp

lemma run_commands_append: "run_commands api attempts (cs @ cs') d = Option.bind (run_commands api attempts cs d) (run_commands api attempts cs')"
  by (induction cs arbitrary: d) (auto split: option.split outcome.split)

section \<open>Indexed records are found\<close>

lemma entry_record:
  assumes "index_wf es" and "record_ok r" and "entry_of r \<in> set es"
  shows "r \<in> set (records_of es)"
proof -
  obtain rs where rs: "es = map entry_of rs" "\<forall>r \<in> set rs. record_ok r" "records_of es = rs" using index_wf_records [OF assms(1)] by blast
  obtain q where q: "q \<in> set rs" "entry_of q = entry_of r" using assms(3) unfolding rs(1) by auto
  have dq: "decode_entry (entry_of r) = (Ok (Some q) :: (unit, _) outcome)" unfolding q(2) [symmetric] using rs(2) q(1) by (intro decode_entry_of) blast
  have "q = r" using trans [OF dq [symmetric] decode_entry_of [OF assms(2)]] by (simp only: outcome.inject option.inject)
  with q(1) rs(3) show ?thesis by simp
qed

lemma scan_finds:
  assumes rs: "sorted_wrt (\<lambda>x y. ri_offset (ir_index x) < ri_offset (ir_index y)) rs" and r: "r \<in> set rs"
    and lim: "ri_offset (ir_index r) < max_offset" "0 < max_bytes"
  shows "\<exists>xs. take_len 0 max_bytes (filter (\<lambda>x. left_of (ri_offset (ir_index r)) rs \<le> ri_offset (ir_index x) \<and> ri_offset (ir_index x) < max_offset) rs) = r # xs"
proof -
  let ?o = "\<lambda>x. ri_offset (ir_index x)"
  obtain as bs where s: "rs = as @ r # bs" using split_list [OF r] by blast
  have before: "\<forall>x \<in> set as. ?o x < ?o r" and after: "\<forall>x \<in> set bs. ?o r < ?o x" using rs unfolding s by (auto simp: sorted_wrt_append)
  have ls: "filter (\<lambda>x. ?o x \<le> ?o r) rs = as @ [r]" 
  proof -
    have "filter (\<lambda>x. ?o x \<le> ?o r) as = as" using before by (intro filter_True) (simp add: less_imp_le)
    moreover have "filter (\<lambda>x. ?o x \<le> ?o r) bs = []" using after by (intro filter_False) (simp add: not_le)
    ultimately show ?thesis unfolding s by simp
  qed
  have "?o r \<le> ?o (last rs)" using after unfolding s by (cases bs rule: rev_cases) (auto simp: less_imp_le)
  then have l: "left_of (?o r) rs = ?o r" using ls s by (simp add: left_of_def)
  have "filter (\<lambda>x. ?o r \<le> ?o x \<and> ?o x < max_offset) as = []" using before by (auto simp: filter_empty_conv)
  then have "filter (\<lambda>x. ?o r \<le> ?o x \<and> ?o x < max_offset) rs = r # filter (\<lambda>x. ?o r \<le> ?o x \<and> ?o x < max_offset) bs"
    using lim(1) unfolding s by simp
  then show ?thesis using lim(2) unfolding l by simp
qed

text \<open>
  C5. What is indexed can be read: on a new database, when a sequence of commands has run, an entry that
  it indexed and that no later command of it indexes again is the first result of a scan from its offset, whatever
  was indexed, created, sealed, trimmed or offloaded before and after it, and however often
  writing it had to be tried.
\<close>

theorem indexed_record_found:
  assumes ok: "rocks_ok api all" "\<forall>a \<in> set attempts. rocks_ok a all" and empty: "\<forall>cf. all db cf = []"
    and run: "run_commands api attempts (cs @ Index r # cs') (dr_new db threshold) = Some d" and up: "rocks_up api (ix_db (dr_indexer d))"
    and typed: "\<forall>c \<in> set (cs @ Index r # cs'). cmd_typed c" and last: "\<forall>q. Index q \<in> set cs' \<longrightarrow> ir_index q \<noteq> ir_index r"
    and b: "ri_stream_id (ir_index r) + 1 < 2 ^ 64" "ri_range (ir_index r) + 1 < 2 ^ 32" "ri_offset (ir_index r) < max_offset" "max_offset < 2 ^ 64"
      "0 < max_bytes" "max_bytes \<le> 2 ^ 31"
  shows "\<exists>rs. scan_record_left_shift api (ri_stream_id (ir_index r)) (ri_range (ir_index r)) (ri_offset (ir_index r)) max_offset max_bytes (dr_indexer d)
    = Ok (Some (r # rs))"
proof -
  have start: "driver_ok all (dr_new db threshold)" using empty by (simp add: driver_ok_def dr_new_def index_wf_def metadata_wf_def)
  have wf: "index_wf (entries all (dr_indexer d))" using run_commands_ok [OF ok run typed start] by (simp add: driver_ok_def)
  obtain d1 where "run_commands api attempts cs (dr_new db threshold) = Some d1" "run_commands api attempts (Index r # cs') d1 = Some d"
    using run by (auto simp: run_commands_append bind_eq_Some_conv)
  then obtain d2 rep where c: "run_command api attempts (Index r) d1 = Some (Ok (d2, rep))" "run_commands api attempts cs' d2 = Some d"
    by (auto split: option.splits outcome.splits)
  have r: "record_ok r" "cmd_typed (Index r)" "\<forall>c \<in> set cs'. cmd_typed c" using typed by (simp_all add: cmd_typed_def)
  have "entry_of r \<in> set (entries all (dr_indexer d2))" using run_command_keeps [OF ok r(2) c(1)] by (simp add: adds_entry_def)
  then have "entry_of r \<in> set (entries all (dr_indexer d))" by (rule run_commands_keep_entry [OF ok c(2) r(3,1) last])
  then have "r \<in> set (records_of (entries all (dr_indexer d)))" by (rule entry_record [OF wf r(1)])
  then have mem: "r \<in> set (of_range (ri_stream_id (ir_index r)) (ri_range (ir_index r)) (entries all (dr_indexer d)))" by (simp add: of_range_def)
  have srt: "sorted_wrt bytes_less (map fst (entries all (dr_indexer d)))" using ok(1) by (simp add: rocks_ok_def)
  have o: "ri_offset (ir_index r) < 2 ^ 64" using b(3,4) by simp
  show ?thesis
    using scan_left_shift_eq [OF ok(1) up wf b(1,2) o b(4,6) refl] scan_finds [OF of_range_sorted [OF wf srt] mem b(3,5)] by (auto simp: Let_def)
qed

theorem indexed_record_found_witness:
  "\<exists>d rs. run_commands mem_rocks [mem_rocks] [Index sample_record, CreateRange (rm_new 1 0 0 5 None)] (dr_new [] 128) = Some d
     \<and> scan_record_left_shift mem_rocks 1 0 10 20 1 (dr_indexer d) = Ok (Some (sample_record # rs))"
proof -
  let ?m = "rm_new 1 0 0 5 None"
  have t: "range_typed ?m" by (simp add: range_typed_def rm_new_def rm_new_range_def fits_signed_def)
  obtain d where d: "run_commands mem_rocks [mem_rocks] ([] @ Index sample_record # [CreateRange ?m]) (dr_new [] 128) = Some d"
    by (simp add: run_command_def dr_new_def ix_index_def advance_wal_checkpoint_def mem_rocks_def on_db_def Let_def answer_range_def ix_add_def
        put_range_def put_indexer_def)
  have "\<exists>rs. scan_record_left_shift mem_rocks (ri_stream_id (ir_index sample_record)) (ri_range (ir_index sample_record)) (ri_offset (ir_index sample_record))
      20 1 (dr_indexer d) = Ok (Some (sample_record # rs))"
    by (rule indexed_record_found [OF mem_rocks_ok _ _ d mem_rocks_up])
      (use sample_record_ok t mem_rocks_ok in \<open>auto simp: cmd_typed_def mem_all_def sample_record_def\<close>)
  with d show ?thesis by (simp add: sample_record_def)
qed

end
