(* ===== verification/Metadata_Manager.thy ===== *)
theory Metadata_Manager
  imports Metadata BTree_Map
begin

text \<open>
  The metadata of a range server, \<open>src/range-server/src/metadata/\<close> (\<open>manager.rs\<close>, \<open>watcher.rs\<close>). The watcher
  hands the events of the placement driver to the workers; the manager of a worker keeps the streams
  and the ranges its server holds, and tells its listeners up to which offset the data of a range can
  be deleted. A channel is what its receiver was sent and whether the receiver is gone, and a sender
  is the number of its channel. The two tasks of the manager take turns in any order (\<open>mm_run\<close>).
\<close>

section \<open>Model\<close>

subsection \<open>Channels\<close>

record 'a channel =
  ch_closed :: bool
  ch_received :: "'a list"

type_synonym 'a channels = "nat \<Rightarrow> 'a channel"

definition ch_new :: "'a channel" where
  "ch_new = \<lparr>ch_closed = False, ch_received = []\<rparr>"

fun send_all :: "'a \<Rightarrow> nat list \<Rightarrow> 'a channels \<Rightarrow> bool \<times> 'a channels" where
  "send_all x [] cs = (False, cs)"
| "send_all x (tx # txs) cs =
     (if ch_closed (cs tx) then (True, snd (send_all x txs cs))
      else send_all x txs (cs(tx := (cs tx)\<lparr>ch_received := ch_received (cs tx) @ [x]\<rparr>)))"

definition notify_listeners :: "'a \<Rightarrow> nat list \<Rightarrow> 'a channels \<Rightarrow> bool \<times> nat list \<times> 'a channels" where
  "notify_listeners events listeners cs =
     (let (has_closed, cs) = send_all events listeners cs in
      if has_closed
      then let listeners = filter (\<lambda>tx. \<not> ch_closed (cs tx)) listeners in (listeners \<noteq> [], listeners, cs)
      else (True, listeners, cs))"

subsection \<open>The watcher\<close>

record metadata_watcher =
  mw_listeners :: "nat list"
  mw_channels :: "resource_event channels"
  mw_running :: bool

definition mw_new :: metadata_watcher where
  "mw_new = \<lparr>mw_listeners = [], mw_channels = (\<lambda>_. ch_new), mw_running = True\<rparr>"

definition mw_watch :: "metadata_watcher \<Rightarrow> metadata_watcher" where
  "mw_watch w = w\<lparr>mw_listeners := mw_listeners w @ [length (mw_listeners w)]\<rparr>"

text \<open>One round of the loop of \<open>start\<close>; \<open>None\<close> is the end of the events.\<close>

definition mw_event :: "resource_event option \<Rightarrow> metadata_watcher \<Rightarrow> metadata_watcher" where
  "mw_event e w =
     (case e of
        None \<Rightarrow> w\<lparr>mw_running := False\<rparr>
      | Some e \<Rightarrow>
          let (go, ls, cs) = notify_listeners e (mw_listeners w) (mw_channels w) in
          w\<lparr>mw_listeners := ls, mw_channels := cs, mw_running := go\<rparr>)"

subsection \<open>A stream\<close>

record md_stream =
  ms_stream_id :: u64
  ms_metadata :: "stream_metadata option"
  ms_ranges :: "(u32, range_metadata \<times> u64) btree"
  ms_offloaded :: "(u32, u64) btree"

definition ms_new :: "u64 \<Rightarrow> stream_metadata option \<Rightarrow> md_stream" where
  "ms_new stream_id m = \<lparr>ms_stream_id = stream_id, ms_metadata = m, ms_ranges = bt_empty, ms_offloaded = bt_empty\<rparr>"

definition stream_start_offset :: "md_stream \<Rightarrow> u64" where
  "stream_start_offset s = (case ms_metadata s of Some m \<Rightarrow> sm_start_offset m | None \<Rightarrow> 0)"

definition new_start_offset :: "u32 \<Rightarrow> md_stream \<Rightarrow> u64" where
  "new_start_offset i s =
     max (stream_start_offset s)
       (max (case bt_get i (ms_ranges s) of Some (m, _) \<Rightarrow> rm_start m | None \<Rightarrow> 0)
            (case bt_get i (ms_offloaded s) of Some off \<Rightarrow> off | None \<Rightarrow> 0))"

definition gen_event :: "u64 \<times> u32 \<Rightarrow> u64 option \<Rightarrow> u64 option \<Rightarrow> u64 \<Rightarrow> range_event" where
  "gen_event key range_end offloaded start_offset =
     (case (offloaded, range_end) of
        (Some a, Some b) \<Rightarrow> if a \<ge> b then Offloaded key else OffsetMove key start_offset
      | _ \<Rightarrow> OffsetMove key start_offset)"

definition ms_add :: "range_metadata \<Rightarrow> md_stream \<Rightarrow> md_stream \<times> range_event" where
  "ms_add m s =
     (let i = int_as_u32 (rm_index m); start_offset = max (new_start_offset i s) (rm_start m) in
      (s\<lparr>ms_ranges := bt_insert i (m, start_offset) (ms_ranges s)\<rparr>,
       gen_event (ms_stream_id s, i) (rm_end m) (bt_get i (ms_offloaded s)) start_offset))"

definition ms_del :: "range_metadata \<Rightarrow> md_stream \<Rightarrow> md_stream \<times> range_event" where
  "ms_del m s =
     (let i = int_as_u32 (rm_index m) in
      (s\<lparr>ms_ranges := bt_remove i (ms_ranges s), ms_offloaded := bt_remove i (ms_offloaded s)\<rparr>, Del (rm_stream_id m, i)))"

fun update_ranges :: "u32 list \<Rightarrow> md_stream \<Rightarrow> (unit, md_stream \<times> range_event list) outcome" where
  "update_ranges [] s = Ok (s, [])"
| "update_ranges (i # is) s =
     (let start_offset = new_start_offset i s in
      case bt_get i (ms_ranges s) of
        None \<Rightarrow> Panic
      | Some (m, last_start) \<Rightarrow>
          if start_offset \<noteq> last_start
          then fmap_ok (\<lambda>(s', es). (s', gen_event (ms_stream_id s, i) (rm_end m) (bt_get i (ms_offloaded s)) start_offset # es))
                 (update_ranges is (s\<lparr>ms_ranges := bt_insert i (m, start_offset) (ms_ranges s)\<rparr>))
          else update_ranges is s)"

definition update_stream :: "stream_metadata \<Rightarrow> md_stream \<Rightarrow> (unit, md_stream \<times> range_event list) outcome" where
  "update_stream m s = update_ranges (map fst (ms_ranges s)) (s\<lparr>ms_metadata := Some m\<rparr>)"

definition update_offloaded_offset :: "u32 \<Rightarrow> u64 \<Rightarrow> md_stream \<Rightarrow> md_stream \<times> range_event" where
  "update_offloaded_offset i off s =
     (let s = s\<lparr>ms_offloaded := bt_insert i off (ms_offloaded s)\<rparr>; start_offset = new_start_offset i s in
      case bt_get i (ms_ranges s) of
        Some (m, _) \<Rightarrow>
          (s\<lparr>ms_ranges := bt_insert i (m, start_offset) (ms_ranges s)\<rparr>,
           gen_event (ms_stream_id s, i) (rm_end m) (bt_get i (ms_offloaded s)) start_offset)
      | None \<Rightarrow> (s, gen_event (ms_stream_id s, i) None (bt_get i (ms_offloaded s)) start_offset))"

definition gen_destroy_events :: "md_stream \<Rightarrow> range_event list" where
  "gen_destroy_events s = map (\<lambda>(_, m, _). Del (rm_stream_id m, int_as_u32 (rm_index m))) (ms_ranges s)"

subsection \<open>The manager\<close>

type_synonym stream_map = "u64 \<rightharpoonup> md_stream"

definition announces :: "event_type \<Rightarrow> bool" where
  "announces t \<longleftrightarrow> t = Listed \<or> t = Added \<or> t = Modified"

definition handle_event :: "int \<Rightarrow> resource_event \<Rightarrow> stream_map \<Rightarrow> (unit, stream_map \<times> range_event list) outcome" where
  "handle_event server_id ev streams =
     (case ev_resource ev of
        ResourceStream m \<Rightarrow>
          let sid = sm_stream_id m in
          if announces (ev_type ev) then
            (case streams sid of
               Some s \<Rightarrow> fmap_ok (\<lambda>(s, es). (streams(sid \<mapsto> s), es)) (update_stream m s)
             | None \<Rightarrow> Ok (streams(sid \<mapsto> ms_new sid (Some m)), []))
          else if ev_type ev = Deleted then
            Ok (streams(sid := None), case streams sid of Some s \<Rightarrow> gen_destroy_events s | None \<Rightarrow> [])
          else Ok (streams, [])
      | ResourceRange m \<Rightarrow>
          if \<not> held_by m server_id then Ok (streams, [])
          else let sid = rm_stream_id m; s = (case streams sid of Some s \<Rightarrow> s | None \<Rightarrow> ms_new sid None) in
            if announces (ev_type ev) then let (s, e) = ms_add m s in Ok (streams(sid \<mapsto> s), [e])
            else if ev_type ev = Deleted then let (s, e) = ms_del m s in Ok (streams(sid \<mapsto> s), [e])
            else Ok (streams(sid \<mapsto> s), [])
      | _ \<Rightarrow> Ok (streams, []))"

fun progress_events :: "((u64 \<times> u32) \<times> u64) list \<Rightarrow> stream_map \<Rightarrow> stream_map \<times> range_event list" where
  "progress_events [] streams = (streams, [])"
| "progress_events (((sid, i), off) # ps) streams =
     (let s = (case streams sid of Some s \<Rightarrow> s | None \<Rightarrow> ms_new sid None);
          (s, e) = update_offloaded_offset i off s;
          (streams, es) = progress_events ps (streams(sid \<mapsto> s))
      in (streams, e # es))"

text \<open>
  The state of both tasks. Each task has its own copy of the listeners; observers are told every
  event. \<open>mm_started\<close> is when \<open>list_done_rx\<close> is answered or dropped, which starts the second task.
\<close>

record metadata_manager =
  mm_server_id :: int
  mm_metadata_rx :: bool
  mm_object_rx :: bool
  mm_streams :: stream_map
  mm_listeners :: "nat list"
  mm_observed :: "resource_event list"
  mm_channels :: "range_event list channels"
  mm_meta_listeners :: "nat list"
  mm_object_listeners :: "nat list"
  mm_buffer :: "range_event list"
  mm_list_done :: bool
  mm_running :: bool
  mm_started :: bool

definition mm_new :: "bool \<Rightarrow> int \<Rightarrow> metadata_manager" where
  "mm_new object_rx server_id =
     \<lparr>mm_server_id = server_id, mm_metadata_rx = True, mm_object_rx = object_rx, mm_streams = Map.empty, mm_listeners = [],
      mm_observed = [], mm_channels = (\<lambda>_. ch_new), mm_meta_listeners = [], mm_object_listeners = [], mm_buffer = [],
      mm_list_done = False, mm_running = False, mm_started = False\<rparr>"

definition mm_watch :: "metadata_manager \<Rightarrow> metadata_manager" where
  "mm_watch mm = mm\<lparr>mm_listeners := mm_listeners mm @ [length (mm_listeners mm)]\<rparr>"

definition mm_start :: "metadata_manager \<Rightarrow> (unit, metadata_manager) outcome" where
  "mm_start mm =
     (if mm_metadata_rx mm \<and> mm_object_rx mm
      then Ok (mm\<lparr>mm_metadata_rx := False, mm_object_rx := False, mm_meta_listeners := mm_listeners mm,
                  mm_object_listeners := mm_listeners mm, mm_running := True\<rparr>)
      else Panic)"

definition deliver_events :: "resource_event \<Rightarrow> metadata_manager \<Rightarrow> (unit, metadata_manager) outcome" where
  "deliver_events ev mm =
     fmap_ok (\<lambda>(streams, es).
       let mm = mm\<lparr>mm_streams := streams\<rparr> in
       if \<not> mm_list_done mm then mm\<lparr>mm_buffer := mm_buffer mm @ es\<rparr>
       else if es \<noteq> [] then
         let (go, ls, cs) = notify_listeners es (mm_meta_listeners mm) (mm_channels mm) in
         mm\<lparr>mm_meta_listeners := ls, mm_channels := cs, mm_running := go\<rparr>
       else mm) (handle_event (mm_server_id mm) ev (mm_streams mm))"

definition on_resource :: "resource_event \<Rightarrow> metadata_manager \<Rightarrow> (unit, metadata_manager) outcome" where
  "on_resource ev mm =
     (let mm = mm\<lparr>mm_observed := mm_observed mm @ [ev]\<rparr> in
      if ev_type ev = ListFinished then
        let (go, ls, cs) = notify_listeners (mm_buffer mm) (mm_meta_listeners mm) (mm_channels mm);
            mm = mm\<lparr>mm_meta_listeners := ls, mm_channels := cs, mm_list_done := True, mm_started := True, mm_running := go\<rparr> in
        if go then deliver_events ev (mm\<lparr>mm_buffer := []\<rparr>) else Ok mm
      else deliver_events ev mm)"

definition on_progress :: "((u64 \<times> u32) \<times> u64) list \<Rightarrow> metadata_manager \<Rightarrow> metadata_manager" where
  "on_progress ps mm =
     (let (streams, es) = progress_events ps (mm_streams mm); mm = mm\<lparr>mm_streams := streams\<rparr> in
      if es \<noteq> [] then
        let (_, ls, cs) = notify_listeners es (mm_object_listeners mm) (mm_channels mm) in
        mm\<lparr>mm_object_listeners := ls, mm_channels := cs\<rparr>
      else mm)"

subsection \<open>Runs\<close>

datatype md_input =
    ResourceIn resource_event
  | ProgressIn "((u64 \<times> u32) \<times> u64) list"
  | MetadataEnd
  | CloseIn nat

text \<open>
  A run of a manager with some listeners: the task of the metadata takes events until it ends, the
  task of the objects takes reports of progress once it is started, and receivers go away.
\<close>

inductive mm_run :: "int \<Rightarrow> nat \<Rightarrow> md_input list \<Rightarrow> metadata_manager \<Rightarrow> bool" for server_id listeners where
  start: "mm_start ((mm_watch ^^ listeners) (mm_new True server_id)) = Ok mm \<Longrightarrow> mm_run server_id listeners [] mm"
| resource: "mm_run server_id listeners h mm \<Longrightarrow> mm_running mm \<Longrightarrow> on_resource ev mm = Ok mm'
    \<Longrightarrow> mm_run server_id listeners (h @ [ResourceIn ev]) mm'"
| progress: "mm_run server_id listeners h mm \<Longrightarrow> mm_started mm
    \<Longrightarrow> mm_run server_id listeners (h @ [ProgressIn ps]) (on_progress ps mm)"
| metadata_end: "mm_run server_id listeners h mm \<Longrightarrow> mm_running mm
    \<Longrightarrow> mm_run server_id listeners (h @ [MetadataEnd]) (mm\<lparr>mm_running := False, mm_started := True\<rparr>)"
| close: "mm_run server_id listeners h mm
    \<Longrightarrow> mm_run server_id listeners (h @ [CloseIn c]) (mm\<lparr>mm_channels := (mm_channels mm)(c := (mm_channels mm c)\<lparr>ch_closed := True\<rparr>)\<rparr>)"

section \<open>Channels\<close>

lemma send_all_eq:
  "distinct txs \<Longrightarrow> send_all x txs cs =
     (list_ex (\<lambda>tx. ch_closed (cs tx)) txs,
      \<lambda>c. if c \<in> set txs \<and> \<not> ch_closed (cs c) then (cs c)\<lparr>ch_received := ch_received (cs c) @ [x]\<rparr> else cs c)"
proof (induction txs arbitrary: cs)
  case (Cons tx txs)
  have "list_ex (\<lambda>t. ch_closed ((cs(tx := c)) t)) txs = list_ex (\<lambda>t. ch_closed (cs t)) txs" for c
    using Cons(2) by (auto simp: list_ex_iff)
  with Cons show ?case by (auto simp: fun_eq_iff)
qed simp

text \<open>What telling the listeners does to the channels and to the senders that are kept.\<close>

lemma notify_listeners_spec:
  assumes "notify_listeners x txs cs = (go, txs', cs')" and "distinct txs"
  shows "distinct txs'" and "ch_closed (cs' c) = ch_closed (cs c)" and "\<not> ch_closed (cs c) \<Longrightarrow> c \<in> set txs' \<longleftrightarrow> c \<in> set txs"
    and "ch_received (cs' c) = ch_received (cs c) @ (if c \<in> set txs \<and> \<not> ch_closed (cs c) then [x] else [])"
    and "c \<in> set txs \<Longrightarrow> \<not> ch_closed (cs c) \<Longrightarrow> go"
  using assms by (auto simp: notify_listeners_def send_all_eq [OF assms(2)] filter_empty_conv split: if_splits)

section \<open>What a listener knows\<close>

fun about :: "range_event \<Rightarrow> u64 \<times> u32" where
  "about (OffsetMove k _) = k"
| "about (Offloaded k) = k"
| "about (Del k) = k"

definition last_about :: "u64 \<times> u32 \<Rightarrow> range_event list \<Rightarrow> range_event option" where
  "last_about k es = find (\<lambda>e. about e = k) (rev es)"

text \<open>The event that describes a range the manager holds.\<close>

definition status :: "md_stream \<Rightarrow> u32 \<Rightarrow> range_event option" where
  "status s i = map_option (\<lambda>(m, off). gen_event (ms_stream_id s, i) (rm_end m) (bt_get i (ms_offloaded s)) off) (bt_get i (ms_ranges s))"

definition tells :: "range_event list \<Rightarrow> stream_map \<Rightarrow> bool" where
  "tells es streams \<longleftrightarrow> (\<forall>sid s i e. streams sid = Some s \<longrightarrow> status s i = Some e \<longrightarrow> last_about (sid, i) es = Some e)"

definition keys_ok :: "u64 \<Rightarrow> (u32, range_metadata \<times> u64) btree \<Rightarrow> bool" where
  "keys_ok sid rs \<longleftrightarrow> (\<forall>i m off. bt_get i rs = Some (m, off) \<longrightarrow> (rm_stream_id m, int_as_u32 (rm_index m)) = (sid, i))"

definition stream_wf :: "u64 \<Rightarrow> md_stream \<Rightarrow> bool" where
  "stream_wf sid s \<longleftrightarrow> ms_stream_id s = sid \<and> bt_wf (ms_ranges s) \<and> bt_wf (ms_offloaded s)
     \<and> keys_ok sid (ms_ranges s)"

definition streams_wf :: "stream_map \<Rightarrow> bool" where
  "streams_wf streams \<longleftrightarrow> (\<forall>sid s. streams sid = Some s \<longrightarrow> stream_wf sid s)"

lemma keys_ok_insert:
  "bt_wf rs \<Longrightarrow> keys_ok sid rs \<Longrightarrow> (rm_stream_id m, int_as_u32 (rm_index m)) = (sid, i) \<Longrightarrow> keys_ok sid (bt_insert i (m, off) rs)"
  by (simp add: keys_ok_def bt_get_insert)

lemma keys_ok_remove: "keys_ok sid rs \<Longrightarrow> keys_ok sid (bt_remove i rs)"
  by (simp add: keys_ok_def bt_get_remove)

lemma keys_okD: "keys_ok sid rs \<Longrightarrow> bt_get i rs = Some (m, off) \<Longrightarrow> (rm_stream_id m, int_as_u32 (rm_index m)) = (sid, i)"
  unfolding keys_ok_def by blast

lemma about_gen_event [simp]: "about (gen_event k e off start_offset) = k"
  by (simp add: gen_event_def split: option.splits)

lemma last_about_Nil [simp]: "last_about k [] = None"
  by (simp add: last_about_def)

lemma last_about_snoc [simp]: "last_about k (es @ [e]) = (if about e = k then Some e else last_about k es)"
  by (simp add: last_about_def)

lemma stream_wf_new [simp]: "stream_wf sid (ms_new sid m)"
  by (simp add: stream_wf_def ms_new_def bt_empty_def bt_get_def keys_ok_def)

lemma status_new [simp]: "status (ms_new sid m) i = None"
  by (simp add: status_def ms_new_def bt_empty_def bt_get_def)

lemma status_metadata [simp]: "status (s\<lparr>ms_metadata := m\<rparr>) i = status s i"
  by (simp add: status_def)

text \<open>
  One stream: its part of \<open>tells\<close>, and that every operation keeps it. \<open>carries\<close> says that who was told
  the state before and is sent the events knows the state after.
\<close>

definition told :: "range_event list \<Rightarrow> u64 \<Rightarrow> md_stream \<Rightarrow> bool" where
  "told es sid s \<longleftrightarrow> (\<forall>i e. status s i = Some e \<longrightarrow> last_about (sid, i) es = Some e)"

definition carries :: "u64 \<Rightarrow> md_stream \<Rightarrow> range_event list \<Rightarrow> md_stream \<Rightarrow> bool" where
  "carries sid s es' s' \<longleftrightarrow> stream_wf sid s' \<and> (\<forall>es. told es sid s \<longrightarrow> told (es @ es') sid s') \<and> (\<forall>e \<in> set es'. fst (about e) = sid)"

lemma carriesI:
  assumes "stream_wf sid s'" and "\<And>es. told es sid s \<Longrightarrow> told (es @ es') sid s'" and "\<forall>e \<in> set es'. fst (about e) = sid"
  shows "carries sid s es' s'"
  using assms unfolding carries_def by blast

lemma carries_trans: "carries sid s es s' \<Longrightarrow> carries sid s' es' s'' \<Longrightarrow> carries sid s (es @ es') s''"
  unfolding carries_def by (auto simp flip: append_assoc)

lemma ms_add_carries:
  assumes "ms_add m s = (s', e)" and "stream_wf sid s" and "rm_stream_id m = sid"
  shows "carries sid s [e] s'"
  using assms
  by (intro carriesI) (auto simp: ms_add_def Let_def stream_wf_def told_def status_def bt_get_insert bt_wf_insert keys_ok_insert split: if_splits)

lemma bt_wf_remove: "bt_wf m \<Longrightarrow> bt_wf (bt_remove k m)"
  unfolding bt_remove_def by (rule bt_wf_filter)

lemma ms_del_carries:
  assumes "ms_del m s = (s', e)" and "stream_wf sid s" and "rm_stream_id m = sid"
  shows "carries sid s [e] s'"
  using assms
  by (intro carriesI) (auto simp: ms_del_def Let_def stream_wf_def told_def status_def bt_get_remove bt_wf_remove keys_ok_remove split: if_splits)

lemma update_offloaded_carries:
  assumes "update_offloaded_offset i off s = (s', e)" and "stream_wf sid s"
  shows "carries sid s [e] s'"
  using assms
  by (intro carriesI) (auto simp: update_offloaded_offset_def Let_def stream_wf_def told_def status_def bt_get_insert bt_wf_insert
      keys_ok_insert keys_okD split: option.splits if_splits)

lemma move_start_carries:
  assumes "stream_wf sid s" and "bt_get i (ms_ranges s) = Some (m, off)"
  shows "carries sid s [gen_event (ms_stream_id s, i) (rm_end m) (bt_get i (ms_offloaded s)) off']
           (s\<lparr>ms_ranges := bt_insert i (m, off') (ms_ranges s)\<rparr>)"
  using assms keys_okD [OF _ assms(2), of sid]
  by (intro carriesI) (auto simp: stream_wf_def told_def status_def bt_get_insert bt_wf_insert keys_ok_insert)

lemma update_ranges_carries:
  assumes "stream_wf sid s" and "set is \<subseteq> fst ` set (ms_ranges s)"
  shows "\<exists>s' es'. update_ranges is s = Ok (s', es') \<and> carries sid s es' s'"
  using assms
proof (induction "is" arbitrary: s)
  case Nil
  then show ?case by (simp add: carries_def)
next
  case (Cons i "is")
  obtain m off where m: "bt_get i (ms_ranges s) = Some (m, off)"
    using Cons(3) by (cases "bt_get i (ms_ranges s)") (auto simp: bt_get_None_iff)
  show ?case
  proof (cases "new_start_offset i s = off")
    case True
    then show ?thesis using Cons m by simp
  next
    case False
    let ?s = "s\<lparr>ms_ranges := bt_insert i (m, new_start_offset i s) (ms_ranges s)\<rparr>"
    note c = move_start_carries [OF Cons(2) m, of "new_start_offset i s"]
    have "stream_wf sid ?s" "set is \<subseteq> fst ` set (ms_ranges ?s)"
      using c Cons(3) by (auto simp: carries_def set_fst_bt_insert)
    from Cons(1) [OF this] obtain s' es' where u: "update_ranges is ?s = Ok (s', es')" "carries sid ?s es' s'" by blast
    then show ?thesis using carries_trans [OF c u(2)] False m by (simp add: Let_def)
  qed
qed

text \<open>All streams.\<close>

definition streams_carry :: "stream_map \<Rightarrow> range_event list \<Rightarrow> stream_map \<Rightarrow> bool" where
  "streams_carry streams es' streams' \<longleftrightarrow> streams_wf streams' \<and> (\<forall>es. tells es streams \<longrightarrow> tells (es @ es') streams')"

lemma last_about_append_other: "\<forall>e \<in> set es'. about e \<noteq> k \<Longrightarrow> last_about k (es @ es') = last_about k es"
  by (induction es' rule: rev_induct) (simp_all flip: append_assoc)

definition stream_at :: "stream_map \<Rightarrow> u64 \<Rightarrow> md_stream" where
  "stream_at streams sid = (case streams sid of Some s \<Rightarrow> s | None \<Rightarrow> ms_new sid None)"

lemma stream_at_wf: "streams_wf streams \<Longrightarrow> stream_wf sid (stream_at streams sid)"
  by (auto simp: stream_at_def streams_wf_def split: option.splits)

lemma stream_at_told: "tells es streams \<Longrightarrow> told es sid (stream_at streams sid)"
  by (auto simp: stream_at_def tells_def told_def split: option.splits)

lemma streams_carry_upd:
  assumes "streams_wf streams" and "carries sid (stream_at streams sid) es' s"
  shows "streams_carry streams es' (streams(sid \<mapsto> s))"
proof -
  have "last_about (sid', i) (es @ es') = last_about (sid', i) es" if "sid' \<noteq> sid" for sid' i es
    using assms(2) that by (intro last_about_append_other) (auto simp: carries_def)
  moreover have "told (es @ es') sid s" if "tells es streams" for es
    using assms(2) stream_at_told [OF that] by (simp add: carries_def)
  ultimately show ?thesis using assms by (auto simp: streams_carry_def streams_wf_def carries_def tells_def told_def)
qed

lemma streams_carry_trans: "streams_carry a es b \<Longrightarrow> streams_carry b es' c \<Longrightarrow> streams_carry a (es @ es') c"
  unfolding streams_carry_def by (auto simp flip: append_assoc)

lemma delete_stream_carries:
  assumes "streams_wf streams" and "streams sid = Some s"
  shows "streams_carry streams (gen_destroy_events s) (streams(sid := None))"
proof -
  have "stream_wf sid s" using assms by (simp add: streams_wf_def)
  then have "\<forall>e \<in> set (gen_destroy_events s). about e \<noteq> (sid', i)" if "sid' \<noteq> sid" for sid' i
    using that by (fastforce simp: gen_destroy_events_def stream_wf_def keys_ok_def bt_get_Some_iff)
  then have "last_about (sid', i) (es @ gen_destroy_events s) = last_about (sid', i) es" if "sid' \<noteq> sid" for sid' i es
    using that by (intro last_about_append_other) simp
  then show ?thesis using assms(1) by (auto simp: streams_carry_def streams_wf_def tells_def)
qed

lemma streams_carry_refl: "streams_wf streams \<Longrightarrow> streams_carry streams [] streams"
  by (simp add: streams_carry_def)

lemma stream_event_carries:
  assumes "ev_resource ev = ResourceStream m" and "streams_wf streams"
  shows "\<exists>streams' es'. handle_event server_id ev streams = Ok (streams', es') \<and> streams_carry streams es' streams'"
proof (cases "announces (ev_type ev)")
  case True
  let ?sid = "sm_stream_id m"
  show ?thesis
  proof (cases "streams ?sid")
    case None
    have "carries ?sid (stream_at streams ?sid) [] (ms_new ?sid (Some m))" by (simp add: carries_def told_def)
    from streams_carry_upd [OF assms(2) this] show ?thesis using True None assms(1) by (simp add: handle_event_def Let_def)
  next
    case (Some s)
    have "stream_wf ?sid (s\<lparr>ms_metadata := Some m\<rparr>)" using assms(2) Some by (simp add: streams_wf_def stream_wf_def)
    then obtain s' es' where u: "update_stream m s = Ok (s', es')" "carries ?sid (s\<lparr>ms_metadata := Some m\<rparr>) es' s'"
      using update_ranges_carries [of ?sid "s\<lparr>ms_metadata := Some m\<rparr>" "map fst (ms_ranges s)"] by (auto simp: update_stream_def)
    then have "carries ?sid (stream_at streams ?sid) es' s'" using Some by (simp add: carries_def told_def stream_at_def)
    from streams_carry_upd [OF assms(2) this] show ?thesis using True Some assms(1) u(1) by (simp add: handle_event_def Let_def)
  qed
next
  case False
  have "streams(sm_stream_id m := None) = streams" if "streams (sm_stream_id m) = None" using that by auto
  then show ?thesis using False assms(1) delete_stream_carries [OF assms(2)] streams_carry_refl [OF assms(2)]
    by (cases "streams (sm_stream_id m)") (simp_all add: handle_event_def Let_def)
qed

lemma range_event_carries:
  assumes "ev_resource ev = ResourceRange m" and "streams_wf streams"
  shows "\<exists>streams' es'. handle_event server_id ev streams = Ok (streams', es') \<and> streams_carry streams es' streams'"
proof -
  let ?sid = "rm_stream_id m" let ?s = "stream_at streams ?sid"
  note wf = stream_at_wf [OF assms(2), of ?sid] and upd = streams_carry_upd [OF assms(2)]
  have add: "streams_carry streams [e] (streams(?sid \<mapsto> s'))" if "ms_add m ?s = (s', e)" for s' e
    by (rule upd [OF ms_add_carries [OF that wf refl]])
  have del: "streams_carry streams [e] (streams(?sid \<mapsto> s'))" if "ms_del m ?s = (s', e)" for s' e
    by (rule upd [OF ms_del_carries [OF that wf refl]])
  have keep: "streams_carry streams [] (streams(?sid \<mapsto> ?s))" using wf by (intro upd) (simp add: carries_def)
  show ?thesis using assms(1) add del keep streams_carry_refl [OF assms(2)]
    by (cases "ms_add m ?s"; cases "ms_del m ?s") (simp add: handle_event_def Let_def stream_at_def [symmetric])
qed

lemma handle_event_carries:
  assumes "streams_wf streams"
  shows "\<exists>streams' es'. handle_event server_id ev streams = Ok (streams', es') \<and> streams_carry streams es' streams'"
proof (cases "ev_resource ev")
  case (ResourceStream m)
  then show ?thesis by (rule stream_event_carries [OF _ assms])
next
  case (ResourceRange m)
  then show ?thesis by (rule range_event_carries [OF _ assms])
qed (use streams_carry_refl [OF assms] in \<open>simp_all add: handle_event_def\<close>)

lemma progress_events_carries:
  "streams_wf streams \<Longrightarrow> progress_events ps streams = (streams', es') \<Longrightarrow> streams_carry streams es' streams'"
proof (induction ps arbitrary: streams es')
  case (Cons p ps)
  obtain sid i off where p: "p = ((sid, i), off)" by (cases p) auto
  obtain s e where u: "update_offloaded_offset i off (stream_at streams sid) = (s, e)" by fastforce
  obtain es1 where q: "progress_events ps (streams(sid \<mapsto> s)) = (streams', es1)" "es' = e # es1"
    using Cons(3) u unfolding p by (auto simp: stream_at_def [symmetric] split: prod.splits)
  have c: "streams_carry streams [e] (streams(sid \<mapsto> s))"
    by (rule streams_carry_upd [OF Cons(2) update_offloaded_carries [OF u stream_at_wf [OF Cons(2)]]])
  then have wf: "streams_wf (streams(sid \<mapsto> s))" unfolding streams_carry_def by blast
  from streams_carry_trans [OF c Cons(1) [OF wf q(1)]] show ?case using q(2) by simp
qed (simp add: streams_carry_refl)

section \<open>What a run keeps\<close>

text \<open>
  Before the list of the placement driver is complete, events wait in the buffer and the second task
  has not started; afterwards the buffer is empty. A receiver that is not gone is told by both tasks.
\<close>

definition listener_ok :: "metadata_manager \<Rightarrow> nat \<Rightarrow> bool" where
  "listener_ok mm c \<longleftrightarrow> c \<in> set (mm_meta_listeners mm) \<and> c \<in> set (mm_object_listeners mm)
     \<and> (mm_list_done mm \<longrightarrow> mm_buffer mm = [])
     \<and> (mm_list_done mm \<or> mm_running mm \<longrightarrow> tells (concat (ch_received (mm_channels mm c)) @ mm_buffer mm) (mm_streams mm))"

definition mm_inv :: "nat \<Rightarrow> metadata_manager \<Rightarrow> bool" where
  "mm_inv n mm \<longleftrightarrow> streams_wf (mm_streams mm) \<and> distinct (mm_meta_listeners mm) \<and> distinct (mm_object_listeners mm)
     \<and> (\<not> mm_list_done mm \<and> mm_running mm \<longrightarrow> \<not> mm_started mm \<and> (\<forall>c. ch_received (mm_channels mm c) = []))
     \<and> (\<forall>c < n. \<not> ch_closed (mm_channels mm c) \<longrightarrow> listener_ok mm c)"

lemma deliver_events_inv:
  assumes "mm_inv n mm" and "mm_running mm" and "deliver_events ev mm = Ok mm'"
  shows "mm_inv n mm'"
proof -
  have wf: "streams_wf (mm_streams mm)" using assms(1) by (simp add: mm_inv_def)
  obtain streams es where h: "handle_event (mm_server_id mm) ev (mm_streams mm) = Ok (streams, es)" and
    c: "streams_wf streams" "\<And>es0. tells es0 (mm_streams mm) \<Longrightarrow> tells (es0 @ es) streams"
    using handle_event_carries [OF wf] unfolding streams_carry_def by blast
  have d: "distinct (mm_meta_listeners mm)" using assms(1) by (simp add: mm_inv_def)
  show ?thesis
  proof (cases "mm_list_done mm \<and> es \<noteq> []")
    case True
    obtain go ls cs where n: "notify_listeners es (mm_meta_listeners mm) (mm_channels mm) = (go, ls, cs)" by (metis prod_cases3)
    note n' = notify_listeners_spec [OF n d]
    have mm': "mm' = mm\<lparr>mm_streams := streams, mm_meta_listeners := ls, mm_channels := cs, mm_running := go\<rparr>"
      using assms(3) True h n by (simp add: deliver_events_def)
    have "listener_ok mm' c" if "c < n" "\<not> ch_closed (cs c)" for c
    proof -
      have l: "listener_ok mm c" and o: "\<not> ch_closed (mm_channels mm c)" using assms(1) that n'(2) by (auto simp: mm_inv_def)
      then show ?thesis using True c(2) [of "concat (ch_received (mm_channels mm c))"] n'(3) [OF o] n'(4) [of c] unfolding mm'
        by (auto simp: listener_ok_def)
    qed
    then show ?thesis using assms(1) True c(1) n'(1) unfolding mm' by (simp add: mm_inv_def)
  next
    case False
    then have mm': "mm' = mm\<lparr>mm_streams := streams, mm_buffer := if mm_list_done mm then mm_buffer mm else mm_buffer mm @ es\<rparr>"
      using assms(3) h by (auto simp: deliver_events_def)
    have "listener_ok mm' c" if "listener_ok mm c" for c
      using that False assms(2) c(2) [of "concat (ch_received (mm_channels mm c)) @ mm_buffer mm"] unfolding mm' by (auto simp: listener_ok_def)
    then show ?thesis using assms(1) c(1) unfolding mm' by (simp add: mm_inv_def)
  qed
qed

lemma on_resource_inv:
  assumes "mm_inv n mm" and "mm_running mm" and "on_resource ev mm = Ok mm'"
  shows "mm_inv n mm'"
proof -
  let ?mm = "mm\<lparr>mm_observed := mm_observed mm @ [ev]\<rparr>"
  have i: "mm_inv n ?mm" using assms(1) by (auto simp: mm_inv_def listener_ok_def)
  show ?thesis
  proof (cases "ev_type ev = ListFinished")
    case False
    then show ?thesis using deliver_events_inv [OF i] assms(2,3) by (simp add: on_resource_def)
  next
    case True
    obtain go ls cs where n: "notify_listeners (mm_buffer mm) (mm_meta_listeners mm) (mm_channels mm) = (go, ls, cs)" by (metis prod_cases3)
    have d: "distinct (mm_meta_listeners mm)" using assms(1) by (simp add: mm_inv_def)
    note n' = notify_listeners_spec [OF n d]
    define b where "b = (if go then [] else mm_buffer mm)"
    let ?mm1 = "?mm\<lparr>mm_meta_listeners := ls, mm_channels := cs, mm_list_done := True, mm_started := True, mm_running := go, mm_buffer := b\<rparr>"
    have "listener_ok ?mm1 c" if "c < n" "\<not> ch_closed (cs c)" for c
    proof -
      have l: "listener_ok mm c" and o: "\<not> ch_closed (mm_channels mm c)" using assms(1) that n'(2) by (auto simp: mm_inv_def)
      then show ?thesis using n'(3) [OF o] n'(4) [of c] n'(5) [of c] assms(2) by (simp add: listener_ok_def b_def)
    qed
    then have "mm_inv n ?mm1" using assms(1) n'(1) by (simp add: mm_inv_def)
    moreover have "if go then deliver_events ev ?mm1 = Ok mm' else mm' = ?mm1"
      using assms(3) True n by (cases mm) (auto simp: on_resource_def b_def)
    ultimately show ?thesis using deliver_events_inv [of n ?mm1 ev mm'] by (auto split: if_splits)
  qed
qed

lemma on_progress_inv:
  assumes "mm_inv n mm" and "mm_started mm"
  shows "mm_inv n (on_progress ps mm)"
proof -
  have wf: "streams_wf (mm_streams mm)" and d: "distinct (mm_object_listeners mm)" using assms(1) by (auto simp: mm_inv_def)
  obtain streams es where p: "progress_events ps (mm_streams mm) = (streams, es)" by fastforce
  have c: "streams_wf streams" "\<And>es0. tells es0 (mm_streams mm) \<Longrightarrow> tells (es0 @ es) streams"
    using progress_events_carries [OF wf p] by (auto simp: streams_carry_def)
  obtain go ls cs where n: "notify_listeners es (mm_object_listeners mm) (mm_channels mm) = (go, ls, cs)" by (metis prod_cases3)
  note n' = notify_listeners_spec [OF n d]
  show ?thesis
  proof (cases "es = []")
    case True
    then show ?thesis using assms(1) c c(2) [unfolded True append_Nil2] by (auto simp: on_progress_def p mm_inv_def listener_ok_def)
  next
    case False
    let ?mm = "mm\<lparr>mm_streams := streams, mm_object_listeners := ls, mm_channels := cs\<rparr>"
    have u: "mm_list_done mm \<or> \<not> mm_running mm" using assms by (auto simp: mm_inv_def)
    have "listener_ok ?mm c" if "c < n" "\<not> ch_closed (cs c)" for c
    proof -
      have l: "listener_ok mm c" and o: "\<not> ch_closed (mm_channels mm c)" using assms(1) that n'(2) by (auto simp: mm_inv_def)
      then show ?thesis using u c(2) [of "concat (ch_received (mm_channels mm c))"] n'(3) [OF o] n'(4) [of c] by (auto simp: listener_ok_def)
    qed
    then have "mm_inv n ?mm" using assms(1) u c(1) n'(1) by (auto simp: mm_inv_def)
    then show ?thesis using False n by (simp add: on_progress_def p)
  qed
qed

lemma watch_listeners:
  "(mm_watch ^^ n) (mm_new b server_id) = (mm_new b server_id)\<lparr>mm_listeners := [0..<n]\<rparr>"
  by (induction n) (simp_all add: mm_watch_def mm_new_def)

lemma mm_run_inv: "mm_run server_id n h mm \<Longrightarrow> mm_inv n mm"
proof (induction rule: mm_run.induct)
  case (start mm)
  then show ?case unfolding watch_listeners
    by (auto simp: mm_start_def mm_new_def mm_inv_def listener_ok_def streams_wf_def tells_def ch_new_def)
next
  case (resource h mm ev mm')
  then show ?case by (intro on_resource_inv [of n mm ev mm'])
next
  case (progress h mm ps)
  then show ?case by (intro on_progress_inv)
next
  case (metadata_end h mm)
  then show ?case by (auto simp: mm_inv_def listener_ok_def)
next
  case (close h mm c)
  then show ?case by (auto simp: mm_inv_def listener_ok_def)
qed

text \<open>No event makes the task panic: the \<open>unwrap\<close> in \<open>update_stream\<close> always finds its range.\<close>

lemma on_resource_returns:
  assumes "mm_run server_id n h mm"
  shows "\<exists>mm'. on_resource ev mm = Ok mm'"
proof -
  have wf: "streams_wf (mm_streams mm)" using mm_run_inv [OF assms] by (simp add: mm_inv_def)
  obtain r where "handle_event (mm_server_id mm) ev (mm_streams mm) = Ok r" using handle_event_carries [OF wf] by blast
  then show ?thesis by (auto simp: on_resource_def deliver_events_def Let_def split: prod.split)
qed

section \<open>Why data may be deleted\<close>

definition known_stream :: "md_input list \<Rightarrow> u64 \<Rightarrow> stream_metadata \<Rightarrow> bool" where
  "known_stream h sid m \<longleftrightarrow> sm_stream_id m = sid \<and> (\<exists>t. announces t \<and> ResourceIn \<lparr>ev_type = t, ev_resource = ResourceStream m\<rparr> \<in> set h)"

definition known_range :: "md_input list \<Rightarrow> u64 \<times> u32 \<Rightarrow> range_metadata \<Rightarrow> bool" where
  "known_range h k m \<longleftrightarrow> (rm_stream_id m, int_as_u32 (rm_index m)) = k
     \<and> (\<exists>t. announces t \<and> ResourceIn \<lparr>ev_type = t, ev_resource = ResourceRange m\<rparr> \<in> set h)"

definition known_progress :: "md_input list \<Rightarrow> u64 \<times> u32 \<Rightarrow> u64 \<Rightarrow> bool" where
  "known_progress h k off \<longleftrightarrow> (\<exists>ps. ProgressIn ps \<in> set h \<and> (k, off) \<in> set ps)"

definition known_start :: "md_input list \<Rightarrow> u64 \<times> u32 \<Rightarrow> u64 \<Rightarrow> bool" where
  "known_start h k off \<longleftrightarrow> off = 0 \<or> (\<exists>m. known_stream h (fst k) m \<and> sm_start_offset m = off)
     \<or> (\<exists>m. known_range h k m \<and> rm_start m = off) \<or> known_progress h k off"

fun justified :: "md_input list \<Rightarrow> range_event \<Rightarrow> bool" where
  "justified h (OffsetMove k off) = known_start h k off"
| "justified h (Offloaded k) = (\<exists>m e off. known_range h k m \<and> rm_end m = Some e \<and> known_progress h k off \<and> e \<le> off)"
| "justified h (Del k) =
     ((\<exists>m. ResourceIn \<lparr>ev_type = Deleted, ev_resource = ResourceRange m\<rparr> \<in> set h \<and> (rm_stream_id m, int_as_u32 (rm_index m)) = k)
      \<or> (\<exists>m. ResourceIn \<lparr>ev_type = Deleted, ev_resource = ResourceStream m\<rparr> \<in> set h \<and> sm_stream_id m = fst k))"

definition facts :: "md_input list \<Rightarrow> u64 \<Rightarrow> md_stream \<Rightarrow> bool" where
  "facts h sid s \<longleftrightarrow> stream_wf sid s \<and> (\<forall>m. ms_metadata s = Some m \<longrightarrow> known_stream h sid m)
     \<and> (\<forall>i m off. bt_get i (ms_ranges s) = Some (m, off) \<longrightarrow> known_range h (sid, i) m)
     \<and> (\<forall>i off. bt_get i (ms_offloaded s) = Some off \<longrightarrow> known_progress h (sid, i) off)"

lemmas known_defs = known_stream_def known_range_def known_progress_def

lemma known_mono:
  assumes "set h \<subseteq> set h'"
  shows "known_stream h sid m \<Longrightarrow> known_stream h' sid m" and "known_range h k r \<Longrightarrow> known_range h' k r"
    and "known_progress h k off \<Longrightarrow> known_progress h' k off"
  using assms unfolding known_defs by blast+

lemma justified_mono: "set h \<subseteq> set h' \<Longrightarrow> justified h e \<Longrightarrow> justified h' e"
proof (cases e)
  case (Del k)
  assume "set h \<subseteq> set h'" "justified h e"
  then show ?thesis unfolding Del justified.simps by blast
qed (auto simp: known_start_def dest: known_mono)

lemma facts_mono: "set h \<subseteq> set h' \<Longrightarrow> facts h sid s \<Longrightarrow> facts h' sid s"
  unfolding facts_def using known_mono by blast

lemma facts_new: "(\<And>m. md = Some m \<Longrightarrow> known_stream h sid m) \<Longrightarrow> facts h sid (ms_new sid md)"
  unfolding facts_def by (simp add: ms_new_def bt_empty_def bt_get_def stream_wf_def keys_ok_def)

lemma known_start_max: "known_start h k a \<Longrightarrow> known_start h k b \<Longrightarrow> known_start h k (max a b)"
  by (simp add: max_def)

lemma new_start_known: "facts h sid s \<Longrightarrow> known_start h (sid, i) (new_start_offset i s)"
  unfolding new_start_offset_def
  by (intro known_start_max) (fastforce simp: facts_def known_start_def stream_start_offset_def split: option.splits)+

lemma gen_event_justified:
  assumes "known_start h k start_offset" and "\<And>e. re = Some e \<Longrightarrow> \<exists>m. known_range h k m \<and> rm_end m = Some e"
    and "\<And>off. ol = Some off \<Longrightarrow> known_progress h k off"
  shows "justified h (gen_event k re ol start_offset)"
  using assms by (fastforce simp: gen_event_def split: option.splits)

lemma set_range_facts:
  assumes "facts h sid s" and "known_range h (sid, i) m"
  shows "facts h sid (s\<lparr>ms_ranges := bt_insert i (m, off) (ms_ranges s)\<rparr>)"
    and "known_start h (sid, i) off \<Longrightarrow> justified h (gen_event (ms_stream_id s, i) (rm_end m) (bt_get i (ms_offloaded s)) off)"
proof -
  have wf: "bt_wf (ms_ranges s)" "ms_stream_id s = sid" using assms(1) by (simp_all add: facts_def stream_wf_def)
  have "stream_wf sid (s\<lparr>ms_ranges := bt_insert i (m, off) (ms_ranges s)\<rparr>)"
    using assms by (simp add: facts_def stream_wf_def bt_wf_insert keys_ok_insert known_range_def)
  then show "facts h sid (s\<lparr>ms_ranges := bt_insert i (m, off) (ms_ranges s)\<rparr>)"
    using assms unfolding facts_def by (simp add: bt_get_insert [OF wf(1)])
  show "justified h (gen_event (ms_stream_id s, i) (rm_end m) (bt_get i (ms_offloaded s)) off)" if "known_start h (sid, i) off"
    using that assms unfolding wf(2) by (intro gen_event_justified) (auto simp: facts_def)
qed

lemma ms_add_facts:
  assumes "facts h sid s" and "known_range h (sid, i) m" and "ms_add m s = (s', e)"
  shows "facts h sid s' \<and> justified h e"
proof -
  have i: "int_as_u32 (rm_index m) = i" using assms(2) by (simp add: known_range_def)
  have "known_start h (sid, i) (max (new_start_offset i s) (rm_start m))"
    using assms(2) by (intro known_start_max new_start_known [OF assms(1)]) (auto simp: known_start_def)
  then show ?thesis using assms(3) set_range_facts [OF assms(1,2)] by (auto simp: ms_add_def Let_def i)
qed

lemma update_ranges_facts:
  "facts h sid s \<Longrightarrow> update_ranges is s = Ok (s', es) \<Longrightarrow> facts h sid s' \<and> (\<forall>e \<in> set es. justified h e)"
proof (induction "is" arbitrary: s es)
  case (Cons i "is")
  obtain m off where m: "bt_get i (ms_ranges s) = Some (m, off)" using Cons(3) by (auto simp: Let_def split: option.splits)
  have k: "known_range h (sid, i) m" using Cons(2) m by (simp add: facts_def)
  note f = set_range_facts [OF Cons(2) k, of "new_start_offset i s"]
  show ?case using Cons(1) [OF f(1)] Cons(1) [OF Cons(2)] f(2) [OF new_start_known [OF Cons(2)]] Cons(3) m
    by (auto simp: Let_def fmap_ok_eq_Ok split: if_splits)
qed simp

lemma update_offloaded_facts:
  assumes "facts h sid s" and "known_progress h (sid, i) off" and "update_offloaded_offset i off s = (s', e)"
  shows "facts h sid s' \<and> justified h e"
proof -
  let ?s = "s\<lparr>ms_offloaded := bt_insert i off (ms_offloaded s)\<rparr>"
  have f: "facts h sid ?s" using assms(1,2) by (auto simp: facts_def stream_wf_def bt_wf_insert bt_get_insert)
  have id: "ms_stream_id s = sid" using assms(1) by (simp add: facts_def stream_wf_def)
  show ?thesis
  proof (cases "bt_get i (ms_ranges s)")
    case None
    have "justified h (gen_event (sid, i) None (bt_get i (ms_offloaded ?s)) (new_start_offset i ?s))"
      by (intro gen_event_justified new_start_known [OF f]) (use f in \<open>auto simp: facts_def\<close>)
    then show ?thesis using assms(3) None f id by (auto simp: update_offloaded_offset_def Let_def)
  next
    case (Some mo)
    obtain m off0 where mo: "mo = (m, off0)" by fastforce
    have "known_range h (sid, i) m" using assms(1) Some unfolding mo by (simp add: facts_def)
    from set_range_facts [OF f this, of "new_start_offset i ?s"] new_start_known [OF f, of i]
    show ?thesis using assms(3) Some unfolding mo by (auto simp: update_offloaded_offset_def Let_def)
  qed
qed

definition all_facts :: "md_input list \<Rightarrow> stream_map \<Rightarrow> bool" where
  "all_facts h streams \<longleftrightarrow> (\<forall>sid s. streams sid = Some s \<longrightarrow> facts h sid s)"

lemma all_facts_mono: "set h \<subseteq> set h' \<Longrightarrow> all_facts h streams \<Longrightarrow> all_facts h' streams"
  unfolding all_facts_def using facts_mono by blast

lemma all_facts_upd: "all_facts h streams \<Longrightarrow> facts h sid s \<Longrightarrow> all_facts h (streams(sid \<mapsto> s))"
  by (simp add: all_facts_def)

lemma stream_at_facts: "all_facts h streams \<Longrightarrow> facts h sid (stream_at streams sid)"
  using facts_new [of None h sid] by (auto simp: all_facts_def stream_at_def split: option.splits)

lemma destroy_justified:
  assumes "facts h sid s" and "ResourceIn \<lparr>ev_type = Deleted, ev_resource = ResourceStream m\<rparr> \<in> set h" and "sm_stream_id m = sid"
  shows "\<forall>e \<in> set (gen_destroy_events s). justified h e"
proof -
  have wf: "bt_wf (ms_ranges s)" and k: "keys_ok sid (ms_ranges s)" using assms(1) by (simp_all add: facts_def stream_wf_def)
  have "justified h (Del (rm_stream_id r, int_as_u32 (rm_index r)))" if "(i, r, off) \<in> set (ms_ranges s)" for i r off
  proof -
    have "rm_stream_id r = sid" using keys_okD [OF k, of i r off] that bt_get_Some_iff [OF wf] by simp
    then show ?thesis using assms(2,3) by auto
  qed
  then show ?thesis by (auto simp: gen_destroy_events_def)
qed

lemma stream_event_facts:
  assumes "ev_resource ev = ResourceStream m" and "ResourceIn ev \<in> set h" and "all_facts h streams"
    and "handle_event server_id ev streams = Ok (streams', es)"
  shows "all_facts h streams' \<and> (\<forall>e \<in> set es. justified h e)"
proof -
  have ev: "ev = \<lparr>ev_type = ev_type ev, ev_resource = ResourceStream m\<rparr>" using assms(1) by simp
  have k: "known_stream h (sm_stream_id m) m" if "announces (ev_type ev)"
    using that assms(2) ev unfolding known_stream_def by auto
  consider (new) "announces (ev_type ev)" "streams (sm_stream_id m) = None" | (upd) s where "announces (ev_type ev)" "streams (sm_stream_id m) = Some s"
    | (del) "\<not> announces (ev_type ev)" "ev_type ev = Deleted" | (other) "\<not> announces (ev_type ev)" "ev_type ev \<noteq> Deleted" by blast
  then show ?thesis
  proof cases
    case new
    then show ?thesis using assms(1,3,4) facts_new [of "Some m" h "sm_stream_id m"] k by (auto simp: handle_event_def Let_def intro: all_facts_upd)
  next
    case upd
    obtain s' where u: "update_stream m s = Ok (s', es)" "streams' = streams(sm_stream_id m \<mapsto> s')"
      using assms(1,4) upd by (auto simp: handle_event_def Let_def fmap_ok_eq_Ok)
    have "facts h (sm_stream_id m) (s\<lparr>ms_metadata := Some m\<rparr>)" using assms(3) upd k by (simp add: all_facts_def facts_def stream_wf_def)
    from update_ranges_facts [OF this u(1) [unfolded update_stream_def]] show ?thesis using u(2) all_facts_upd [OF assms(3)] by blast
  next
    case del
    have d: "ResourceIn \<lparr>ev_type = Deleted, ev_resource = ResourceStream m\<rparr> \<in> set h" using assms(2) ev del(2) by simp
    show ?thesis using assms(1,3,4) del destroy_justified [OF _ d refl] by (auto simp: handle_event_def Let_def all_facts_def split: option.splits if_splits)
  next
    case other
    then show ?thesis using assms(1,3,4) by (simp add: handle_event_def Let_def)
  qed
qed

lemma range_event_facts:
  assumes "ev_resource ev = ResourceRange m" and "ResourceIn ev \<in> set h" and "all_facts h streams"
    and "handle_event server_id ev streams = Ok (streams', es)"
  shows "all_facts h streams' \<and> (\<forall>e \<in> set es. justified h e)"
proof -
  let ?sid = "rm_stream_id m" let ?s = "stream_at streams ?sid" let ?i = "int_as_u32 (rm_index m)"
  have ev: "ev = \<lparr>ev_type = ev_type ev, ev_resource = ResourceRange m\<rparr>" using assms(1) by simp
  note f = stream_at_facts [OF assms(3), of ?sid]
  have add: "facts h ?sid s' \<and> justified h e" if "announces (ev_type ev)" "ms_add m ?s = (s', e)" for s' e
    by (rule ms_add_facts [OF f _ that(2), of ?i]) (use that(1) assms(2) ev in \<open>auto simp: known_range_def\<close>)
  have del: "facts h ?sid s' \<and> justified h e" if "ev_type ev = Deleted" "ms_del m ?s = (s', e)" for s' e
  proof -
    have "ResourceIn \<lparr>ev_type = Deleted, ev_resource = ResourceRange m\<rparr> \<in> set h" using assms(2) ev that(1) by simp
    then show ?thesis using that(2) f
      by (auto simp: ms_del_def Let_def facts_def stream_wf_def bt_wf_remove keys_ok_remove bt_get_remove split: if_splits)
  qed
  have h: "handle_event server_id ev streams =
      (if \<not> held_by m server_id then Ok (streams, [])
       else if announces (ev_type ev) then let (s, e) = ms_add m ?s in Ok (streams(?sid \<mapsto> s), [e])
       else if ev_type ev = Deleted then let (s, e) = ms_del m ?s in Ok (streams(?sid \<mapsto> s), [e])
       else Ok (streams(?sid \<mapsto> ?s), []))"
    using assms(1) by (simp add: handle_event_def Let_def stream_at_def)
  show ?thesis using assms(3,4) add del f unfolding h
    by (cases "ms_add m ?s"; cases "ms_del m ?s") (auto intro: all_facts_upd split: if_splits)
qed

lemma handle_event_facts:
  assumes "ResourceIn ev \<in> set h" and "all_facts h streams" and "handle_event server_id ev streams = Ok (streams', es)"
  shows "all_facts h streams' \<and> (\<forall>e \<in> set es. justified h e)"
proof (cases "ev_resource ev")
  case (ResourceStream m)
  then show ?thesis by (rule stream_event_facts [OF _ assms])
next
  case (ResourceRange m)
  then show ?thesis by (rule range_event_facts [OF _ assms])
qed (use assms(2,3) in \<open>auto simp: handle_event_def\<close>)

lemma progress_events_facts:
  "all_facts h streams \<Longrightarrow> \<forall>(k, off) \<in> set ps. known_progress h k off \<Longrightarrow> progress_events ps streams = (streams', es)
    \<Longrightarrow> all_facts h streams' \<and> (\<forall>e \<in> set es. justified h e)"
proof (induction ps arbitrary: streams es)
  case (Cons p ps)
  obtain sid i off where p: "p = ((sid, i), off)" by (cases p) auto
  obtain s e where u: "update_offloaded_offset i off (stream_at streams sid) = (s, e)" by fastforce
  obtain es1 where q: "progress_events ps (streams(sid \<mapsto> s)) = (streams', es1)" "es = e # es1"
    using Cons(4) u unfolding p by (auto simp: stream_at_def [symmetric] split: prod.splits)
  have f: "facts h sid s \<and> justified h e"
    using update_offloaded_facts [OF stream_at_facts [OF Cons(2)] _ u] Cons(3) by (simp add: p)
  then show ?case using Cons(1) [OF all_facts_upd [OF Cons(2)] _ q(1)] Cons(3) q(2) by simp
qed simp

definition sent_ok :: "md_input list \<Rightarrow> metadata_manager \<Rightarrow> bool" where
  "sent_ok h mm \<longleftrightarrow> all_facts h (mm_streams mm) \<and> (\<forall>e \<in> set (mm_buffer mm). justified h e)
     \<and> (\<forall>c. \<forall>b \<in> set (ch_received (mm_channels mm c)). \<forall>e \<in> set b. justified h e)"

lemma sent_ok_mono: "set h \<subseteq> set h' \<Longrightarrow> sent_ok h mm \<Longrightarrow> sent_ok h' mm"
  unfolding sent_ok_def using all_facts_mono justified_mono by blast

lemma notify_sent:
  assumes "notify_listeners x txs cs = (go, txs', cs')" and "distinct txs" and "\<forall>e \<in> set x. justified h e"
    and "\<forall>c. \<forall>b \<in> set (ch_received (cs c)). \<forall>e \<in> set b. justified h e"
  shows "\<forall>c. \<forall>b \<in> set (ch_received (cs' c)). \<forall>e \<in> set b. justified h e"
proof (intro allI ballI)
  fix c b e assume b: "b \<in> set (ch_received (cs' c))" and e: "e \<in> set b"
  have "b \<in> set (ch_received (cs c)) \<or> b = x"
    using b notify_listeners_spec(4) [OF assms(1,2), of c]
    by (cases "c \<in> set txs \<and> \<not> ch_closed (cs c)") auto
  then show "justified h e" using assms(3,4) e by blast
qed

lemma deliver_events_sent:
  assumes "sent_ok h mm" and "ResourceIn ev \<in> set h" and "distinct (mm_meta_listeners mm)" and "deliver_events ev mm = Ok mm'"
  shows "sent_ok h mm'"
proof -
  obtain streams es where e: "handle_event (mm_server_id mm) ev (mm_streams mm) = Ok (streams, es)"
    using assms(4) by (auto simp: deliver_events_def fmap_ok_eq_Ok)
  have f: "all_facts h streams" "\<forall>e \<in> set es. justified h e"
    using handle_event_facts [OF assms(2) _ e] assms(1) by (auto simp: sent_ok_def)
  obtain go ls cs where n: "notify_listeners es (mm_meta_listeners mm) (mm_channels mm) = (go, ls, cs)" by (metis prod_cases3)
  have "\<forall>c. \<forall>b \<in> set (ch_received (cs c)). \<forall>e \<in> set b. justified h e"
    using notify_sent [OF n assms(3) f(2)] assms(1) by (simp add: sent_ok_def)
  then show ?thesis using assms(1,4) f e n by (auto simp: deliver_events_def sent_ok_def Let_def split: if_splits)
qed

lemma on_resource_sent:
  assumes "sent_ok h mm" and "ResourceIn ev \<in> set h" and "distinct (mm_meta_listeners mm)" and "on_resource ev mm = Ok mm'"
  shows "sent_ok h mm'"
proof -
  obtain go ls cs where n: "notify_listeners (mm_buffer mm) (mm_meta_listeners mm) (mm_channels mm) = (go, ls, cs)" by (metis prod_cases3)
  have cs: "\<forall>c. \<forall>b \<in> set (ch_received (cs c)). \<forall>e \<in> set b. justified h e"
    using notify_sent [OF n assms(3)] assms(1) by (simp add: sent_ok_def)
  have ls: "distinct ls" using notify_listeners_spec(1) [OF n assms(3)] .
  let ?mm = "mm\<lparr>mm_observed := mm_observed mm @ [ev]\<rparr>"
  let ?m1 = "?mm\<lparr>mm_meta_listeners := ls, mm_channels := cs, mm_list_done := True, mm_started := True, mm_running := go\<rparr>"
  have k: "sent_ok h ?mm" "sent_ok h ?m1" "sent_ok h (?m1\<lparr>mm_buffer := []\<rparr>)" using assms(1) cs by (simp_all add: sent_ok_def)
  show ?thesis using assms(3,4) n k ls deliver_events_sent [OF k(1) assms(2)] deliver_events_sent [OF k(3) assms(2)]
    by (auto simp: on_resource_def Let_def split: if_splits)
qed

lemma on_progress_sent:
  assumes "sent_ok h mm" and "ProgressIn ps \<in> set h" and "distinct (mm_object_listeners mm)"
  shows "sent_ok h (on_progress ps mm)"
proof -
  obtain streams es where p: "progress_events ps (mm_streams mm) = (streams, es)" by fastforce
  have f: "all_facts h streams" "\<forall>e \<in> set es. justified h e"
    using progress_events_facts [OF _ _ p, of h] assms(1,2) by (auto simp: sent_ok_def known_progress_def)
  obtain go ls cs where n: "notify_listeners es (mm_object_listeners mm) (mm_channels mm) = (go, ls, cs)" by (metis prod_cases3)
  have "\<forall>c. \<forall>b \<in> set (ch_received (cs c)). \<forall>e \<in> set b. justified h e"
    using notify_sent [OF n assms(3) f(2)] assms(1) by (simp add: sent_ok_def)
  then show ?thesis using assms(1) f p n by (auto simp: on_progress_def sent_ok_def Let_def)
qed

lemma mm_run_sent: "mm_run server_id n h mm \<Longrightarrow> sent_ok h mm"
proof (induction rule: mm_run.induct)
  case (start mm)
  then show ?case unfolding watch_listeners by (auto simp: mm_start_def mm_new_def sent_ok_def all_facts_def ch_new_def)
next
  case (resource h mm ev mm')
  have "distinct (mm_meta_listeners mm)" using mm_run_inv [OF resource(1)] by (simp add: mm_inv_def)
  then show ?case by (intro on_resource_sent [OF sent_ok_mono [OF _ resource(4)] _ _ resource(3)]) auto
next
  case (progress h mm ps)
  have "distinct (mm_object_listeners mm)" using mm_run_inv [OF progress(1)] by (simp add: mm_inv_def)
  then show ?case by (intro on_progress_sent [OF sent_ok_mono [OF _ progress(3)]]) auto
next
  case (metadata_end h mm)
  have "sent_ok (h @ [MetadataEnd]) mm" by (rule sent_ok_mono [OF _ metadata_end(3)]) auto
  then show ?case by (simp add: sent_ok_def)
next
  case (close h mm c)
  have "sent_ok (h @ [CloseIn c]) mm" by (rule sent_ok_mono [OF _ close(2)]) auto
  then show ?case by (simp add: sent_ok_def)
qed

section \<open>The offset kept for a range\<close>

definition fresh_at :: "md_stream \<Rightarrow> u32 \<Rightarrow> bool" where
  "fresh_at s i \<longleftrightarrow> (\<forall>m off. bt_get i (ms_ranges s) = Some (m, off) \<longrightarrow> new_start_offset i s \<le> off)"

definition fresh :: "stream_map \<Rightarrow> bool" where
  "fresh streams \<longleftrightarrow> (\<forall>sid s i. streams sid = Some s \<longrightarrow> fresh_at s i)"

lemma fresh_at_new [simp]: "fresh_at (ms_new sid m) i"
  by (simp add: fresh_at_def ms_new_def bt_empty_def bt_get_def)

lemma stream_start_offset_upd [simp]:
  "stream_start_offset (s\<lparr>ms_ranges := rs\<rparr>) = stream_start_offset s" "stream_start_offset (s\<lparr>ms_offloaded := os\<rparr>) = stream_start_offset s"
  by (simp_all add: stream_start_offset_def)

lemma new_start_insert:
  "bt_wf (ms_ranges s) \<Longrightarrow> new_start_offset j (s\<lparr>ms_ranges := bt_insert i (m, off) (ms_ranges s)\<rparr>) =
     (if j = i then max (stream_start_offset s) (max (rm_start m) (case bt_get i (ms_offloaded s) of Some off \<Rightarrow> off | None \<Rightarrow> 0))
      else new_start_offset j s)"
  by (simp add: new_start_offset_def bt_get_insert)

lemma ms_add_fresh:
  assumes "stream_wf sid s" and "\<forall>i. fresh_at s i" and "ms_add m s = (s', e)"
  shows "fresh_at s' j"
proof -
  let ?i = "int_as_u32 (rm_index m)" let ?off = "max (new_start_offset ?i s) (rm_start m)"
  have wf: "bt_wf (ms_ranges s)" using assms(1) by (simp add: stream_wf_def)
  have s': "s' = s\<lparr>ms_ranges := bt_insert ?i (m, ?off) (ms_ranges s)\<rparr>" using assms(3) by (simp add: ms_add_def Let_def)
  have le: "stream_start_offset s \<le> ?off" "(case bt_get ?i (ms_offloaded s) of Some off \<Rightarrow> off | None \<Rightarrow> 0) \<le> ?off"
    by (simp_all add: new_start_offset_def)
  show ?thesis
  proof (cases "j = ?i")
    case True
    have "new_start_offset ?i s' \<le> ?off" unfolding s' new_start_insert [OF wf] using le by simp
    then show ?thesis using True s' by (simp add: fresh_at_def bt_get_insert [OF wf])
  next
    case False
    then show ?thesis using assms(2) s' by (simp add: fresh_at_def bt_get_insert [OF wf] new_start_insert [OF wf])
  qed
qed

lemma ms_del_fresh: "\<forall>i. fresh_at s i \<Longrightarrow> ms_del m s = (s', e) \<Longrightarrow> fresh_at s' j"
proof -
  assume f: "\<forall>i. fresh_at s i" and d: "ms_del m s = (s', e)"
  let ?i = "int_as_u32 (rm_index m)"
  have "new_start_offset j s' = new_start_offset j s" "bt_get j (ms_ranges s') = bt_get j (ms_ranges s)" if "j \<noteq> ?i"
    using d that by (auto simp: ms_del_def Let_def new_start_offset_def bt_get_remove)
  moreover have "bt_get ?i (ms_ranges s') = None" using d by (auto simp: ms_del_def Let_def bt_get_remove)
  ultimately show "fresh_at s' j" using f by (cases "j = ?i") (simp_all add: fresh_at_def)
qed

lemma move_start_fresh:
  assumes "stream_wf sid s" and "bt_get i (ms_ranges s) = Some (m, off)"
  shows "fresh_at (s\<lparr>ms_ranges := bt_insert i (m, new_start_offset i s) (ms_ranges s)\<rparr>) j \<longleftrightarrow> j = i \<or> fresh_at s j"
  using assms by (auto simp: fresh_at_def new_start_insert stream_wf_def bt_get_insert new_start_offset_def)

lemma update_ranges_fresh:
  "stream_wf sid s \<Longrightarrow> update_ranges is s = Ok (s', es) \<Longrightarrow> \<forall>i. i \<notin> set is \<longrightarrow> fresh_at s i \<Longrightarrow> fresh_at s' j"
proof (induction "is" arbitrary: s es)
  case (Cons i "is")
  obtain m off where m: "bt_get i (ms_ranges s) = Some (m, off)" using Cons(3) by (auto simp: Let_def split: option.splits)
  show ?case
  proof (cases "new_start_offset i s = off")
    case True
    then have "fresh_at s i" using m by (simp add: fresh_at_def)
    then have "\<forall>k. k \<notin> set is \<longrightarrow> fresh_at s k" using Cons(4) by auto
    then show ?thesis using Cons(1) [OF Cons(2)] Cons(3) True m by (simp add: Let_def)
  next
    case False
    let ?s = "s\<lparr>ms_ranges := bt_insert i (m, new_start_offset i s) (ms_ranges s)\<rparr>"
    have "stream_wf sid ?s" using move_start_carries [OF Cons(2) m] by (simp add: carries_def)
    moreover have "\<forall>k. k \<notin> set is \<longrightarrow> fresh_at ?s k" using move_start_fresh [OF Cons(2) m] Cons(4) by auto
    ultimately show ?thesis using Cons(1) [of ?s] Cons(3) False m by (auto simp: Let_def fmap_ok_eq_Ok)
  qed
qed simp

lemma update_offloaded_fresh:
  assumes "stream_wf sid s" and "\<forall>i. fresh_at s i" and "update_offloaded_offset i off s = (s', e)"
  shows "fresh_at s' j"
proof -
  let ?s = "s\<lparr>ms_offloaded := bt_insert i off (ms_offloaded s)\<rparr>"
  have wf: "stream_wf sid ?s" using assms(1) by (simp add: stream_wf_def bt_wf_insert)
  have other: "fresh_at ?s k" if "k \<noteq> i \<or> bt_get i (ms_ranges s) = None" for k
    using assms(1,2) that by (auto simp: fresh_at_def new_start_offset_def stream_wf_def bt_get_insert split: option.splits)
  show ?thesis
  proof (cases "bt_get i (ms_ranges s)")
    case None
    then show ?thesis using assms(3) other by (auto simp: update_offloaded_offset_def Let_def)
  next
    case (Some mo)
    obtain m off0 where mo: "mo = (m, off0)" by fastforce
    show ?thesis using assms(3) Some move_start_fresh [OF wf, of i m off0 j] other [of j] unfolding mo
      by (auto simp: update_offloaded_offset_def Let_def)
  qed
qed

lemma stream_at_fresh: "fresh streams \<Longrightarrow> fresh_at (stream_at streams sid) i"
  by (auto simp: fresh_def stream_at_def split: option.splits)

lemma fresh_upd: "fresh streams \<Longrightarrow> \<forall>i. fresh_at s i \<Longrightarrow> fresh (streams(sid \<mapsto> s))"
  by (simp add: fresh_def)

lemma stream_event_fresh:
  assumes "ev_resource ev = ResourceStream m" and "streams_wf streams" and "fresh streams" and "handle_event server_id ev streams = Ok (streams', es)"
  shows "fresh streams'"
proof (cases "announces (ev_type ev) \<and> streams (sm_stream_id m) \<noteq> None")
  case True
  then obtain s where s: "streams (sm_stream_id m) = Some s" by blast
  then obtain s' where u: "update_stream m s = Ok (s', es)" "streams' = streams(sm_stream_id m \<mapsto> s')"
    using True assms(1,4) by (auto simp: handle_event_def Let_def fmap_ok_eq_Ok)
  have wf: "stream_wf (sm_stream_id m) (s\<lparr>ms_metadata := Some m\<rparr>)" using assms(2) s by (simp add: streams_wf_def stream_wf_def)
  have "fresh_at (s\<lparr>ms_metadata := Some m\<rparr>) i" if "i \<notin> set (map fst (ms_ranges s))" for i
    using that bt_get_None_iff [of i "ms_ranges s"] by (simp add: fresh_at_def)
  then have "fresh_at s' j" for j using update_ranges_fresh [OF wf u(1) [unfolded update_stream_def]] by blast
  then show ?thesis using u(2) fresh_upd [OF assms(3)] by blast
next
  case False
  then show ?thesis using assms(1,3,4) by (auto simp: handle_event_def Let_def fresh_def split: if_splits)
qed

lemma handle_event_fresh:
  assumes "streams_wf streams" and "fresh streams" and "handle_event server_id ev streams = Ok (streams', es)"
  shows "fresh streams'"
proof (cases "ev_resource ev")
  case (ResourceStream m)
  then show ?thesis by (rule stream_event_fresh [OF _ assms])
next
  case (ResourceRange m)
  let ?s = "stream_at streams (rm_stream_id m)"
  have f: "\<forall>i. fresh_at ?s i" using stream_at_fresh [OF assms(2)] by blast
  have add: "\<forall>j. fresh_at s' j" if "ms_add m ?s = (s', e)" for s' e using ms_add_fresh [OF stream_at_wf [OF assms(1)] f that] by blast
  have del: "\<forall>j. fresh_at s' j" if "ms_del m ?s = (s', e)" for s' e using ms_del_fresh [OF f that] by blast
  have "streams' = streams \<or> (\<exists>s'. streams' = streams(rm_stream_id m \<mapsto> s') \<and> (\<forall>j. fresh_at s' j))"
    using assms(3) ResourceRange f add del
    by (cases "ms_add m ?s"; cases "ms_del m ?s") (auto simp: handle_event_def Let_def stream_at_def [symmetric] split: if_splits)
  then show ?thesis using assms(2) fresh_upd by blast
qed (use assms(2,3) in \<open>auto simp: handle_event_def\<close>)

lemma progress_events_fresh:
  "streams_wf streams \<Longrightarrow> fresh streams \<Longrightarrow> progress_events ps streams = (streams', es) \<Longrightarrow> fresh streams'"
proof (induction ps arbitrary: streams es)
  case (Cons p ps)
  obtain sid i off where p: "p = ((sid, i), off)" by (cases p) auto
  obtain s e where u: "update_offloaded_offset i off (stream_at streams sid) = (s, e)" by fastforce
  obtain es1 where q: "progress_events ps (streams(sid \<mapsto> s)) = (streams', es1)"
    using Cons(4) u unfolding p by (auto simp: stream_at_def [symmetric] split: prod.splits)
  note wf = stream_at_wf [OF Cons(2), of sid]
  have "streams_wf (streams(sid \<mapsto> s))"
    using streams_carry_upd [OF Cons(2) update_offloaded_carries [OF u wf]] unfolding streams_carry_def by blast
  moreover have "fresh (streams(sid \<mapsto> s))"
    using fresh_upd [OF Cons(3)] update_offloaded_fresh [OF wf _ u] stream_at_fresh [OF Cons(3)] by blast
  ultimately show ?case using Cons(1) [OF _ _ q] by blast
qed simp

lemma on_resource_streams:
  "on_resource ev mm = Ok mm' \<Longrightarrow>
    mm_streams mm' = mm_streams mm \<or> (\<exists>es. handle_event (mm_server_id mm) ev (mm_streams mm) = Ok (mm_streams mm', es))"
  by (auto simp: on_resource_def deliver_events_def Let_def fmap_ok_eq_Ok split: if_splits prod.splits)

lemma on_progress_streams: "mm_streams (on_progress ps mm) = fst (progress_events ps (mm_streams mm))"
  by (simp add: on_progress_def Let_def split: prod.split)

lemma mm_run_fresh: "mm_run server_id n h mm \<Longrightarrow> fresh (mm_streams mm)"
proof (induction rule: mm_run.induct)
  case (start mm)
  then show ?case unfolding watch_listeners by (auto simp: mm_start_def mm_new_def fresh_def)
next
  case (resource h mm ev mm')
  have "streams_wf (mm_streams mm)" using mm_run_inv [OF resource(1)] by (simp add: mm_inv_def)
  then show ?case using on_resource_streams [OF resource(3)] handle_event_fresh [OF _ resource(4)] resource(4) by auto
next
  case (progress h mm ps)
  have "streams_wf (mm_streams mm)" using mm_run_inv [OF progress(1)] by (simp add: mm_inv_def)
  then show ?case unfolding on_progress_streams using progress_events_fresh [OF _ progress(3)] by (metis prod.collapse)
qed simp_all

section \<open>A run with one range\<close>

definition listed_range :: range_metadata where
  "listed_range = (rm_new 7 0 0 10 (Some 50))\<lparr>rm_replica := [\<lparr>rs_server_id = 1, rs_advertise_address = ''a'', rs_state = StateReadWrite\<rparr>]\<rparr>"

definition sample_history :: "md_input list" where
  "sample_history = [ResourceIn \<lparr>ev_type = Listed, ev_resource = ResourceRange listed_range\<rparr>, ResourceIn ev_list_finished, ProgressIn [((7, 0), 60)]]"

lemmas run_simps = on_resource_def deliver_events_def handle_event_def announces_def held_by_def notify_listeners_def ev_list_finished_def
  mm_start_def mm_new_def ch_new_def ms_new_def ms_add_def new_start_offset_def stream_start_offset_def gen_event_def on_progress_def
  update_offloaded_offset_def listed_range_def rm_new_def rm_new_range_def bt_get_def bt_empty_def Let_def

lemma int_as_u32_0: "int_as_u32 0 = 0"
  by (simp add: to_unsigned_def)

lemma sample_run:
  "\<exists>mm s m off. mm_run 1 1 sample_history mm \<and> ch_received (mm_channels mm 0) = [[OffsetMove (7, 0) 10], [Offloaded (7, 0)]]
     \<and> \<not> ch_closed (mm_channels mm 0) \<and> mm_list_done mm \<and> mm_streams mm 7 = Some s \<and> bt_get 0 (ms_ranges s) = Some (m, off)"
proof -
  obtain mm0 where m0: "mm_start ((mm_watch ^^ 1) (mm_new True 1)) = Ok mm0" "mm_running mm0" unfolding watch_listeners by (simp add: mm_start_def mm_new_def)
  let ?e = "\<lparr>ev_type = Listed, ev_resource = ResourceRange listed_range\<rparr>"
  obtain mm1 where m1: "on_resource ?e mm0 = Ok mm1" "mm_running mm1"
    using m0 unfolding watch_listeners by (auto simp: run_simps int_as_u32_0)
  obtain mm2 where m2: "on_resource ev_list_finished mm1 = Ok mm2" "mm_started mm2"
    using m0 m1 unfolding watch_listeners by (auto simp: run_simps int_as_u32_0)
  have r: "mm_run 1 1 sample_history (on_progress [((7, 0), 60)] mm2)"
    using mm_run.progress [OF mm_run.resource [OF mm_run.resource [OF mm_run.start [OF m0(1)] m0(2) m1(1)] m1(2) m2(1)] m2(2), of "[((7, 0), 60)]"]
    by (simp add: sample_history_def)
  show ?thesis using r m0 m1 m2 unfolding watch_listeners
    by (intro exI [of _ "on_progress [((7, 0), 60)] mm2"]) (auto simp: run_simps int_as_u32_0)
qed

section \<open>Properties\<close>

text \<open>
  C10. Nothing is announced as deletable without a reason. Whatever the order of metadata events,
  reports of progress, and receivers that go away: an offset a listener is told is zero, the
  start of the stream or of the range as the placement driver announced it, or an offset up to
  which the range was reported as offloaded; a range is called offloaded only after progress to its
  announced end was reported, and deleted only after it or its stream was announced as deleted.
\<close>

theorem announced_is_justified:
  assumes "mm_run server_id n h mm" and "batch \<in> set (ch_received (mm_channels mm c))" and "e \<in> set batch"
  shows "justified h e"
  using mm_run_sent [OF assms(1)] assms(2,3) unfolding sent_ok_def by blast

theorem announced_is_justified_witness:
  "\<exists>mm. mm_run 1 1 sample_history mm \<and> [Offloaded (7, 0)] \<in> set (ch_received (mm_channels mm 0)) \<and> justified sample_history (Offloaded (7, 0))"
proof -
  obtain mm where r: "mm_run 1 1 sample_history mm" "ch_received (mm_channels mm 0) = [[OffsetMove (7, 0) 10], [Offloaded (7, 0)]]"
    using sample_run by blast
  with announced_is_justified [OF r(1), of "[Offloaded (7, 0)]" 0 "Offloaded (7, 0)"] show ?thesis by auto
qed

text \<open>
  C11. Listeners are up to date. Once the list of the placement driver is complete, the last event
  about a range the server holds that a listener with an open channel got describes the state of the range:
  whether it is offloaded, and otherwise the offset the manager keeps, which is never behind the
  start of the stream, the start of the range and the progress of the offload. No event
  between the buffer and the two tasks is lost or overtaken.
\<close>

theorem listeners_are_current:
  assumes "mm_run server_id n h mm" and "c < n" and "\<not> ch_closed (mm_channels mm c)" and "mm_list_done mm"
    and "mm_streams mm sid = Some s" and "bt_get i (ms_ranges s) = Some (m, off)"
  shows "last_about (sid, i) (concat (ch_received (mm_channels mm c))) = Some (gen_event (sid, i) (rm_end m) (bt_get i (ms_offloaded s)) off)
    \<and> new_start_offset i s \<le> off"
proof
  have inv: "listener_ok mm c" "stream_wf sid s" using mm_run_inv [OF assms(1)] assms(2-5) by (auto simp: mm_inv_def streams_wf_def)
  then have "tells (concat (ch_received (mm_channels mm c))) (mm_streams mm)" using assms(4) by (auto simp: listener_ok_def)
  moreover have "status s i = Some (gen_event (sid, i) (rm_end m) (bt_get i (ms_offloaded s)) off)"
    using assms(6) inv(2) by (simp add: status_def stream_wf_def)
  ultimately show "last_about (sid, i) (concat (ch_received (mm_channels mm c))) = Some (gen_event (sid, i) (rm_end m) (bt_get i (ms_offloaded s)) off)"
    using assms(5) unfolding tells_def by blast
  show "new_start_offset i s \<le> off" using mm_run_fresh [OF assms(1)] assms(5,6) unfolding fresh_def fresh_at_def by blast
qed

theorem listeners_are_current_witness:
  "\<exists>mm s m off. mm_run 1 1 sample_history mm \<and> mm_streams mm 7 = Some s \<and> bt_get 0 (ms_ranges s) = Some (m, off)
     \<and> last_about (7, 0) (concat (ch_received (mm_channels mm 0))) = Some (gen_event (7, 0) (rm_end m) (bt_get 0 (ms_offloaded s)) off)"
proof -
  obtain mm s m off where r: "mm_run 1 1 sample_history mm" "\<not> ch_closed (mm_channels mm 0)" "mm_list_done mm" "mm_streams mm 7 = Some s"
    "bt_get 0 (ms_ranges s) = Some (m, off)" using sample_run by blast
  with listeners_are_current [OF r(1) _ r(2-5)] show ?thesis by auto
qed

end
