(* ===== verification/Spec2Isabelle.thy ===== *)
theory Spec2Isabelle
  imports Write_Window Wal_Lifecycle Range_Handlers Object_Storage Stream_Manager Index_Driver Metadata_Manager
begin

text \<open>
  A verification development for the Rust part of Elastic Stream, a storage service for streams of
  record batches. A stream is a sequence of ranges, a range is kept by several range servers, and a
  placement driver (written in Go) assigns ranges to servers.

  \<^bold>\<open>The program.\<close> A client appends through \<open>src/components/replication/\<close>: the stream manager holds the
  open streams of a thread, a replication stream orders the appends and opens a new range when the
  last one is sealed, a replication range sends every batch to its replicas and confirms it once
  enough of them have acknowledged. Reads go through the hot cache, the block cache with readahead
  and the object stream, which completes what the range servers no longer hold from objects. A
  range server (\<open>src/range-server/\<close>) decodes the frames of \<open>src/components/codec/\<close>, runs the handlers on
  its range manager and writes to the store (\<open>src/components/store/\<close>): a buffer sorts the appends of a
  range, the write-ahead log puts them into segment files through aligned buffers, a write window
  tells how far the log is durable. \<open>src/components/object-storage/\<close> moves ranges to an object store.

  \<^bold>\<open>Conventions.\<close> The release build checks overflow and aborts on a panic, so arithmetic that leaves its
  type is the value \<open>Panic\<close> of \<open>outcome\<close> (\<open>Prelude\<close>); \<open>as\<close> casts truncate (\<open>Prelude\<close>, \<open>Int_Cast\<close>). Unsigned
  integers are natural numbers named by their width, bytes are 8-bit words. An ordered map of the
  standard library is a sorted association list (\<open>BTree_Map\<close>, with the locale \<open>ordered_map\<close> of its
  laws). Code that is not in the repository is an argument: the FlatBuffers tables (\<open>fb_meta\<close>), the
  checksum crate, the skip list and the LRU crates and RocksDB with their documented laws, the answers of the
  operating system, of the object store, of the placement driver and of other servers, and readings
  of the clock. Asynchronous code is a function for each part between two points where it waits,
  and step relations run these parts in any order.

  \<^bold>\<open>Theories, sources and results.\<close>
  \<^item> \<open>Prelude\<close>, \<open>Int_Cast\<close>, \<open>Byte_Reader\<close>, \<open>BTree_Map\<close>: the shared library.
  \<^item> \<open>Frame_Codec\<close> (\<open>codec/src/frame.rs\<close>): encoding, checking and parsing of frames; an encoded frame
    passes the check and parses to itself.
  \<^item> \<open>Record_Batch\<close> (\<open>model/src/record\<close>, \<open>payload.rs\<close>), \<open>Object_Metadata\<close>, \<open>Metadata\<close>, \<open>Rpc\<close> (rest of \<open>model/src\<close>):
    layouts and wire tables with their round trips.
  \<^item> \<open>Store_Error\<close>, \<open>Aligned_Buf\<close>, \<open>Buf_Writer\<close>, \<open>Wal_Record\<close>, \<open>Crc32\<close>, \<open>Block_Cache\<close>, \<open>Log_Segment\<close>,
    \<open>Write_Window\<close>, \<open>Index_Record\<close> (\<open>store/src/io\<close>, \<open>store/src/index/record.rs\<close>): what is written is what is reserved,
    the committed offset is the first gap, hits and misses of the cache, the image of an appended
    record, the order of index keys.
  \<^item> \<open>Indexer\<close>, \<open>Watermark\<close>, \<open>Index_Driver\<close> (\<open>store/src/index\<close>, \<open>store/src/watermark\<close>): the index of batches and ranges on
    RocksDB, its compaction filters, the watermarks of the log and the thread that runs their
    commands. A scan is specified in full, what is indexed is found, ranges are listed as stored, and
    the high watermark of a range never runs ahead of what was offloaded. The locale \<open>wal_scanner\<close> is
    what the watermarks ask of the index. Two defects are proved: a scan from inside the last batch
    finds nothing, and a trim inside a sealed range does not return.
  \<^item> \<open>Wal\<close>, \<open>Wal_Control\<close>, \<open>Wal_Lifecycle\<close> (\<open>store/src/io/wal.rs\<close>): loading and recovery, opening, closing and
    expiry of segments as a step relation with its invariant; a segment reaches read-write.
  \<^item> \<open>Store_Buffer\<close> (\<open>store/src/store/buffer\<close>): the buffer refines sorting by offset.
  \<^item> \<open>Range_Manager\<close>, \<open>Range_Handlers\<close> (\<open>range-server/src\<close>): windows, ranges, streams and all commands; what is
    committed was written, sealing is final, and an append frame commits its batches.
  \<^item> \<open>Metadata_Manager\<close> (\<open>range-server/src/metadata\<close>): the events of the placement driver and of the offload become
    events about deletable data, in two tasks that take turns; every announcement is justified, and
    listeners are up to date.
  \<^item> \<open>Object_Manager\<close>, \<open>Range_Offload\<close>, \<open>Range_Accumulator\<close>, \<open>Object_Storage\<close> (\<open>object-storage/src\<close>): continuous
    objects, sparse indexes, flushes that offload everything and the accounting of cached bytes.
  \<^item> \<open>Records_Block\<close>, \<open>Hot_Cache\<close>, \<open>Readahead_Cache\<close> (\<open>replication/src/stream/records_block.rs\<close>, \<open>cache.rs\<close>): parsing of
    fetched bytes, accounting, runs of records without gaps, bounds of the readahead.
  \<^item> \<open>Replication_Replica\<close>, \<open>Replication_Range\<close>, \<open>Replication_Stream\<close>: the write path. A confirmed offset survives
    every seal a quorum takes part in, and no order of appends, acknowledgements, seals and task
    rounds makes the append task panic or answer a request that is not confirmed.
  \<^item> \<open>Object_Stream\<close>, \<open>Cache_Stream\<close>, \<open>Stream_Manager\<close>: the read path and the whole client; a client reads what
    it wrote, and streams stay filed under their ids.

  \<^bold>\<open>Loops.\<close> Loops over data are recursive functions with termination proofs. Loops that end only if the
  other side makes progress (the object stream, the caches over a foreign LRU, the search for
  continuous objects) are partial functions into \<open>option\<close>; the properties that need a result prove that
  there is one. Retries against other servers take the list of the answers they get, and have no
  result while they wait for more; there is no fuel that cuts a loop short.

  \<^bold>\<open>Not modelled.\<close> The io_uring event loop (\<open>store/src/io/uring.rs\<close>), which interleaves the completions of kernel
  requests with the modelled parts of the log, and of \<open>wal.rs\<close> the
  blocking wait for control tasks and the opening of segments that only tests use. The store that joins
  the threads of log and index (\<open>elastic_store.rs\<close>), so no property spans a write to the log and its
  entry in the index. The cached store with its hierarchical cache. Opening and tuning RocksDB, and
  the channels and the shutdown of the index thread. Client sessions, transport, the client of the
  placement driver, workers and timers, which are network and task scheduling. Configuration, observation, allocation
  and metrics. The generated protocol code, the mock server, the tools, the language bindings and
  the placement driver in Go.
\<close>

end
